(* ===== verification/Prelude.thy ===== *)
theory Prelude
  imports Main "HOL-Library.Signed_Division" "HOL-Library.Monad_Syntax"
begin

text \<open>
  What the components of the model share: the error codes of \<^verbatim>\<open>src/src/err.h\<close>, the
  integers of C (range, wrap-around, truncating division), the weekday masks, and the
  generic lemmas on arrays and sorted lists.

  C's \<open>int\<close> is modelled by the mathematical integers.  Where the code can overflow, the
  model writes the overflow out with \<open>cint\<close>, or the properties bound the values.
  A result of type \<open>'a option\<close> whose \<open>None\<close> has no counterpart in the source stands for a
  run without a defined result: a loop that does not end, or an operation that C leaves
  undefined (a shift by a negative count, a read outside an array).
\<close>

named_theorems c_arith \<open>C integer operations reduced to HOL's\<close>

section \<open>Error codes\<close>

text \<open>
  The codes that functions of the model return; those of \<^verbatim>\<open>err.h\<close> that only select a message,
  and those of files and processes, are left out.
\<close>

datatype (plugins only: size) errcode =
    E_MISS_END | E_MISS_QUOTE | E_MISS_RIGHT_PAREN | E_UNDEF_FUNC | E_ILLEGAL_CHAR | E_NO_MEM
  | E_BAD_NUMBER | E_POPV_NO_PUSH | E_CANT_COERCE | E_BAD_TYPE | E_DATE_OVER | E_POPF_NO_PUSH
  | E_DIV_ZERO | E_NOSUCH_VAR | E_EOLN | E_SWERR | E_BAD_DATE | E_2FEW_ARGS | E_2MANY_ARGS
  | E_BAD_TIME | E_2HIGH | E_2LOW | E_PARSE_ERR | E_CANT_TRIG | E_NESTED_IF | E_ELSE_NO_IF
  | E_ENDIF_NO_IF | E_2MANY_LOCALOMIT | E_EXTRANEOUS_TOKEN | E_POP_NO_PUSH | E_RUN_DISABLED
  | E_DOMAIN_ERR | E_BAD_ID | E_RECURSIVE | E_PARSE_AS_REM | E_CANT_MODIFY
  | E_REDEF_BUILTIN_FUNC | E_REP_FULSPEC | E_YR_TWICE | E_MON_TWICE | E_DAY_TWICE
  | E_UNKNOWN_TOKEN | E_SPEC_MON | E_TODO_TWICE | E_2MANY_FULL | E_EXPECTING_EOL | E_BAD_HEBDATE
  | E_IIF_ODD | E_EXPECT_COMMA | E_WD_TWICE | E_SKIP_ERR | E_CANT_NEST_RTYPE | E_REP_TWICE
  | E_DELTA_TWICE | E_BACK_TWICE | E_ONCE_TWICE | E_EXPECT_TIME | E_UNTIL_TWICE | E_INCOMPLETE
  | E_SCAN_TWICE | E_EXPIRED | E_MISS_EQ | E_MISS_VAR | E_MISS_EXPR | E_COMPLETE_THROUGH_TWICE
  | E_EXPECTING_NUMBER | E_STRING_TOO_LONG | E_TIME_TWICE | E_DURATION_NO_AT
  | E_EXPECTING_WEEKDAY | E_REPEATED_ARG | E_EXPR_DISABLED | E_TIME_EXCEEDED
  | E_COMPLETE_WITHOUT_TODO | E_MAX_OVERDUE_TWICE | E_MAX_OVERDUE_WITHOUT_TODO
  | E_TZ_SPECIFIED_TWICE | E_TZ_NO_AT | E_EXPR_NODES_EXCEEDED | E_EXPECTING_EOXPR
  | E_EXPECTING_ATOM | E_BAD_VAL_FOR_SYSVAR | E_LINE_TOO_LONG | E_OP_STK_OVER
  | E_CANT_PARSE_MONTH | E_CANT_PARSE_WKDAY | E_EOF | E_NESTED_INCLUDE | E_MKTIME_PROBLEM
  | E_CANTNEST_FDEF | E_CANT_CONVERT_TZ | E_BAD_MB_SEQ | E_UNSET_BUILTIN_FUNC
  | E_PUSH_BUILTIN_FUNC | E_NO_MATCHING_REMS

text \<open>The numbers of the codes: \<open>token_error\<close> stores them, negated, in a token.\<close>

primrec errnum :: "errcode \<Rightarrow> int" where
  "errnum E_MISS_END = 1" | "errnum E_MISS_QUOTE = 2" | "errnum E_MISS_RIGHT_PAREN = 5"
| "errnum E_UNDEF_FUNC = 6" | "errnum E_ILLEGAL_CHAR = 7" | "errnum E_NO_MEM = 9"
| "errnum E_BAD_NUMBER = 10" | "errnum E_POPV_NO_PUSH = 12" | "errnum E_CANT_COERCE = 13"
| "errnum E_BAD_TYPE = 14" | "errnum E_DATE_OVER = 15" | "errnum E_POPF_NO_PUSH = 16"
| "errnum E_DIV_ZERO = 17" | "errnum E_NOSUCH_VAR = 18" | "errnum E_EOLN = 19"
| "errnum E_SWERR = 23" | "errnum E_BAD_DATE = 24" | "errnum E_2FEW_ARGS = 25"
| "errnum E_2MANY_ARGS = 26" | "errnum E_BAD_TIME = 27" | "errnum E_2HIGH = 28"
| "errnum E_2LOW = 29" | "errnum E_PARSE_ERR = 32" | "errnum E_CANT_TRIG = 33"
| "errnum E_NESTED_IF = 34" | "errnum E_ELSE_NO_IF = 35" | "errnum E_ENDIF_NO_IF = 36"
| "errnum E_2MANY_LOCALOMIT = 37" | "errnum E_EXTRANEOUS_TOKEN = 38"
| "errnum E_POP_NO_PUSH = 39" | "errnum E_RUN_DISABLED = 40" | "errnum E_DOMAIN_ERR = 41"
| "errnum E_BAD_ID = 42" | "errnum E_RECURSIVE = 43" | "errnum E_PARSE_AS_REM = 44"
| "errnum E_CANT_MODIFY = 45" | "errnum E_REDEF_BUILTIN_FUNC = 47" | "errnum E_REP_FULSPEC = 49"
| "errnum E_YR_TWICE = 50" | "errnum E_MON_TWICE = 51" | "errnum E_DAY_TWICE = 52"
| "errnum E_UNKNOWN_TOKEN = 53" | "errnum E_SPEC_MON = 54" | "errnum E_TODO_TWICE = 55"
| "errnum E_2MANY_FULL = 56" | "errnum E_EXPECTING_EOL = 59" | "errnum E_BAD_HEBDATE = 60"
| "errnum E_IIF_ODD = 61" | "errnum E_EXPECT_COMMA = 63" | "errnum E_WD_TWICE = 64"
| "errnum E_SKIP_ERR = 65" | "errnum E_CANT_NEST_RTYPE = 66" | "errnum E_REP_TWICE = 67"
| "errnum E_DELTA_TWICE = 68" | "errnum E_BACK_TWICE = 69" | "errnum E_ONCE_TWICE = 70"
| "errnum E_EXPECT_TIME = 71" | "errnum E_UNTIL_TWICE = 72" | "errnum E_INCOMPLETE = 73"
| "errnum E_SCAN_TWICE = 74" | "errnum E_EXPIRED = 80" | "errnum E_MISS_EQ = 90"
| "errnum E_MISS_VAR = 91" | "errnum E_MISS_EXPR = 92" | "errnum E_COMPLETE_THROUGH_TWICE = 93"
| "errnum E_EXPECTING_NUMBER = 97" | "errnum E_STRING_TOO_LONG = 101"
| "errnum E_TIME_TWICE = 102" | "errnum E_DURATION_NO_AT = 103"
| "errnum E_EXPECTING_WEEKDAY = 104" | "errnum E_REPEATED_ARG = 105"
| "errnum E_EXPR_DISABLED = 106" | "errnum E_TIME_EXCEEDED = 107"
| "errnum E_COMPLETE_WITHOUT_TODO = 108" | "errnum E_MAX_OVERDUE_TWICE = 109"
| "errnum E_MAX_OVERDUE_WITHOUT_TODO = 110" | "errnum E_TZ_SPECIFIED_TWICE = 111"
| "errnum E_TZ_NO_AT = 112" | "errnum E_EXPR_NODES_EXCEEDED = 114"
| "errnum E_EXPECTING_EOXPR = 115" | "errnum E_EXPECTING_ATOM = 116"
| "errnum E_BAD_VAL_FOR_SYSVAR = 117" | "errnum E_LINE_TOO_LONG = 121"
| "errnum E_OP_STK_OVER = 3"
| "errnum E_CANT_PARSE_MONTH = 4"
| "errnum E_CANT_PARSE_WKDAY = 8"
| "errnum E_EOF = 20"
| "errnum E_NESTED_INCLUDE = 31"
| "errnum E_MKTIME_PROBLEM = 46"
| "errnum E_CANTNEST_FDEF = 48"
| "errnum E_CANT_CONVERT_TZ = 99"
| "errnum E_BAD_MB_SEQ = 113"
| "errnum E_UNSET_BUILTIN_FUNC = 118"
| "errnum E_PUSH_BUILTIN_FUNC = 119"
| "errnum E_NO_MATCHING_REMS = 100"

text \<open>The code a number stands for; 0 is \<open>OK\<close>, no error.\<close>

definition errcodes :: "errcode list" where
  "errcodes =
    [E_MISS_END, E_MISS_QUOTE, E_MISS_RIGHT_PAREN, E_UNDEF_FUNC, E_ILLEGAL_CHAR, E_NO_MEM,
     E_BAD_NUMBER, E_POPV_NO_PUSH, E_CANT_COERCE, E_BAD_TYPE, E_DATE_OVER, E_POPF_NO_PUSH,
     E_DIV_ZERO, E_NOSUCH_VAR, E_EOLN, E_SWERR, E_BAD_DATE, E_2FEW_ARGS, E_2MANY_ARGS,
     E_BAD_TIME, E_2HIGH, E_2LOW, E_PARSE_ERR, E_CANT_TRIG, E_NESTED_IF, E_ELSE_NO_IF,
     E_ENDIF_NO_IF, E_2MANY_LOCALOMIT, E_EXTRANEOUS_TOKEN, E_POP_NO_PUSH, E_RUN_DISABLED,
     E_DOMAIN_ERR, E_BAD_ID, E_RECURSIVE, E_PARSE_AS_REM, E_CANT_MODIFY, E_REDEF_BUILTIN_FUNC,
     E_REP_FULSPEC, E_YR_TWICE, E_MON_TWICE, E_DAY_TWICE, E_UNKNOWN_TOKEN, E_SPEC_MON,
     E_TODO_TWICE, E_2MANY_FULL, E_EXPECTING_EOL, E_BAD_HEBDATE, E_IIF_ODD, E_EXPECT_COMMA,
     E_WD_TWICE, E_SKIP_ERR, E_CANT_NEST_RTYPE, E_REP_TWICE, E_DELTA_TWICE, E_BACK_TWICE,
     E_ONCE_TWICE, E_EXPECT_TIME, E_UNTIL_TWICE, E_INCOMPLETE, E_SCAN_TWICE, E_EXPIRED,
     E_MISS_EQ, E_MISS_VAR, E_MISS_EXPR, E_COMPLETE_THROUGH_TWICE, E_EXPECTING_NUMBER,
     E_STRING_TOO_LONG, E_TIME_TWICE, E_DURATION_NO_AT, E_EXPECTING_WEEKDAY, E_REPEATED_ARG,
     E_EXPR_DISABLED, E_TIME_EXCEEDED, E_COMPLETE_WITHOUT_TODO, E_MAX_OVERDUE_TWICE,
     E_MAX_OVERDUE_WITHOUT_TODO, E_TZ_SPECIFIED_TWICE, E_TZ_NO_AT, E_EXPR_NODES_EXCEEDED,
     E_EXPECTING_EOXPR, E_EXPECTING_ATOM, E_BAD_VAL_FOR_SYSVAR, E_LINE_TOO_LONG,
     E_OP_STK_OVER, E_CANT_PARSE_MONTH, E_CANT_PARSE_WKDAY, E_EOF, E_NESTED_INCLUDE,
     E_MKTIME_PROBLEM, E_CANTNEST_FDEF, E_CANT_CONVERT_TZ, E_BAD_MB_SEQ, E_UNSET_BUILTIN_FUNC,
     E_PUSH_BUILTIN_FUNC, E_NO_MATCHING_REMS]"

definition errcode_of :: "int \<Rightarrow> errcode option" where
  "errcode_of n = List.find (\<lambda>e. errnum e = n) errcodes"

lemma errcode_of_errnum [simp]: "errcode_of (errnum e) = Some e"
  by (cases e) (simp_all add: errcode_of_def errcodes_def)

lemma errnum_pos: "0 < errnum e"
  by (cases e) simp_all

section \<open>C integers\<close>

abbreviation (input) INT_MAX :: int where "INT_MAX \<equiv> 2147483647"
abbreviation (input) INT_MIN :: int where "INT_MIN \<equiv> - 2147483648"

definition in_int :: "int \<Rightarrow> bool" where
  "in_int x \<longleftrightarrow> INT_MIN \<le> x \<and> x \<le> INT_MAX"

text \<open>The two's complement value a 32-bit register holds after an operation.\<close>

definition cint :: "int \<Rightarrow> int" where
  "cint x = (x + 2147483648) mod 4294967296 - 2147483648"

lemma cint_in_int: "in_int (cint x)"
  by (simp add: in_int_def cint_def)

lemma cint_id [c_arith]: "in_int x \<Longrightarrow> cint x = x"
  by (simp add: in_int_def cint_def)

text \<open>C's division truncates; on the non-negative numbers it is \<open>div\<close> and \<open>mod\<close>.\<close>

lemma sdiv_nonneg [c_arith]: "0 \<le> (a::int) \<Longrightarrow> 0 \<le> b \<Longrightarrow> a sdiv b = a div b"
  by (cases "b = 0") (auto simp: signed_divide_int_def sgn_if)

lemma smod_nonneg [c_arith]: "0 \<le> (a::int) \<Longrightarrow> 0 \<le> b \<Longrightarrow> a smod b = a mod b"
  by (auto simp: signed_modulo_int_def sgn_if)

lemma smod_eq_0_iff_dvd [c_arith]: "(a::int) smod b = 0 \<longleftrightarrow> b dvd a"
  by (auto simp: signed_modulo_int_def dvd_eq_mod_eq_0 [symmetric] sgn_if)

lemma div_pred: "0 < k \<Longrightarrow> (y::int) div k - (y - 1) div k = of_bool (k dvd y)"
proof -
  assume k: "0 < k"
  let ?q = "y div k" and ?r = "y mod k"
  have y: "y = k * ?q + ?r" and r: "0 \<le> ?r" "?r < k" using k by simp_all
  show ?thesis
  proof (cases "?r = 0")
    case True
    with y have "y - 1 = k * (?q - 1) + (k - 1)" by (simp add: algebra_simps)
    then have "(y - 1) div k = ?q - 1" using k by (intro int_div_pos_eq [of _ _ _ "k - 1"]) auto
    with True show ?thesis by (auto simp: dvd_eq_mod_eq_0)
  next
    case False
    with y r have "y - 1 = k * ?q + (?r - 1)" "0 \<le> ?r - 1" "?r - 1 < k" by linarith+
    then have "(y - 1) div k = ?q" by (rule int_div_pos_eq)
    with False show ?thesis by (auto simp: dvd_eq_mod_eq_0)
  qed
qed

section \<open>Day numbers and calendars\<close>

text \<open>
  The interface between the code that counts days and the calendars it converts to and
  from: \<open>dec\<close> reads a day number of the domain \<open>dom\<close> as a date, \<open>enc\<close> numbers a valid
  date.  The Gregorian and the Hebrew calendar both provide it.
\<close>

locale day_codec =
  fixes enc :: "'d \<Rightarrow> int" and dec :: "int \<Rightarrow> 'd"
    and valid :: "'d \<Rightarrow> bool" and in_range :: "int \<Rightarrow> bool"
  assumes dec_valid: "in_range n \<Longrightarrow> valid (dec n)"
    and enc_dec: "in_range n \<Longrightarrow> enc (dec n) = n"
    and enc_range: "valid x \<Longrightarrow> in_range (enc x)"
    and dec_enc: "valid x \<Longrightarrow> dec (enc x) = x"
begin

lemma enc_inj: "valid x \<Longrightarrow> valid y \<Longrightarrow> enc x = enc y \<longleftrightarrow> x = y"
  by (metis dec_enc)

lemma dec_inj: "in_range m \<Longrightarrow> in_range n \<Longrightarrow> dec m = dec n \<longleftrightarrow> m = n"
  by (metis enc_dec)

lemma dec_eq_iff: "in_range n \<Longrightarrow> valid x \<Longrightarrow> dec n = x \<longleftrightarrow> n = enc x"
  by (metis dec_enc enc_dec)

lemma dec_bij: "bij_betw dec (Collect in_range) (Collect valid)"
  by (rule bij_betw_byWitness [where f' = enc])
    (auto simp: dec_valid enc_dec enc_range dec_enc)

end

section \<open>Binary search\<close>

text \<open>
  The loop that the token table, the omit arrays and other sorted tables of the program
  are searched with: \<open>c i\<close> is the comparison of the \<open>i\<close>th entry with what is sought.
\<close>

lemma mid_between:
  assumes "lo \<le> (hi::int)"
  shows "lo \<le> (hi + lo) sdiv 2" "(hi + lo) sdiv 2 \<le> hi"
  using assms by (auto simp: signed_divide_int_eq_divide_int split: if_splits; presburger)+

function bsearch :: "(int \<Rightarrow> int) \<Rightarrow> int \<Rightarrow> int \<Rightarrow> int option" where
  "bsearch c lo hi =
    (if hi \<ge> lo then
       let mid = (hi + lo) sdiv 2 in
       if c mid = 0 then Some mid
       else if c mid > 0 then bsearch c lo (mid - 1)
       else bsearch c (mid + 1) hi
     else None)"
  by pat_completeness auto
termination
proof (relation "measure (\<lambda>(c, lo, hi). nat (hi - lo + 1))")
  fix c :: "int \<Rightarrow> int" and lo hi mid :: int
  assume "lo \<le> hi" "mid = (hi + lo) sdiv 2"
  then show "((c, lo, mid - 1), c, lo, hi) \<in> measure (\<lambda>(c, lo, hi). nat (hi - lo + 1))"
    "((c, mid + 1, hi), c, lo, hi) \<in> measure (\<lambda>(c, lo, hi). nat (hi - lo + 1))"
    using mid_between [of lo hi] by auto
qed simp

declare bsearch.simps [simp del]

lemma bsearch_sound: "bsearch c lo hi = Some i \<Longrightarrow> c i = 0 \<and> lo \<le> i \<and> i \<le> hi"
proof (induction c lo hi rule: bsearch.induct)
  case (1 c lo hi)
  let ?mid = "(hi + lo) sdiv 2"
  have le: "lo \<le> hi" using 1(3) by (auto simp: bsearch.simps [of c lo hi] split: if_splits)
  note mid = mid_between [OF le]
  consider (hit) "c ?mid = 0" | (left) "c ?mid > 0" | (right) "c ?mid < 0" by linarith
  then show ?case
  proof cases
    case hit
    then show ?thesis using 1(3) le mid by (simp add: bsearch.simps [of c lo hi])
  next
    case left
    then have "bsearch c lo (?mid - 1) = Some i"
      using 1(3) le by (simp add: bsearch.simps [of c lo hi])
    then show ?thesis using 1(1) [OF le refl] left mid by simp
  next
    case right
    then have "bsearch c (?mid + 1) hi = Some i"
      using 1(3) le by (simp add: bsearch.simps [of c lo hi])
    then show ?thesis using 1(2) [OF le refl] right mid by simp
  qed
qed

text \<open>
  A table is searchable for \<open>c\<close> when its entries come in the order: those below the sought
  one, those that match, those above.
\<close>

locale search_table =
  fixes c :: "int \<Rightarrow> int" and n :: int
  assumes above: "0 \<le> i \<Longrightarrow> i < j \<Longrightarrow> j < n \<Longrightarrow> 0 < c i \<Longrightarrow> 0 < c j"
    and below: "0 \<le> i \<Longrightarrow> i < j \<Longrightarrow> j < n \<Longrightarrow> c j < 0 \<Longrightarrow> c i < 0"
begin

lemma zeros_contiguous:
  assumes "0 \<le> i" "i \<le> j" "j \<le> k" "k < n" "c i = 0" "c k = 0"
  shows "c j = 0"
  using above [of i j] above [of j k] below [of i j] below [of j k] assms
  by (cases "j = i"; cases "j = k") force+

lemma bsearch_complete:
  "0 \<le> lo \<Longrightarrow> hi < n \<Longrightarrow> lo \<le> i \<Longrightarrow> i \<le> hi \<Longrightarrow> c i = 0 \<Longrightarrow> bsearch c lo hi \<noteq> None"
proof (induction "nat (hi - lo + 1)" arbitrary: lo hi rule: less_induct)
  case less
  let ?mid = "(hi + lo) sdiv 2"
  have le: "lo \<le> hi" using less.prems by simp
  note mid = mid_between [OF le]
  consider (hit) "c ?mid = 0" | (left) "c ?mid > 0" | (right) "c ?mid < 0" by linarith
  then show ?case
  proof cases
    case hit
    then show ?thesis using le by (simp add: bsearch.simps [of c lo hi])
  next
    case left
    then have "i < ?mid" using above [of ?mid i] less.prems mid by (cases "i = ?mid") force+
    then have "bsearch c lo (?mid - 1) \<noteq> None" using less.prems mid by (intro less.hyps) auto
    then show ?thesis using left le by (simp add: bsearch.simps [of c lo hi])
  next
    case right
    then have "?mid < i" using below [of i ?mid] less.prems mid by (cases "i = ?mid") force+
    then have "bsearch c (?mid + 1) hi \<noteq> None" using less.prems mid by (intro less.hyps) auto
    then show ?thesis using right le by (simp add: bsearch.simps [of c lo hi])
  qed
qed

lemma bsearch_iff: "bsearch c 0 (n - 1) \<noteq> None \<longleftrightarrow> (\<exists>i. 0 \<le> i \<and> i < n \<and> c i = 0)"
proof
  assume "bsearch c 0 (n - 1) \<noteq> None"
  then obtain i where "bsearch c 0 (n - 1) = Some i" by blast
  from bsearch_sound [OF this] show "\<exists>i. 0 \<le> i \<and> i < n \<and> c i = 0" by auto
next
  assume "\<exists>i. 0 \<le> i \<and> i < n \<and> c i = 0"
  then show "bsearch c 0 (n - 1) \<noteq> None"
    using bsearch_complete [of 0 "n - 1"] by fastforce
qed

end

end
