(* ===== verification/Dates.thy ===== *)
theory Dates
  imports Prelude
begin

text \<open>
  Dates: the day numbers of \<^verbatim>\<open>src/src/main.c\<close> (\<open>DSE\<close>, \<open>FromDSE\<close>), the calendar macros of
  \<^verbatim>\<open>src/src/globals.h\<close> and \<open>DateOK\<close> of \<^verbatim>\<open>src/src/utils.c\<close>.  A date is a triple of a year, a
  month from 0 to 11 and a day from 1; its number is the count of days since 1990-01-01.
\<close>

section \<open>The calendar tables and macros\<close>

definition BASE :: int where "BASE = 1990"
definition YR_RANGE :: int where "YR_RANGE = 4000"
definition MINUTES_PER_DAY :: int where "MINUTES_PER_DAY = 1440"

definition MonthDays :: "int list" where
  "MonthDays = [31, 29, 31, 30, 31, 30, 31, 31, 30, 31, 30, 31]"

definition MonthIndex :: "int list list" where
  "MonthIndex =
    [[0, 31, 59, 90, 120, 151, 181, 212, 243, 273, 304, 334],
     [0, 31, 60, 91, 121, 152, 182, 213, 244, 274, 305, 335]]"

definition DaysInYear :: "int \<Rightarrow> int" where
  "DaysInYear y =
    (if y smod 4 \<noteq> 0 then 365
     else if \<not> (y smod 100 \<noteq> 0) \<and> y smod 400 \<noteq> 0 then 365 else 366)"

definition IsLeapYear :: "int \<Rightarrow> int" where
  "IsLeapYear y =
    (if y smod 4 \<noteq> 0 then 0
     else if \<not> (y smod 100 \<noteq> 0) \<and> y smod 400 \<noteq> 0 then 0 else 1)"

definition DaysInMonth :: "int \<Rightarrow> int \<Rightarrow> int" where
  "DaysInMonth m y = (if m \<noteq> 1 then MonthDays ! nat m else 28 + IsLeapYear y)"

section \<open>Day numbers\<close>

definition DSE :: "int \<Rightarrow> int \<Rightarrow> int \<Rightarrow> int" where
  "DSE year month day =
    (let y1 = BASE - 1; y2 = year - 1;
         y4 = y2 sdiv 4 - y1 sdiv 4;
         y100 = y2 sdiv 100 - y1 sdiv 100;
         y400 = y2 sdiv 400 - y1 sdiv 400
     in 365 * (year - BASE) + y4 - y100 + y400
          + MonthIndex ! nat (IsLeapYear year) ! nat month + day - 1)"

lemma DaysInYear_pos [simp]: "0 < DaysInYear y"
  by (simp add: DaysInYear_def)

text \<open>The first loop of \<open>FromDSE\<close>: step back a year while its first day is too late.\<close>

function from_dse_year :: "int \<Rightarrow> int \<Rightarrow> int \<Rightarrow> int \<times> int" where
  "from_dse_year dse try_yr try_dse =
    (if try_dse > dse
     then from_dse_year dse (try_yr - 1) (try_dse - DaysInYear (try_yr - 1))
     else (try_yr, try_dse))"
  by pat_completeness auto
termination
  by (relation "measure (\<lambda>(dse, yr, t). nat (t - dse))") (auto simp: zless_nat_conj)

text \<open>
  The second loop: step forward a month while the day lies past its end.  The test
  \<open>try_mon \<le> 11\<close> only keeps the model inside \<open>MonthDays\<close>: \<open>from_dse_month_correct\<close> below
  shows that the source's own test ends the loop before December is left.
\<close>

function from_dse_month :: "int \<Rightarrow> int \<Rightarrow> int \<Rightarrow> int \<times> int" where
  "from_dse_month try_yr try_mon dse =
    (if try_mon \<le> 11 \<and> dse \<ge> DaysInMonth try_mon try_yr
     then from_dse_month try_yr (try_mon + 1) (dse - DaysInMonth try_mon try_yr)
     else (try_mon, dse))"
  by pat_completeness auto
termination
  by (relation "measure (\<lambda>(yr, mon, d). nat (12 - mon))") auto

declare from_dse_year.simps [simp del] from_dse_month.simps [simp del]

definition FromDSE :: "int \<Rightarrow> int \<times> int \<times> int" where
  "FromDSE dse =
    (let try_yr = dse sdiv 365 + BASE;
         y1 = BASE - 1; y2 = try_yr - 1;
         y4 = y2 sdiv 4 - y1 sdiv 4;
         y100 = y2 sdiv 100 - y1 sdiv 100;
         y400 = y2 sdiv 400 - y1 sdiv 400;
         try_dse = 365 * (try_yr - BASE) + y4 - y100 + y400;
         (y, first) = from_dse_year dse try_yr try_dse;
         (m, d) = from_dse_month y 0 (dse - first)
     in (y, m, d + 1))"

definition DateOK :: "int \<Rightarrow> int \<Rightarrow> int \<Rightarrow> bool" where
  "DateOK y m d \<longleftrightarrow>
    \<not> (d < 1 \<or> m < 0 \<or> y < BASE \<or> m > 11 \<or> y > BASE + YR_RANGE \<or> d > DaysInMonth m y)"

definition JulianToGregorianOffset :: "int \<Rightarrow> int \<Rightarrow> int" where
  "JulianToGregorianOffset y m =
    (let offset = 13 in
     if y \<ge> 2100 then
       (let centuries = (y - 2000) sdiv 100;
            four_centuries = (y - 2000) sdiv 400;
            offset = offset + (centuries - four_centuries)
        in if y smod 100 = 0 \<and> y smod 400 \<noteq> 0 \<and> m < 2 then offset - 1 else offset)
     else offset)"

text \<open>\<open>DSEYear\<close> and \<open>DSEMonth\<close> of \<^verbatim>\<open>trigger.c\<close>.\<close>

definition DSEYear :: "int \<Rightarrow> int" where
  "DSEYear dse = (case FromDSE dse of (y, m, d) \<Rightarrow> y)"

definition DSEMonth :: "int \<Rightarrow> int" where
  "DSEMonth dse = (case FromDSE dse of (y, m, d) \<Rightarrow> m)"

section \<open>The abstract calendar\<close>

text \<open>
  The proleptic Gregorian calendar as a rule book: which triples are dates, and which
  date follows which.
\<close>

definition leap :: "int \<Rightarrow> bool" where
  "leap y \<longleftrightarrow> 4 dvd y \<and> (100 dvd y \<longrightarrow> 400 dvd y)"

definition month_length :: "int \<Rightarrow> int \<Rightarrow> int" where
  "month_length y m =
    (if m = 1 then (if leap y then 29 else 28)
     else if m = 3 \<or> m = 5 \<or> m = 8 \<or> m = 10 then 30 else 31)"

fun is_date :: "int \<times> int \<times> int \<Rightarrow> bool" where
  "is_date (y, m, d) \<longleftrightarrow> 1990 \<le> y \<and> 0 \<le> m \<and> m \<le> 11 \<and> 1 \<le> d \<and> d \<le> month_length y m"

fun next_day :: "int \<times> int \<times> int \<Rightarrow> int \<times> int \<times> int" where
  "next_day (y, m, d) =
    (if d < month_length y m then (y, m, d + 1)
     else if m < 11 then (y, m + 1, 1) else (y + 1, 0, 1))"

definition year_start :: "int \<Rightarrow> int" where
  "year_start y = 365 * (y - 1990) + ((y - 1) div 4 - 497) - ((y - 1) div 100 - 19)
     + ((y - 1) div 400 - 4)"

definition month_start :: "int \<Rightarrow> int \<Rightarrow> int" where
  "month_start y m = MonthIndex ! nat (IsLeapYear y) ! nat m"

section \<open>Correctness\<close>

lemma IsLeapYear_leap: "IsLeapYear y = of_bool (leap y)"
  by (auto simp: IsLeapYear_def leap_def smod_eq_0_iff_dvd)

lemma DaysInYear_leap: "DaysInYear y = 365 + of_bool (leap y)"
  by (auto simp: DaysInYear_def leap_def smod_eq_0_iff_dvd)

lemma month_cases:
  assumes "0 \<le> (m::int)" "m \<le> 11"
  obtains "m = 0" | "m = 1" | "m = 2" | "m = 3" | "m = 4" | "m = 5" | "m = 6" | "m = 7"
    | "m = 8" | "m = 9" | "m = 10" | "m = 11"
proof -
  have "m = 0 \<or> m = 1 \<or> m = 2 \<or> m = 3 \<or> m = 4 \<or> m = 5 \<or> m = 6 \<or> m = 7
      \<or> m = 8 \<or> m = 9 \<or> m = 10 \<or> m = 11"
    using assms by presburger
  then show thesis using that by blast
qed

lemma DaysInMonth_length: "0 \<le> m \<Longrightarrow> m \<le> 11 \<Longrightarrow> DaysInMonth m y = month_length y m"
  by (erule (1) month_cases)
    (simp_all add: DaysInMonth_def month_length_def MonthDays_def IsLeapYear_leap)

lemma year_start_Suc: "year_start (y + 1) = year_start y + DaysInYear y"
proof -
  have "year_start (y + 1) - year_start y
      = 365 + (y div 4 - (y - 1) div 4) - (y div 100 - (y - 1) div 100)
          + (y div 400 - (y - 1) div 400)"
    by (simp add: year_start_def)
  also have "\<dots> = 365 + of_bool (4 dvd y) - of_bool (100 dvd y) + of_bool (400 dvd y)"
    by (simp only: div_pred zero_less_numeral)
  also have "\<dots> = DaysInYear y"
  proof -
    have "400 dvd y \<Longrightarrow> 100 dvd y" "100 dvd y \<Longrightarrow> 4 dvd y"
      by (auto elim: dvd_trans [rotated])
    then show ?thesis
      by (cases "4 dvd y"; cases "100 dvd y"; cases "400 dvd y")
        (simp_all add: DaysInYear_leap leap_def)
  qed
  finally show ?thesis by simp
qed

lemma month_start_Suc:
  "0 \<le> m \<Longrightarrow> m \<le> 10 \<Longrightarrow> month_start y (m + 1) = month_start y m + month_length y m"
  by (rule month_cases [of m])
    (auto simp: month_start_def MonthIndex_def IsLeapYear_leap month_length_def)

lemma month_start_0 [simp]: "month_start y 0 = 0"
  by (auto simp: month_start_def MonthIndex_def IsLeapYear_leap)

lemma month_start_11: "month_start y 11 = DaysInYear y - 31"
  by (auto simp: month_start_def MonthIndex_def IsLeapYear_leap DaysInYear_leap)

lemma month_length_bounds: "28 \<le> month_length y m" "month_length y m \<le> 31"
  by (auto simp: month_length_def)

lemma year_start_mono: "y \<le> y' \<Longrightarrow> year_start y \<le> year_start y'"
proof (induction y' rule: int_ge_induct)
  case (step i)
  then show ?case using year_start_Suc [of i] DaysInYear_pos [of i] by linarith
qed simp

lemma year_start_ge: "1990 \<le> y \<Longrightarrow> 365 * (y - 1990) \<le> year_start y"
proof (induction y rule: int_ge_induct)
  case base
  show ?case by (simp add: year_start_def)
next
  case (step i)
  then show ?case using year_start_Suc [of i] by (simp add: DaysInYear_leap)
qed

lemma month_start_mono:
  assumes "0 \<le> m" "m < m'" "m' \<le> 11"
  shows "month_start y m + month_length y m \<le> month_start y m'"
proof -
  have "m + 1 \<le> m'" using assms by simp
  then show ?thesis using assms(3)
  proof (induction m' rule: int_ge_induct)
    case base
    then show ?case using assms by (simp add: month_start_Suc)
  next
    case (step i)
    then show ?case using assms month_start_Suc [of i y] month_length_bounds(1) [of y i] by simp
  qed
qed

lemma month_end_le_year:
  assumes "0 \<le> m" "m \<le> 11"
  shows "month_start y m + month_length y m \<le> DaysInYear y"
proof (cases "m = 11")
  case True
  then show ?thesis by (simp add: month_start_11 month_length_def)
next
  case False
  then show ?thesis
    using assms month_start_mono [of m 11 y] by (simp add: month_start_11)
qed

lemma DSE_start:
  assumes "1990 \<le> y"
  shows "DSE y m d = year_start y + month_start y m + d - 1"
  using assms by (simp add: DSE_def BASE_def c_arith year_start_def month_start_def Let_def)

lemma from_dse_year_correct:
  "from_dse_year dse yr t = (y, f) \<Longrightarrow> t = year_start yr \<Longrightarrow> dse < year_start (yr + 1) \<Longrightarrow>
   f = year_start y \<and> f \<le> dse \<and> dse < year_start (y + 1)"
proof (induction dse yr t rule: from_dse_year.induct)
  case (1 dse yr t)
  show ?case
  proof (cases "t > dse")
    case True
    have "year_start yr = year_start (yr - 1) + DaysInYear (yr - 1)"
      using year_start_Suc [of "yr - 1"] by simp
    moreover have "from_dse_year dse (yr - 1) (t - DaysInYear (yr - 1)) = (y, f)"
      using 1(2) True by (simp add: from_dse_year.simps [of dse yr t])
    ultimately show ?thesis using 1(1) [OF True] 1(3) True by simp
  next
    case False
    with 1(2) have "yr = y" "t = f" by (simp_all add: from_dse_year.simps [of dse yr t])
    with False 1(3,4) show ?thesis by simp
  qed
qed

text \<open>
  The month loop ends inside the year: of its two tests only the source's decides.
\<close>

lemma from_dse_month_correct:
  "from_dse_month yr mon dse = (m, d) \<Longrightarrow> 0 \<le> mon \<Longrightarrow> mon \<le> 11 \<Longrightarrow> 0 \<le> dse \<Longrightarrow>
   month_start yr mon + dse < DaysInYear yr \<Longrightarrow>
   0 \<le> m \<and> m \<le> 11 \<and> 0 \<le> d \<and> d < month_length yr m
     \<and> month_start yr m + d = month_start yr mon + dse"
proof (induction yr mon dse rule: from_dse_month.induct)
  case (1 yr mon dse)
  have len: "DaysInMonth mon yr = month_length yr mon"
    using 1 by (simp add: DaysInMonth_length)
  show ?case
  proof (cases "dse \<ge> month_length yr mon")
    case True
    have "mon \<noteq> 11"
      using True 1(6) by (auto simp: month_start_11 month_length_def)
    with 1 True len show ?thesis
      using month_start_Suc [of mon yr] by (simp add: from_dse_month.simps [of yr mon dse])
  next
    case False
    with 1 len show ?thesis by (simp add: from_dse_month.simps [of yr mon dse])
  qed
qed

lemma FromDSE_spec:
  assumes n: "0 \<le> n" and eq: "FromDSE n = (y, m, d)"
  shows "is_date (y, m, d) \<and> DSE y m d = n"
proof -
  define yr where "yr = n sdiv 365 + BASE"
  have yr: "yr = n div 365 + 1990" using n by (simp add: yr_def BASE_def c_arith)
  have ge: "1990 \<le> yr" using n by (simp add: yr)
  obtain f d' where y: "from_dse_year n yr (year_start yr) = (y, f)"
    and m: "from_dse_month y 0 (n - f) = (m, d')" and d: "d = d' + 1"
    using eq ge n unfolding FromDSE_def yr_def [symmetric]
    by (auto simp: BASE_def c_arith year_start_def Let_def split: prod.splits)
  have "365 * (yr + 1 - 1990) \<le> year_start (yr + 1)" using ge by (intro year_start_ge) simp
  moreover have "n < 365 * (yr + 1 - 1990)" using yr by simp
  ultimately have "n < year_start (yr + 1)" by simp
  from from_dse_year_correct [OF y refl this]
  have f: "f = year_start y" "year_start y \<le> n" "n < year_start (y + 1)" by auto
  have "1990 \<le> y"
  proof (rule ccontr)
    assume "\<not> 1990 \<le> y"
    then have "year_start (y + 1) \<le> year_start 1990" by (intro year_start_mono) simp
    then show False using f n by (simp add: year_start_def)
  qed
  moreover have "month_start y 0 + (n - f) < DaysInYear y"
    using f year_start_Suc [of y] by simp
  ultimately show ?thesis
    using from_dse_month_correct [OF m] f d by (auto simp: DSE_start)
qed

lemma year_start_base: "year_start 1990 = 0"
  by (simp add: year_start_def)

lemma DSE_bounds:
  assumes "is_date (y, m, d)"
  shows "year_start y \<le> DSE y m d" "DSE y m d < year_start (y + 1)" "0 \<le> DSE y m d"
proof -
  have "0 \<le> month_start y m"
    using assms month_start_mono [of 0 m y] month_length_bounds(1) [of y 0]
    by (cases "m = 0") auto
  moreover have "year_start 1990 \<le> year_start y" using assms by (intro year_start_mono) simp
  ultimately show "year_start y \<le> DSE y m d" "DSE y m d < year_start (y + 1)" "0 \<le> DSE y m d"
    using assms month_end_le_year [of m y] year_start_Suc [of y] year_start_base
    by (simp_all add: DSE_start)
qed

lemma DSE_less_month:
  assumes "is_date (y, m, d)" "is_date (y, m', d')" "m < m'"
  shows "DSE y m d < DSE y m' d'"
  using assms month_start_mono [of m m' y] by (auto simp: DSE_start)

lemma DSE_less_year:
  assumes "is_date (y, m, d)" "is_date (y', m', d')" "y < y'"
  shows "DSE y m d < DSE y' m' d'"
  using DSE_bounds [OF assms(1)] DSE_bounds [OF assms(2)] year_start_mono [of "y + 1" y'] assms(3)
  by simp

lemma DSE_inj:
  assumes "is_date (y, m, d)" "is_date (y', m', d')" "DSE y m d = DSE y' m' d'"
  shows "(y, m, d) = (y', m', d')"
proof -
  have y: "y = y'"
    using DSE_less_year [of y m d y' m' d'] DSE_less_year [of y' m' d' y m d] assms by fastforce
  moreover have "m = m'"
    using y DSE_less_month [of y m d m' d'] DSE_less_month [of y m' d' m d] assms by fastforce
  ultimately show ?thesis using assms by (auto simp: DSE_start)
qed

definition DSE_of :: "int \<times> int \<times> int \<Rightarrow> int" where
  "DSE_of x = (case x of (y, m, d) \<Rightarrow> DSE y m d)"

interpretation gregorian: day_codec DSE_of FromDSE is_date "\<lambda>n. 0 \<le> n"
proof unfold_locales
  fix n :: int and x :: "int \<times> int \<times> int"
  show "0 \<le> n \<Longrightarrow> is_date (FromDSE n)" "0 \<le> n \<Longrightarrow> DSE_of (FromDSE n) = n"
    using FromDSE_spec [of n] by (cases "FromDSE n"; simp add: DSE_of_def)+
  show "0 \<le> DSE_of x" if "is_date x"
    using that DSE_bounds(3) by (cases x) (auto simp: DSE_of_def)
  show "FromDSE (DSE_of x) = x" if x: "is_date x"
  proof -
    obtain y m d where xe: "x = (y, m, d)" by (cases x)
    obtain y' m' d' where f: "FromDSE (DSE y m d) = (y', m', d')" by (cases "FromDSE (DSE y m d)")
    have "is_date (y', m', d') \<and> DSE y' m' d' = DSE y m d"
      using FromDSE_spec [OF _ f] DSE_bounds(3) [of y m d] x xe by simp
    then have "(y', m', d') = (y, m, d)" using DSE_inj [of y' m' d' y m d] x xe by simp
    then show ?thesis using f xe by (simp add: DSE_of_def)
  qed
qed

lemma DSE_next_day: "is_date x \<Longrightarrow> DSE_of (next_day x) = DSE_of x + 1"
proof -
  assume x: "is_date x"
  obtain y m d where xe: "x = (y, m, d)" by (cases x)
  show ?thesis
  proof (cases "d < month_length y m")
    case True
    then show ?thesis using x xe by (simp add: DSE_of_def DSE_start)
  next
    case False
    then have d: "d = month_length y m" using x xe by simp
    have ds: "DSE y m d = year_start y + month_start y m + d - 1"
      using x xe by (intro DSE_start) simp
    show ?thesis
    proof (cases "m < 11")
      case True
      then show ?thesis
        using x xe d ds month_start_Suc [of m y] by (simp add: DSE_of_def DSE_start)
    next
      case m: False
      then have "m = 11" using x xe by simp
      then show ?thesis
        using x xe d ds year_start_Suc [of y]
        by (simp add: DSE_of_def DSE_start month_start_11 month_length_def)
    qed
  qed
qed

lemma next_day_is_date: "is_date x \<Longrightarrow> is_date (next_day x)"
  using month_length_bounds(1) by (cases x) (auto simp: month_length_def)

lemma DateOK_is_date:
  "DateOK y m d \<longleftrightarrow> is_date (y, m, d) \<and> y \<le> 5990"
  using DaysInMonth_length [of m y] by (auto simp: DateOK_def BASE_def YR_RANGE_def)

lemma DSE_upper: "DateOK y m d \<Longrightarrow> DSE y m d \<le> 1461400"
proof -
  assume ok: "DateOK y m d"
  then have y: "1990 \<le> y" "y \<le> 5990" "0 \<le> m" "m \<le> 11" "d \<le> 31"
    using DaysInMonth_length [of m y] month_length_bounds(2) [of y m] by (auto simp: DateOK_def BASE_def YR_RANGE_def)
  have "MonthIndex ! nat (IsLeapYear y) ! nat m \<le> 335"
    using y(3,4) unfolding MonthIndex_def IsLeapYear_def
    by (auto simp: nth_Cons' numeral_eq_Suc split: if_splits)
  moreover have "(y - 1) sdiv 4 - 1989 sdiv 4 \<le> 1000" "0 \<le> (y - 1) sdiv 100 - 1989 sdiv 100"
      "(y - 1) sdiv 400 - 1989 sdiv 400 \<le> 20"
    using y(1,2) by (simp_all add: sdiv_nonneg; presburger)+
  ultimately show ?thesis using y unfolding DSE_def Let_def BASE_def by simp
qed

lemma FromDSE_DateOK:
  assumes "0 \<le> n" "n \<le> DSE 5990 11 31" "FromDSE n = (y, m, d)"
  shows "DateOK y m d" "DSE y m d = n"
proof -
  have ok: "is_date (y, m, d)" "DSE y m d = n" using FromDSE_spec [OF assms(1,3)] by auto
  have "is_date (5990, 11, 31)" by (simp add: month_length_def)
  then have "n < year_start 5991" using DSE_bounds(2) [of 5990 11 31] assms(2) by simp
  then have "y \<le> 5990" using DSE_bounds(1) [OF ok(1)] ok(2) year_start_mono [of 5991 y] by (cases "5991 \<le> y") auto
  then show "DateOK y m d" "DSE y m d = n" using ok by (simp_all add: DateOK_is_date)
qed

text \<open>
  The day numbers of the source are of type \<open>int\<close>.  Up to \<open>FromDSE_max\<close>, past the year
  5870000, every number that \<open>FromDSE\<close> computes fits in one, so that the arithmetic above is the
  source's; close to \<open>INT_MAX\<close> the sum that \<open>FromDSE\<close> starts with overflows.
\<close>

definition FromDSE_max :: int where
  "FromDSE_max = 2145000000"

lemma years_div:
  assumes "1990 \<le> (y::int)" "y \<le> 5878702" "0 < k"
  shows "0 \<le> (y - 1) sdiv k - 1989 sdiv k" "(y - 1) sdiv k - 1989 sdiv k \<le> 5878701 div k"
  using assms zdiv_mono1 [of 1989 "y - 1" k] zdiv_mono1 [of "y - 1" 5878701 k]
  by (auto simp: sdiv_nonneg pos_imp_zdiv_nonneg_iff intro: order_trans [of _ "(y - 1) div k"])

lemma FromDSE_fits_int:
  assumes "0 \<le> n" "n \<le> FromDSE_max" "yr = n sdiv 365 + BASE"
    "y4 = (yr - 1) sdiv 4 - (BASE - 1) sdiv 4" "y100 = (yr - 1) sdiv 100 - (BASE - 1) sdiv 100"
    "y400 = (yr - 1) sdiv 400 - (BASE - 1) sdiv 400"
  shows "in_int yr" "in_int (365 * (yr - BASE))" "in_int (365 * (yr - BASE) + y4)"
    "in_int (365 * (yr - BASE) + y4 - y100)" "in_int (365 * (yr - BASE) + y4 - y100 + y400)"
proof -
  have yr: "1990 \<le> yr" "yr \<le> 5878702" "365 * (yr - 1990) \<le> n"
    using assms(1-3) by (simp_all add: sdiv_nonneg BASE_def FromDSE_max_def)
  have "0 \<le> y4" "y4 \<le> 1469675" "0 \<le> y100" "y100 \<le> 58787" "0 \<le> y400" "y400 \<le> 14696"
    using years_div [OF yr(1,2), of 4] years_div [OF yr(1,2), of 100] years_div [OF yr(1,2), of 400] assms(4-6)
    by (simp_all add: BASE_def)
  then show "in_int yr" "in_int (365 * (yr - BASE))" "in_int (365 * (yr - BASE) + y4)"
    "in_int (365 * (yr - BASE) + y4 - y100)" "in_int (365 * (yr - BASE) + y4 - y100 + y400)"
    using yr assms(2) by (simp_all add: in_int_def BASE_def FromDSE_max_def)
qed

lemma DateOK_image: "DSE_of ` {x. case x of (y, m, d) \<Rightarrow> DateOK y m d} = {0..DSE 5990 11 31}"
proof (intro equalityI subsetI)
  fix n assume "n \<in> DSE_of ` {x. case x of (y, m, d) \<Rightarrow> DateOK y m d}"
  then obtain y m d where x: "DateOK y m d" "n = DSE y m d" by (auto simp: DSE_of_def)
  then have "is_date (y, m, d)" "y \<le> 5990" by (simp_all add: DateOK_is_date)
  moreover have last: "is_date (5990, 11, 31)" by (simp add: month_length_def)
  moreover have "y < 5990 \<Longrightarrow> DSE y m d \<le> DSE 5990 11 31" using DSE_less_year [OF \<open>is_date (y, m, d)\<close> last] by simp
  moreover have "DSE 5990 m d \<le> DSE 5990 11 31" if "is_date (5990, m, d)"
    using that DSE_less_month [OF that last] by (cases "m < 11") (auto simp: DSE_start month_length_def)
  ultimately show "n \<in> {0..DSE 5990 11 31}" using x(2) DSE_bounds(3) [of y m d] by (cases "y < 5990") auto
next
  fix n assume n: "n \<in> {0..DSE 5990 11 31}"
  obtain y m d where f: "FromDSE n = (y, m, d)" by (cases "FromDSE n")
  then show "n \<in> DSE_of ` {x. case x of (y, m, d) \<Rightarrow> DateOK y m d}"
    using FromDSE_DateOK [OF _ _ f] n by (intro image_eqI [of _ _ "(y, m, d)"]) (auto simp: DSE_of_def)
qed

section \<open>Properties\<close>

text \<open>
  C7. Reading a day number as a date is a bijection between the day numbers from 0 to that of
  the last date, 5990-12-31, and the dates the program accepts; and \<open>DSE\<close> is its inverse: the
  number \<open>n\<close> reads as the date \<open>x\<close> just when the date \<open>x\<close> has the number \<open>n\<close>.
\<close>

theorem FromDSE_bijection:
  "bij_betw FromDSE {0..DSE 5990 11 31} {(y, m, d). DateOK y m d}
   \<and> (\<lambda>n. (n, FromDSE n)) ` {0..DSE 5990 11 31} = (\<lambda>x. (DSE_of x, x)) ` {(y, m, d). DateOK y m d}"
proof -
  let ?D = "{(y, m, d). DateOK y m d}" and ?N = "{0..DSE 5990 11 31}"
  have date: "is_date x" if "x \<in> ?D" for x using that by (auto simp: DateOK_is_date)
  have inv: "FromDSE (DSE_of x) = x" if "x \<in> ?D" for x using gregorian.dec_enc [OF date [OF that]] .
  have "FromDSE ` ?N = ?D"
    unfolding DateOK_image [symmetric] image_image using inv by simp
  moreover have "inj_on FromDSE ?N"
    unfolding DateOK_image [symmetric] using inv by (intro inj_onI) (metis (no_types, lifting) imageE)
  moreover have "(\<lambda>n. (n, FromDSE n)) ` ?N = (\<lambda>x. (DSE_of x, x)) ` ?D"
    unfolding DateOK_image [symmetric] image_image using inv by (intro image_cong) auto
  ultimately show ?thesis by (simp add: bij_betw_def)
qed

text \<open>
  C20. Day numbers count days: the date after a valid date has the next number, and that
  number reads as the next date; leap days, month ends and year ends included.
\<close>

theorem DSE_counts_days:
  assumes "is_date x"
  shows "DSE_of (next_day x) = DSE_of x + 1 \<and> FromDSE (DSE_of x + 1) = next_day x"
  using DSE_next_day [OF assms] gregorian.dec_enc [OF next_day_is_date [OF assms]] by simp

theorem DSE_counts_days_witness:
  "DSE_of (next_day (2000, 1, 28)) = DSE_of (2000, 1, 28) + 1
    \<and> FromDSE (DSE_of (2000, 1, 28) + 1) = (2000, 1, 29)"
  using DSE_counts_days [of "(2000, 1, 28)"] by (simp add: month_length_def leap_def)

end
