(* ===== verification/CTypes.thy ===== *)
theory CTypes
  imports Dates
begin

text \<open>
  The data of the program: characters and strings of C (\<^verbatim>\<open>ctype.h\<close> in the C locale), the
  tokens, values, triggers and time triggers of \<^verbatim>\<open>src/src/types.h\<close>, and its constants.
  A \<^verbatim>\<open>char *\<close> is the list of the characters before its terminating NUL.
\<close>

section \<open>Characters\<close>

text \<open>\<open>ch c\<close> is the value of a plain (signed) \<open>char\<close>.\<close>

definition ch :: "char \<Rightarrow> int" where
  "ch c = (let n = (of_char c :: int) in if 128 \<le> n then n - 256 else n)"

definition isdigit :: "char \<Rightarrow> bool" where
  "isdigit c \<longleftrightarrow> 48 \<le> (of_char c :: int) \<and> (of_char c :: int) \<le> 57"

definition isupper :: "char \<Rightarrow> bool" where
  "isupper c \<longleftrightarrow> 65 \<le> (of_char c :: int) \<and> (of_char c :: int) \<le> 90"

definition islower :: "char \<Rightarrow> bool" where
  "islower c \<longleftrightarrow> 97 \<le> (of_char c :: int) \<and> (of_char c :: int) \<le> 122"

definition isalpha :: "char \<Rightarrow> bool" where
  "isalpha c \<longleftrightarrow> isupper c \<or> islower c"

definition isspace :: "char \<Rightarrow> bool" where
  "isspace c \<longleftrightarrow> (of_char c :: int) = 32 \<or> 9 \<le> (of_char c :: int) \<and> (of_char c :: int) \<le> 13"

definition iscntrl :: "char \<Rightarrow> bool" where
  "iscntrl c \<longleftrightarrow> (of_char c :: int) < 32 \<or> (of_char c :: int) = 127"

definition tolower :: "char \<Rightarrow> char" where
  "tolower c = (if isupper c then char_of (of_char c + 32 :: int) else c)"

lemmas ctype_defs = isdigit_def isupper_def islower_def isalpha_def isspace_def iscntrl_def
  tolower_def ch_def

text \<open>
  The loop \<^verbatim>\<open>while (isdigit(*s)) { v *= 10; v += *s - '0'; s++; }\<close> of the numeric parsers.
  The source does not guard it against overflow; the model keeps the 32-bit value.
\<close>

fun parse_digits :: "int \<Rightarrow> string \<Rightarrow> int \<times> string" where
  "parse_digits v [] = (v, [])"
| "parse_digits v (c # s) =
    (if isdigit c then parse_digits (cint (cint (v * 10) + (ch c - 48))) s else (v, c # s))"

text \<open>\<open>*s\<close> and \<open>*(s+1)\<close>: \<open>None\<close> is the terminating NUL.\<close>

definition peek :: "string \<Rightarrow> char option" where
  "peek s = (case s of [] \<Rightarrow> None | c # _ \<Rightarrow> Some c)"

lemma peek_simps [simp]: "peek [] = None" "peek (c # s) = Some c"
  by (simp_all add: peek_def)

section \<open>Names\<close>

definition VAR_NAME_LEN :: nat where "VAR_NAME_LEN = 64"

definition StrnCpy :: "string \<Rightarrow> nat \<Rightarrow> string" where
  "StrnCpy source n = take n source"

definition strtolower :: "string \<Rightarrow> string" where
  "strtolower s = map tolower s"

section \<open>Constants of types.h\<close>

abbreviation (input) NO_BACK :: int where "NO_BACK \<equiv> 0"
abbreviation (input) NO_REP :: int where "NO_REP \<equiv> 0"
abbreviation (input) NO_WD :: int where "NO_WD \<equiv> 0"
abbreviation (input) NO_DAY :: int where "NO_DAY \<equiv> -1"
abbreviation (input) NO_MON :: int where "NO_MON \<equiv> -1"
abbreviation (input) NO_YR :: int where "NO_YR \<equiv> -1"
abbreviation (input) NO_UNTIL :: int where "NO_UNTIL \<equiv> -1"
abbreviation (input) NO_DATE :: int where "NO_DATE \<equiv> -1"
abbreviation (input) NO_TIME :: int where "NO_TIME \<equiv> INT_MAX"
abbreviation (input) NO_DELTA :: int where "NO_DELTA \<equiv> 0"
abbreviation (input) NO_ONCE :: int where "NO_ONCE \<equiv> 0"
abbreviation (input) NO_TYPE :: int where "NO_TYPE \<equiv> 0"
abbreviation (input) NO_PRIORITY :: int where "NO_PRIORITY \<equiv> 5000"
abbreviation (input) NO_SCANFROM :: int where "NO_SCANFROM \<equiv> INT_MIN"
abbreviation (input) NO_SKIP :: int where "NO_SKIP \<equiv> 0"
abbreviation (input) SKIP_SKIP :: int where "SKIP_SKIP \<equiv> 1"
abbreviation (input) BEFORE_SKIP :: int where "BEFORE_SKIP \<equiv> 2"
abbreviation (input) AFTER_SKIP :: int where "AFTER_SKIP \<equiv> 3"

abbreviation (input) MSG_TYPE :: int where "MSG_TYPE \<equiv> 1"
abbreviation (input) RUN_TYPE :: int where "RUN_TYPE \<equiv> 2"
abbreviation (input) CAL_TYPE :: int where "CAL_TYPE \<equiv> 3"
abbreviation (input) SAT_TYPE :: int where "SAT_TYPE \<equiv> 4"
abbreviation (input) PS_TYPE :: int where "PS_TYPE \<equiv> 5"
abbreviation (input) PSF_TYPE :: int where "PSF_TYPE \<equiv> 6"
abbreviation (input) MSF_TYPE :: int where "MSF_TYPE \<equiv> 7"
abbreviation (input) PASSTHRU_TYPE :: int where "PASSTHRU_TYPE \<equiv> 8"

abbreviation (input) SCANFROM_TYPE :: int where "SCANFROM_TYPE \<equiv> 0"
abbreviation (input) FROM_TYPE :: int where "FROM_TYPE \<equiv> 1"

abbreviation (input) SORT_NONE :: int where "SORT_NONE \<equiv> 0"
abbreviation (input) SORT_ASCEND :: int where "SORT_ASCEND \<equiv> 1"
abbreviation (input) SORT_DESCEND :: int where "SORT_DESCEND \<equiv> 2"

section \<open>Tokens\<close>

datatype (plugins only: size) TokTypes = T_Illegal
  | T_AddOmit | T_At | T_Back | T_BackAdj | T_Banner | T_Clr | T_Comment | T_CompleteThrough
  | T_Date | T_DateTime | T_Day | T_Debug | T_Delta | T_Dumpvars | T_Duration
  | T_Else | T_Empty | T_EndIf | T_ErrMsg | T_Exit | T_Expr | T_Flush
  | T_Frename | T_Fset | T_Funset | T_If | T_IfTrig | T_In | T_Include
  | T_IncludeCmd | T_IncludeR | T_IncludeSys | T_Info | T_LastBack
  | T_LongTime | T_MaxOverdue | T_MaybeUncomputable | T_Month | T_NoQueue | T_Number
  | T_Omit | T_OmitFunc | T_Once | T_Ordinal | T_Pop | T_PopFuncs | T_PopVars
  | T_Preserve | T_Priority | T_Push | T_PushFuncs | T_PushVars | T_Rem
  | T_RemType | T_Rep | T_Return | T_Scanfrom | T_Sched | T_Set | T_Skip | T_Tag
  | T_Through | T_Time | T_Todo | T_Translate | T_Tz | T_UnSet | T_Until | T_Warn
  | T_WkDay | T_Year

record Token =
  tok_name :: string
  MinLen :: int
  tok_type :: TokTypes
  tok_val :: int

section \<open>Values\<close>

text \<open>The tagged union of the expression language; the tag is the constructor.\<close>

datatype Value = IntV int | TimeV int | DateV int | DateTimeV int | StrV string

section \<open>Triggers\<close>

text \<open>\<open>infos\<close> is the linked list of INFO strings, \<open>tags\<close> the contents of its buffer.\<close>

record Trigger =
  expired :: bool
  trg_wd :: int
  trg_d :: int
  trg_m :: int
  trg_y :: int
  trg_back :: int
  delta :: int
  trg_rep :: int
  localomit :: int
  trg_skip :: int
  trg_until :: int
  trg_typ :: int
  once :: int
  scanfrom :: int
  trg_from :: int
  adj_for_last :: bool
  need_wkday :: bool
  is_todo :: bool
  complete_through :: int
  priority :: int
  duration_days :: int
  eventstart :: int
  eventstart_orig :: int
  eventduration :: int
  noqueue :: bool
  max_overdue :: int
  addomit :: bool
  maybe_uncomputable :: bool
  nonconst_expr :: bool
  expr_happened :: bool
  trg_sched :: string
  trg_warn :: string
  omitfunc :: string
  tags :: string
  passthru :: string
  infos :: "string list"
  tz :: "string option"

record TimeTrig =
  ttime_orig :: int
  ttime :: int
  nextdtime :: int
  tt_delta :: int
  tt_rep :: int
  duration :: int

text \<open>
  The trigger and time trigger \<open>ParseRem\<close> of \<^verbatim>\<open>dorem.c\<close> starts from; the arguments are the
  globals \<open>DefaultDelta\<close>, \<open>DefaultPrio\<close> and \<open>DefaultTDelta\<close>.  \<open>expired\<close> is set by the search.
\<close>

definition new_trigger :: "int \<Rightarrow> int \<Rightarrow> Trigger" where
  "new_trigger defdelta defprio =
    \<lparr>expired = False, trg_wd = NO_WD, trg_d = NO_DAY, trg_m = NO_MON, trg_y = NO_YR,
     trg_back = NO_BACK, delta = - defdelta, trg_rep = NO_REP, localomit = NO_WD,
     trg_skip = NO_SKIP, trg_until = NO_UNTIL, trg_typ = NO_TYPE, once = NO_ONCE,
     scanfrom = NO_SCANFROM, trg_from = NO_DATE, adj_for_last = False, need_wkday = False,
     is_todo = False, complete_through = NO_DATE, priority = defprio, duration_days = 0,
     eventstart = -1, eventstart_orig = -1, eventduration = NO_TIME, noqueue = False,
     max_overdue = -1, addomit = False, maybe_uncomputable = False, nonconst_expr = False,
     expr_happened = False, trg_sched = [], trg_warn = [], omitfunc = [], tags = [],
     passthru = [], infos = [], tz = None\<rparr>"

definition new_timetrig :: "int \<Rightarrow> TimeTrig" where
  "new_timetrig deftdelta =
    \<lparr>ttime_orig = NO_TIME, ttime = NO_TIME, nextdtime = 0, tt_delta = deftdelta, tt_rep = NO_REP,
     duration = NO_TIME\<rparr>"

lemma new_trigger_simps [simp]:
  "trg_wd (new_trigger dd dp) = NO_WD" "trg_d (new_trigger dd dp) = NO_DAY"
  "trg_m (new_trigger dd dp) = NO_MON" "trg_y (new_trigger dd dp) = NO_YR"
  "trg_back (new_trigger dd dp) = NO_BACK" "trg_rep (new_trigger dd dp) = NO_REP"
  "trg_skip (new_trigger dd dp) = NO_SKIP" "trg_until (new_trigger dd dp) = NO_UNTIL"
  "localomit (new_trigger dd dp) = NO_WD" "is_todo (new_trigger dd dp) = False"
  "omitfunc (new_trigger dd dp) = []" "infos (new_trigger dd dp) = []" "tz (new_trigger dd dp) = None"
  "duration_days (new_trigger dd dp) = 0" "complete_through (new_trigger dd dp) = NO_DATE"
  "scanfrom (new_trigger dd dp) = NO_SCANFROM"
  "delta (new_trigger dd dp) = - dd" "priority (new_trigger dd dp) = dp"
  by (simp_all add: new_trigger_def)

lemma new_timetrig_simps [simp]:
  "ttime (new_timetrig d) = NO_TIME" "duration (new_timetrig d) = NO_TIME"
  "tt_delta (new_timetrig d) = d" "tt_rep (new_timetrig d) = NO_REP"
  by (simp_all add: new_timetrig_def)

end
