(* ===== verification/Tokens.thy ===== *)
theory Tokens
  imports CTypes "HOL-Library.Sublist"
begin

text \<open>
  The tokens of the reminder language, \<^verbatim>\<open>src/src/token.c\<close>, and the literal dates and times
  of \<^verbatim>\<open>src/src/expr.c\<close> that they use.  \<open>FindToken\<close> is a binary search in the sorted table
  \<open>TokArray\<close>, with case folding, abbreviations and an optional trailing comma; it is proved
  to find exactly the entry that a linear reading of the table would.
\<close>

section \<open>The table\<close>

definition TokArray :: "Token list" where
  "TokArray =
    [
     \<lparr>tok_name = ''addomit'', MinLen = 7, tok_type = T_AddOmit, tok_val = 0\<rparr>,
     \<lparr>tok_name = ''after'', MinLen = 5, tok_type = T_Skip, tok_val = AFTER_SKIP\<rparr>,
     \<lparr>tok_name = ''april'', MinLen = 3, tok_type = T_Month, tok_val = 3\<rparr>,
     \<lparr>tok_name = ''at'', MinLen = 2, tok_type = T_At, tok_val = 0\<rparr>,
     \<lparr>tok_name = ''august'', MinLen = 3, tok_type = T_Month, tok_val = 7\<rparr>,
     \<lparr>tok_name = ''banner'', MinLen = 3, tok_type = T_Banner, tok_val = 0\<rparr>,
     \<lparr>tok_name = ''before'', MinLen = 6, tok_type = T_Skip, tok_val = BEFORE_SKIP\<rparr>,
     \<lparr>tok_name = ''cal'', MinLen = 3, tok_type = T_RemType, tok_val = CAL_TYPE\<rparr>,
     \<lparr>tok_name = ''clear-omit-context'', MinLen = 5, tok_type = T_Clr, tok_val = 0\<rparr>,
     \<lparr>tok_name = ''complete-through'', MinLen = 16, tok_type = T_CompleteThrough, tok_val = 0\<rparr>,
     \<lparr>tok_name = ''completed-through'', MinLen = 17, tok_type = T_CompleteThrough, tok_val = 0\<rparr>,
     \<lparr>tok_name = ''debug'', MinLen = 5, tok_type = T_Debug, tok_val = 0\<rparr>,
     \<lparr>tok_name = ''december'', MinLen = 3, tok_type = T_Month, tok_val = 11\<rparr>,
     \<lparr>tok_name = ''do'', MinLen = 2, tok_type = T_IncludeR, tok_val = 0\<rparr>,
     \<lparr>tok_name = ''dumpvars'', MinLen = 4, tok_type = T_Dumpvars, tok_val = 0\<rparr>,
     \<lparr>tok_name = ''duration'', MinLen = 8, tok_type = T_Duration, tok_val = 0\<rparr>,
     \<lparr>tok_name = ''else'', MinLen = 4, tok_type = T_Else, tok_val = 0\<rparr>,
     \<lparr>tok_name = ''endif'', MinLen = 5, tok_type = T_EndIf, tok_val = 0\<rparr>,
     \<lparr>tok_name = ''errmsg'', MinLen = 6, tok_type = T_ErrMsg, tok_val = 0\<rparr>,
     \<lparr>tok_name = ''exit'', MinLen = 4, tok_type = T_Exit, tok_val = 0\<rparr>,
     \<lparr>tok_name = ''expr'', MinLen = 4, tok_type = T_Expr, tok_val = 0\<rparr>,
     \<lparr>tok_name = ''february'', MinLen = 3, tok_type = T_Month, tok_val = 1\<rparr>,
     \<lparr>tok_name = ''first'', MinLen = 5, tok_type = T_Ordinal, tok_val = 0\<rparr>,
     \<lparr>tok_name = ''flush'', MinLen = 5, tok_type = T_Flush, tok_val = 0\<rparr>,
     \<lparr>tok_name = ''fourth'', MinLen = 6, tok_type = T_Ordinal, tok_val = 3\<rparr>,
     \<lparr>tok_name = ''frename'', MinLen = 7, tok_type = T_Frename, tok_val = 0\<rparr>,
     \<lparr>tok_name = ''friday'', MinLen = 3, tok_type = T_WkDay, tok_val = 4\<rparr>,
     \<lparr>tok_name = ''from'', MinLen = 4, tok_type = T_Scanfrom, tok_val = FROM_TYPE\<rparr>,
     \<lparr>tok_name = ''fset'', MinLen = 4, tok_type = T_Fset, tok_val = 0\<rparr>,
     \<lparr>tok_name = ''funset'', MinLen = 6, tok_type = T_Funset, tok_val = 0\<rparr>,
     \<lparr>tok_name = ''if'', MinLen = 2, tok_type = T_If, tok_val = 0\<rparr>,
     \<lparr>tok_name = ''iftrig'', MinLen = 6, tok_type = T_IfTrig, tok_val = 0\<rparr>,
     \<lparr>tok_name = ''in'', MinLen = 2, tok_type = T_In, tok_val = 0\<rparr>,
     \<lparr>tok_name = ''include'', MinLen = 3, tok_type = T_Include, tok_val = 0\<rparr>,
     \<lparr>tok_name = ''includecmd'', MinLen = 10, tok_type = T_IncludeCmd, tok_val = 0\<rparr>,
     \<lparr>tok_name = ''info'', MinLen = 4, tok_type = T_Info, tok_val = 0\<rparr>,
     \<lparr>tok_name = ''january'', MinLen = 3, tok_type = T_Month, tok_val = 0\<rparr>,
     \<lparr>tok_name = ''july'', MinLen = 3, tok_type = T_Month, tok_val = 6\<rparr>,
     \<lparr>tok_name = ''june'', MinLen = 3, tok_type = T_Month, tok_val = 5\<rparr>,
     \<lparr>tok_name = ''last'', MinLen = 4, tok_type = T_Ordinal, tok_val = - 1\<rparr>,
     \<lparr>tok_name = ''lastday'', MinLen = 7, tok_type = T_BackAdj, tok_val = - 1\<rparr>,
     \<lparr>tok_name = ''lastworkday'', MinLen = 11, tok_type = T_BackAdj, tok_val = 1\<rparr>,
     \<lparr>tok_name = ''march'', MinLen = 3, tok_type = T_Month, tok_val = 2\<rparr>,
     \<lparr>tok_name = ''max-overdue'', MinLen = 11, tok_type = T_MaxOverdue, tok_val = 0\<rparr>,
     \<lparr>tok_name = ''may'', MinLen = 3, tok_type = T_Month, tok_val = 4\<rparr>,
     \<lparr>tok_name = ''maybe-uncomputable'', MinLen = 5, tok_type = T_MaybeUncomputable, tok_val = 0\<rparr>,
     \<lparr>tok_name = ''monday'', MinLen = 3, tok_type = T_WkDay, tok_val = 0\<rparr>,
     \<lparr>tok_name = ''msf'', MinLen = 3, tok_type = T_RemType, tok_val = MSF_TYPE\<rparr>,
     \<lparr>tok_name = ''msg'', MinLen = 3, tok_type = T_RemType, tok_val = MSG_TYPE\<rparr>,
     \<lparr>tok_name = ''noqueue'', MinLen = 7, tok_type = T_NoQueue, tok_val = 0\<rparr>,
     \<lparr>tok_name = ''november'', MinLen = 3, tok_type = T_Month, tok_val = 10\<rparr>,
     \<lparr>tok_name = ''october'', MinLen = 3, tok_type = T_Month, tok_val = 9\<rparr>,
     \<lparr>tok_name = ''omit'', MinLen = 4, tok_type = T_Omit, tok_val = 0\<rparr>,
     \<lparr>tok_name = ''omitfunc'', MinLen = 8, tok_type = T_OmitFunc, tok_val = 0\<rparr>,
     \<lparr>tok_name = ''once'', MinLen = 4, tok_type = T_Once, tok_val = 0\<rparr>,
     \<lparr>tok_name = ''pop-funcs'', MinLen = 9, tok_type = T_PopFuncs, tok_val = 0\<rparr>,
     \<lparr>tok_name = ''pop-omit-context'', MinLen = 3, tok_type = T_Pop, tok_val = 0\<rparr>,
     \<lparr>tok_name = ''pop-vars'', MinLen = 8, tok_type = T_PopVars, tok_val = 0\<rparr>,
     \<lparr>tok_name = ''preserve'', MinLen = 8, tok_type = T_Preserve, tok_val = 0\<rparr>,
     \<lparr>tok_name = ''priority'', MinLen = 8, tok_type = T_Priority, tok_val = 0\<rparr>,
     \<lparr>tok_name = ''ps'', MinLen = 2, tok_type = T_RemType, tok_val = PS_TYPE\<rparr>,
     \<lparr>tok_name = ''psfile'', MinLen = 6, tok_type = T_RemType, tok_val = PSF_TYPE\<rparr>,
     \<lparr>tok_name = ''push-funcs'', MinLen = 10, tok_type = T_PushFuncs, tok_val = 0\<rparr>,
     \<lparr>tok_name = ''push-omit-context'', MinLen = 4, tok_type = T_Push, tok_val = 0\<rparr>,
     \<lparr>tok_name = ''push-vars'', MinLen = 9, tok_type = T_PushVars, tok_val = 0\<rparr>,
     \<lparr>tok_name = ''rem'', MinLen = 3, tok_type = T_Rem, tok_val = 0\<rparr>,
     \<lparr>tok_name = ''return'', MinLen = 6, tok_type = T_Return, tok_val = 0\<rparr>,
     \<lparr>tok_name = ''run'', MinLen = 3, tok_type = T_RemType, tok_val = RUN_TYPE\<rparr>,
     \<lparr>tok_name = ''satisfy'', MinLen = 7, tok_type = T_RemType, tok_val = SAT_TYPE\<rparr>,
     \<lparr>tok_name = ''saturday'', MinLen = 3, tok_type = T_WkDay, tok_val = 5\<rparr>,
     \<lparr>tok_name = ''scanfrom'', MinLen = 4, tok_type = T_Scanfrom, tok_val = SCANFROM_TYPE\<rparr>,
     \<lparr>tok_name = ''sched'', MinLen = 5, tok_type = T_Sched, tok_val = 0\<rparr>,
     \<lparr>tok_name = ''second'', MinLen = 6, tok_type = T_Ordinal, tok_val = 1\<rparr>,
     \<lparr>tok_name = ''september'', MinLen = 3, tok_type = T_Month, tok_val = 8\<rparr>,
     \<lparr>tok_name = ''set'', MinLen = 3, tok_type = T_Set, tok_val = 0\<rparr>,
     \<lparr>tok_name = ''skip'', MinLen = 4, tok_type = T_Skip, tok_val = SKIP_SKIP\<rparr>,
     \<lparr>tok_name = ''special'', MinLen = 7, tok_type = T_RemType, tok_val = PASSTHRU_TYPE\<rparr>,
     \<lparr>tok_name = ''sunday'', MinLen = 3, tok_type = T_WkDay, tok_val = 6\<rparr>,
     \<lparr>tok_name = ''sysinclude'', MinLen = 10, tok_type = T_IncludeSys, tok_val = 0\<rparr>,
     \<lparr>tok_name = ''tag'', MinLen = 3, tok_type = T_Tag, tok_val = 0\<rparr>,
     \<lparr>tok_name = ''third'', MinLen = 5, tok_type = T_Ordinal, tok_val = 2\<rparr>,
     \<lparr>tok_name = ''through'', MinLen = 7, tok_type = T_Through, tok_val = 0\<rparr>,
     \<lparr>tok_name = ''thursday'', MinLen = 3, tok_type = T_WkDay, tok_val = 3\<rparr>,
     \<lparr>tok_name = ''todo'', MinLen = 4, tok_type = T_Todo, tok_val = 0\<rparr>,
     \<lparr>tok_name = ''translate'', MinLen = 5, tok_type = T_Translate, tok_val = 0\<rparr>,
     \<lparr>tok_name = ''tuesday'', MinLen = 3, tok_type = T_WkDay, tok_val = 1\<rparr>,
     \<lparr>tok_name = ''tz'', MinLen = 2, tok_type = T_Tz, tok_val = 0\<rparr>,
     \<lparr>tok_name = ''unset'', MinLen = 5, tok_type = T_UnSet, tok_val = 0\<rparr>,
     \<lparr>tok_name = ''until'', MinLen = 5, tok_type = T_Until, tok_val = 0\<rparr>,
     \<lparr>tok_name = ''warn'', MinLen = 4, tok_type = T_Warn, tok_val = 0\<rparr>,
     \<lparr>tok_name = ''wednesday'', MinLen = 3, tok_type = T_WkDay, tok_val = 2\<rparr>
    ]"

section \<open>Literal times and dates\<close>

text \<open>The separators a script can change, \<open>$TimeSep\<close> and \<open>$DateSep\<close>.\<close>

record seps =
  TimeSep :: char
  DateSep :: char

definition default_seps :: seps where
  "default_seps = \<lparr>TimeSep = CHR '':'', DateSep = CHR ''-''\<rparr>"

definition starts :: "(char \<Rightarrow> bool) \<Rightarrow> string \<Rightarrow> bool" where
  "starts P s = (case s of [] \<Rightarrow> False | c # _ \<Rightarrow> P c)"

lemma starts_simps [simp]: "starts P [] = False" "starts P (c # s) = P c"
  by (simp_all add: starts_def)

definition is_timesep :: "seps \<Rightarrow> char \<Rightarrow> bool" where
  "is_timesep sp c \<longleftrightarrow> c = CHR '':'' \<or> c = CHR ''.'' \<or> c = TimeSep sp"

definition is_datesep :: "seps \<Rightarrow> char \<Rightarrow> bool" where
  "is_datesep sp c \<longleftrightarrow> c = CHR ''/'' \<or> c = CHR ''-'' \<or> c = DateSep sp"

text \<open>The optional \<open>a[m]\<close> or \<open>p[m]\<close> after a time: the lower-case letter and the rest.\<close>

definition parse_ampm :: "string \<Rightarrow> char option \<times> string" where
  "parse_ampm s =
    (if starts (\<lambda>c. c = CHR ''A'' \<or> c = CHR ''a'' \<or> c = CHR ''P'' \<or> c = CHR ''p'') s
     then (let r = tl s
           in (Some (tolower (hd s)), if starts (\<lambda>c. c = CHR ''m'' \<or> c = CHR ''M'') r then tl r else r))
     else (None, s))"

text \<open>The hour an \<open>a\<close> or \<open>p\<close> makes of a 12-hour one; \<open>None\<close> is \<open>E_BAD_TIME\<close>.\<close>

definition ampm_hour :: "char option \<Rightarrow> int \<Rightarrow> int option" where
  "ampm_hour ampm h =
    (case ampm of
       None \<Rightarrow> Some h
     | Some a \<Rightarrow>
         if h < 1 \<or> h > 12 then None
         else if a = CHR ''a'' then Some (if h = 12 then 0 else h)
         else Some (if h < 12 then h + 12 else h))"

definition ParseLiteralTime :: "seps \<Rightarrow> string \<Rightarrow> errcode + int \<times> string" where
  "ParseLiteralTime sp s =
    (if \<not> starts isdigit s then Inl E_BAD_TIME
     else let (h, s) = parse_digits 0 s in
       if \<not> starts (is_timesep sp) s then Inl E_BAD_TIME
       else let s = tl s in
         if \<not> starts isdigit s then Inl E_BAD_TIME
         else let (m, s) = parse_digits 0 s; (ampm, s) = parse_ampm s in
           if h > 23 \<or> m > 59 then Inl E_BAD_TIME
           else case ampm_hour ampm h of
             None \<Rightarrow> Inl E_BAD_TIME
           | Some h \<Rightarrow> Inr (cint (cint (h * 60) + m), s))"

text \<open>The result is the date, the time (one of them may be absent) and what is left.\<close>

definition ParseLiteralDateOrTime ::
    "seps \<Rightarrow> string \<Rightarrow> errcode + int \<times> int \<times> string" where
  "ParseLiteralDateOrTime sp orig_s =
    (if \<not> starts isdigit orig_s then Inl E_BAD_DATE
     else let (y, s) = parse_digits 0 orig_s in
       if starts (is_timesep sp) s then
         (case ParseLiteralTime sp orig_s of
            Inl e \<Rightarrow> Inl e | Inr (tim, s) \<Rightarrow> Inr (NO_DATE, tim, s))
       else if \<not> starts (is_datesep sp) s then Inl E_BAD_DATE
       else let s = tl s in
         if \<not> starts isdigit s then Inl E_BAD_DATE
         else let (m, s) = parse_digits 0 s; m = cint (m - 1) in
           if \<not> starts (is_datesep sp) s then Inl E_BAD_DATE
           else let s = tl s in
             if \<not> starts isdigit s then Inl E_BAD_DATE
             else let (d, s) = parse_digits 0 s in
               if \<not> DateOK y m d then Inl E_BAD_DATE
               else let dse = DSE y m d in
                 if starts (\<lambda>c. c = CHR '' '' \<or> c = CHR ''@'' \<or> c = CHR ''T'' \<or> c = CHR ''t'') s
                 then (case ParseLiteralTime sp (tl s) of
                         Inl e \<Rightarrow> Inl e | Inr (tim, s) \<Rightarrow> Inr (dse, tim, s))
                 else Inr (dse, NO_TIME, s))"

section \<open>Numeric tokens\<close>

text \<open>What a search leaves in a token: its type and value.\<close>

type_synonym tok_result = "TokTypes \<times> int"

definition init_token :: tok_result where
  "init_token = (T_Illegal, 0)"

definition token_error :: "errcode \<Rightarrow> tok_result" where
  "token_error e = (T_Illegal, - errnum e)"

definition classify_number :: "int \<Rightarrow> tok_result" where
  "classify_number v =
    (if v \<ge> BASE \<and> v \<le> BASE + YR_RANGE then (T_Year, v)
     else if v \<ge> 1 \<and> v \<le> 31 then (T_Day, v) else (T_Number, v))"

definition date_token :: "seps \<Rightarrow> string \<Rightarrow> tok_result" where
  "date_token sp s =
    (case ParseLiteralDateOrTime sp s of
       Inl e \<Rightarrow> token_error e
     | Inr (dse, tim, p) \<Rightarrow>
         if p \<noteq> [] then
           (T_Illegal, if tim = NO_TIME then - errnum E_BAD_DATE else - errnum E_BAD_TIME)
         else if tim = NO_TIME then (T_Date, dse)
         else if dse = NO_DATE then (T_Time, tim)
         else (T_DateTime, cint (MINUTES_PER_DAY * dse + tim)))"

definition time_token :: "int \<Rightarrow> string \<Rightarrow> tok_result" where
  "time_token hour s =
    (if \<not> starts isdigit s then token_error E_BAD_TIME
     else let (min, s) = parse_digits 0 s in
       if min > 59 then token_error E_BAD_TIME
       else let (ampm, s) = parse_ampm s in
         if s \<noteq> [] then token_error E_BAD_TIME
         else case ampm_hour ampm hour of
           None \<Rightarrow> token_error E_BAD_TIME
         | Some hour \<Rightarrow>
             (if hour \<le> 23 then T_Time else T_LongTime, cint (cint (hour * 60) + min)))"

text \<open>The tokens \<open>*n\<close>, \<open>+n\<close>, \<open>++n\<close>, \<open>-n\<close>, \<open>--n\<close>, \<open>~n\<close> and \<open>~~n\<close> after their sign.\<close>

definition signed_token :: "TokTypes \<Rightarrow> int \<Rightarrow> string \<Rightarrow> tok_result" where
  "signed_token ty mult s =
    (if \<not> starts isdigit s then init_token
     else let (v, s) = parse_digits 0 s in
       if s \<noteq> [] then token_error E_BAD_NUMBER else (ty, cint (v * mult)))"

definition doubled_token :: "TokTypes \<Rightarrow> char \<Rightarrow> string \<Rightarrow> tok_result" where
  "doubled_token ty sign s =
    (if starts (\<lambda>c. c = sign) s then signed_token ty (-1) (tl s) else signed_token ty 1 s)"

definition FindNumericToken :: "seps \<Rightarrow> string \<Rightarrow> tok_result" where
  "FindNumericToken sp s =
    (if starts isdigit s then
       let (v, r) = parse_digits 0 s in
       if starts (\<lambda>c. c = CHR ''-'' \<or> c = CHR ''/'') r then date_token sp s
       else if r = '','' then classify_number v
       else if starts (is_timesep sp) r then time_token v (tl r)
       else if r \<noteq> [] then token_error E_BAD_NUMBER
       else classify_number v
     else if starts (\<lambda>c. c = CHR ''*'') s then signed_token T_Rep 1 (tl s)
     else if starts (\<lambda>c. c = CHR ''+'') s then doubled_token T_Delta (CHR ''+'') (tl s)
     else if starts (\<lambda>c. c = CHR ''-'') s then doubled_token T_Back (CHR ''-'') (tl s)
     else if starts (\<lambda>c. c = CHR ''~'') s then doubled_token T_BackAdj (CHR ''~'') (tl s)
     else init_token)"

section \<open>Word tokens\<close>

fun TokStrCmp :: "string \<Rightarrow> string \<Rightarrow> int" where
  "TokStrCmp tk [] = 0"
| "TokStrCmp [] (c # s) =
    (if c = CHR '','' \<and> s = [] then 0 else 0 - ch (tolower c))"
| "TokStrCmp (t # tk) (c # s) =
    (if c = CHR '','' \<and> s = [] then 0
     else let r = ch t - ch (tolower c) in if r \<noteq> 0 then r else TokStrCmp tk s)"

definition tok_cmp :: "string \<Rightarrow> int \<Rightarrow> int" where
  "tok_cmp s i = TokStrCmp (tok_name (TokArray ! nat i)) s"

text \<open>After a match that is too short: back to the first match, then on to one long enough.\<close>

primrec first_match :: "string \<Rightarrow> nat \<Rightarrow> nat" where
  "first_match s 0 = 0"
| "first_match s (Suc mid) = (if tok_cmp s (int mid) = 0 then first_match s mid else Suc mid)"

function long_match :: "string \<Rightarrow> int \<Rightarrow> nat \<Rightarrow> nat" where
  "long_match s l mid =
    (if mid < length TokArray \<and> tok_cmp s (int mid) = 0 \<and> l < MinLen (TokArray ! mid)
     then long_match s l (Suc mid) else mid)"
  by pat_completeness auto
termination
  by (relation "measure (\<lambda>(s, l, mid). length TokArray - mid)") auto

declare long_match.simps [simp del]

definition tok_entry :: "nat \<Rightarrow> tok_result" where
  "tok_entry i = (tok_type (TokArray ! i), tok_val (TokArray ! i))"

definition FindToken :: "seps \<Rightarrow> string \<Rightarrow> tok_result" where
  "FindToken sp s =
    (if s = [] then (T_Empty, 0)
     else if hd s = CHR ''#'' \<or> hd s = CHR '';'' then (T_Comment, 0)
     else if \<not> isalpha (hd s) then FindNumericToken sp s
     else
       let l = int (length s); l = (if last s = CHR '','' then l - 1 else l)
       in case bsearch (tok_cmp s) 0 (int (length TokArray) - 1) of
            None \<Rightarrow> init_token
          | Some mid \<Rightarrow>
              if l \<ge> MinLen (TokArray ! nat mid) then tok_entry (nat mid)
              else let mid = long_match s l (first_match s (nat mid)) in
                if mid < length TokArray \<and> tok_cmp s (int mid) = 0 then tok_entry mid
                else init_token)"

text \<open>\<open>isempty\<close> of \<^verbatim>\<open>protos.h\<close>: the characters a word of a line ends at.\<close>

definition isempty :: "char \<Rightarrow> bool" where
  "isempty c \<longleftrightarrow> isspace c \<or> c = CHR 0x5C"

definition FindInitialToken :: "seps \<Rightarrow> string \<Rightarrow> tok_result \<times> string" where
  "FindInitialToken sp s =
    (let s = dropWhile isempty s; buf = takeWhile (\<lambda>c. \<not> isempty c) s
     in (FindToken sp buf, dropWhile (\<lambda>c. \<not> isempty c) s))"

section \<open>The search finds what the table says\<close>

text \<open>
  A word is compared in lower case, without its last character if that is a comma; it
  \<open>qualifies\<close> as a token when it abbreviates the token's name to no less than \<open>MinLen\<close>
  characters.  \<open>lookup_token\<close> reads the table from its start.
\<close>

definition canon :: "string \<Rightarrow> string" where
  "canon s = map tolower (if s \<noteq> [] \<and> last s = CHR '','' then butlast s else s)"

definition cstring :: "string \<Rightarrow> bool" where
  "cstring s \<longleftrightarrow> CHR 0x00 \<notin> set s"

definition qualifies :: "string \<Rightarrow> Token \<Rightarrow> bool" where
  "qualifies s t \<longleftrightarrow> prefix (canon s) (tok_name t) \<and> MinLen t \<le> int (length (canon s))"

fun name_less :: "string \<Rightarrow> string \<Rightarrow> bool" where
  "name_less _ [] = False"
| "name_less [] (y # ys) = True"
| "name_less (x # xs) (y # ys) = (ch x < ch y \<or> x = y \<and> name_less xs ys)"


lemma of_char_int: "(of_char c :: int) = int (of_char c)"
  by (simp add: of_nat_of_char)

lemma of_char_int_bounds [simp]: "0 \<le> (of_char c :: int)" "(of_char c :: int) < 256"
  using nat_of_char_less_256 [of c] unfolding of_char_int by linarith+

lemma ch_inj [simp]: "ch c = ch d \<longleftrightarrow> c = d"
proof
  assume "ch c = ch d"
  then have "(of_char c :: int) = of_char d"
    using of_char_int_bounds [of c] of_char_int_bounds [of d]
    unfolding ch_def Let_def
    by (cases "128 \<le> (of_char c :: int)"; cases "128 \<le> (of_char d :: int)"; simp; linarith)
  then show "c = d" by simp
qed simp

lemma name_less_trans: "name_less x y \<Longrightarrow> name_less y z \<Longrightarrow> name_less x z"
proof (induction x y arbitrary: z rule: name_less.induct)
  case (2 y ys)
  then show ?case by (cases z) auto
next
  case (3 x xs y ys)
  then show ?case by (cases z) auto
qed simp

lemma TokArray_succ: "successively name_less (map tok_name TokArray)"
  by (simp add: TokArray_def ch_def)

lemma TokArray_sorted: "sorted_wrt name_less (map tok_name TokArray)"
  using TokArray_succ name_less_trans
  by (subst successively_conv_sorted_wrt [symmetric]) (auto intro: transpI)

lemma TokArray_pos: "list_all (\<lambda>t. \<forall>c \<in> set (tok_name t). 0 < ch c) TokArray"
  by (simp add: TokArray_def ch_def)


lemma canon_simps [simp]:
  "canon [] = []" "canon [c] = (if c = CHR '','' then [] else [tolower c])"
  "s \<noteq> [] \<Longrightarrow> canon (c # s) = tolower c # canon s"
  by (auto simp: canon_def)

lemma tolower_nonzero: "c \<noteq> CHR 0x00 \<Longrightarrow> ch (tolower c) \<noteq> 0"
proof -
  assume "c \<noteq> CHR 0x00"
  moreover have "isupper c \<Longrightarrow> tolower c \<noteq> CHR 0x00"
  proof
    assume "isupper c" "tolower c = CHR 0x00"
    then have "of_char (char_of (of_char c + 32 :: int)) = (0::int)" by (simp add: tolower_def)
    then show False using \<open>isupper c\<close> by (simp add: isupper_def)
  qed
  ultimately have "tolower c \<noteq> CHR 0x00" by (auto simp: tolower_def split: if_splits)
  then have "ch (tolower c) \<noteq> ch (CHR 0x00)" by (subst ch_inj)
  then show ?thesis by (simp add: ch_def)
qed

lemma TokStrCmp_eq_0: "cstring s \<Longrightarrow> TokStrCmp t s = 0 \<longleftrightarrow> prefix (canon s) t"
proof (induction t s rule: TokStrCmp.induct)
  case (2 c s)
  then show ?case using tolower_nonzero [of c] by (cases "s = []") (auto simp: cstring_def)
next
  case (3 t tk c s)
  show ?case
  proof (cases "c = CHR '','' \<and> s = []")
    case False
    then have "canon (c # s) = tolower c # canon s" by (cases "s = []") auto
    with 3 False show ?thesis by (auto simp: cstring_def Let_def)
  qed simp
qed simp

lemma TokStrCmp_above:
  "name_less n m \<Longrightarrow> \<forall>c \<in> set m. 0 < ch c \<Longrightarrow> 0 < TokStrCmp n s \<Longrightarrow> 0 < TokStrCmp m s"
proof (induction n m arbitrary: s rule: name_less.induct)
  case (2 y ys)
  then show ?case by (cases s) (auto simp: Let_def split: if_splits)
next
  case (3 x xs y ys)
  then show ?case by (cases s) (auto simp: Let_def split: if_splits)
qed simp

lemma TokStrCmp_below:
  "name_less n m \<Longrightarrow> \<forall>c \<in> set m. 0 < ch c \<Longrightarrow> TokStrCmp m s < 0 \<Longrightarrow> TokStrCmp n s < 0"
proof (induction n m arbitrary: s rule: name_less.induct)
  case (2 y ys)
  then show ?case by (cases s) (auto simp: Let_def split: if_splits)
next
  case (3 x xs y ys)
  then show ?case by (cases s) (auto simp: Let_def split: if_splits)
qed simp

lemma TokArray_nth_less:
  assumes "0 \<le> i" "i < j" "j < int (length TokArray)"
  shows "name_less (tok_name (TokArray ! nat i)) (tok_name (TokArray ! nat j))"
    "\<forall>c \<in> set (tok_name (TokArray ! nat j)). 0 < ch c"
proof -
  have "nat i < nat j" "nat j < length TokArray" using assms by auto
  then show "name_less (tok_name (TokArray ! nat i)) (tok_name (TokArray ! nat j))"
    "\<forall>c \<in> set (tok_name (TokArray ! nat j)). 0 < ch c"
    using sorted_wrt_nth_less [OF TokArray_sorted, of "nat i" "nat j"] TokArray_pos
    by (auto simp: list_all_length)
qed

interpretation tokens: search_table "tok_cmp s" "int (length TokArray)" for s
  unfolding tok_cmp_def
  by unfold_locales
    (rule TokStrCmp_above [OF TokArray_nth_less] TokStrCmp_below [OF TokArray_nth_less]; assumption)+

lemma first_match_spec:
  "tok_cmp s (int mid) = 0 \<Longrightarrow>
   first_match s mid \<le> mid \<and> tok_cmp s (int (first_match s mid)) = 0
     \<and> (\<forall>k < first_match s mid. tok_cmp s (int k) = 0 \<longrightarrow> Suc k < first_match s mid)"
  by (induction mid) (auto simp: less_Suc_eq)

lemma long_match_spec:
  "mid \<le> long_match s l mid
   \<and> (\<forall>k. mid \<le> k \<longrightarrow> k < long_match s l mid \<longrightarrow>
        k < length TokArray \<and> tok_cmp s (int k) = 0 \<and> l < MinLen (TokArray ! k))
   \<and> \<not> (long_match s l mid < length TokArray \<and> tok_cmp s (int (long_match s l mid)) = 0
        \<and> l < MinLen (TokArray ! long_match s l mid))"
proof (induction s l mid rule: long_match.induct)
  case (1 s l mid)
  show ?case
  proof (cases "mid < length TokArray \<and> tok_cmp s (int mid) = 0 \<and> l < MinLen (TokArray ! mid)")
    case True
    then have eq: "long_match s l mid = long_match s l (Suc mid)"
      by (simp add: long_match.simps [of s l mid])
    have "k < length TokArray \<and> tok_cmp s (int k) = 0 \<and> l < MinLen (TokArray ! k)"
      if "mid \<le> k" "k < long_match s l mid" for k
      using 1 [OF True] True that unfolding eq by (cases "k = mid") auto
    with 1 [OF True] show ?thesis unfolding eq by auto
  next
    case False
    then have "long_match s l mid = mid" by (auto simp: long_match.simps [of s l mid])
    with False show ?thesis by auto
  qed
qed


text \<open>No two entries share a prefix that is long enough for both.\<close>

fun clash :: "int \<Rightarrow> string \<Rightarrow> string \<Rightarrow> bool" where
  "clash n (x # xs) (y # ys) =
    (if x = y then (if n \<le> 1 then True else clash (n - 1) xs ys) else False)"
| "clash n xs ys = False"

lemma clash_prefix:
  "prefix p a \<Longrightarrow> prefix p b \<Longrightarrow> 1 \<le> n \<Longrightarrow> n \<le> int (length p) \<Longrightarrow> clash n a b"
proof (induction n a b arbitrary: p rule: clash.induct)
  case (1 n x xs y ys)
  then show ?case by (cases p) auto
qed (auto simp: prefix_def)

lemma clash_mono: "clash n a b \<Longrightarrow> m \<le> n \<Longrightarrow> clash m a b"
  by (induction n a b arbitrary: m rule: clash.induct) (auto split: if_splits)

lemma clash_between: "name_less a b \<Longrightarrow> name_less b c \<Longrightarrow> clash n a c \<Longrightarrow> clash n a b"
proof (induction n a c arbitrary: b rule: clash.induct)
  case (1 n x xs z zs)
  then show ?case by (cases b) (auto split: if_splits)
qed auto

fun clash_free :: "string \<Rightarrow> int \<Rightarrow> Token list \<Rightarrow> bool" where
  "clash_free a m [] = True"
| "clash_free a m (t # ts) =
    (if clash m a (tok_name t)
     then (if clash (max m (MinLen t)) a (tok_name t) then False else clash_free a m ts)
     else True)"

fun all_clash_free :: "Token list \<Rightarrow> bool" where
  "all_clash_free [] = True"
| "all_clash_free (t # ts) =
    (if clash_free (tok_name t) (MinLen t) ts then all_clash_free ts else False)"

lemma clash_freeD:
  "clash_free a m ts \<Longrightarrow> sorted_wrt name_less (a # map tok_name ts) \<Longrightarrow> u \<in> set ts \<Longrightarrow>
   \<not> clash (max m (MinLen u)) a (tok_name u)"
proof (induction ts)
  case (Cons t ts)
  show ?case
  proof (cases "u = t \<or> clash m a (tok_name t)")
    case True
    with Cons show ?thesis by (auto split: if_splits dest: clash_mono [of _ _ _ m])
  next
    case False
    then have "u \<in> set ts" using Cons.prems by simp
    then have "name_less a (tok_name t)" "name_less (tok_name t) (tok_name u)"
      using Cons.prems by auto
    then have "\<not> clash m a (tok_name u)" using False clash_between by blast
    then show ?thesis using clash_mono [of _ _ _ m] by fastforce
  qed
qed simp

lemma all_clash_freeD:
  "all_clash_free ts \<Longrightarrow> sorted_wrt name_less (map tok_name ts) \<Longrightarrow>
   sorted_wrt (\<lambda>t u. \<not> clash (max (MinLen t) (MinLen u)) (tok_name t) (tok_name u)) ts"
proof (induction ts)
  case (Cons t ts)
  then show ?case using clash_freeD [of "tok_name t" "MinLen t" ts] by (auto split: if_splits)
qed simp

lemma TokArray_clash_free: "all_clash_free TokArray"
  by (simp add: TokArray_def)

lemmas TokArray_no_clash = all_clash_freeD [OF TokArray_clash_free TokArray_sorted]

lemma TokArray_MinLen: "list_all (\<lambda>t. 1 \<le> MinLen t) TokArray"
  by (simp add: TokArray_def)

lemma qualifies_unique:
  assumes "i < length TokArray" "j < length TokArray"
    and "qualifies s (TokArray ! i)" "qualifies s (TokArray ! j)"
  shows "i = j"
proof -
  have "\<not> (i < j \<and> j < length TokArray \<and> qualifies s (TokArray ! i) \<and> qualifies s (TokArray ! j))"
    for i j
  proof
    assume *: "i < j \<and> j < length TokArray \<and> qualifies s (TokArray ! i) \<and> qualifies s (TokArray ! j)"
    let ?n = "max (MinLen (TokArray ! i)) (MinLen (TokArray ! j))"
    have "1 \<le> ?n" using * TokArray_MinLen by (auto simp: list_all_length)
    then have "clash ?n (tok_name (TokArray ! i)) (tok_name (TokArray ! j))"
      using * by (intro clash_prefix [of "canon s"]) (auto simp: qualifies_def)
    then show False using sorted_wrt_nth_less [OF TokArray_no_clash, of i j] * by simp
  qed
  then show ?thesis using assms by (cases i j rule: linorder_cases) blast+
qed

definition lookup_token :: "string \<Rightarrow> tok_result" where
  "lookup_token s =
    (case find (qualifies s) TokArray of
       None \<Rightarrow> init_token | Some t \<Rightarrow> (tok_type t, tok_val t))"

lemma lookup_token_entry:
  assumes "i < length TokArray" "qualifies s (TokArray ! i)"
  shows "lookup_token s = tok_entry i"
proof -
  obtain t where t: "find (qualifies s) TokArray = Some t"
    using assms by (cases "find (qualifies s) TokArray") (auto simp: find_None_iff)
  then obtain j where "j < length TokArray" "t = TokArray ! j" "qualifies s t"
    by (auto simp: find_Some_iff)
  then have "j = i" using assms qualifies_unique by blast
  then show ?thesis using t \<open>t = TokArray ! j\<close> by (simp add: lookup_token_def tok_entry_def)
qed

lemma lookup_token_none:
  "(\<And>i. i < length TokArray \<Longrightarrow> \<not> qualifies s (TokArray ! i)) \<Longrightarrow> lookup_token s = init_token"
  unfolding lookup_token_def using find_None_iff [of "qualifies s" TokArray]
  by (metis in_set_conv_nth option.simps(4))

lemma length_canon: "s \<noteq> [] \<Longrightarrow>
  int (length (canon s)) = (if last s = CHR '','' then int (length s) - 1 else int (length s))"
  by (cases s) (auto simp: canon_def)

lemma tok_cmp_qualifies:
  "cstring s \<Longrightarrow> qualifies s (TokArray ! i)
    \<longleftrightarrow> tok_cmp s (int i) = 0 \<and> MinLen (TokArray ! i) \<le> int (length (canon s))"
  by (simp add: qualifies_def tok_cmp_def TokStrCmp_eq_0)

lemma FindToken_lookup:
  assumes s: "s \<noteq> []" "isalpha (hd s)" "cstring s"
  shows "FindToken sp s = lookup_token s"
proof -
  let ?n = "int (length TokArray)" and ?l = "int (length (canon s))"
  note qual = tok_cmp_qualifies [OF s(3)]
  have start: "FindToken sp s =
      (case bsearch (tok_cmp s) 0 (?n - 1) of
         None \<Rightarrow> init_token
       | Some mid \<Rightarrow>
           if ?l \<ge> MinLen (TokArray ! nat mid) then tok_entry (nat mid)
           else let mid = long_match s ?l (first_match s (nat mid)) in
             if mid < length TokArray \<and> tok_cmp s (int mid) = 0 then tok_entry mid
             else init_token)"
    using s(1,2) unfolding FindToken_def Let_def length_canon [OF s(1), symmetric]
    by (auto simp: isalpha_def isupper_def islower_def)
  show ?thesis
  proof (cases "bsearch (tok_cmp s) 0 (?n - 1)")
    case None
    then have "tok_cmp s (int i) \<noteq> 0" if "i < length TokArray" for i
      using tokens.bsearch_iff [of s] that by (metis of_nat_0_le_iff of_nat_less_iff)
    then show ?thesis using start None lookup_token_none [of s] qual by simp
  next
    case (Some mid)
    define m where "m = nat mid"
    have m: "mid = int m" "m < length TokArray" "tok_cmp s (int m) = 0"
      using bsearch_sound [OF Some] by (auto simp: m_def)
    show ?thesis
    proof (cases "MinLen (TokArray ! m) \<le> ?l")
      case True
      then show ?thesis using start Some m lookup_token_entry [of m s] qual by simp
    next
      case False
      define f where "f = first_match s m"
      define k where "k = long_match s ?l f"
      have res: "FindToken sp s =
          (if k < length TokArray \<and> tok_cmp s (int k) = 0 then tok_entry k else init_token)"
        using start Some m False by (simp add: k_def f_def Let_def)
      note lm = long_match_spec [of f s ?l, folded k_def]
      show ?thesis
      proof (cases "k < length TokArray \<and> tok_cmp s (int k) = 0")
        case True
        then show ?thesis using res lm lookup_token_entry [of k s] qual by auto
      next
        case no: False
        have "\<not> qualifies s (TokArray ! i)" if i: "i < length TokArray" for i
        proof
          assume q: "qualifies s (TokArray ! i)"
          then have ci: "tok_cmp s (int i) = 0" "MinLen (TokArray ! i) \<le> ?l" using qual by auto
          have fm: "f \<le> m" "tok_cmp s (int f) = 0"
            "\<forall>j < f. tok_cmp s (int j) = 0 \<longrightarrow> Suc j < f"
            using first_match_spec [OF m(3)] by (simp_all add: f_def)
          have "f \<le> i"
          proof (rule ccontr)
            assume "\<not> f \<le> i"
            then obtain g where g: "f = Suc g" "i \<le> g" by (cases f) auto
            then have "tok_cmp s (int g) = 0"
              using tokens.zeros_contiguous [of "int i" "int g" "int f" s] ci fm m by simp
            then show False using fm(3) g by auto
          qed
          moreover have "i < k"
          proof (rule ccontr)
            assume "\<not> i < k"
            then have "tok_cmp s (int k) = 0"
              using tokens.zeros_contiguous [of "int f" "int k" "int i" s] ci(1) fm(2) lm i by simp
            then show False using no \<open>\<not> i < k\<close> i by simp
          qed
          ultimately show False using lm ci by (meson not_less)
        qed
        then show ?thesis using res no lookup_token_none by simp
      qed
    qed
  qed
qed

section \<open>Bounds of numeric tokens\<close>

definition digits_val :: "int \<Rightarrow> string \<Rightarrow> int" where
  "digits_val = foldl (\<lambda>v c. v * 10 + (ch c - 48))"

lemma isdigit_ch: "isdigit c \<Longrightarrow> 0 \<le> ch c - 48 \<and> ch c - 48 \<le> 9"
  by (auto simp: isdigit_def ch_def)

lemma digits_val_simps [simp]:
  "digits_val v [] = v" "digits_val v (c # s) = digits_val (v * 10 + (ch c - 48)) s"
  by (simp_all add: digits_val_def)

lemma digit_step:
  assumes "isdigit c" "0 \<le> v"
  obtains w where "w = v * 10 + (ch c - 48)" "0 \<le> w" "v * 10 \<le> w"
    "(w + 1) * 10 ^ n \<le> (v + 1) * 10 ^ Suc n" "w + 1 \<le> (w + 1) * 10 ^ n"
proof
  let ?w = "v * 10 + (ch c - 48)"
  show w: "0 \<le> ?w" "v * 10 \<le> ?w" using isdigit_ch [OF assms(1)] assms(2) by auto
  have "?w + 1 \<le> (v + 1) * 10" using isdigit_ch [OF assms(1)] by simp
  then have "(?w + 1) * 10 ^ n \<le> ((v + 1) * 10) * 10 ^ n" by (intro mult_right_mono) auto
  then show "(?w + 1) * 10 ^ n \<le> (v + 1) * 10 ^ Suc n" by (simp add: mult.assoc)
  show "?w + 1 \<le> (?w + 1) * 10 ^ n" using w(1) by (simp add: mult_le_cancel_left1)
qed simp

lemma digits_val_bounds:
  "\<forall>c \<in> set s. isdigit c \<Longrightarrow> 0 \<le> v \<Longrightarrow>
   0 \<le> digits_val v s \<and> digits_val v s < (v + 1) * 10 ^ length s"
proof (induction s arbitrary: v)
  case (Cons c s)
  then have c: "isdigit c" by simp
  obtain w where w: "w = v * 10 + (ch c - 48)" "0 \<le> w"
    "(w + 1) * 10 ^ length s \<le> (v + 1) * 10 ^ Suc (length s)"
    by (rule digit_step [OF c Cons.prems(2), of "length s"])
  have "0 \<le> digits_val w s \<and> digits_val w s < (w + 1) * 10 ^ length s"
    using Cons.prems w(2) by (intro Cons.IH) auto
  moreover have "digits_val v (c # s) = digits_val w s" using w(1) by simp
  ultimately show ?case using w(3) unfolding length_Cons by linarith
qed simp

lemma parse_digits_digits:
  "\<forall>c \<in> set s. isdigit c \<Longrightarrow> \<not> starts isdigit r \<Longrightarrow> 0 \<le> v \<Longrightarrow>
   (v + 1) * 10 ^ length s \<le> 2147483648 \<Longrightarrow> parse_digits v (s @ r) = (digits_val v s, r)"
proof (induction s arbitrary: v)
  case Nil
  then show ?case by (cases r) auto
next
  case (Cons c s)
  then have c: "isdigit c" by simp
  obtain w where w: "w = v * 10 + (ch c - 48)" "0 \<le> w" "v * 10 \<le> w"
    "(w + 1) * 10 ^ length s \<le> (v + 1) * 10 ^ Suc (length s)" "w + 1 \<le> (w + 1) * 10 ^ length s"
    by (rule digit_step [OF c Cons.prems(3), of "length s"])
  have le: "(w + 1) * 10 ^ length s \<le> 2147483648"
    using w(4) Cons.prems(4) unfolding length_Cons by (rule order_trans)
  then have "w + 1 \<le> 2147483648" by (rule order_trans [OF w(5)])
  then have "in_int (v * 10)" "in_int w"
    using w(2,3) Cons.prems(3) unfolding in_int_def by linarith+
  then have "cint (cint (v * 10) + (ch c - 48)) = w" using w(1) by (simp add: cint_id)
  moreover have "parse_digits w (s @ r) = (digits_val w s, r)"
    using Cons.prems w(2) le by (intro Cons.IH) auto
  ultimately show ?case using Cons.prems w(1) by simp
qed

text \<open>
  A run of at most nine digits is read without overflow.
\<close>

lemma parse_digits_bounds:
  assumes "parse_digits 0 s = (v, r)" and "length s \<le> length r + 9"
  shows "0 \<le> v \<and> v < 10 ^ (length s - length r) \<and> (length r < length s \<longleftrightarrow> starts isdigit s)"
proof -
  let ?d = "takeWhile isdigit s" and ?r = "dropWhile isdigit s"
  have nd: "\<not> starts isdigit ?r" using hd_dropWhile [of isdigit s] by (cases ?r) (auto simp del: dropWhile_eq_Nil_conv)
  have rest: "snd (parse_digits w s) = ?r" for w by (induction w s rule: parse_digits.induct) auto
  have r: "r = ?r" using rest [of 0] assms(1) by simp
  have len: "length ?d = length s - length r"
    using r takeWhile_dropWhile_id [of isdigit s] by (metis add_diff_cancel_right' length_append)
  have "length ?d \<le> 9" using len assms(2) by simp
  then have "(10::int) ^ length ?d \<le> 10 ^ 9" by (intro power_increasing) auto
  then have "parse_digits 0 (?d @ ?r) = (digits_val 0 ?d, ?r)"
    using nd set_takeWhileD by (intro parse_digits_digits) fastforce+
  then have "v = digits_val 0 ?d" using assms(1) by simp
  moreover have "\<forall>c \<in> set ?d. isdigit c" using set_takeWhileD by fastforce
  moreover have "length r < length s \<longleftrightarrow> starts isdigit s" unfolding r by (cases s) (auto simp: le_imp_less_Suc length_dropWhile_le)
  ultimately show ?thesis using digits_val_bounds [of ?d 0] len by simp
qed

lemma ampm_hour_bounds: "ampm_hour a h = Some h' \<Longrightarrow> 0 \<le> h \<Longrightarrow> h \<le> 23 \<Longrightarrow> 0 \<le> h' \<and> h' \<le> 23"
  by (auto simp: ampm_hour_def split: option.splits if_splits)

lemma hour_minute_bounds:
  "0 \<le> h \<Longrightarrow> h \<le> 23 \<Longrightarrow> 0 \<le> m \<Longrightarrow> m \<le> 59 \<Longrightarrow>
   0 \<le> cint (cint (h * 60) + m) \<and> cint (cint (h * 60) + m) < 1440"
  by (simp add: cint_id in_int_def)

lemma ParseLiteralTime_bounds:
  assumes "ParseLiteralTime sp s = Inr (t, r)" "length s \<le> 11"
  shows "0 \<le> t \<and> t < 1440"
proof -
  obtain h s1 where h: "parse_digits 0 s = (h, s1)" by fastforce
  obtain m s2 where m: "parse_digits 0 (tl s1) = (m, s2)" by fastforce
  obtain a s3 where a: "parse_ampm s2 = (a, s3)" by fastforce
  have c: "starts isdigit s" "starts (is_timesep sp) s1" "starts isdigit (tl s1)"
    "h \<le> 23" "m \<le> 59" "\<exists>h'. ampm_hour a h = Some h' \<and> t = cint (cint (h' * 60) + m)"
    using assms(1) h m a unfolding ParseLiteralTime_def
    by (auto simp: Let_def split: if_splits option.splits)
  have "2 \<le> length s1" using c(2,3) by (cases s1; cases "tl s1") auto
  then have "0 \<le> h" using parse_digits_bounds [OF h] assms(2) by simp
  moreover have "length (tl s1) \<le> length s2 + 9"
  proof -
    have "length s1 < length s"
      using parse_digits_bounds [OF h] assms(2) c(1) \<open>2 \<le> length s1\<close> by simp
    then have "length (tl s1) \<le> 9" using assms(2) by simp
    then show ?thesis by simp
  qed
  then have "0 \<le> m" using parse_digits_bounds [OF m] by simp
  ultimately show ?thesis using c(4-6) ampm_hour_bounds hour_minute_bounds by fastforce
qed

text \<open>The setters \<open>date_sep_func\<close> and \<open>time_sep_func\<close> of \<^verbatim>\<open>var.c\<close> admit these separators.\<close>

definition seps_ok :: "seps \<Rightarrow> bool" where
  "seps_ok sp \<longleftrightarrow> (TimeSep sp = CHR '':'' \<or> TimeSep sp = CHR ''.'')
     \<and> (DateSep sp = CHR ''-'' \<or> DateSep sp = CHR ''/'')"

lemma ParseLiteralDateOrTime_date:
  assumes "ParseLiteralDateOrTime sp s = Inr (dse, tim, r)"
    and "parse_digits 0 s = (y, s')" "\<not> starts (is_timesep sp) s'"
  shows "\<exists>y m d. DateOK y m d \<and> dse = DSE y m d"
  using assms by (auto simp: ParseLiteralDateOrTime_def Let_def split: if_splits prod.splits sum.splits)

lemma date_token_ranges:
  assumes "date_token sp s = (ty, v)" "seps_ok sp"
    and "parse_digits 0 s = (y, r)" "starts (\<lambda>c. c = CHR ''-'' \<or> c = CHR ''/'') r"
  shows "ty = T_Illegal \<or> ty = T_DateTime \<or> ty = T_Date \<and> (\<exists>y m d. DateOK y m d \<and> v = DSE y m d)"
proof -
  have n: "\<not> starts (is_timesep sp) r"
    using assms(2,4) by (cases r) (auto simp: is_timesep_def seps_ok_def)
  have "ParseLiteralDateOrTime sp s = Inr (dse, tim, p) \<Longrightarrow>
      dse \<noteq> NO_DATE \<and> (\<exists>y m d. DateOK y m d \<and> dse = DSE y m d)" for dse tim p
    using ParseLiteralDateOrTime_date [OF _ assms(3) n] DSE_bounds(3)
    by (fastforce simp: DateOK_is_date)
  then show ?thesis using assms(1)
    by (auto simp: date_token_def token_error_def split: sum.splits prod.splits if_splits)
qed

lemma FindNumericToken_ranges:
  assumes eq: "FindNumericToken sp s = (ty, v)" and sp: "seps_ok sp"
  shows "(ty = T_Year \<longrightarrow> 1990 \<le> v \<and> v \<le> 5990) \<and> (ty = T_Day \<longrightarrow> 1 \<le> v \<and> v \<le> 31)
    \<and> (ty = T_Date \<longrightarrow> (\<exists>y m d. DateOK y m d \<and> v = DSE y m d))"
proof -
  obtain n r where n: "parse_digits 0 s = (n, r)" by fastforce
  show ?thesis
  proof (cases "starts isdigit s \<and> starts (\<lambda>c. c = CHR ''-'' \<or> c = CHR ''/'') r")
    case True
    then have "date_token sp s = (ty, v)" using eq n by (simp add: FindNumericToken_def)
    then show ?thesis using date_token_ranges [OF _ sp n] True by auto
  next
    case False
    then show ?thesis using eq n
      by (auto simp: FindNumericToken_def classify_number_def time_token_def
          signed_token_def doubled_token_def token_error_def init_token_def BASE_def YR_RANGE_def
          split: prod.splits if_splits option.splits)
  qed
qed

lemma FindNumericToken_time:
  assumes eq: "FindNumericToken sp s = (T_Time, v)" and sp: "seps_ok sp" and len: "length s \<le> 11"
  shows "0 \<le> v \<and> v < 1440"
proof -
  obtain h r where h: "parse_digits 0 s = (h, r)" by fastforce
  have dt: "starts (\<lambda>c. c = CHR ''-'' \<or> c = CHR ''/'') r \<Longrightarrow> date_token sp s \<noteq> (T_Time, v)"
    using date_token_ranges [OF _ sp h] by fastforce
  have d: "starts isdigit s" and t: "starts (is_timesep sp) r" "time_token h (tl r) = (T_Time, v)"
    using eq dt h
    by (auto simp: FindNumericToken_def classify_number_def signed_token_def doubled_token_def
        token_error_def init_token_def split: if_splits prod.splits)
  obtain m r2 where m: "parse_digits 0 (tl r) = (m, r2)" by fastforce
  obtain a r3 where a: "parse_ampm r2 = (a, r3)" by fastforce
  have c: "starts isdigit (tl r)" "m \<le> 59"
    "\<exists>h'. ampm_hour a h = Some h' \<and> h' \<le> 23 \<and> v = cint (cint (h' * 60) + m)"
    using t(2) m a
    by (auto simp: time_token_def token_error_def Let_def split: if_splits option.splits)
  have lr: "2 \<le> length r" using c(1) t(1) by (cases r; cases "tl r") auto
  have h0: "0 \<le> h \<and> length r < length s" using parse_digits_bounds [OF h] len lr d by simp
  have "length (tl r) \<le> length r2 + 9"
    using h0 len unfolding length_tl by linarith
  then have "0 \<le> m" using parse_digits_bounds [OF m] by simp
  moreover have "ampm_hour a h = Some h' \<Longrightarrow> 0 \<le> h'" for h'
    using h0 by (auto simp: ampm_hour_def split: option.splits if_splits)
  ultimately show ?thesis using c(2,3) hour_minute_bounds by blast
qed

section \<open>Properties\<close>

text \<open>
  C5. The binary search for a keyword, with its step back to the first candidate and its
  forward scan for the longest, finds exactly the entry of the token table whose name the
  word abbreviates to no less than the entry's minimum length, ignoring case and one
  trailing comma; there is at most one such entry.
\<close>

theorem FindToken_correct:
  assumes "s \<noteq> []" "isalpha (hd s)" "cstring s"
  shows "FindToken sp s = lookup_token s
    \<and> (\<forall>i<length TokArray. \<forall>j<length TokArray.
         qualifies s (TokArray ! i) \<and> qualifies s (TokArray ! j) \<longrightarrow> i = j)"
  using FindToken_lookup [OF assms] qualifies_unique by blast

theorem FindToken_correct_witness:
  "FindToken default_seps ''Sept,'' = lookup_token ''Sept,''"
  using FindToken_correct [of "''Sept,''" default_seps] by (simp add: ctype_defs cstring_def)

text \<open>
  C21. A numeric word that is recognised as a year, a day of the month or a date has a value
  in the range of the calendar.
\<close>

theorem FindNumericToken_in_range:
  assumes "FindNumericToken sp s = (ty, v)" "seps_ok sp"
  shows "(ty = T_Year \<longrightarrow> 1990 \<le> v \<and> v \<le> 5990) \<and> (ty = T_Day \<longrightarrow> 1 \<le> v \<and> v \<le> 31)
    \<and> (ty = T_Date \<longrightarrow> (\<exists>y m d. DateOK y m d \<and> v = DSE y m d))"
  by (rule FindNumericToken_ranges [OF assms])

theorem FindNumericToken_in_range_witness:
  "FindNumericToken default_seps ''2024'' = (T_Year, 2024) \<and> 1990 \<le> (2024 :: int)"
proof -
  have "FindNumericToken default_seps ''2024'' = (T_Year, 2024)"
    by (simp add: FindNumericToken_def classify_number_def starts_def ctype_defs cint_def
        BASE_def YR_RANGE_def)
  then show ?thesis
    using FindNumericToken_in_range [of default_seps "''2024''" T_Year 2024]
    by (simp add: seps_ok_def default_seps_def)
qed

text \<open>
  C23. A word of at most eleven characters that is recognised as a time of day is a minute of
  the day, with or without am and pm.
\<close>

theorem FindNumericToken_time_of_day:
  assumes "FindNumericToken sp s = (T_Time, v)" "seps_ok sp" "length s \<le> 11"
  shows "0 \<le> v \<and> v < 1440"
  by (rule FindNumericToken_time [OF assms])

theorem FindNumericToken_time_of_day_witness:
  "FindNumericToken default_seps ''11:59pm'' = (T_Time, 1439)
    \<and> 0 \<le> snd (FindNumericToken default_seps ''11:59pm'')"
proof -
  have "FindNumericToken default_seps ''11:59pm'' = (T_Time, 1439)"
    by (simp add: FindNumericToken_def time_token_def starts_def ctype_defs cint_def
        default_seps_def is_timesep_def parse_ampm_def ampm_hour_def token_error_def Let_def)
  then show ?thesis
    using FindNumericToken_time_of_day [of default_seps "''11:59pm''" 1439]
    by (simp add: seps_ok_def default_seps_def)
qed

end
