(* ===== verification/Parser.thy ===== *)
theory Parser
  imports Tokens
begin

text \<open>
  The parse pointer of \<^verbatim>\<open>src/src/main.c\<close>: a line of a script is read character by character,
  with the values of \<open>[expressions]\<close> in its text replaced as they are met and one word of
  push-back.  The evaluation of an expression, \<open>EvalExpr\<close>, and the text of its value are the
  argument \<open>ev\<close>.  The dynamic buffers the functions fill are strings here, and never run out
  of memory.
\<close>

section \<open>The parse pointer\<close>

text \<open>
  The text from \<open>pos\<close> on, the text of the expression being substituted (while \<open>isnested\<close>) from
  \<open>epos\<close> on, and what is left of the word pushed back; an exhausted word is the same as none.
\<close>

record Parser =
  pos :: string
  epos :: string
  tokenPushed :: string
  isnested :: bool
  allownested :: bool
  p_expr_happened :: bool
  p_nonconst_expr :: bool

definition CreateParser :: "string \<Rightarrow> Parser" where
  "CreateParser s =
    \<lparr>pos = s, epos = [], tokenPushed = [], isnested = False, allownested = True,
     p_expr_happened = False, p_nonconst_expr = False\<rparr>"

definition DestroyParser :: "Parser \<Rightarrow> Parser" where
  "DestroyParser p = p\<lparr>isnested := False, epos := [], tokenPushed := []\<rparr>"

definition PushToken :: "string \<Rightarrow> Parser \<Rightarrow> Parser" where
  "PushToken w p = p\<lparr>tokenPushed := w @ '' ''\<rparr>"

text \<open>
  \<open>EvalExpr\<close>: how many characters of the text it reads, and an error or the value with
  whether it is non-constant; \<open>ev_str\<close> is \<open>DoCoerce\<close> to a string.
\<close>

record evaluator =
  ev_expr :: "string \<Rightarrow> nat \<times> (errcode + Value \<times> bool)"
  ev_str :: "Value \<Rightarrow> errcode + string"

type_synonym 'a parsed = "(errcode + 'a) \<times> Parser"

section \<open>Characters\<close>

text \<open>The expression whose text is \<open>s\<close>: its value becomes the text to read next.\<close>

definition subst_expr :: "evaluator \<Rightarrow> string \<Rightarrow> Parser \<Rightarrow> unit parsed" where
  "subst_expr ev s p =
    (case ev_expr ev s of (n, r) \<Rightarrow>
       let p = p\<lparr>p_expr_happened := True, pos := drop n s\<rparr> in
       (case r of
          Inl e \<Rightarrow> (Inl e, DestroyParser p)
        | Inr (v, nonconst) \<Rightarrow>
            let rest = dropWhile isempty (drop n s);
                p = p\<lparr>p_nonconst_expr := (nonconst \<or> p_nonconst_expr p), pos := rest\<rparr> in
            if \<not> starts (\<lambda>c. c = CHR '']'') rest then
              (Inl (if rest \<noteq> [] then E_PARSE_ERR else E_MISS_END), DestroyParser p)
            else
              (case ev_str ev v of
                 Inl e \<Rightarrow> (Inl e, p\<lparr>pos := tl rest\<rparr>)
               | Inr t \<Rightarrow> (Inr (), p\<lparr>pos := tl rest, isnested := True, epos := t\<rparr>))))"

lemma subst_expr_shorter:
  assumes "subst_expr ev s p = (Inr u, p')"
  shows "length (pos p') \<le> length s"
  using assms length_dropWhile_le [of isempty "drop (fst (ev_expr ev s)) s"]
  by (auto simp: subst_expr_def Let_def split: prod.splits sum.splits if_splits)

text \<open>The loop of \<open>ParseChar\<close>, after a word pushed back; \<open>None\<close> is the end of the line.\<close>

function parse_text :: "evaluator \<Rightarrow> bool \<Rightarrow> Parser \<Rightarrow> char option parsed" where
  "parse_text ev look p =
    (if isnested p \<and> epos p \<noteq> [] then
       (Inr (Some (hd (epos p))), if look then p else p\<lparr>epos := tl (epos p)\<rparr>)
     else let p = p\<lparr>isnested := False, epos := []\<rparr> in
       case pos p of
         [] \<Rightarrow> (Inr None, p)
       | c # s \<Rightarrow>
           if c \<noteq> CHR ''['' \<or> \<not> allownested p then
             (Inr (Some c), if look then p else p\<lparr>pos := s\<rparr>)
           else if starts (\<lambda>c. c = CHR ''['') s then
             (Inr (Some CHR ''[''), if look then p else p\<lparr>pos := tl s\<rparr>)
           else
             (case subst_expr ev s p of
                (Inl e, p) \<Rightarrow> (Inl e, p)
              | (Inr _, p) \<Rightarrow> parse_text ev look p))"
  by pat_completeness auto
termination
  by (relation "measure (\<lambda>(ev, look, p). length (pos p))")
    (auto simp: less_Suc_eq_le dest: subst_expr_shorter [OF sym])

declare parse_text.simps [simp del]

text \<open>The cases of the loop, by what comes next.\<close>

definition settle :: "Parser \<Rightarrow> Parser" where
  "settle p = p\<lparr>isnested := False, epos := []\<rparr>"

lemma settle_simps [simp]:
  "pos (settle p) = pos p" "epos (settle p) = []" "isnested (settle p) = False"
  "allownested (settle p) = allownested p" "tokenPushed (settle p) = tokenPushed p"
  by (simp_all add: settle_def)

definition nesting :: "Parser \<Rightarrow> bool" where
  "nesting p \<longleftrightarrow> isnested p \<and> epos p \<noteq> []"

lemma parse_text_nested:
  "nesting p \<Longrightarrow> epos p = c # s \<Longrightarrow>
   parse_text ev look p = (Inr (Some c), if look then p else p\<lparr>epos := s\<rparr>)"
  by (simp add: parse_text.simps [of ev look p] nesting_def)

lemma parse_text_end:
  "\<not> nesting p \<Longrightarrow> pos p = [] \<Longrightarrow> parse_text ev look p = (Inr None, settle p)"
  by (simp add: parse_text.simps [of ev look p] nesting_def settle_def)

lemma parse_text_char:
  "\<not> nesting p \<Longrightarrow> pos p = c # s \<Longrightarrow> c \<noteq> CHR ''['' \<or> \<not> allownested p \<Longrightarrow>
   parse_text ev look p = (Inr (Some c), if look then settle p else (settle p)\<lparr>pos := s\<rparr>)"
  by (subst parse_text.simps) (auto simp: nesting_def settle_def)

lemma parse_text_bracket:
  "\<not> nesting p \<Longrightarrow> pos p = CHR ''['' # CHR ''['' # s \<Longrightarrow> allownested p \<Longrightarrow>
   parse_text ev look p = (Inr (Some CHR ''[''), if look then settle p else (settle p)\<lparr>pos := s\<rparr>)"
  by (subst parse_text.simps) (auto simp: nesting_def settle_def)

lemma parse_text_expr:
  "\<not> nesting p \<Longrightarrow> pos p = CHR ''['' # s \<Longrightarrow> \<not> starts (\<lambda>c. c = CHR ''['') s \<Longrightarrow> allownested p \<Longrightarrow>
   parse_text ev look p =
     (case subst_expr ev s (settle p) of
        (Inl e, p) \<Rightarrow> (Inl e, p)
      | (Inr _, p) \<Rightarrow> parse_text ev look p)"
  by (subst parse_text.simps) (auto simp: nesting_def settle_def)

lemma parse_text_cases [case_names nested at_end char bracket expr]:
  obtains c s where "nesting p" "epos p = c # s"
  | "\<not> nesting p" "pos p = []"
  | c s where "\<not> nesting p" "pos p = c # s" "c \<noteq> CHR ''['' \<or> \<not> allownested p"
  | s where "\<not> nesting p" "pos p = CHR ''['' # CHR ''['' # s" "allownested p"
  | s where "\<not> nesting p" "pos p = CHR ''['' # s" "\<not> starts (\<lambda>c. c = CHR ''['') s" "allownested p"
proof (cases "nesting p")
  case True
  then show thesis using that(1) by (cases "epos p") (auto simp: nesting_def)
next
  case False
  note nn = False
  show thesis
  proof (cases "pos p")
    case (Cons c s)
    show thesis
    proof (cases "c = CHR ''['' \<and> allownested p")
      case True
      then show thesis using that(4,5) nn Cons by (cases s) (auto simp: starts_def)
    qed (use that(3) nn Cons in auto)
  qed (use that(2) nn in auto)
qed

definition ParseChar :: "evaluator \<Rightarrow> bool \<Rightarrow> Parser \<Rightarrow> char option parsed" where
  "ParseChar ev look p =
    (case tokenPushed p of
       c # s \<Rightarrow> (Inr (Some c), if look then p else p\<lparr>tokenPushed := s\<rparr>)
     | [] \<Rightarrow> parse_text ev look p)"

text \<open>Every character read shortens what there is to read.\<close>

definition psize :: "Parser \<Rightarrow> nat \<times> nat \<times> nat" where
  "psize p = (length (pos p), if isnested p then length (epos p) else 0, length (tokenPushed p))"

definition psize_less :: "((nat \<times> nat \<times> nat) \<times> (nat \<times> nat \<times> nat)) set" where
  "psize_less = less_than <*lex*> less_than <*lex*> less_than"

lemma wf_psize_less [simp, intro]: "wf psize_less"
  by (simp add: psize_less_def wf_lex_prod)

lemma psize_less_trans: "(a, b) \<in> psize_less \<Longrightarrow> (b, c) \<in> psize_less \<Longrightarrow> (a, c) \<in> psize_less"
  by (erule (1) transD [rotated]) (simp add: psize_less_def trans_lex_prod)

lemma subst_expr_psize:
  "subst_expr ev s q = (Inr u, p') \<Longrightarrow> pos p = c # s \<Longrightarrow> (psize p', psize p) \<in> psize_less"
  using subst_expr_shorter [of ev s q u p'] by (simp add: psize_def psize_less_def)

lemma subst_expr_tokenPushed: "subst_expr ev s q = (Inr u, p') \<Longrightarrow> tokenPushed p' = tokenPushed q"
  by (auto simp: subst_expr_def Let_def split: prod.splits sum.splits if_splits)

lemma psize_less_simps:
  "nesting p \<Longrightarrow> epos p = c # s \<Longrightarrow> (psize (p\<lparr>epos := s\<rparr>), psize p) \<in> psize_less"
  "pos p = c # s \<Longrightarrow> (psize (q\<lparr>pos := s\<rparr>), psize p) \<in> psize_less"
  "pos p = c # d # s \<Longrightarrow> (psize (q\<lparr>pos := s\<rparr>), psize p) \<in> psize_less"
  "\<not> nesting p \<Longrightarrow> psize (settle p) = psize p"
  by (simp_all add: psize_def psize_less_def nesting_def settle_def)

lemma parse_text_psize:
  assumes "parse_text ev False p = (Inr c, p')"
  shows "(psize p', psize p) \<in> psize_less \<or> c = None \<and> psize p' = psize p"
  using assms
proof (induction "length (pos p)" arbitrary: p rule: less_induct)
  case less
  show ?case
  proof (cases p rule: parse_text_cases)
    case (expr s)
    then obtain q where q: "subst_expr ev s (settle p) = (Inr (), q)" "parse_text ev False q = (Inr c, p')"
      using less.prems by (auto simp: parse_text_expr split: prod.splits sum.splits)
    have "length (pos q) < length (pos p)" using subst_expr_shorter [OF q(1)] expr by simp
    from less.hyps [OF this q(2)] show ?thesis
      using subst_expr_psize [OF q(1) expr(2)] by (metis psize_less_trans)
  qed (use less.prems psize_less_simps in \<open>auto simp: parse_text_nested parse_text_end
      parse_text_char parse_text_bracket\<close>)
qed

lemma ParseChar_psize:
  "ParseChar ev False p = (Inr c, p') \<Longrightarrow>
   (psize p', psize p) \<in> psize_less \<or> c = None \<and> psize p' = psize p"
  using parse_text_psize [of ev p c p']
  by (auto simp: ParseChar_def psize_def psize_less_def split: list.splits)

lemma ParseChar_Some_psize:
  "ParseChar ev False p = (Inr (Some c), p') \<Longrightarrow> (psize p', psize p) \<in> psize_less"
  using ParseChar_psize by fastforce

section \<open>Words\<close>

definition read_order :: "((evaluator \<times> char option \<times> Parser) \<times> (evaluator \<times> char option \<times> Parser)) set" where
  "read_order = inv_image (psize_less <*lex*> less_than) (\<lambda>(ev, c, p). (psize p, of_bool (c \<noteq> None)))"

lemma wf_read_order [simp, intro]: "wf read_order"
  by (simp add: read_order_def wf_lex_prod)

lemma ParseChar_read_order:
  assumes "ParseChar ev False p = (Inr c, p')"
  shows "((ev, c, p'), (ev, Some x, p)) \<in> read_order"
  using ParseChar_psize [OF assms] by (auto simp: read_order_def)

text \<open>
  The two loops of \<open>ParseToken\<close>: \<open>c\<close> is the character last read, \<open>w\<close> the word so far.
\<close>

function skip_empty :: "evaluator \<Rightarrow> char option \<Rightarrow> Parser \<Rightarrow> char option parsed" where
  "skip_empty ev c p =
    (case c of
       None \<Rightarrow> (Inr None, p)
     | Some x \<Rightarrow>
         if isempty x then
           (case ParseChar ev False p of
              (Inl e, p) \<Rightarrow> (Inl e, p)
            | (Inr c, p) \<Rightarrow> skip_empty ev c p)
         else (Inr c, p))"
  by pat_completeness auto
termination
  by (relation read_order) (auto dest: sym [THEN ParseChar_read_order])

function read_word :: "evaluator \<Rightarrow> string \<Rightarrow> char option \<Rightarrow> Parser \<Rightarrow> string parsed" where
  "read_word ev w c p =
    (case c of
       None \<Rightarrow> (Inr w, p)
     | Some x \<Rightarrow>
         if isempty x then (Inr w, p)
         else (case ParseChar ev False p of
                 (Inl e, p) \<Rightarrow> (Inl e, p)
               | (Inr c, p) \<Rightarrow> read_word ev (w @ [x]) c p))"
  by pat_completeness auto
termination
  by (relation "inv_image read_order (\<lambda>(ev, w, c, p). (ev, c, p))")
    (auto dest: sym [THEN ParseChar_read_order])

declare skip_empty.simps [simp del] read_word.simps [simp del]

definition ParseToken :: "evaluator \<Rightarrow> Parser \<Rightarrow> string parsed" where
  "ParseToken ev p =
    (case ParseChar ev False p of
       (Inl e, p) \<Rightarrow> (Inl e, p)
     | (Inr c, p) \<Rightarrow>
         (case skip_empty ev c p of
            (Inl e, p) \<Rightarrow> (Inl e, p)
          | (Inr c, p) \<Rightarrow> read_word ev [] c p))"

definition VerifyEoln :: "evaluator \<Rightarrow> Parser \<Rightarrow> errcode option \<times> Parser" where
  "VerifyEoln ev p =
    (case ParseToken ev p of
       (Inl e, p) \<Rightarrow> (Some e, p)
     | (Inr w, p) \<Rightarrow>
         (if w \<noteq> [] \<and> hd w \<noteq> CHR ''#'' \<and> hd w \<noteq> CHR '';'' then Some E_EXTRANEOUS_TOKEN else None, p))"

section \<open>Characters after white space\<close>

definition psize_le :: "Parser \<Rightarrow> Parser \<Rightarrow> bool" where
  "psize_le p q \<longleftrightarrow> (psize p, psize q) \<in> psize_less \<or> psize p = psize q"

lemma psize_le_refl [simp]: "psize_le p p"
  by (simp add: psize_le_def)

lemma psize_le_trans: "psize_le p q \<Longrightarrow> psize_le q r \<Longrightarrow> psize_le p r"
  unfolding psize_le_def by (metis psize_less_trans)

lemma psize_less_le_trans: "(psize p, psize q) \<in> psize_less \<Longrightarrow> psize_le q r \<Longrightarrow> (psize p, psize r) \<in> psize_less"
  unfolding psize_le_def by (metis psize_less_trans)

lemma psize_le_less_trans: "psize_le p q \<Longrightarrow> (psize q, psize r) \<in> psize_less \<Longrightarrow> (psize p, psize r) \<in> psize_less"
  unfolding psize_le_def by (metis psize_less_trans)

lemma ParseChar_psize_le: "ParseChar ev False p = (Inr c, p') \<Longrightarrow> psize_le p' p"
  using ParseChar_psize unfolding psize_le_def by metis

text \<open>What is seen by looking ahead is what is read next.\<close>

lemma parse_text_look:
  assumes "parse_text ev True p = (Inr c, p1)"
  shows "tokenPushed p1 = tokenPushed p \<and> psize_le p1 p \<and> (\<exists>p2. parse_text ev False p1 = (Inr c, p2))"
  using assms
proof (induction "length (pos p)" arbitrary: p rule: less_induct)
  case less
  have settled: "\<not> nesting (settle p)" by (simp add: nesting_def)
  show ?case
  proof (cases p rule: parse_text_cases)
    case (expr s)
    then obtain q where q: "subst_expr ev s (settle p) = (Inr (), q)" "parse_text ev True q = (Inr c, p1)"
      using less.prems by (auto simp: parse_text_expr split: prod.splits sum.splits)
    have "length (pos q) < length (pos p)" using subst_expr_shorter [OF q(1)] expr by simp
    from less.hyps [OF this q(2)] show ?thesis
      using subst_expr_psize [OF q(1) expr(2)] subst_expr_tokenPushed [OF q(1)]
      by (metis psize_le_def psize_le_trans settle_simps(5))
  next
    case (nested c s)
    then show ?thesis using less.prems by (auto simp: parse_text_nested)
  next
    case at_end
    then show ?thesis using less.prems settled
      by (auto simp: parse_text_end psize_le_def psize_less_simps)
  next
    case (char c s)
    then have "parse_text ev False (settle p) = (Inr (Some c), (settle (settle p))\<lparr>pos := s\<rparr>)"
      by (subst parse_text_char [of _ c s]) (use settled in auto)
    then show ?thesis using less.prems char by (auto simp: parse_text_char psize_le_def psize_less_simps)
  next
    case (bracket s)
    then have "parse_text ev False (settle p) = (Inr (Some CHR ''[''), (settle (settle p))\<lparr>pos := s\<rparr>)"
      by (subst parse_text_bracket [of _ s]) (use settled in auto)
    then show ?thesis using less.prems bracket by (auto simp: parse_text_bracket psize_le_def psize_less_simps)
  qed
qed

lemma ParseChar_look:
  assumes "ParseChar ev True p = (Inr c, p1)"
  shows "psize_le p1 p" "\<exists>p2. ParseChar ev False p1 = (Inr c, p2)"
  using assms parse_text_look [of ev p c p1]
  by (auto simp: ParseChar_def split: list.splits)

lemma ParseChar_look_Some:
  assumes "ParseChar ev True p = (Inr (Some c), p1)"
  shows "(psize (snd (ParseChar ev False p1)), psize p) \<in> psize_less"
  using ParseChar_look [OF assms] ParseChar_Some_psize psize_less_le_trans by fastforce

function skip_spaces :: "evaluator \<Rightarrow> Parser \<Rightarrow> char option parsed" where
  "skip_spaces ev p =
    (case ParseChar ev True p of
       (Inl e, p) \<Rightarrow> (Inl e, p)
     | (Inr None, p) \<Rightarrow> (Inr None, p)
     | (Inr (Some c), p) \<Rightarrow>
         if isempty c then skip_spaces ev (snd (ParseChar ev False p)) else (Inr (Some c), p))"
  by pat_completeness auto
termination
  by (relation "inv_image psize_less (\<lambda>(ev, p). psize p)") (auto dest: sym [THEN ParseChar_look_Some])

declare skip_spaces.simps [simp del]

definition ParseNonSpaceChar :: "evaluator \<Rightarrow> bool \<Rightarrow> Parser \<Rightarrow> char option parsed" where
  "ParseNonSpaceChar ev look p =
    (case skip_spaces ev p of
       (Inl e, p) \<Rightarrow> (Inl e, p)
     | (Inr c, p) \<Rightarrow> if look then (Inr c, p) else ParseChar ev False p)"

section \<open>Quoted strings\<close>

definition isxdigit :: "char \<Rightarrow> bool" where
  "isxdigit c \<longleftrightarrow> isdigit c \<or> 65 \<le> (of_char c :: int) \<and> (of_char c :: int) \<le> 70
    \<or> 97 \<le> (of_char c :: int) \<and> (of_char c :: int) \<le> 102"

definition hexval :: "char \<Rightarrow> int" where
  "hexval c = (if isdigit c then of_char c - 48 else if isupper c then of_char c - 55 else of_char c - 87)"

text \<open>After \<open>\x\<close>: one or two hexadecimal digits, or an ordinary \<open>x\<close>.\<close>

definition hex_escape :: "evaluator \<Rightarrow> Parser \<Rightarrow> string parsed" where
  "hex_escape ev p =
    (case ParseChar ev True p of
       (Inl e, p) \<Rightarrow> (Inl e, p)
     | (Inr None, p) \<Rightarrow> (Inr ''x'', p)
     | (Inr (Some c2), p) \<Rightarrow>
         if \<not> isxdigit c2 then (Inr ''x'', p)
         else
           let value = (\<lambda>v p. if v = 0 then (Inl E_PARSE_ERR, p) else (Inr [char_of v], p)) in
           (case ParseChar ev False p of
              (Inl e, p) \<Rightarrow> (Inl e, p)
            | (Inr _, p) \<Rightarrow>
                (case ParseChar ev True p of
                   (Inl e, p) \<Rightarrow> (Inl e, p)
                 | (Inr None, p) \<Rightarrow> value (hexval c2) p
                 | (Inr (Some c3), p) \<Rightarrow>
                     if isxdigit c3 then
                       (case ParseChar ev False p of
                          (Inl e, p) \<Rightarrow> (Inl e, p)
                        | (Inr _, p) \<Rightarrow> value (hexval c2 * 16 + hexval c3) p)
                     else value (hexval c2) p)))"

text \<open>
  The text of the character \<open>c\<close> after a backslash.  At the end of the line there is none; the
  string is then not closed either.
\<close>

definition escape :: "evaluator \<Rightarrow> char option \<Rightarrow> Parser \<Rightarrow> string parsed" where
  "escape ev c p =
    (case c of
       None \<Rightarrow> (Inr [], p)
     | Some x \<Rightarrow>
         if x = CHR ''a'' then (Inr [CHR 0x07], p)
         else if x = CHR ''b'' then (Inr [CHR 0x08], p)
         else if x = CHR ''f'' then (Inr [CHR 0x0C], p)
         else if x = CHR ''n'' then (Inr [CHR 0x0A], p)
         else if x = CHR ''r'' then (Inr [CHR 0x0D], p)
         else if x = CHR ''t'' then (Inr [CHR 0x09], p)
         else if x = CHR ''v'' then (Inr [CHR 0x0B], p)
         else if x = CHR ''x'' then hex_escape ev p
         else (Inr [x], p))"

lemma hex_escape_psize_le: "hex_escape ev p = (Inr s, p') \<Longrightarrow> psize_le p' p"
  by (auto simp: hex_escape_def Let_def split: prod.splits sum.splits option.splits if_splits
      dest!: ParseChar_look(1) ParseChar_psize_le; blast intro: psize_le_trans)

lemma escape_psize_le: "escape ev c p = (Inr s, p') \<Longrightarrow> psize_le p' p"
  by (auto simp: escape_def hex_escape_psize_le split: option.splits if_splits)

lemma escaped_read_order:
  assumes "ParseChar ev False p = (Inr c, p1)" "escape ev c p1 = (Inr s, p2)"
    "ParseChar ev False p2 = (Inr c', p3)"
  shows "((ev, c', p3), (ev, Some x, p)) \<in> read_order"
proof -
  have "psize_le p2 p" using ParseChar_psize_le [OF assms(1)] escape_psize_le [OF assms(2)] psize_le_trans by blast
  then consider "(psize p3, psize p) \<in> psize_less" | "c' = None" "psize p3 = psize p"
    using ParseChar_psize [OF assms(3)] psize_less_le_trans unfolding psize_le_def by metis
  then show ?thesis by cases (simp_all add: read_order_def)
qed

function read_quoted :: "evaluator \<Rightarrow> string \<Rightarrow> char option \<Rightarrow> Parser \<Rightarrow> string parsed" where
  "read_quoted ev w c p =
    (case c of
       None \<Rightarrow> (Inl E_MISS_QUOTE, p)
     | Some x \<Rightarrow>
         if x = CHR 0x22 then (Inr w, p)
         else if x = CHR 0x5C then
           (case ParseChar ev False p of
              (Inl e, p) \<Rightarrow> (Inl e, p)
            | (Inr c, p) \<Rightarrow>
                (case escape ev c p of
                   (Inl e, p) \<Rightarrow> (Inl e, p)
                 | (Inr s, p) \<Rightarrow>
                     (case ParseChar ev False p of
                        (Inl e, p) \<Rightarrow> (Inl e, p)
                      | (Inr c, p) \<Rightarrow> read_quoted ev (w @ s) c p)))
         else
           (case ParseChar ev False p of
              (Inl e, p) \<Rightarrow> (Inl e, p)
            | (Inr c, p) \<Rightarrow> read_quoted ev (w @ [x]) c p))"
  by pat_completeness auto
termination
  by (relation "inv_image read_order (\<lambda>(ev, w, c, p). (ev, c, p))")
    (auto dest: sym [THEN ParseChar_read_order] escaped_read_order [OF sym sym sym])

declare read_quoted.simps [simp del]

definition ParseQuotedString :: "evaluator \<Rightarrow> Parser \<Rightarrow> string parsed" where
  "ParseQuotedString ev p =
    (case ParseNonSpaceChar ev False p of
       (Inl e, p) \<Rightarrow> (Inl e, p)
     | (Inr None, p) \<Rightarrow> (Inl E_EOLN, p)
     | (Inr (Some c), p) \<Rightarrow>
         if c \<noteq> CHR 0x22 then (Inl E_MISS_QUOTE, p)
         else (case ParseChar ev False p of
                 (Inl e, p) \<Rightarrow> (Inl e, p)
               | (Inr c, p) \<Rightarrow> read_quoted ev [] c p))"

definition ParseTokenOrQuotedString :: "evaluator \<Rightarrow> Parser \<Rightarrow> string parsed" where
  "ParseTokenOrQuotedString ev p =
    (case ParseNonSpaceChar ev True p of
       (Inl e, p) \<Rightarrow> (Inl e, p)
     | (Inr c, p) \<Rightarrow> if c \<noteq> Some CHR 0x22 then ParseToken ev p else ParseQuotedString ev p)"

section \<open>Identifiers\<close>

function read_identifier :: "evaluator \<Rightarrow> string \<Rightarrow> Parser \<Rightarrow> string parsed" where
  "read_identifier ev w p =
    (case ParseChar ev True p of
       (Inl e, p) \<Rightarrow> (Inl e, p)
     | (Inr None, p) \<Rightarrow> (Inr w, p)
     | (Inr (Some c), p) \<Rightarrow>
         if c \<noteq> CHR ''_'' \<and> \<not> isalpha c \<and> \<not> isdigit c then (Inr w, p)
         else read_identifier ev (w @ [c]) (snd (ParseChar ev False p)))"
  by pat_completeness auto
termination
  by (relation "inv_image psize_less (\<lambda>(ev, w, p). psize p)") (auto dest: sym [THEN ParseChar_look_Some])

declare read_identifier.simps [simp del]

definition ParseIdentifier :: "evaluator \<Rightarrow> Parser \<Rightarrow> string parsed" where
  "ParseIdentifier ev p =
    (case ParseChar ev False p of
       (Inl e, p) \<Rightarrow> (Inl e, p)
     | (Inr c, p) \<Rightarrow>
         (case skip_empty ev c p of
            (Inl e, p) \<Rightarrow> (Inl e, p)
          | (Inr None, p) \<Rightarrow> (Inl E_EOLN, p)
          | (Inr (Some c), p) \<Rightarrow>
              if c \<noteq> CHR ''$'' \<and> c \<noteq> CHR ''_'' \<and> \<not> isalpha c then (Inl E_BAD_ID, p)
              else read_identifier ev [c] p))"

text \<open>The tags of a reminder are separated by commas.\<close>

definition AppendTag :: "string \<Rightarrow> string \<Rightarrow> string" where
  "AppendTag buf s = (if buf \<noteq> [] then buf @ CHR '','' # s else s)"

section \<open>What reading keeps\<close>

text \<open>
  The interface between the functions that read and what a proof follows along the line: a
  relation that every character, read or looked at, keeps is kept by whatever is read.
\<close>

locale parse_relation =
  fixes R :: "Parser \<Rightarrow> Parser \<Rightarrow> bool"
  assumes R_refl [simp]: "R p p"
    and R_trans [trans]: "R p2 p1 \<Longrightarrow> R p1 p \<Longrightarrow> R p2 p"
    and R_char: "ParseChar ev look p = (Inr c, p') \<Longrightarrow> R p' p"
begin

lemma R_reread: "ParseChar ev True p = (Inr c, p') \<Longrightarrow> R (snd (ParseChar ev False p')) p"
  using ParseChar_look(2) [of ev p c p'] R_char R_trans by fastforce

lemma skip_empty_R: "skip_empty ev c p = (Inr d, p') \<Longrightarrow> R p' p"
proof (induction ev c p arbitrary: d p' rule: skip_empty.induct)
  case (1 ev c p)
  show ?case
  proof (cases "\<exists>x. c = Some x \<and> isempty x")
    case True
    then obtain x where x: "c = Some x" "isempty x" by blast
    then obtain e r where r: "ParseChar ev False p = (Inr e, r)" "skip_empty ev e r = (Inr d, p')"
      using "1.prems" by (auto simp: skip_empty.simps [of ev "Some x"] split: prod.splits sum.splits)
    then show ?thesis using "1.IH" [OF x r(1) [symmetric] refl] R_char [OF r(1)] R_trans by blast
  next
    case False
    then show ?thesis using "1.prems" R_refl by (auto simp: skip_empty.simps [of ev c] split: option.splits)
  qed
qed

lemma read_word_R: "read_word ev w c p = (Inr u, p') \<Longrightarrow> R p' p"
proof (induction ev w c p arbitrary: u p' rule: read_word.induct)
  case (1 ev w c p)
  show ?case
  proof (cases "\<exists>x. c = Some x \<and> \<not> isempty x")
    case True
    then obtain x where x: "c = Some x" "\<not> isempty x" by blast
    then obtain e r where r: "ParseChar ev False p = (Inr e, r)" "read_word ev (w @ [x]) e r = (Inr u, p')"
      using "1.prems" by (auto simp: read_word.simps [of ev w "Some x"] split: prod.splits sum.splits)
    then show ?thesis using "1.IH" [OF x r(1) [symmetric] refl] R_char [OF r(1)] R_trans by blast
  next
    case False
    then show ?thesis using "1.prems" R_refl by (auto simp: read_word.simps [of ev w c] split: option.splits)
  qed
qed

lemma ParseToken_R:
  assumes "ParseToken ev p = (Inr w, p')"
  shows "R p' p"
proof -
  obtain c q d r where "ParseChar ev False p = (Inr c, q)" "skip_empty ev c q = (Inr d, r)"
      "read_word ev [] d r = (Inr w, p')"
    using assms by (auto simp: ParseToken_def split: prod.splits sum.splits)
  then show ?thesis by (meson R_char skip_empty_R read_word_R R_trans)
qed

lemma skip_spaces_R: "skip_spaces ev p = (Inr c, p') \<Longrightarrow> R p' p"
proof (induction ev p arbitrary: c p' rule: skip_spaces.induct)
  case (1 ev p)
  obtain r q where r: "ParseChar ev True p = (Inr r, q)"
    using "1.prems" by (auto simp: skip_spaces.simps [of ev p] split: prod.splits sum.splits)
  show ?case
  proof (cases "\<exists>x. r = Some x \<and> isempty x")
    case True
    then obtain x where x: "r = Some x" "isempty x" by blast
    then have "skip_spaces ev (snd (ParseChar ev False q)) = (Inr c, p')"
      using "1.prems" r by (simp add: skip_spaces.simps [of ev p])
    then have "R p' (snd (ParseChar ev False q))"
      using "1.IH" [OF r [symmetric] refl x] by simp
    then show ?thesis using R_reread [OF r] R_trans by blast
  next
    case False
    then show ?thesis using "1.prems" r R_char [OF r]
      by (auto simp: skip_spaces.simps [of ev p] split: option.splits)
  qed
qed

lemma ParseNonSpaceChar_R: "ParseNonSpaceChar ev look p = (Inr c, p') \<Longrightarrow> R p' p"
  using skip_spaces_R [of ev p] R_char R_trans
  by (fastforce simp: ParseNonSpaceChar_def split: prod.splits sum.splits if_splits)

lemma hex_escape_R:
  assumes "hex_escape ev p = (Inr s, p')"
  shows "R p' p"
proof (cases "ParseChar ev True p")
  case (Pair r p1)
  show ?thesis
  proof (cases "\<exists>x. r = Inr (Some x) \<and> isxdigit x")
    case False
    then show ?thesis using assms Pair
      by (auto simp: hex_escape_def R_char split: sum.splits option.splits if_splits)
  next
    case True
    then obtain x where x: "r = Inr (Some x)" "isxdigit x" by blast
    then obtain c2 p2 c3 p3 where p: "ParseChar ev False p1 = (Inr c2, p2)" "ParseChar ev True p2 = (Inr c3, p3)"
      using assms Pair by (auto simp: hex_escape_def split: prod.splits sum.splits if_splits)
    have "R p3 p"
      using R_char [OF p(2)] R_char [OF p(1)] R_char [of ev True p _ p1] Pair x R_trans
      by blast
    then show ?thesis using assms Pair x p R_char [of ev _ p3] R_trans
      by (fastforce simp: hex_escape_def Let_def split: prod.splits sum.splits option.splits if_splits)
  qed
qed

lemma escape_R: "escape ev c p = (Inr s, p') \<Longrightarrow> R p' p"
  by (auto simp: escape_def hex_escape_R split: option.splits if_splits)

lemma read_quoted_R: "read_quoted ev w c p = (Inr u, p') \<Longrightarrow> R p' p"
proof (induction ev w c p arbitrary: u p' rule: read_quoted.induct)
  case (1 ev w c p)
  consider (stop) "c = None \<or> c = Some CHR 0x22" | (esc) "c = Some CHR 0x5C"
    | (plain) x where "c = Some x" "x \<noteq> CHR 0x22" "x \<noteq> CHR 0x5C" by (cases c) auto
  then show ?case
  proof cases
    case stop
    then show ?thesis using "1.prems" by (auto simp: read_quoted.simps [of ev w c])
  next
    case esc
    then obtain d q s r e q' where q: "ParseChar ev False p = (Inr d, q)" "escape ev d q = (Inr s, r)"
        "ParseChar ev False r = (Inr e, q')" "read_quoted ev (w @ s) e q' = (Inr u, p')"
      using "1.prems" by (auto simp: read_quoted.simps [of ev w "Some CHR 0x5C"] split: prod.splits sum.splits)
    have "R p' q'" using "1.IH"(1) [OF esc _ _ q(1) [symmetric] refl q(2) [symmetric] refl q(3) [symmetric] refl] q(4) by simp
    also have "R q' r" by (rule R_char [OF q(3)])
    also have "R r q" by (rule escape_R [OF q(2)])
    also have "R q p" by (rule R_char [OF q(1)])
    finally show ?thesis .
  next
    case plain
    then obtain d q where q: "ParseChar ev False p = (Inr d, q)" "read_quoted ev (w @ [x]) d q = (Inr u, p')"
      using "1.prems" by (auto simp: read_quoted.simps [of ev w "Some x"] split: prod.splits sum.splits)
    have "R p' q" using "1.IH"(2) [OF plain q(1) [symmetric] refl] q(2) by simp
    also have "R q p" by (rule R_char [OF q(1)])
    finally show ?thesis .
  qed
qed

lemma ParseQuotedString_R:
  assumes "ParseQuotedString ev p = (Inr s, p')"
  shows "R p' p"
proof -
  obtain q c r where "ParseNonSpaceChar ev False p = (Inr (Some CHR 0x22), q)"
      "ParseChar ev False q = (Inr c, r)" "read_quoted ev [] c r = (Inr s, p')"
    using assms by (auto simp: ParseQuotedString_def split: prod.splits sum.splits option.splits if_splits)
  then show ?thesis
    by (meson ParseNonSpaceChar_R read_quoted_R R_char R_trans)
qed

lemma ParseTokenOrQuotedString_R:
  assumes "ParseTokenOrQuotedString ev p = (Inr s, p')"
  shows "R p' p"
proof -
  obtain c q where q: "ParseNonSpaceChar ev True p = (Inr c, q)"
      "ParseToken ev q = (Inr s, p') \<or> ParseQuotedString ev q = (Inr s, p')"
    using assms by (auto simp: ParseTokenOrQuotedString_def split: prod.splits sum.splits if_splits)
  then have "R p' q" using ParseToken_R  ParseQuotedString_R by blast
  then show ?thesis using ParseNonSpaceChar_R [OF q(1)] R_trans by blast
qed

end

section \<open>Words left to read\<close>

text \<open>
  A word pushed back makes more characters to read than there were, for the space after it;
  but not more of them that are not white space.  \<open>used k p' p\<close>: from \<open>p\<close> to \<open>p'\<close> some of the line
  was read, or at least \<open>k\<close> characters of the word pushed back.
\<close>

definition solid :: "string \<Rightarrow> nat" where
  "solid s = length (filter (\<lambda>c. \<not> isempty c) s)"

definition text_size :: "Parser \<Rightarrow> nat \<times> nat" where
  "text_size p = (length (pos p), if isnested p then length (epos p) else 0)"

definition used :: "nat \<Rightarrow> Parser \<Rightarrow> Parser \<Rightarrow> bool" where
  "used k p' p \<longleftrightarrow> (text_size p', text_size p) \<in> less_than <*lex*> less_than
    \<or> text_size p' = text_size p \<and> solid (tokenPushed p') + k \<le> solid (tokenPushed p)"

lemma used_refl [simp]: "used 0 p p"
  by (simp add: used_def)

lemma used_trans: "used j p2 p1 \<Longrightarrow> used k p1 p \<Longrightarrow> used (j + k) p2 p"
proof -
  assume a: "used j p2 p1" "used k p1 p"
  have tr: "trans (less_than <*lex*> less_than)" by (simp add: trans_lex_prod)
  from a show ?thesis
    unfolding used_def using transD [OF tr, of "text_size p2" "text_size p1" "text_size p"] by auto
qed

lemma used_mono: "used k p' p \<Longrightarrow> j \<le> k \<Longrightarrow> used j p' p"
  by (auto simp: used_def)

lemma used_0_trans [trans]: "used 0 p2 p1 \<Longrightarrow> used k p1 p \<Longrightarrow> used k p2 p"
  using used_trans [of 0 p2 p1 k p] by simp

lemma used_weaken: "used k p' p \<Longrightarrow> used 0 p' p"
  by (erule used_mono) simp

definition weight :: "char option \<Rightarrow> nat" where
  "weight c = (case c of None \<Rightarrow> 0 | Some x \<Rightarrow> of_bool (\<not> isempty x))"

lemma weight_simps [simp]: "weight None = 0" "weight (Some x) = of_bool (\<not> isempty x)"
  by (simp_all add: weight_def)

lemma text_size_simps:
  "nesting p \<Longrightarrow> epos p = c # s \<Longrightarrow> (text_size (p\<lparr>epos := s\<rparr>), text_size p) \<in> less_than <*lex*> less_than"
  "pos p = c # s \<Longrightarrow> (text_size (q\<lparr>pos := s\<rparr>), text_size p) \<in> less_than <*lex*> less_than"
  "pos p = c # d # s \<Longrightarrow> (text_size (q\<lparr>pos := s\<rparr>), text_size p) \<in> less_than <*lex*> less_than"
  "\<not> nesting p \<Longrightarrow> text_size (settle p) = text_size p"
  by (simp_all add: text_size_def nesting_def settle_def)

lemma subst_expr_used: "subst_expr ev s q = (Inr u, p') \<Longrightarrow> pos p = c # s \<Longrightarrow> used k p' p"
  using subst_expr_shorter [of ev s q u p'] by (simp add: text_size_def used_def)

lemma parse_text_used:
  assumes "parse_text ev look p = (Inr c, p')"
  shows "used (if look then 0 else weight c) p' p"
  using assms
proof (induction "length (pos p)" arbitrary: p rule: less_induct)
  case less
  show ?case
  proof (cases p rule: parse_text_cases)
    case (expr s)
    then obtain q where q: "subst_expr ev s (settle p) = (Inr (), q)" "parse_text ev look q = (Inr c, p')"
      using less.prems by (auto simp: parse_text_expr split: prod.splits sum.splits)
    have "length (pos q) < length (pos p)" using subst_expr_shorter [OF q(1)] expr by simp
    from used_trans [OF less.hyps [OF this q(2)] subst_expr_used [OF q(1) expr(2), of 0]]
    show ?thesis by simp
  qed (use less.prems text_size_simps in \<open>auto simp: parse_text_nested parse_text_end
      parse_text_char parse_text_bracket used_def split: if_splits\<close>)
qed

lemma ParseChar_used: "ParseChar ev look p = (Inr c, p') \<Longrightarrow> used (if look then 0 else weight c) p' p"
  using parse_text_used [of ev look p c p']
  by (cases "tokenPushed p") (auto simp: ParseChar_def used_def solid_def text_size_def split: if_splits)

lemma read_used: "ParseChar ev False p = (Inr c, p') \<Longrightarrow> used (weight c) p' p"
  using ParseChar_used by fastforce

lemma look_used: "ParseChar ev True p = (Inr c, p') \<Longrightarrow> used 0 p' p"
  using ParseChar_used by fastforce

lemma skip_empty_used:
  "skip_empty ev c p = (Inr d, p') \<Longrightarrow> used (weight c) p q \<Longrightarrow> used (weight d) p' q"
proof (induction ev c p arbitrary: d p' rule: skip_empty.induct)
  case (1 ev c p)
  show ?case
  proof (cases "\<exists>x. c = Some x \<and> isempty x")
    case True
    then obtain x where x: "c = Some x" "isempty x" by blast
    then obtain e r where r: "ParseChar ev False p = (Inr e, r)" "skip_empty ev e r = (Inr d, p')"
      using "1.prems" by (auto simp: skip_empty.simps [of ev "Some x"] split: prod.splits sum.splits)
    have "used (weight e) r q" using used_trans [OF read_used [OF r(1)] "1.prems"(2)] x by simp
    then show ?thesis using "1.IH" [OF x r(1) [symmetric] refl] r(2) by simp
  next
    case False
    then show ?thesis using "1.prems" by (auto simp: skip_empty.simps [of ev c] split: option.splits)
  qed
qed

lemma read_word_used:
  "read_word ev w c p = (Inr u, p') \<Longrightarrow> used (length w + weight c) p q \<Longrightarrow> used (length u) p' q"
proof (induction ev w c p arbitrary: u p' rule: read_word.induct)
  case (1 ev w c p)
  show ?case
  proof (cases "\<exists>x. c = Some x \<and> \<not> isempty x")
    case True
    then obtain x where x: "c = Some x" "\<not> isempty x" by blast
    then obtain e r where r: "ParseChar ev False p = (Inr e, r)" "read_word ev (w @ [x]) e r = (Inr u, p')"
      using "1.prems" by (auto simp: read_word.simps [of ev w "Some x"] split: prod.splits sum.splits)
    have "used (length (w @ [x]) + weight e) r q"
      using used_trans [OF read_used [OF r(1)] "1.prems"(2)] x by (simp add: ac_simps)
    then show ?thesis using "1.IH" [OF x r(1) [symmetric] refl] r(2) by simp
  next
    case False
    then show ?thesis using "1.prems" by (auto simp: read_word.simps [of ev w c] split: option.splits)
  qed
qed

text \<open>A word read uses up as many characters; pushing it back makes up for them.\<close>

lemma ParseToken_used:
  assumes "ParseToken ev p = (Inr w, p')"
  shows "used (length w) p' p"
proof -
  obtain c q d r where q: "ParseChar ev False p = (Inr c, q)" "skip_empty ev c q = (Inr d, r)"
      "read_word ev [] d r = (Inr w, p')"
    using assms by (auto simp: ParseToken_def split: prod.splits sum.splits)
  have "used (weight d) r p" by (rule skip_empty_used [OF q(2) read_used [OF q(1)]])
  then show ?thesis using read_word_used [OF q(3), of p] by simp
qed

lemma PushToken_used:
  assumes "ParseToken ev p = (Inr w, p')"
  shows "used 0 (PushToken w p') p"
proof -
  have "solid w \<le> length w" by (simp add: solid_def)
  moreover have "solid (w @ '' '') = solid w" by (simp add: solid_def isempty_def isspace_def)
  moreover have "text_size (PushToken w p') = text_size p'" by (simp add: PushToken_def text_size_def)
  ultimately show ?thesis
    using ParseToken_used [OF assms] by (auto simp: used_def PushToken_def)
qed

interpretation used: parse_relation "used 0"
  by unfold_locales (auto intro: used_0_trans ParseChar_used [THEN used_weaken])

text \<open>Reading words ends: a relation for the loops over them.\<close>

definition word_order :: "(Parser \<times> Parser) set" where
  "word_order = inv_image (less_than <*lex*> less_than <*lex*> less_than)
     (\<lambda>p. (fst (text_size p), snd (text_size p), solid (tokenPushed p)))"

lemma wf_word_order [simp, intro]: "wf word_order"
  by (simp add: word_order_def wf_lex_prod)

lemma used_word_order: "used k p' p \<Longrightarrow> 0 < k \<Longrightarrow> (p', p) \<in> word_order"
  by (cases "text_size p'"; cases "text_size p") (auto simp: used_def word_order_def)

section \<open>Reading plain text\<close>

text \<open>
  A parse pointer that is not in the middle of a substitution or of a word pushed back, on text
  without expressions.
\<close>

definition plain :: "Parser \<Rightarrow> bool" where
  "plain p \<longleftrightarrow> tokenPushed p = [] \<and> \<not> isnested p \<and> epos p = [] \<and> CHR ''['' \<notin> set (pos p)"

definition first_word :: "string \<Rightarrow> string" where
  "first_word s = takeWhile (\<lambda>c. \<not> isempty c) (dropWhile isempty s)"

text \<open>The word takes the character that delimits it along.\<close>

definition after_word :: "string \<Rightarrow> string" where
  "after_word s = tl (dropWhile (\<lambda>c. \<not> isempty c) (dropWhile isempty s))"

lemma plain_settle [simp]: "plain p \<Longrightarrow> settle p = p"
  by (simp add: plain_def settle_def)

lemma ParseChar_plain_Nil: "plain p \<Longrightarrow> pos p = [] \<Longrightarrow> ParseChar ev look p = (Inr None, p)"
  by (simp add: ParseChar_def plain_def parse_text_end nesting_def settle_def)

lemma ParseChar_plain_Cons:
  "plain p \<Longrightarrow> pos p = c # s \<Longrightarrow>
   ParseChar ev look p = (Inr (Some c), if look then p else p\<lparr>pos := s\<rparr>)"
  by (auto simp: ParseChar_def plain_def parse_text_char nesting_def settle_def)

lemma plain_pos: "plain p \<Longrightarrow> set s \<subseteq> set (pos p) \<Longrightarrow> plain (p\<lparr>pos := s\<rparr>)"
  by (auto simp: plain_def)

lemma skip_empty_plain:
  assumes "plain p" "pos p = s"
  shows "(case ParseChar ev False p of (Inl e, p) \<Rightarrow> (Inl e, p) | (Inr c, p) \<Rightarrow> skip_empty ev c p)
    = (Inr (peek (dropWhile isempty s)), p\<lparr>pos := tl (dropWhile isempty s)\<rparr>)"
  using assms
proof (induction s arbitrary: p)
  case Nil
  then show ?case by (simp add: ParseChar_plain_Nil skip_empty.simps)
next
  case (Cons c s)
  have "plain (p\<lparr>pos := s\<rparr>)" using Cons.prems by (intro plain_pos) auto
  from Cons.IH [OF this] Cons.prems show ?case
    by (auto simp: ParseChar_plain_Cons skip_empty.simps [of ev "Some c"])
qed

lemma read_word_plain:
  assumes "plain p" "pos p = s" "\<not> isempty c"
  shows "read_word ev w (Some c) p =
    (Inr (w @ takeWhile (\<lambda>c. \<not> isempty c) (c # s)), p\<lparr>pos := tl (dropWhile (\<lambda>c. \<not> isempty c) s)\<rparr>)"
  using assms
proof (induction s arbitrary: p w c)
  case Nil
  then show ?case
    by (simp add: read_word.simps [of ev w "Some c"] read_word.simps [of ev _ None] ParseChar_plain_Nil)
next
  case (Cons d s)
  have "plain (p\<lparr>pos := s\<rparr>)" using Cons.prems by (intro plain_pos) auto
  from Cons.IH [OF this _, of d "w @ [c]"] Cons.prems show ?case
    by (cases "isempty d")
      (simp_all add: read_word.simps [of ev w "Some c"] read_word.simps [of ev _ "Some d"] ParseChar_plain_Cons)
qed

lemma ParseToken_plain:
  assumes "plain p"
  shows "ParseToken ev p = (Inr (first_word (pos p)), p\<lparr>pos := after_word (pos p)\<rparr>)"
proof -
  let ?s = "dropWhile isempty (pos p)"
  have eq: "ParseToken ev p = read_word ev [] (peek ?s) (p\<lparr>pos := tl ?s\<rparr>)"
    using skip_empty_plain [OF assms refl, of ev]
    by (cases "ParseChar ev False p"; cases "fst (ParseChar ev False p)") (auto simp: ParseToken_def)
  show ?thesis
  proof (cases ?s)
    case Nil
    show ?thesis unfolding eq first_word_def after_word_def Nil by (simp add: read_word.simps)
  next
    case (Cons c s)
    have c: "\<not> isempty c" using Cons by (metis hd_dropWhile list.discI list.sel(1))
    have "set s \<subseteq> set (pos p)" using Cons set_dropWhileD [of _ isempty "pos p"] by auto
    then have "plain (p\<lparr>pos := s\<rparr>)" using assms by (intro plain_pos)
    from read_word_plain [OF this _ c, of s ev "[]"] show ?thesis
      using c by (simp add: eq Cons first_word_def after_word_def)
  qed
qed

text \<open>A word pushed back is the next word read, and the text after it is as it was.\<close>

lemma ParseChar_pushed:
  "tokenPushed p = c # s \<Longrightarrow> ParseChar ev look p = (Inr (Some c), if look then p else p\<lparr>tokenPushed := s\<rparr>)"
  by (simp add: ParseChar_def)

lemma read_word_pushed:
  assumes "tokenPushed p = w @ '' ''" "list_all (\<lambda>c. \<not> isempty c) (c # w)"
  shows "read_word ev u (Some c) p = (Inr (u @ c # w), p\<lparr>tokenPushed := []\<rparr>)"
  using assms
proof (induction w arbitrary: p u c)
  case Nil
  have "isempty CHR '' ''" by (simp add: isempty_def isspace_def)
  then show ?case using Nil
    by (simp add: read_word.simps [of ev u "Some c"] read_word.simps [of ev _ "Some CHR '' ''"] ParseChar_pushed)
next
  case (Cons d w)
  then show ?case
    using Cons.IH [of "p\<lparr>tokenPushed := w @ '' ''\<rparr>" d "u @ [c]"]
    by (simp add: read_word.simps [of ev u "Some c"] ParseChar_pushed)
qed

lemma ParseToken_PushToken:
  assumes "w \<noteq> []" "list_all (\<lambda>c. \<not> isempty c) w" "tokenPushed p = []"
  shows "ParseToken ev (PushToken w p) = (Inr w, p)"
proof -
  obtain c v where w: "w = c # v" using assms(1) by (cases w) auto
  have p: "p\<lparr>tokenPushed := []\<rparr> = p" using assms(3) by simp
  show ?thesis
    using assms(2) read_word_pushed [of "p\<lparr>tokenPushed := v @ '' ''\<rparr>" v c ev "[]"]
    by (simp add: w PushToken_def ParseToken_def ParseChar_pushed skip_empty.simps p)
qed

text \<open>
  The words \<open>ParseToken\<close> returns have no white space, so each can be pushed back.
\<close>

lemma read_word_solid:
  "read_word ev w c p = (Inr u, p') \<Longrightarrow> list_all (\<lambda>c. \<not> isempty c) w \<Longrightarrow> list_all (\<lambda>c. \<not> isempty c) u"
proof (induction ev w c p arbitrary: u p' rule: read_word.induct)
  case (1 ev w c p)
  show ?case
  proof (cases c)
    case None
    then show ?thesis using "1.prems" by (simp add: read_word.simps)
  next
    case (Some x)
    show ?thesis
    proof (cases "isempty x")
      case True
      then show ?thesis using "1.prems" Some by (simp add: read_word.simps)
    next
      case False
      then show ?thesis using "1.prems" "1.IH" Some
        by (auto simp: read_word.simps [of ev w "Some x" p] split: prod.splits sum.splits)
    qed
  qed
qed

lemma ParseToken_solid: "ParseToken ev p = (Inr w, p') \<Longrightarrow> list_all (\<lambda>c. \<not> isempty c) w"
  by (auto simp: ParseToken_def dest: read_word_solid split: prod.splits sum.splits)

section \<open>Quoted strings read back\<close>

text \<open>How a script writes a string: quotes and backslashes escaped, brackets doubled.\<close>

definition quote_char :: "char \<Rightarrow> string" where
  "quote_char c =
    (if c = CHR 0x22 \<or> c = CHR 0x5C then [CHR 0x5C, c] else if c = CHR ''['' then ''[['' else [c])"

definition quoted :: "string \<Rightarrow> string" where
  "quoted s = concat (map quote_char s)"

definition unnested :: "Parser \<Rightarrow> bool" where
  "unnested p \<longleftrightarrow> tokenPushed p = [] \<and> \<not> isnested p \<and> epos p = [] \<and> allownested p"

lemma unnested_pos [simp]: "unnested (p\<lparr>pos := s\<rparr>) = unnested p"
  by (simp add: unnested_def)

lemma ParseChar_unnested:
  "unnested p \<Longrightarrow> pos p = c # s \<Longrightarrow> c \<noteq> CHR ''['' \<Longrightarrow>
   ParseChar ev look p = (Inr (Some c), if look then p else p\<lparr>pos := s\<rparr>)"
  "unnested p \<Longrightarrow> pos p = CHR ''['' # CHR ''['' # s \<Longrightarrow>
   ParseChar ev look p = (Inr (Some CHR ''[''), if look then p else p\<lparr>pos := s\<rparr>)"
  by (auto simp: unnested_def ParseChar_def parse_text_char parse_text_bracket nesting_def settle_def)

lemma read_quoted_quote: "read_quoted ev w (Some CHR 0x22) p = (Inr w, p)"
  by (simp add: read_quoted.simps)

lemma read_quoted_char:
  assumes "unnested p" "pos p = quote_char c @ s"
  shows "(case ParseChar ev False p of (Inl e, p) \<Rightarrow> (Inl e, p) | (Inr c, p) \<Rightarrow> read_quoted ev w c p)
    = (case ParseChar ev False (p\<lparr>pos := s\<rparr>) of
         (Inl e, p) \<Rightarrow> (Inl e, p) | (Inr d, p) \<Rightarrow> read_quoted ev (w @ [c]) d p)"
proof -
  consider "c = CHR 0x22 \<or> c = CHR 0x5C" | "c = CHR ''[''"
    | "c \<noteq> CHR 0x22" "c \<noteq> CHR 0x5C" "c \<noteq> CHR ''[''" by blast
  then show ?thesis
  proof cases
    case 1
    have "ParseChar ev False p = (Inr (Some CHR 0x5C), p\<lparr>pos := c # s\<rparr>)"
      using 1 assms by (auto simp: quote_char_def ParseChar_unnested(1))
    moreover have "ParseChar ev False (p\<lparr>pos := c # s\<rparr>) = (Inr (Some c), p\<lparr>pos := s\<rparr>)"
      using 1 assms(1) by (subst ParseChar_unnested(1) [of _ c s]) auto
    moreover have "escape ev (Some c) q = (Inr [c], q)" for q
      using 1 by (auto simp: escape_def)
    ultimately show ?thesis
      by (simp add: read_quoted.simps [of ev w "Some CHR 0x5C"])
  next
    case 2
    then have "ParseChar ev False p = (Inr (Some c), p\<lparr>pos := s\<rparr>)"
      using assms by (simp add: quote_char_def ParseChar_unnested(2))
    then show ?thesis unfolding 2 by (simp add: read_quoted.simps [of ev w "Some CHR ''[''"])
  next
    case 3
    then have "ParseChar ev False p = (Inr (Some c), p\<lparr>pos := s\<rparr>)"
      using assms by (simp add: quote_char_def ParseChar_unnested(1))
    then show ?thesis using 3 by (simp add: read_quoted.simps [of ev w "Some c"])
  qed
qed

lemma read_quoted_quoted:
  assumes "unnested p" "pos p = quoted s @ CHR 0x22 # rest"
  shows "(case ParseChar ev False p of (Inl e, p) \<Rightarrow> (Inl e, p) | (Inr c, p) \<Rightarrow> read_quoted ev w c p)
    = (Inr (w @ s), p\<lparr>pos := rest\<rparr>)"
  using assms
proof (induction s arbitrary: p w)
  case Nil
  then show ?case by (simp add: quoted_def ParseChar_unnested(1) read_quoted_quote)
next
  case (Cons c s)
  then have "pos p = quote_char c @ (quoted s @ CHR 0x22 # rest)" by (simp add: quoted_def)
  from read_quoted_char [OF Cons.prems(1) this] show ?case
    using Cons.IH [of "p\<lparr>pos := quoted s @ CHR 0x22 # rest\<rparr>" "w @ [c]"] Cons.prems(1) by simp
qed

lemma ParseQuotedString_quoted_aux:
  assumes "unnested p" "pos p = CHR 0x22 # quoted s @ CHR 0x22 # rest"
  shows "ParseQuotedString ev p = (Inr s, p\<lparr>pos := rest\<rparr>)"
proof -
  let ?q = "p\<lparr>pos := quoted s @ CHR 0x22 # rest\<rparr>"
  have "skip_spaces ev p = (Inr (Some CHR 0x22), p)"
    using assms by (subst skip_spaces.simps) (simp add: ParseChar_unnested(1) isempty_def isspace_def)
  then have "ParseNonSpaceChar ev False p = (Inr (Some CHR 0x22), ?q)"
    using assms by (simp add: ParseNonSpaceChar_def ParseChar_unnested(1))
  then show ?thesis
    using read_quoted_quoted [of ?q s rest ev "[]"] assms(1)
    by (simp add: ParseQuotedString_def split: prod.splits sum.splits)
qed

definition no_evaluator :: evaluator where
  "no_evaluator = \<lparr>ev_expr = \<lambda>_. (0, Inl E_SWERR), ev_str = \<lambda>_. Inl E_SWERR\<rparr>"

section \<open>Properties\<close>

text \<open>
  C27. On plain text \<open>ParseToken\<close> returns the first word and moves past it and the character
  that ends it; and a word it returned, of any text, that is pushed back is the next word read,
  leaving the same parse pointer.
\<close>

theorem ParseToken_reads_word:
  shows "(plain p \<longrightarrow> ParseToken ev p = (Inr (first_word (pos p)), p\<lparr>pos := after_word (pos p)\<rparr>))
    \<and> (ParseToken ev p = (Inr w, p') \<and> w \<noteq> [] \<and> tokenPushed p' = []
        \<longrightarrow> ParseToken ev (PushToken w p') = (Inr w, p'))"
  using ParseToken_plain [of p ev] ParseToken_PushToken [of w p' ev] ParseToken_solid [of ev p w p']
  by blast

theorem ParseToken_reads_word_witness:
  "ParseToken no_evaluator (CreateParser ''  Mon MSG x'') = (Inr ''Mon'', CreateParser ''MSG x'')
    \<and> ParseToken no_evaluator (PushToken ''Mon'' (CreateParser ''MSG x'')) = (Inr ''Mon'', CreateParser ''MSG x'')"
proof -
  let ?p = "CreateParser ''  Mon MSG x''"
  have "plain ?p" by (simp add: plain_def CreateParser_def)
  moreover have "first_word (pos ?p) = ''Mon''" "?p\<lparr>pos := after_word (pos ?p)\<rparr> = CreateParser ''MSG x''"
    by (simp_all add: CreateParser_def first_word_def after_word_def isempty_def isspace_def)
  ultimately have 1: "ParseToken no_evaluator ?p = (Inr ''Mon'', CreateParser ''MSG x'')"
    using ParseToken_reads_word [of ?p no_evaluator] by simp
  moreover have "tokenPushed (CreateParser ''MSG x'') = []" by (simp add: CreateParser_def)
  ultimately show ?thesis
    using ParseToken_reads_word [of ?p no_evaluator "''Mon''" "CreateParser ''MSG x''"] by simp
qed

text \<open>
  C28. A string written between quotes, its quotes and backslashes escaped and its brackets
  doubled, is read back as it was, and the text after it is left.
\<close>

theorem ParseQuotedString_quoted:
  assumes "unnested p" "pos p = CHR 0x22 # quoted s @ CHR 0x22 # rest"
  shows "ParseQuotedString ev p = (Inr s, p\<lparr>pos := rest\<rparr>)"
  by (rule ParseQuotedString_quoted_aux [OF assms])

theorem ParseQuotedString_quoted_witness:
  "ParseQuotedString no_evaluator (CreateParser [CHR 0x22, CHR ''['', CHR ''['', CHR 0x5C, CHR 0x22, CHR 0x22, CHR ''y''])
    = (Inr [CHR ''['', CHR 0x22], CreateParser ''y'')"
  using ParseQuotedString_quoted
    [of "CreateParser [CHR 0x22, CHR ''['', CHR ''['', CHR 0x5C, CHR 0x22, CHR 0x22, CHR ''y'']"
      "[CHR ''['', CHR 0x22]" "''y''" no_evaluator]
  by (simp add: CreateParser_def unnested_def quoted_def quote_char_def)

end
