(* ===== verification/Omits.thy ===== *)
theory Omits
  imports Tokens "HOL-Library.Word"
begin

unbundle bit_operations_syntax

text \<open>
  The global OMIT context, \<^verbatim>\<open>src/src/omit.c\<close>: the arrays of fully specified dates and of
  (month, day) pairs, both kept sorted and searched by bisection, the mask of omitted
  weekdays, and the stack of saved contexts.  Every operation of the file is modelled on
  the arrays themselves; \<open>omit_inv\<close> is the invariant they keep, and \<open>omitted_day\<close> the
  meaning that \<open>IsOmitted\<close> implements.  A write past the end of an array is \<open>None\<close>.
\<close>

section \<open>State\<close>

definition MAX_FULL_OMITS :: nat where "MAX_FULL_OMITS = 1000"
definition MAX_PARTIAL_OMITS :: nat where "MAX_PARTIAL_OMITS = 366"

record OmitContext =
  oc_filename :: string
  oc_lineno :: int
  numfull :: nat
  numpart :: nat
  fullsave :: "int list"
  partsave :: "int list"
  weekdaysave :: int

record omit_state =
  FullOmitArray :: "int list"
  PartialOmitArray :: "int list"
  NumFullOmits :: nat
  NumPartialOmits :: nat
  WeekdayOmits :: int
  SavedOmitContexts :: "OmitContext list"

definition omit_init :: omit_state where
  "omit_init = \<lparr>FullOmitArray = replicate MAX_FULL_OMITS 0,
     PartialOmitArray = replicate MAX_PARTIAL_OMITS 0, NumFullOmits = 0, NumPartialOmits = 0,
     WeekdayOmits = 0, SavedOmitContexts = []\<rparr>"

section \<open>The sorted arrays\<close>

definition BexistsIntArray :: "int list \<Rightarrow> nat \<Rightarrow> int \<Rightarrow> bool" where
  "BexistsIntArray arr num key =
    (bsearch (\<lambda>mid. if arr ! nat mid = key then 0 else if arr ! nat mid > key then 1 else -1)
       0 (int num - 1) \<noteq> None)"

primrec shift_up :: "int list \<Rightarrow> nat \<Rightarrow> int \<Rightarrow> int list" where
  "shift_up arr 0 key = arr[0 := key]"
| "shift_up arr (Suc c) key =
    (if arr ! c > key then shift_up (arr[Suc c := arr ! c]) c key else arr[Suc c := key])"

definition InsertIntoSortedArray :: "int list \<Rightarrow> nat \<Rightarrow> int \<Rightarrow> int list option" where
  "InsertIntoSortedArray arr num key =
    (if num < length arr then Some (shift_up arr num key) else None)"

section \<open>Clearing, saving and restoring the context\<close>

definition ClearGlobalOmits :: "omit_state \<Rightarrow> omit_state" where
  "ClearGlobalOmits s = s\<lparr>NumFullOmits := 0, NumPartialOmits := 0, WeekdayOmits := 0\<rparr>"

text \<open>
  The commands take \<open>eoln\<close>, what \<open>VerifyEoln\<close> says of the rest of their line, and return
  an error, if any, with the new state.
\<close>

definition DoClear :: "errcode option \<Rightarrow> omit_state \<Rightarrow> errcode option \<times> omit_state" where
  "DoClear eoln s = (eoln, ClearGlobalOmits s)"

text \<open>\<open>mem_ok\<close>: the three calls of \<open>malloc\<close> succeed.\<close>

definition PushOmitContext ::
    "bool \<Rightarrow> string \<Rightarrow> int \<Rightarrow> errcode option \<Rightarrow> omit_state \<Rightarrow> errcode option \<times> omit_state" where
  "PushOmitContext mem_ok fname lineno eoln s =
    (if \<not> mem_ok then (Some E_NO_MEM, s)
     else let context =
         \<lparr>oc_filename = fname, oc_lineno = lineno,
          numfull = NumFullOmits s, numpart = NumPartialOmits s,
          fullsave = take (NumFullOmits s) (FullOmitArray s),
          partsave = take (NumPartialOmits s) (PartialOmitArray s),
          weekdaysave = WeekdayOmits s\<rparr>
       in (eoln, s\<lparr>SavedOmitContexts := context # SavedOmitContexts s\<rparr>))"

text \<open>\<open>memcpy(dst, src, n)\<close> on the array contents.\<close>

definition memcpy_ints :: "int list \<Rightarrow> int list \<Rightarrow> nat \<Rightarrow> int list" where
  "memcpy_ints dst src n = take n src @ drop n dst"

definition PopOmitContext :: "errcode option \<Rightarrow> omit_state \<Rightarrow> errcode option \<times> omit_state" where
  "PopOmitContext eoln s =
    (case SavedOmitContexts s of
       [] \<Rightarrow> (Some E_POP_NO_PUSH, s)
     | c # rest \<Rightarrow>
         (eoln, s\<lparr>NumFullOmits := numfull c, NumPartialOmits := numpart c,
            WeekdayOmits := weekdaysave c,
            FullOmitArray := memcpy_ints (FullOmitArray s) (fullsave c) (numfull c),
            PartialOmitArray := memcpy_ints (PartialOmitArray s) (partsave c) (numpart c),
            SavedOmitContexts := rest\<rparr>))"

definition DestroyOmitContexts :: "omit_state \<Rightarrow> nat \<times> omit_state" where
  "DestroyOmitContexts s = (length (SavedOmitContexts s), s\<lparr>SavedOmitContexts := []\<rparr>)"

section \<open>Is a date omitted?\<close>

text \<open>
  The user's functions, as the trigger code sees them: \<open>UserFuncExists\<close> (the number of
  arguments, or -1) and the evaluation of a call with a date, here as the triple of year,
  month from 1 and day that \<open>IsOmitted\<close> prints into the call.
\<close>

record ufuncs =
  UserFuncExists :: "string \<Rightarrow> int"
  call_date :: "string \<Rightarrow> int \<times> int \<times> int \<Rightarrow> errcode + Value"

definition weekday_bit :: "int \<Rightarrow> int" where
  "weekday_bit dse = push_bit (nat (dse smod 7)) 1"

definition IsOmitted ::
    "ufuncs \<Rightarrow> omit_state \<Rightarrow> int \<Rightarrow> int \<Rightarrow> string \<Rightarrow> (errcode + bool) option" where
  "IsOmitted uf s dse lomit ofunc =
    (if ofunc \<noteq> [] \<and> UserFuncExists uf ofunc \<noteq> 0 then
       (case FromDSE dse of (y, m, d) \<Rightarrow>
          Some (case call_date uf ofunc (y, m + 1, d) of
            Inl r \<Rightarrow> Inl r
          | Inr v \<Rightarrow> Inr (case v of IntV i \<Rightarrow> i \<noteq> 0 | _ \<Rightarrow> False)))
     else if dse smod 7 < 0 then None
     else if lomit AND weekday_bit dse \<noteq> 0 then Some (Inr True)
     else if WeekdayOmits s AND weekday_bit dse \<noteq> 0 then Some (Inr True)
     else if BexistsIntArray (FullOmitArray s) (NumFullOmits s) dse then Some (Inr True)
     else case FromDSE dse of (_, m, d) \<Rightarrow>
       if BexistsIntArray (PartialOmitArray s) (NumPartialOmits s) (push_bit 5 m + d)
       then Some (Inr True) else Some (Inr False))"

section \<open>Adding omits\<close>

definition insert_full :: "omit_state \<Rightarrow> int \<Rightarrow> omit_state option" where
  "insert_full s key =
    map_option (\<lambda>a. s\<lparr>FullOmitArray := a, NumFullOmits := Suc (NumFullOmits s)\<rparr>)
      (InsertIntoSortedArray (FullOmitArray s) (NumFullOmits s) key)"

definition insert_partial :: "omit_state \<Rightarrow> int \<Rightarrow> omit_state option" where
  "insert_partial s key =
    map_option (\<lambda>a. s\<lparr>PartialOmitArray := a, NumPartialOmits := Suc (NumPartialOmits s)\<rparr>)
      (InsertIntoSortedArray (PartialOmitArray s) (NumPartialOmits s) key)"

definition AddGlobalOmit :: "int \<Rightarrow> omit_state \<Rightarrow> (errcode option \<times> omit_state) option" where
  "AddGlobalOmit dse s =
    (if dse < 0 then Some (None, s)
     else if NumFullOmits s = MAX_FULL_OMITS then Some (Some E_2MANY_FULL, s)
     else if \<not> BexistsIntArray (FullOmitArray s) (NumFullOmits s) dse
     then map_option (\<lambda>s. (None, s)) (insert_full s dse)
     else Some (None, s))"

subsection \<open>The OMIT command: its line\<close>

text \<open>
  The dates before and after \<open>THROUGH\<close>: \<open>y[0]\<close>, \<open>m[0]\<close>, \<open>d[0]\<close> and \<open>y[1]\<close>, \<open>m[1]\<close>, \<open>d[1]\<close>;
  \<open>seen_through\<close> is the index in use.
\<close>

record ymd =
  o_y :: int
  o_m :: int
  o_d :: int

record omit_parse =
  ymd0 :: ymd
  ymd1 :: ymd
  o_wd :: int
  seen_through :: bool

definition no_ymd :: ymd where
  "no_ymd = \<lparr>o_y = NO_YR, o_m = NO_MON, o_d = NO_DAY\<rparr>"

definition omit_parse_init :: omit_parse where
  "omit_parse_init = \<lparr>ymd0 = no_ymd, ymd1 = no_ymd, o_wd = 0, seen_through = False\<rparr>"

definition cur_ymd :: "omit_parse \<Rightarrow> ymd" where
  "cur_ymd p = (if seen_through p then ymd1 p else ymd0 p)"

definition set_ymd :: "omit_parse \<Rightarrow> ymd \<Rightarrow> omit_parse" where
  "set_ymd p x = (if seen_through p then p\<lparr>ymd1 := x\<rparr> else p\<lparr>ymd0 := x\<rparr>)"

datatype omit_step = OmitMore omit_parse | OmitDone omit_parse | OmitFail errcode | OmitDump

definition omit_token :: "bool \<Rightarrow> omit_parse \<Rightarrow> tok_result \<Rightarrow> omit_step" where
  "omit_token not_first p tok =
    (case tok of (ty, v) \<Rightarrow>
      (case ty of
         T_WkDay \<Rightarrow>
           if o_wd p AND push_bit (nat v) 1 \<noteq> 0 then OmitFail E_WD_TWICE
           else OmitMore (p\<lparr>o_wd := o_wd p OR push_bit (nat v) 1\<rparr>)
       | T_Dumpvars \<Rightarrow> if not_first then OmitFail E_PARSE_ERR else OmitDump
       | T_Date \<Rightarrow>
           if o_y (cur_ymd p) \<noteq> NO_YR then OmitFail E_YR_TWICE
           else if o_m (cur_ymd p) \<noteq> NO_MON then OmitFail E_MON_TWICE
           else if o_d (cur_ymd p) \<noteq> NO_DAY then OmitFail E_DAY_TWICE
           else (case FromDSE v of (y, m, d) \<Rightarrow> OmitMore (set_ymd p \<lparr>o_y = y, o_m = m, o_d = d\<rparr>))
       | T_Year \<Rightarrow>
           if o_y (cur_ymd p) \<noteq> NO_YR then OmitFail E_YR_TWICE
           else OmitMore (set_ymd p ((cur_ymd p)\<lparr>o_y := v\<rparr>))
       | T_Month \<Rightarrow>
           if o_m (cur_ymd p) \<noteq> NO_MON then OmitFail E_MON_TWICE
           else OmitMore (set_ymd p ((cur_ymd p)\<lparr>o_m := v\<rparr>))
       | T_Day \<Rightarrow>
           if o_d (cur_ymd p) \<noteq> NO_DAY then OmitFail E_DAY_TWICE
           else OmitMore (set_ymd p ((cur_ymd p)\<lparr>o_d := v\<rparr>))
       | T_Delta \<Rightarrow> OmitMore p
       | T_Through \<Rightarrow>
           if o_wd p \<noteq> 0 then OmitFail E_PARSE_ERR
           else if seen_through p then OmitFail E_UNTIL_TWICE
           else OmitMore (p\<lparr>seen_through := True\<rparr>)
       | T_Empty \<Rightarrow> OmitDone p
       | T_Comment \<Rightarrow> OmitDone p
       | T_RemType \<Rightarrow> OmitDone p
       | T_Priority \<Rightarrow> OmitDone p
       | T_Tag \<Rightarrow> OmitDone p
       | T_Info \<Rightarrow> OmitDone p
       | T_Duration \<Rightarrow> OmitDone p
       | _ \<Rightarrow> OmitFail E_UNKNOWN_TOKEN))"

text \<open>
  The words of the line as \<open>ParseToken\<close> and \<open>FindToken\<close> give them, the last one first to
  end the line: a list that runs out reads as the empty token.
\<close>

fun omit_line ::
    "bool \<Rightarrow> omit_parse \<Rightarrow> (errcode + tok_result) list \<Rightarrow> errcode + (omit_parse \<times> TokTypes) option" where
  "omit_line not_first p [] = Inr (Some (p, T_Empty))"
| "omit_line not_first p (Inl r # toks) = Inl r"
| "omit_line not_first p (Inr tok # toks) =
    (case omit_token not_first p tok of
       OmitMore p \<Rightarrow> omit_line True p toks
     | OmitDone p \<Rightarrow> Inr (Some (p, fst tok))
     | OmitFail e \<Rightarrow> Inl e
     | OmitDump \<Rightarrow> Inr None)"

text \<open>A reminder follows on the same line.\<close>

definition parse_as_rem :: "TokTypes \<Rightarrow> errcode option" where
  "parse_as_rem ty =
    (if ty = T_Tag \<or> ty = T_Info \<or> ty = T_Duration \<or> ty = T_RemType \<or> ty = T_Priority
     then Some E_PARSE_AS_REM else None)"

subsection \<open>The OMIT command: its effect\<close>

definition month_or_max :: "int \<Rightarrow> int \<Rightarrow> int" where
  "month_or_max m y = (if y = NO_YR then MonthDays ! nat m else DaysInMonth m y)"

text \<open>The first and the last day of the range the line names.\<close>

definition omit_range :: "omit_parse \<Rightarrow> errcode + ymd \<times> ymd" where
  "omit_range p =
    (let a = ymd0 p; b = ymd1 p in
     if \<not> seen_through p then
       if o_m a = NO_MON then Inl E_SPEC_MON
       else if o_d a = NO_DAY
       then Inr (a\<lparr>o_d := 1\<rparr>, a\<lparr>o_d := month_or_max (o_m a) (o_y a)\<rparr>)
       else Inr (a, a)
     else
       if o_m a = NO_MON then Inl E_SPEC_MON
       else if o_m b = NO_MON then Inl E_SPEC_MON
       else if o_y a \<noteq> NO_YR \<and> o_y b = NO_YR \<or> o_y a = NO_YR \<and> o_y b \<noteq> NO_YR then Inl E_BAD_DATE
       else Inr (if o_d a = NO_DAY then a\<lparr>o_d := 1\<rparr> else a,
                 if o_d b = NO_DAY then b\<lparr>o_d := month_or_max (o_m b) (o_y b)\<rparr> else b))"

partial_function (option) omit_partial ::
    "int \<Rightarrow> int \<Rightarrow> int \<Rightarrow> int \<Rightarrow> omit_state \<Rightarrow> omit_state option" where
  "omit_partial mc dc m1 d1 s =
    (let syndrome = push_bit 5 mc + dc in
     Option.bind
       (if \<not> BexistsIntArray (PartialOmitArray s) (NumPartialOmits s) syndrome
        then insert_partial s syndrome else Some s)
       (\<lambda>s. if mc = m1 \<and> dc = d1 then Some s
            else if dc + 1 > MonthDays ! nat mc
            then omit_partial (if mc + 1 > 11 then 0 else mc + 1) 1 m1 d1 s
            else omit_partial mc (dc + 1) m1 d1 s))"

function omit_full :: "int \<Rightarrow> int \<Rightarrow> omit_state \<Rightarrow> (errcode option \<times> omit_state) option" where
  "omit_full tmp fin s =
    (if tmp \<le> fin then
       if \<not> BexistsIntArray (FullOmitArray s) (NumFullOmits s) tmp then
         if NumFullOmits s \<ge> MAX_FULL_OMITS then Some (Some E_2MANY_FULL, s)
         else (case insert_full s tmp of None \<Rightarrow> None | Some s \<Rightarrow> omit_full (tmp + 1) fin s)
       else omit_full (tmp + 1) fin s
     else Some (None, s))"
  by pat_completeness auto
termination
  by (relation "measure (\<lambda>(tmp, fin, s). nat (fin + 1 - tmp))") auto

declare omit_full.simps [simp del]

definition omit_dates :: "ymd \<Rightarrow> ymd \<Rightarrow> omit_state \<Rightarrow> (errcode option \<times> omit_state) option" where
  "omit_dates a b s =
    (if o_y a = NO_YR then
       if o_d a > MonthDays ! nat (o_m a) then Some (Some E_BAD_DATE, s)
       else if o_d b > MonthDays ! nat (o_m b) then Some (Some E_BAD_DATE, s)
       else map_option (\<lambda>s. (None, s)) (omit_partial (o_m a) (o_d a) (o_m b) (o_d b) s)
     else
       if o_d a > DaysInMonth (o_m a) (o_y a) then Some (Some E_BAD_DATE, s)
       else if o_d b > DaysInMonth (o_m b) (o_y b) then Some (Some E_BAD_DATE, s)
       else let start = DSE (o_y a) (o_m a) (o_d a); fin = DSE (o_y b) (o_m b) (o_d b) in
         if fin < start then Some (Some E_BAD_DATE, s) else omit_full start fin s)"

definition DoOmit ::
    "errcode option \<Rightarrow> (errcode + tok_result) list \<Rightarrow> omit_state \<Rightarrow>
     (errcode option \<times> omit_state) option" where
  "DoOmit eoln toks s =
    (case omit_line False omit_parse_init toks of
       Inl e \<Rightarrow> Some (Some e, s)
     | Inr None \<Rightarrow> Some (eoln, s)
     | Inr (Some (p, ty)) \<Rightarrow>
         if o_wd p \<noteq> 0 then
           if o_y (ymd0 p) \<noteq> NO_YR \<or> o_m (ymd0 p) \<noteq> NO_MON \<or> o_d (ymd0 p) \<noteq> NO_DAY
           then Some (Some E_PARSE_ERR, s)
           else if WeekdayOmits s OR o_wd p = 0x7F then Some (Some E_2MANY_LOCALOMIT, s)
           else Some (parse_as_rem ty, s\<lparr>WeekdayOmits := WeekdayOmits s OR o_wd p\<rparr>)
         else case omit_range p of
           Inl e \<Rightarrow> Some (Some e, s)
         | Inr (a, b) \<Rightarrow>
             (case omit_dates a b s of
                None \<Rightarrow> None
              | Some (Some e, s) \<Rightarrow> Some (Some e, s)
              | Some (None, s) \<Rightarrow> Some (parse_as_rem ty, s)))"

section \<open>The arrays as sets\<close>

lemma BexistsIntArray_iff:
  assumes "sorted (take num arr)" "num \<le> length arr"
  shows "BexistsIntArray arr num key \<longleftrightarrow> key \<in> set (take num arr)"
proof -
  let ?c = "\<lambda>mid. if arr ! nat mid = key then 0 else if arr ! nat mid > key then 1 else (-1::int)"
  have mono: "arr ! nat i \<le> arr ! nat j" if "0 \<le> i" "i < j" "j < int num" for i j
    using sorted_nth_mono [OF assms(1), of "nat i" "nat j"] that assms(2) by simp
  have "search_table ?c (int num)"
    using mono by unfold_locales (force split: if_splits)+
  from search_table.bsearch_iff [OF this]
  have "BexistsIntArray arr num key \<longleftrightarrow> (\<exists>i. 0 \<le> i \<and> i < int num \<and> arr ! nat i = key)"
    by (simp add: BexistsIntArray_def) (auto split: if_splits)
  also have "\<dots> \<longleftrightarrow> (\<exists>k < num. arr ! k = key)"
    by (metis int_nat_eq nat_int of_nat_0_le_iff of_nat_less_iff)
  also have "\<dots> \<longleftrightarrow> key \<in> set (take num arr)"
    using assms(2) by (auto simp: in_set_conv_nth)
  finally show ?thesis .
qed

lemma shift_up_insort:
  "sorted (take n arr) \<Longrightarrow> n < length arr \<Longrightarrow>
   shift_up arr n key = insort key (take n arr) @ drop (Suc n) arr"
proof (induction n arbitrary: arr)
  case 0
  then show ?case by (cases arr) auto
next
  case (Suc c)
  have tk: "take (Suc c) arr = take c arr @ [arr ! c]" using Suc.prems by (simp add: take_Suc_conv_app_nth)
  then have sorted: "sorted (take c arr)" "\<forall>x \<in> set (take c arr). x \<le> arr ! c"
    using Suc.prems by (auto simp: sorted_append)
  show ?case
  proof (cases "arr ! c > key")
    case True
    have "shift_up (arr[Suc c := arr ! c]) c key
        = insort key (take c arr) @ arr ! c # drop (Suc (Suc c)) arr"
      using Suc.IH [of "arr[Suc c := arr ! c]"] sorted Suc.prems
      by (simp add: drop_update_swap Cons_nth_drop_Suc [symmetric])
    moreover have "insort key (xs @ [arr ! c]) = insort key xs @ [arr ! c]" for xs
      using True by (induction xs) auto
    ultimately show ?thesis using True tk by simp
  next
    case False
    have "insort key xs = xs @ [key]" if "\<forall>x \<in> set xs. x \<le> key" "sorted xs" for xs :: "int list"
      using that by (induction xs) (auto simp: insort_is_Cons)
    moreover have "\<forall>x \<in> set (take (Suc c) arr). x \<le> key" using tk sorted False by auto
    ultimately show ?thesis
      using False Suc.prems by (simp add: upd_conv_take_nth_drop)
  qed
qed

text \<open>An array in use: \<open>num\<close> elements, in order and without duplicates.\<close>

definition int_array :: "nat \<Rightarrow> int list \<Rightarrow> nat \<Rightarrow> bool" where
  "int_array cap arr num \<longleftrightarrow>
    length arr = cap \<and> num \<le> cap \<and> sorted (take num arr) \<and> distinct (take num arr)"

definition elems :: "int list \<Rightarrow> nat \<Rightarrow> int set" where
  "elems arr num = set (take num arr)"

lemma int_array_exists:
  "int_array cap arr num \<Longrightarrow> BexistsIntArray arr num key \<longleftrightarrow> key \<in> elems arr num"
  by (simp add: int_array_def elems_def BexistsIntArray_iff)

lemma int_array_insert:
  assumes "int_array cap arr num" "num < cap" "key \<notin> elems arr num"
  obtains arr' where "InsertIntoSortedArray arr num key = Some arr'"
    "int_array cap arr' (Suc num)" "elems arr' (Suc num) = insert key (elems arr num)"
proof -
  let ?a = "insort key (take num arr) @ drop (Suc num) arr"
  have len: "length (insort key (take num arr)) = Suc num" using assms by (simp add: int_array_def)
  have "take (Suc num) ?a = insort key (take num arr)" using len by simp
  then have "int_array cap ?a (Suc num)" "elems ?a (Suc num) = insert key (elems arr num)"
    using assms len by (auto simp: int_array_def elems_def sorted_insort distinct_insort set_insort_key)
  moreover have "InsertIntoSortedArray arr num key = Some ?a"
    using assms shift_up_insort [of num arr key] by (simp add: int_array_def InsertIntoSortedArray_def)
  ultimately show ?thesis using that by blast
qed

lemma int_array_empty: "length arr = cap \<Longrightarrow> int_array cap arr 0"
  by (simp add: int_array_def)

lemma int_array_memcpy:
  assumes "length dst = cap" "n \<le> cap" "length src = n" "sorted src" "distinct src"
  shows "int_array cap (memcpy_ints dst src n) n" "elems (memcpy_ints dst src n) n = set src"
  using assms by (auto simp: int_array_def elems_def memcpy_ints_def)

section \<open>The invariant\<close>

text \<open>
  The (month, day) pairs are those of a leap year, so their place in the year 2000 orders
  them; \<open>md_pos\<close> counts from 0 to 365.
\<close>

definition md_valid :: "int \<times> int \<Rightarrow> bool" where
  "md_valid x = (case x of (m, d) \<Rightarrow> is_date (2000, m, d))"

definition md_code :: "int \<times> int \<Rightarrow> int" where
  "md_code x = (case x of (m, d) \<Rightarrow> push_bit 5 m + d)"

definition md_pos :: "int \<times> int \<Rightarrow> int" where
  "md_pos x = (case x of (m, d) \<Rightarrow> DSE 2000 m d - DSE 2000 0 1)"

definition partial_ok :: "int list \<Rightarrow> nat \<Rightarrow> bool" where
  "partial_ok arr num \<longleftrightarrow> int_array MAX_PARTIAL_OMITS arr num \<and> elems arr num \<subseteq> md_code ` Collect md_valid"

definition context_ok :: "OmitContext \<Rightarrow> bool" where
  "context_ok c \<longleftrightarrow>
    int_array (numfull c) (fullsave c) (numfull c) \<and> numfull c \<le> MAX_FULL_OMITS
    \<and> int_array (numpart c) (partsave c) (numpart c) \<and> numpart c \<le> MAX_PARTIAL_OMITS
    \<and> set (partsave c) \<subseteq> md_code ` Collect md_valid
    \<and> 0 \<le> weekdaysave c \<and> weekdaysave c < 127"

definition omit_inv :: "omit_state \<Rightarrow> bool" where
  "omit_inv s \<longleftrightarrow>
    int_array MAX_FULL_OMITS (FullOmitArray s) (NumFullOmits s)
    \<and> partial_ok (PartialOmitArray s) (NumPartialOmits s)
    \<and> 0 \<le> WeekdayOmits s \<and> WeekdayOmits s < 127
    \<and> list_all context_ok (SavedOmitContexts s)"

definition full_set :: "omit_state \<Rightarrow> int set" where
  "full_set s = elems (FullOmitArray s) (NumFullOmits s)"

definition partial_set :: "omit_state \<Rightarrow> int set" where
  "partial_set s = elems (PartialOmitArray s) (NumPartialOmits s)"

text \<open>The day of the week, Monday first; 1990-01-01 was a Monday.\<close>

definition in_week :: "int \<Rightarrow> int \<Rightarrow> bool" where
  "in_week w dse \<longleftrightarrow> bit w (nat (dse mod 7))"

definition omitted_day :: "omit_state \<Rightarrow> int \<Rightarrow> int \<Rightarrow> bool" where
  "omitted_day s lomit dse \<longleftrightarrow>
    in_week lomit dse \<or> in_week (WeekdayOmits s) dse \<or> dse \<in> full_set s
    \<or> (case FromDSE dse of (y, m, d) \<Rightarrow> md_code (m, d) \<in> partial_set s)"

lemma weekday_mask: "0 \<le> dse \<Longrightarrow> w AND weekday_bit dse \<noteq> 0 \<longleftrightarrow> in_week w dse"
  by (simp add: weekday_bit_def in_week_def c_arith bit_iff_and_push_bit_not_eq_0)

lemma omit_init_inv: "omit_inv omit_init"
  by (simp add: omit_inv_def omit_init_def partial_ok_def int_array_def elems_def)

lemma ClearGlobalOmits_inv: "omit_inv s \<Longrightarrow> omit_inv (ClearGlobalOmits s)"
  by (auto simp: omit_inv_def ClearGlobalOmits_def partial_ok_def int_array_def elems_def)

lemma PushOmitContext_inv:
  "omit_inv s \<Longrightarrow> PushOmitContext mem f l eoln s = (r, s') \<Longrightarrow> omit_inv s'"
  by (auto simp: PushOmitContext_def omit_inv_def partial_ok_def context_ok_def int_array_def
      elems_def Let_def split: if_splits)

lemma PopOmitContext_inv:
  assumes "omit_inv s" "PopOmitContext eoln s = (r, s')"
  shows "omit_inv s'"
proof (cases "SavedOmitContexts s")
  case Nil
  then show ?thesis using assms by (simp add: PopOmitContext_def)
next
  case (Cons c cs)
  then have c: "context_ok c" "list_all context_ok cs"
    and len: "length (FullOmitArray s) = MAX_FULL_OMITS" "length (PartialOmitArray s) = MAX_PARTIAL_OMITS"
    using assms(1) by (auto simp: omit_inv_def partial_ok_def int_array_def)
  have full: "int_array MAX_FULL_OMITS (memcpy_ints (FullOmitArray s) (fullsave c) (numfull c)) (numfull c)"
    using c(1) len(1) by (intro int_array_memcpy) (auto simp: context_ok_def int_array_def)
  have part: "int_array MAX_PARTIAL_OMITS (memcpy_ints (PartialOmitArray s) (partsave c) (numpart c)) (numpart c)"
    "elems (memcpy_ints (PartialOmitArray s) (partsave c) (numpart c)) (numpart c) = set (partsave c)"
    using c(1) len(2)
    by (auto intro!: int_array_memcpy(1) simp: context_ok_def int_array_def elems_def memcpy_ints_def)
  show ?thesis
    using assms Cons c full part
    by (auto simp: PopOmitContext_def omit_inv_def partial_ok_def context_ok_def)
qed

subsection \<open>The partial array never overflows\<close>

lemma md_valid_iff:
  "md_valid (m, d) \<longleftrightarrow> 0 \<le> m \<and> m \<le> 11 \<and> 1 \<le> d \<and> d \<le> MonthDays ! nat m"
proof (cases "0 \<le> m \<and> m \<le> 11")
  case True
  have "leap 2000" by (simp add: leap_def)
  then have "month_length 2000 m = MonthDays ! nat m"
    using True by (auto simp: month_length_def MonthDays_def elim!: month_cases [of m])
  then show ?thesis by (simp add: md_valid_def)
next
  case False
  then show ?thesis by (auto simp: md_valid_def)
qed

definition md_list :: "(int \<times> int) list" where
  "md_list = concat (map (\<lambda>m. map (Pair m) [1..MonthDays ! nat m]) [0..11])"

lemma md_list_length: "length md_list = 366"
  by (simp add: md_list_def MonthDays_def upto_rec1)

lemma md_valid_list: "Collect md_valid \<subseteq> set md_list"
  by (auto simp: md_list_def md_valid_iff)

lemma partial_card: "elems arr num \<subseteq> md_code ` Collect md_valid \<Longrightarrow> card (elems arr num) \<le> 366"
proof -
  assume "elems arr num \<subseteq> md_code ` Collect md_valid"
  then have "elems arr num \<subseteq> set (map md_code md_list)" using md_valid_list by auto
  then have "card (elems arr num) \<le> card (set (map md_code md_list))" by (intro card_mono) auto
  also have "\<dots> \<le> length (map md_code md_list)" by (rule card_length)
  finally show ?thesis by (simp add: md_list_length)
qed

lemma partial_room:
  assumes "partial_ok arr num" "md_valid x" "md_code x \<notin> elems arr num"
  shows "num < MAX_PARTIAL_OMITS"
proof -
  let ?xs = "md_code x # take num arr"
  have "elems ?xs (Suc num) \<subseteq> md_code ` Collect md_valid" and "distinct ?xs" and "length ?xs = Suc num"
    using assms by (auto simp: partial_ok_def elems_def int_array_def)
  moreover from this have "card (elems ?xs (Suc num)) = Suc num"
    by (simp add: elems_def distinct_card)
  ultimately show ?thesis using partial_card [of ?xs "Suc num"] by (simp add: MAX_PARTIAL_OMITS_def)
qed

lemma insert_partial_inv:
  assumes "omit_inv s" "md_valid x" "md_code x \<notin> partial_set s"
  obtains s' where "insert_partial s (md_code x) = Some s'" "omit_inv s'"
    "partial_set s' = insert (md_code x) (partial_set s)" "full_set s' = full_set s"
    "WeekdayOmits s' = WeekdayOmits s"
proof -
  have pk: "partial_ok (PartialOmitArray s) (NumPartialOmits s)" using assms(1) by (simp add: omit_inv_def)
  have room: "NumPartialOmits s < MAX_PARTIAL_OMITS"
    using partial_room [OF pk assms(2)] assms(3) by (simp add: partial_set_def)
  have arr: "int_array MAX_PARTIAL_OMITS (PartialOmitArray s) (NumPartialOmits s)"
    using pk by (simp add: partial_ok_def)
  obtain a where a: "InsertIntoSortedArray (PartialOmitArray s) (NumPartialOmits s) (md_code x) = Some a"
    "int_array MAX_PARTIAL_OMITS a (Suc (NumPartialOmits s))"
    "elems a (Suc (NumPartialOmits s)) = insert (md_code x) (elems (PartialOmitArray s) (NumPartialOmits s))"
    using int_array_insert [OF arr room] assms(3) by (auto simp: partial_set_def)
  show ?thesis
    by (rule that [of "s\<lparr>PartialOmitArray := a, NumPartialOmits := Suc (NumPartialOmits s)\<rparr>"])
      (use a assms pk in \<open>auto simp: insert_partial_def omit_inv_def partial_ok_def partial_set_def full_set_def\<close>)
qed

lemma insert_full_inv:
  assumes "omit_inv s" "NumFullOmits s < MAX_FULL_OMITS" "dse \<notin> full_set s"
  obtains s' where "insert_full s dse = Some s'" "omit_inv s'"
    "full_set s' = insert dse (full_set s)" "partial_set s' = partial_set s"
    "WeekdayOmits s' = WeekdayOmits s"
proof -
  have arr: "int_array MAX_FULL_OMITS (FullOmitArray s) (NumFullOmits s)"
    using assms(1) by (simp add: omit_inv_def)
  obtain a where a: "InsertIntoSortedArray (FullOmitArray s) (NumFullOmits s) dse = Some a"
    "int_array MAX_FULL_OMITS a (Suc (NumFullOmits s))"
    "elems a (Suc (NumFullOmits s)) = insert dse (elems (FullOmitArray s) (NumFullOmits s))"
    using int_array_insert [OF arr assms(2)] assms(3) by (auto simp: full_set_def)
  show ?thesis
    by (rule that [of "s\<lparr>FullOmitArray := a, NumFullOmits := Suc (NumFullOmits s)\<rparr>"])
      (use a assms in \<open>auto simp: insert_full_def omit_inv_def partial_set_def full_set_def\<close>)
qed

lemma exists_full: "omit_inv s \<Longrightarrow> BexistsIntArray (FullOmitArray s) (NumFullOmits s) k \<longleftrightarrow> k \<in> full_set s"
  by (auto simp: omit_inv_def full_set_def int_array_exists)

lemma exists_partial:
  "omit_inv s \<Longrightarrow> BexistsIntArray (PartialOmitArray s) (NumPartialOmits s) k \<longleftrightarrow> k \<in> partial_set s"
  by (auto simp: omit_inv_def partial_set_def partial_ok_def int_array_exists)

lemma IsOmitted_omitted_day:
  "omit_inv s \<Longrightarrow> 0 \<le> dse \<Longrightarrow> ofunc = [] \<or> UserFuncExists uf ofunc = 0 \<Longrightarrow>
   IsOmitted uf s dse lomit ofunc = Some (Inr (omitted_day s lomit dse))"
  by (auto simp: IsOmitted_def omitted_day_def weekday_mask exists_full exists_partial md_code_def c_arith
      split: prod.splits)

section \<open>What the commands add\<close>

lemma FromDSE_DSE: "is_date (y, m, d) \<Longrightarrow> FromDSE (DSE y m d) = (y, m, d)"
  using gregorian.dec_enc [of "(y, m, d)"] by (simp add: DSE_of_def)

lemma omit_full_spec:
  assumes "omit_inv s"
  obtains r s' where "omit_full tmp fin s = Some (r, s')" "omit_inv s'"
    "partial_set s' = partial_set s" "WeekdayOmits s' = WeekdayOmits s"
    "r = None \<longrightarrow> full_set s' = full_set s \<union> {tmp..fin}"
    "r \<noteq> None \<longrightarrow> r = Some E_2MANY_FULL \<and> NumFullOmits s' = MAX_FULL_OMITS"
  using assms
proof (induction tmp fin s arbitrary: thesis rule: omit_full.induct)
  case (1 tmp fin s)
  have set_step: "tmp \<le> fin \<Longrightarrow> {tmp..fin} = insert tmp {tmp + 1..fin}" by auto
  consider (past) "\<not> tmp \<le> fin" | (there) "tmp \<le> fin" "tmp \<in> full_set s"
    | (over) "tmp \<le> fin" "tmp \<notin> full_set s" "NumFullOmits s \<ge> MAX_FULL_OMITS"
    | (ins) "tmp \<le> fin" "tmp \<notin> full_set s" "NumFullOmits s < MAX_FULL_OMITS"
    by linarith
  then show ?case
  proof cases
    case past
    then show ?thesis using 1(3) [of None s] 1(4) by (simp add: omit_full.simps [of tmp fin s])
  next
    case there
    then have ex: "BexistsIntArray (FullOmitArray s) (NumFullOmits s) tmp" using exists_full [OF 1(4)] by simp
    then have eq: "omit_full tmp fin s = omit_full (tmp + 1) fin s"
      using there by (simp add: omit_full.simps [of tmp fin s])
    show ?thesis
    proof (rule 1(2) [OF there(1)])
      show "omit_inv s" by (rule 1(4))
      show "\<not> \<not> BexistsIntArray (FullOmitArray s) (NumFullOmits s) tmp" using ex by simp
      fix r s'
      assume *: "omit_full (tmp + 1) fin s = Some (r, s')" "omit_inv s'" "partial_set s' = partial_set s"
        "WeekdayOmits s' = WeekdayOmits s" "r = None \<longrightarrow> full_set s' = full_set s \<union> {tmp + 1..fin}"
        "r \<noteq> None \<longrightarrow> r = Some E_2MANY_FULL \<and> NumFullOmits s' = MAX_FULL_OMITS"
      show thesis using * there set_step by (intro 1(3) [of r s']) (auto simp: eq)
    qed
  next
    case over
    then have "omit_full tmp fin s = Some (Some E_2MANY_FULL, s)"
      using exists_full [OF 1(4)] by (simp add: omit_full.simps [of tmp fin s])
    moreover have "NumFullOmits s = MAX_FULL_OMITS"
      using over 1(4) by (simp add: omit_inv_def int_array_def)
    ultimately show ?thesis using 1(3) [of "Some E_2MANY_FULL" s] 1(4) by simp
  next
    case ins
    obtain s1 where s1: "insert_full s tmp = Some s1" "omit_inv s1"
      "full_set s1 = insert tmp (full_set s)" "partial_set s1 = partial_set s"
      "WeekdayOmits s1 = WeekdayOmits s"
      by (rule insert_full_inv [OF 1(4) ins(3,2)])
    then have eq: "omit_full tmp fin s = omit_full (tmp + 1) fin s1"
      using ins exists_full [OF 1(4)] by (simp add: omit_full.simps [of tmp fin s])
    show ?thesis
    proof (rule 1(1) [OF ins(1) _ _ s1(1)])
      show "omit_inv s1" by (rule s1(2))
      show "\<not> BexistsIntArray (FullOmitArray s) (NumFullOmits s) tmp" "\<not> NumFullOmits s \<ge> MAX_FULL_OMITS"
        using ins exists_full [OF 1(4)] by simp_all
      fix r s'
      assume *: "omit_full (tmp + 1) fin s1 = Some (r, s')" "omit_inv s'" "partial_set s' = partial_set s1"
        "WeekdayOmits s' = WeekdayOmits s1" "r = None \<longrightarrow> full_set s' = full_set s1 \<union> {tmp + 1..fin}"
        "r \<noteq> None \<longrightarrow> r = Some E_2MANY_FULL \<and> NumFullOmits s' = MAX_FULL_OMITS"
      show thesis using * s1 ins set_step by (intro 1(3) [of r s']) (auto simp: eq)
    qed
  qed
qed

subsection \<open>A range of month days, around the end of the year\<close>

text \<open>The pairs from \<open>a\<close> to \<open>b\<close>, in the order of the calendar, December before January.\<close>

definition md_range :: "int \<times> int \<Rightarrow> int \<times> int \<Rightarrow> (int \<times> int) set" where
  "md_range a b = {x. md_valid x \<and> (md_pos x - md_pos a) mod 366 \<le> (md_pos b - md_pos a) mod 366}"

definition md_next :: "int \<times> int \<Rightarrow> int \<times> int" where
  "md_next x = (case x of (mc, dc) \<Rightarrow>
     if dc + 1 > MonthDays ! nat mc then (if mc + 1 > 11 then 0 else mc + 1, 1) else (mc, dc + 1))"

lemma md_pos_bounds: "md_valid x \<Longrightarrow> 0 \<le> md_pos x \<and> md_pos x < 366"
proof -
  assume "md_valid x"
  then obtain m d where x: "x = (m, d)" "is_date (2000, m, d)" by (cases x) (auto simp: md_valid_def)
  have "DSE 2000 0 1 = year_start 2000" by (simp add: DSE_start)
  moreover have "year_start (2000 + 1) = year_start 2000 + 366"
    unfolding year_start_Suc by (simp add: DaysInYear_leap leap_def)
  ultimately have "0 \<le> DSE 2000 m d - DSE 2000 0 1" "DSE 2000 m d - DSE 2000 0 1 < 366"
    using DSE_bounds(1,2) [OF x(2)] by linarith+
  then show ?thesis by (simp add: x(1) md_pos_def)
qed

lemma md_pos_inj: "md_valid x \<Longrightarrow> md_valid y \<Longrightarrow> md_pos x = md_pos y \<longleftrightarrow> x = y"
proof
  assume v: "md_valid x" "md_valid y" and eq: "md_pos x = md_pos y"
  obtain m d m' d' where xy: "x = (m, d)" "y = (m', d')" by (cases x; cases y)
  have "is_date (2000, m, d)" "is_date (2000, m', d')" using v xy by (simp_all add: md_valid_def)
  moreover have "DSE 2000 m d = DSE 2000 m' d'" using eq xy by (simp add: md_pos_def)
  ultimately have "(2000::int, m, d) = (2000, m', d')" by (rule DSE_inj)
  then show "x = y" using xy by simp
qed simp

lemma md_next_valid: "md_valid x \<Longrightarrow> md_valid (md_next x)"
  by (cases x) (auto simp: md_next_def md_valid_iff MonthDays_def elim!: month_cases)

lemma md_next_pos: "md_valid x \<Longrightarrow> md_pos (md_next x) = (md_pos x + 1) mod 366"
proof -
  assume v: "md_valid x"
  obtain m d where x: "x = (m, d)" by (cases x)
  have date: "is_date (2000, m, d)" using v x by (simp add: md_valid_def)
  show ?thesis
  proof (cases "m = 11 \<and> d = 31")
    case True
    have "DSE 2000 11 31 - DSE 2000 0 1 = 365"
      by (simp add: DSE_start month_start_11 DaysInYear_leap leap_def)
    with True x show ?thesis by (simp add: md_next_def md_pos_def MonthDays_def)
  next
    case False
    have len: "MonthDays ! nat m = month_length 2000 m"
      using date by (auto simp: month_length_def MonthDays_def leap_def elim!: month_cases [of m])
    have m11: "m = 11 \<Longrightarrow> month_length 2000 m = 31" by (simp add: month_length_def)
    have date_simps: "0 \<le> m" "m \<le> 11" "1 \<le> d" "d \<le> month_length 2000 m" using date by simp_all
    have next_eq: "next_day (2000, m, d) = (2000, fst (md_next x), snd (md_next x))"
    proof (cases "d < month_length 2000 m")
      case True
      then show ?thesis by (simp add: x md_next_def len)
    next
      case d: False
      then have "m < 11" using False m11 date_simps by fastforce
      with d show ?thesis by (simp add: x md_next_def len)
    qed
    have "DSE_of (next_day (2000, m, d)) = DSE 2000 m d + 1"
      using DSE_next_day [OF date] by (simp add: DSE_of_def)
    then have "md_pos (md_next x) = md_pos x + 1"
      unfolding next_eq by (cases "md_next x") (simp add: x DSE_of_def md_pos_def)
    then show ?thesis
      using md_pos_bounds [OF md_next_valid [OF v]] md_pos_bounds [OF v] by simp
  qed
qed

lemma mod_pred: "0 < (n::int) \<Longrightarrow> a mod n \<noteq> 0 \<Longrightarrow> (a - 1) mod n = a mod n - 1"
proof -
  assume n: "0 < n" "a mod n \<noteq> 0"
  have "0 \<le> a mod n" "a mod n < n" using n by simp_all
  then have "0 \<le> a mod n - 1" "a mod n - 1 < n" using n(2) by linarith+
  moreover have "(a - 1) mod n = (a mod n - 1) mod n" by (simp add: mod_simps)
  ultimately show ?thesis by simp
qed

lemma mod_diff_eq_0:
  "0 \<le> a \<Longrightarrow> a < n \<Longrightarrow> 0 \<le> b \<Longrightarrow> b < n \<Longrightarrow> (a - b) mod n = 0 \<Longrightarrow> a = (b::int)"
  by (metis dvd_eq_mod_eq_0 mod_eq_dvd_iff mod_pos_pos_trivial)

lemma md_dist_0: "md_valid x \<Longrightarrow> md_valid a \<Longrightarrow> (md_pos x - md_pos a) mod 366 = 0 \<longleftrightarrow> x = a"
proof
  assume v: "md_valid x" "md_valid a" and "(md_pos x - md_pos a) mod 366 = 0"
  then have "md_pos x = md_pos a" using md_pos_bounds [OF v(1)] md_pos_bounds [OF v(2)]
      mod_diff_eq_0 [of "md_pos x" 366 "md_pos a"] by (simp only: simp_thms)
  then show "x = a" using v md_pos_inj by blast
qed simp

lemma md_dist_next:
  assumes "md_valid x" "md_valid a" "x \<noteq> a"
  shows "(md_pos x - md_pos (md_next a)) mod 366 = (md_pos x - md_pos a) mod 366 - 1"
proof -
  have "(md_pos x - md_pos (md_next a)) mod 366 = (md_pos x - (md_pos a + 1)) mod 366"
    unfolding md_next_pos [OF assms(2)] by (rule mod_diff_right_eq)
  moreover have "md_pos x - (md_pos a + 1) = md_pos x - md_pos a - 1" by simp
  moreover have "(md_pos x - md_pos a - 1) mod 366 = (md_pos x - md_pos a) mod 366 - 1"
    by (rule mod_pred) (simp_all only: md_dist_0 [OF assms(1,2)] assms(3) zero_less_numeral not_False_eq_True)
  ultimately show ?thesis by (simp only:)
qed

lemma md_range_same: "md_valid a \<Longrightarrow> md_range a a = {a}"
proof (rule set_eqI)
  fix x
  assume a: "md_valid a"
  have "0 \<le> (md_pos x - md_pos a) mod 366" by simp
  then show "x \<in> md_range a a \<longleftrightarrow> x \<in> {a}"
    using md_dist_0 [of x a] a by (auto simp: md_range_def)
qed

lemma diff_le_mono_iff: "a - c \<le> b - c \<longleftrightarrow> a \<le> (b::int)"
  by simp

lemma md_range_step:
  assumes v: "md_valid a" "md_valid b" and ne: "a \<noteq> b"
  shows "md_range a b = insert a (md_range (md_next a) b)"
proof (rule set_eqI)
  fix x
  have b: "(md_pos b - md_pos (md_next a)) mod 366 = (md_pos b - md_pos a) mod 366 - 1"
    using md_dist_next [of b a] v ne by auto
  show "x \<in> md_range a b \<longleftrightarrow> x \<in> insert a (md_range (md_next a) b)"
  proof (cases "x = a")
    case True
    then show ?thesis using v by (simp add: md_range_def)
  next
    case ne: False
    show ?thesis
    proof (cases "md_valid x")
      case True
      show ?thesis
        unfolding md_range_def mem_Collect_eq b md_dist_next [OF True v(1) ne] insert_iff
        using True ne by (simp only: diff_le_mono_iff simp_thms)
    next
      case False
      then show ?thesis using v ne by (auto simp only: md_range_def mem_Collect_eq insert_iff)
    qed
  qed
qed

lemma omit_partial_step:
  "omit_partial (fst a) (snd a) (fst b) (snd b) s =
    Option.bind
      (if \<not> BexistsIntArray (PartialOmitArray s) (NumPartialOmits s) (md_code a)
       then insert_partial s (md_code a) else Some s)
      (\<lambda>s. if a = b then Some s
           else omit_partial (fst (md_next a)) (snd (md_next a)) (fst b) (snd b) s)"
proof (cases a; cases b)
  fix mc dc m1 d1
  assume ab: "a = (mc, dc)" "b = (m1, d1)"
  consider "dc + 1 > MonthDays ! nat mc" "mc + 1 > 11" | "dc + 1 > MonthDays ! nat mc" "\<not> mc + 1 > 11"
    | "\<not> dc + 1 > MonthDays ! nat mc" by blast
  then show ?thesis
    by cases (simp_all only: ab omit_partial.simps [of mc dc m1 d1 s] md_code_def md_next_def Let_def
      prod.case fst_conv snd_conv prod.inject if_True if_False simp_thms)
qed

lemma omit_partial_spec:
  assumes "omit_inv s" "md_valid a" "md_valid b"
  obtains s' where "omit_partial (fst a) (snd a) (fst b) (snd b) s = Some s'" "omit_inv s'"
    "partial_set s' = partial_set s \<union> md_code ` md_range a b"
    "full_set s' = full_set s" "WeekdayOmits s' = WeekdayOmits s"
  using assms
proof (induction "nat ((md_pos b - md_pos a) mod 366)" arbitrary: a s thesis rule: less_induct)
  case less
  obtain s1 where s1: "(if \<not> BexistsIntArray (PartialOmitArray s) (NumPartialOmits s) (md_code a)
      then insert_partial s (md_code a) else Some s) = Some s1" "omit_inv s1"
    "partial_set s1 = insert (md_code a) (partial_set s)" "full_set s1 = full_set s"
    "WeekdayOmits s1 = WeekdayOmits s"
  proof (cases "md_code a \<in> partial_set s")
    case True
    then show ?thesis using that [of s] less.prems(2) by (auto simp: exists_partial)
  next
    case False
    then show ?thesis
      using insert_partial_inv [OF less.prems(2,3) False] that less.prems(2) by (auto simp: exists_partial)
  qed
  show ?case
  proof (cases "a = b")
    case True
    then have "omit_partial (fst a) (snd a) (fst b) (snd b) s = Some s1"
      unfolding omit_partial_step [of a b s] s1(1) by simp
    then show ?thesis
      using less.prems(1) [of s1] s1 True md_range_same [OF less.prems(3)] by simp
  next
    case False
    have eq: "omit_partial (fst a) (snd a) (fst b) (snd b) s
        = omit_partial (fst (md_next a)) (snd (md_next a)) (fst b) (snd b) s1"
      unfolding omit_partial_step [of a b s] s1(1) using False by simp
    have "(md_pos b - md_pos (md_next a)) mod 366 = (md_pos b - md_pos a) mod 366 - 1"
      using md_dist_next [of b a] less.prems False by auto
    moreover have "0 < (md_pos b - md_pos a) mod 366"
      using md_dist_0 [of b a] less.prems False pos_mod_sign [of 366 "md_pos b - md_pos a"] by force
    ultimately have dec: "nat ((md_pos b - md_pos (md_next a)) mod 366) < nat ((md_pos b - md_pos a) mod 366)"
      by simp
    obtain s' where "omit_partial (fst (md_next a)) (snd (md_next a)) (fst b) (snd b) s1 = Some s'" "omit_inv s'"
      "partial_set s' = partial_set s1 \<union> md_code ` md_range (md_next a) b"
      "full_set s' = full_set s1" "WeekdayOmits s' = WeekdayOmits s1"
      using less.hyps [OF dec _ s1(2) md_next_valid [OF less.prems(3)] less.prems(4)] by blast
    then show ?thesis
      using less.prems(1) [of s'] s1 eq md_range_step [OF less.prems(3,4) False] by simp
  qed
qed

subsection \<open>The line of the command\<close>

text \<open>What \<open>FindToken\<close> promises of the values of the tokens that OMIT uses.\<close>

definition tok_ok :: "tok_result \<Rightarrow> bool" where
  "tok_ok tok \<longleftrightarrow> (case tok of (ty, v) \<Rightarrow>
    (ty = T_WkDay \<longrightarrow> 0 \<le> v \<and> v \<le> 6) \<and> (ty = T_Month \<longrightarrow> 0 \<le> v \<and> v \<le> 11)
    \<and> (ty = T_Day \<longrightarrow> 1 \<le> v \<and> v \<le> 31) \<and> (ty = T_Year \<longrightarrow> 1990 \<le> v \<and> v \<le> 5990)
    \<and> (ty = T_Date \<longrightarrow> (\<exists>y m d. DateOK y m d \<and> v = DSE y m d)))"

lemma TokArray_ok: "i < length TokArray \<Longrightarrow> tok_ok (tok_entry i)"
proof -
  have "list_all (\<lambda>t. (tok_type t = T_WkDay \<longrightarrow> 0 \<le> tok_val t \<and> tok_val t \<le> 6)
      \<and> (tok_type t = T_Month \<longrightarrow> 0 \<le> tok_val t \<and> tok_val t \<le> 11)
      \<and> tok_type t \<noteq> T_Day \<and> tok_type t \<noteq> T_Year \<and> tok_type t \<noteq> T_Date) TokArray"
    unfolding TokArray_def by simp
  moreover assume "i < length TokArray"
  ultimately show ?thesis by (simp add: list_all_length tok_ok_def tok_entry_def)
qed

lemma FindNumericToken_types:
  "FindNumericToken sp s = (ty, v) \<Longrightarrow> ty \<noteq> T_WkDay \<and> ty \<noteq> T_Month"
  by (auto simp: FindNumericToken_def classify_number_def time_token_def date_token_def
      signed_token_def doubled_token_def token_error_def init_token_def Let_def
      split: prod.splits if_splits option.splits sum.splits)

lemma FindToken_ok:
  assumes "seps_ok sp" "cstring s"
  shows "tok_ok (FindToken sp s)"
proof (cases "s \<noteq> [] \<and> isalpha (hd s)")
  case True
  then have eq: "FindToken sp s = lookup_token s" using FindToken_lookup assms(2) by blast
  show ?thesis
  proof (cases "\<exists>i<length TokArray. qualifies s (TokArray ! i)")
    case True
    then show ?thesis using lookup_token_entry TokArray_ok eq by metis
  next
    case False
    then show ?thesis using lookup_token_none [of s] by (auto simp: eq init_token_def tok_ok_def)
  qed
next
  case False
  obtain ty v where tok: "FindNumericToken sp s = (ty, v)" by (cases "FindNumericToken sp s")
  have "ty \<noteq> T_WkDay \<and> ty \<noteq> T_Month" using FindNumericToken_types [OF tok] by auto
  then have "tok_ok (FindNumericToken sp s)"
    using FindNumericToken_ranges [OF tok assms(1)] by (simp add: tok tok_ok_def)
  then show ?thesis using False by (auto simp: FindToken_def tok_ok_def)
qed

definition ymd_ok :: "ymd \<Rightarrow> bool" where
  "ymd_ok x \<longleftrightarrow> (o_m x = NO_MON \<or> 0 \<le> o_m x \<and> o_m x \<le> 11) \<and> (o_d x = NO_DAY \<or> 1 \<le> o_d x)"

definition parse_inv :: "omit_parse \<Rightarrow> bool" where
  "parse_inv p \<longleftrightarrow> ymd_ok (ymd0 p) \<and> ymd_ok (ymd1 p) \<and> 0 \<le> o_wd p \<and> o_wd p < 128"

lemma or_mask: "0 \<le> a \<Longrightarrow> a < 128 \<Longrightarrow> 0 \<le> b \<Longrightarrow> b < 128 \<Longrightarrow> 0 \<le> a OR b \<and> a OR b < (128::int)"
  using OR_upper [of a 7 b] by simp

lemma weekday_push_bit: "0 \<le> v \<Longrightarrow> v \<le> 6 \<Longrightarrow> 0 \<le> push_bit (nat v) (1::int) \<and> push_bit (nat v) (1::int) < 128"
proof -
  assume "0 \<le> v" "v \<le> 6"
  then have "nat v \<le> 6" by simp
  then have "(2::int) ^ nat v \<le> 2 ^ 6" by (intro power_increasing) auto
  then show ?thesis by (simp add: push_bit_eq_mult)
qed

lemma cur_ymd_ok: "parse_inv p \<Longrightarrow> ymd_ok (cur_ymd p)"
  by (simp add: parse_inv_def cur_ymd_def)

lemma set_ymd_inv: "parse_inv p \<Longrightarrow> ymd_ok x \<Longrightarrow> parse_inv (set_ymd p x)"
  by (simp add: parse_inv_def set_ymd_def)

lemma omit_token_inv:
  assumes p: "parse_inv p" and t: "tok_ok tok"
  shows "omit_token nf p tok = OmitMore p' \<Longrightarrow> parse_inv p'"
    "omit_token nf p tok = OmitDone p' \<Longrightarrow> p' = p"
proof -
  obtain ty v where tok: "tok = (ty, v)" by (cases tok)
  have c: "ymd_ok (cur_ymd p)" by (rule cur_ymd_ok [OF p])
  show "p' = p" if "omit_token nf p tok = OmitDone p'"
    using that by (cases ty) (auto simp: omit_token_def tok split: if_splits prod.splits)
  show "parse_inv p'" if *: "omit_token nf p tok = OmitMore p'"
  proof (cases ty)
    case T_WkDay
    with * t have "p' = p\<lparr>o_wd := o_wd p OR push_bit (nat v) 1\<rparr>" "0 \<le> v" "v \<le> 6"
      by (auto simp: omit_token_def tok tok_ok_def split: if_splits)
    then show ?thesis
      using p or_mask [of "o_wd p" "push_bit (nat v) 1"] weekday_push_bit [of v] by (simp add: parse_inv_def)
  next
    case T_Date
    with t obtain y m d where v: "DateOK y m d" "v = DSE y m d" by (auto simp: tok tok_ok_def)
    then have date: "is_date (y, m, d)" by (simp add: DateOK_is_date)
    then have "p' = set_ymd p \<lparr>o_y = y, o_m = m, o_d = d\<rparr>"
      using * T_Date v(2) by (simp add: omit_token_def tok FromDSE_DSE [OF date] split: if_splits)
    then show ?thesis using date p by (simp add: set_ymd_inv ymd_ok_def)
  next
    case T_Year
    with * have "p' = set_ymd p ((cur_ymd p)\<lparr>o_y := v\<rparr>)"
      by (simp add: omit_token_def tok split: if_splits)
    then show ?thesis using set_ymd_inv [OF p] c by (simp add: ymd_ok_def)
  next
    case T_Month
    with * t have "p' = set_ymd p ((cur_ymd p)\<lparr>o_m := v\<rparr>)" "0 \<le> v \<and> v \<le> 11"
      by (simp_all add: omit_token_def tok tok_ok_def split: if_splits)
    then show ?thesis using set_ymd_inv [OF p] c by (simp add: ymd_ok_def)
  next
    case T_Day
    with * t have "p' = set_ymd p ((cur_ymd p)\<lparr>o_d := v\<rparr>)" "1 \<le> v"
      by (simp_all add: omit_token_def tok tok_ok_def split: if_splits)
    then show ?thesis using set_ymd_inv [OF p] c by (simp add: ymd_ok_def)
  next
    case T_Through
    with * have "p' = p\<lparr>seen_through := True\<rparr>"
      by (simp add: omit_token_def tok split: if_splits)
    then show ?thesis using p by (simp add: parse_inv_def)
  qed (use * p in \<open>simp_all add: omit_token_def tok split: if_splits\<close>)
qed

lemma omit_line_inv:
  "parse_inv p \<Longrightarrow> list_all (\<lambda>t. case t of Inl _ \<Rightarrow> True | Inr tok \<Rightarrow> tok_ok tok) toks \<Longrightarrow>
   omit_line nf p toks = Inr (Some (p', ty)) \<Longrightarrow> parse_inv p'"
proof (induction nf p toks rule: omit_line.induct)
  case (3 nf p tok toks)
  then show ?case
    using omit_token_inv [of p tok nf] by (cases "omit_token nf p tok") auto
qed auto

lemma omit_init_parse_inv: "parse_inv omit_parse_init"
  by (simp add: parse_inv_def omit_parse_init_def no_ymd_def ymd_ok_def)

lemma month_or_max_pos: "0 \<le> m \<Longrightarrow> m \<le> 11 \<Longrightarrow> 1 \<le> month_or_max m y"
  using month_length_bounds(1) [of y m]
  by (auto simp: month_or_max_def DaysInMonth_length MonthDays_def elim!: month_cases [of m])

lemma omit_range_ok:
  assumes "parse_inv p" "omit_range p = Inr (a, b)"
  shows "0 \<le> o_m a \<and> o_m a \<le> 11 \<and> 1 \<le> o_d a \<and> 0 \<le> o_m b \<and> o_m b \<le> 11 \<and> 1 \<le> o_d b"
  using assms month_or_max_pos
  by (auto simp: omit_range_def parse_inv_def ymd_ok_def Let_def split: if_splits)

lemma omit_dates_spec:
  assumes s: "omit_inv s" and ok: "0 \<le> o_m a \<and> o_m a \<le> 11 \<and> 1 \<le> o_d a \<and> 0 \<le> o_m b \<and> o_m b \<le> 11 \<and> 1 \<le> o_d b"
  obtains r s' where "omit_dates a b s = Some (r, s')" "omit_inv s'" "WeekdayOmits s' = WeekdayOmits s"
    "r = None \<longrightarrow> o_y a = NO_YR \<longrightarrow> full_set s' = full_set s
       \<and> partial_set s' = partial_set s \<union> md_code ` md_range (o_m a, o_d a) (o_m b, o_d b)"
    "r = None \<longrightarrow> o_y a \<noteq> NO_YR \<longrightarrow> partial_set s' = partial_set s
       \<and> full_set s' = full_set s \<union> {DSE (o_y a) (o_m a) (o_d a)..DSE (o_y b) (o_m b) (o_d b)}"
    "r \<in> {None, Some E_BAD_DATE, Some E_2MANY_FULL}"
proof (cases "o_y a = NO_YR")
  case True
  show ?thesis
  proof (cases "o_d a > MonthDays ! nat (o_m a) \<or> o_d b > MonthDays ! nat (o_m b)")
    case bad: True
    with True show ?thesis using that [of "Some E_BAD_DATE" s] s by (auto simp: omit_dates_def)
  next
    case False
    then have "md_valid (o_m a, o_d a)" "md_valid (o_m b, o_d b)" using ok by (auto simp: md_valid_iff)
    then obtain s' where "omit_partial (o_m a) (o_d a) (o_m b) (o_d b) s = Some s'" "omit_inv s'"
      "partial_set s' = partial_set s \<union> md_code ` md_range (o_m a, o_d a) (o_m b, o_d b)"
      "full_set s' = full_set s" "WeekdayOmits s' = WeekdayOmits s"
      using omit_partial_spec [OF s, of "(o_m a, o_d a)" "(o_m b, o_d b)"] by auto
    with True False show ?thesis by (intro that [of None s']) (auto simp: omit_dates_def)
  qed
next
  case year: False
  obtain r s' where full: "omit_full (DSE (o_y a) (o_m a) (o_d a)) (DSE (o_y b) (o_m b) (o_d b)) s = Some (r, s')"
    "omit_inv s'" "partial_set s' = partial_set s" "WeekdayOmits s' = WeekdayOmits s"
    "r = None \<longrightarrow> full_set s' = full_set s \<union> {DSE (o_y a) (o_m a) (o_d a)..DSE (o_y b) (o_m b) (o_d b)}"
    "r \<noteq> None \<longrightarrow> r = Some E_2MANY_FULL \<and> NumFullOmits s' = MAX_FULL_OMITS"
    by (rule omit_full_spec [OF s, of "DSE (o_y a) (o_m a) (o_d a)" "DSE (o_y b) (o_m b) (o_d b)"])
  show ?thesis
  proof (cases "o_d a > DaysInMonth (o_m a) (o_y a) \<or> o_d b > DaysInMonth (o_m b) (o_y b)
      \<or> DSE (o_y b) (o_m b) (o_d b) < DSE (o_y a) (o_m a) (o_d a)")
    case True
    with year show ?thesis using that [of "Some E_BAD_DATE" s] s by (auto simp: omit_dates_def Let_def)
  next
    case False
    with year full show ?thesis by (intro that [of r s']) (auto simp: omit_dates_def Let_def)
  qed
qed

text \<open>The days and month days that a range of the command names.\<close>

definition range_full :: "ymd \<Rightarrow> ymd \<Rightarrow> int set" where
  "range_full a b =
    (if o_y a = NO_YR then {} else {DSE (o_y a) (o_m a) (o_d a)..DSE (o_y b) (o_m b) (o_d b)})"

definition range_partial :: "ymd \<Rightarrow> ymd \<Rightarrow> (int \<times> int) set" where
  "range_partial a b = (if o_y a = NO_YR then md_range (o_m a, o_d a) (o_m b, o_d b) else {})"

definition line_ok :: "(errcode + tok_result) list \<Rightarrow> bool" where
  "line_ok toks \<longleftrightarrow> list_all (\<lambda>t. case t of Inl _ \<Rightarrow> True | Inr tok \<Rightarrow> tok_ok tok) toks"

lemma DoOmit_spec:
  assumes s: "omit_inv s" and toks: "line_ok toks"
  obtains r s' where "DoOmit eoln toks s = Some (r, s')" "omit_inv s'"
    "\<And>p ty a b. omit_line False omit_parse_init toks = Inr (Some (p, ty)) \<Longrightarrow> o_wd p = 0 \<Longrightarrow>
       omit_range p = Inr (a, b) \<Longrightarrow> r \<in> {None, Some E_PARSE_AS_REM} \<Longrightarrow>
       full_set s' = full_set s \<union> range_full a b
       \<and> partial_set s' = partial_set s \<union> md_code ` range_partial a b
       \<and> WeekdayOmits s' = WeekdayOmits s"
    "\<And>p ty. omit_line False omit_parse_init toks = Inr (Some (p, ty)) \<Longrightarrow> o_wd p \<noteq> 0 \<Longrightarrow>
       r \<in> {None, Some E_PARSE_AS_REM} \<Longrightarrow>
       WeekdayOmits s' = WeekdayOmits s OR o_wd p \<and> full_set s' = full_set s
       \<and> partial_set s' = partial_set s"
proof (cases "omit_line False omit_parse_init toks")
  case (Inl e)
  then show ?thesis using that [of "Some e" s] s by (simp add: DoOmit_def)
next
  case (Inr x)
  show ?thesis
  proof (cases x)
    case None
    then show ?thesis using that [of eoln s] s Inr by (simp add: DoOmit_def)
  next
    case (Some pt)
    then obtain p ty where line: "omit_line False omit_parse_init toks = Inr (Some (p, ty))"
      using Inr by (cases pt) auto
    have p: "parse_inv p"
      using omit_line_inv [OF omit_init_parse_inv _ line] toks by (simp add: line_ok_def)
    show ?thesis
    proof (cases "o_wd p = 0")
      case False
      have mask: "0 \<le> WeekdayOmits s OR o_wd p \<and> WeekdayOmits s OR o_wd p < 128"
        using s p by (intro or_mask) (auto simp: omit_inv_def parse_inv_def)
      show ?thesis
      proof (cases "(o_y (ymd0 p) \<noteq> NO_YR \<or> o_m (ymd0 p) \<noteq> NO_MON \<or> o_d (ymd0 p) \<noteq> NO_DAY)
          \<or> WeekdayOmits s OR o_wd p = 127")
        case True
        then have "DoOmit eoln toks s \<in> {Some (Some E_PARSE_ERR, s), Some (Some E_2MANY_LOCALOMIT, s)}"
          using line False by (auto simp: DoOmit_def)
        then show ?thesis
          using that [of "Some E_PARSE_ERR" s] that [of "Some E_2MANY_LOCALOMIT" s] s line False by auto
      next
        case ok: False
        let ?s = "s\<lparr>WeekdayOmits := WeekdayOmits s OR o_wd p\<rparr>"
        have "DoOmit eoln toks s = Some (parse_as_rem ty, ?s)"
          using line False ok by (simp add: DoOmit_def)
        moreover have "omit_inv ?s" using s mask ok by (simp add: omit_inv_def)
        ultimately show ?thesis
          using line False by (intro that [of "parse_as_rem ty" ?s]) (auto simp: full_set_def partial_set_def)
      qed
    next
      case wd: True
      show ?thesis
      proof (cases "omit_range p")
        case (Inl e)
        then have "e \<noteq> E_PARSE_AS_REM" by (auto simp: omit_range_def Let_def split: if_splits)
        then show ?thesis using that [of "Some e" s] s line wd Inl by (simp add: DoOmit_def)
      next
        case (Inr ab)
        then obtain a b where range: "omit_range p = Inr (a, b)" by (cases ab) auto
        obtain r s' where dates: "omit_dates a b s = Some (r, s')" "omit_inv s'" "WeekdayOmits s' = WeekdayOmits s"
          "r = None \<longrightarrow> o_y a = NO_YR \<longrightarrow> full_set s' = full_set s
             \<and> partial_set s' = partial_set s \<union> md_code ` md_range (o_m a, o_d a) (o_m b, o_d b)"
          "r = None \<longrightarrow> o_y a \<noteq> NO_YR \<longrightarrow> partial_set s' = partial_set s
             \<and> full_set s' = full_set s \<union> {DSE (o_y a) (o_m a) (o_d a)..DSE (o_y b) (o_m b) (o_d b)}"
          "r \<in> {None, Some E_BAD_DATE, Some E_2MANY_FULL}"
          by (rule omit_dates_spec [OF s omit_range_ok [OF p range]])
        define r' where "r' = (case r of None \<Rightarrow> parse_as_rem ty | Some e \<Rightarrow> Some e)"
        have eq: "DoOmit eoln toks s = Some (r', s')"
          using line wd range dates(1) by (simp add: DoOmit_def r'_def split: option.split)
        have ok: "r = None" if "r' \<in> {None, Some E_PARSE_AS_REM}"
          using that dates(6) by (auto simp: r'_def)
        show ?thesis
          by (rule that [OF eq dates(2)])
            (use line wd range dates(3,4,5) ok in \<open>auto simp: range_full_def range_partial_def\<close>)
      qed
    qed
  qed
qed

section \<open>ADDOMIT, PUSH and POP\<close>

lemma AddGlobalOmit_spec:
  assumes s: "omit_inv s"
  obtains r s' where "AddGlobalOmit dse s = Some (r, s')" "omit_inv s'"
    "full_set s' = (if r = None \<and> 0 \<le> dse then insert dse (full_set s) else full_set s)"
    "partial_set s' = partial_set s" "WeekdayOmits s' = WeekdayOmits s"
    "r \<noteq> None \<longleftrightarrow> 0 \<le> dse \<and> NumFullOmits s = MAX_FULL_OMITS"
proof (cases "dse < 0 \<or> NumFullOmits s = MAX_FULL_OMITS \<or> dse \<in> full_set s")
  case True
  then consider "dse < 0" | "0 \<le> dse" "NumFullOmits s = MAX_FULL_OMITS"
    | "0 \<le> dse" "NumFullOmits s \<noteq> MAX_FULL_OMITS" "dse \<in> full_set s" by linarith
  then show ?thesis
  proof cases
    case 1
    then show ?thesis using s by (intro that [of None s]) (simp_all add: AddGlobalOmit_def)
  next
    case 2
    then show ?thesis using s by (intro that [of "Some E_2MANY_FULL" s]) (simp_all add: AddGlobalOmit_def)
  next
    case 3
    then show ?thesis using s exists_full [OF s]
      by (intro that [of None s]) (auto simp: AddGlobalOmit_def)
  qed
next
  case False
  then have "NumFullOmits s < MAX_FULL_OMITS" using s by (auto simp: omit_inv_def int_array_def)
  then obtain s' where "insert_full s dse = Some s'" "omit_inv s'"
    "full_set s' = insert dse (full_set s)" "partial_set s' = partial_set s"
    "WeekdayOmits s' = WeekdayOmits s"
    using insert_full_inv [OF s, of dse] False by auto
  then show ?thesis using False exists_full [OF s]
    by (intro that [of None s']) (simp_all add: AddGlobalOmit_def)
qed

text \<open>
  Whatever happens between them, as long as the stack is what PUSH left, POP brings back
  the context that PUSH saved.
\<close>

lemma Push_Pop:
  assumes s: "omit_inv s" and push: "PushOmitContext True f l eoln s = (eoln, s1)"
    and s2: "SavedOmitContexts s2 = SavedOmitContexts s1"
  obtains s3 where "PopOmitContext eoln' s2 = (eoln', s3)" "full_set s3 = full_set s"
    "partial_set s3 = partial_set s" "WeekdayOmits s3 = WeekdayOmits s"
    "SavedOmitContexts s3 = SavedOmitContexts s"
proof -
  obtain c where c: "SavedOmitContexts s2 = c # SavedOmitContexts s"
    "numfull c = NumFullOmits s" "fullsave c = take (NumFullOmits s) (FullOmitArray s)"
    "numpart c = NumPartialOmits s" "partsave c = take (NumPartialOmits s) (PartialOmitArray s)"
    "weekdaysave c = WeekdayOmits s"
    using push s2 by (auto simp: PushOmitContext_def Let_def)
  show ?thesis
    using s c by (intro that [of "snd (PopOmitContext eoln' s2)"])
      (auto simp: PopOmitContext_def full_set_def partial_set_def elems_def memcpy_ints_def
        omit_inv_def partial_ok_def int_array_def)
qed

section \<open>The context a script can reach\<close>

inductive omit_reach :: "omit_state \<Rightarrow> bool" where
  reach_init: "omit_reach omit_init"
| reach_clear: "omit_reach s \<Longrightarrow> DoClear eoln s = (r, s') \<Longrightarrow> omit_reach s'"
| reach_push: "omit_reach s \<Longrightarrow> PushOmitContext mem f l eoln s = (r, s') \<Longrightarrow> omit_reach s'"
| reach_pop: "omit_reach s \<Longrightarrow> PopOmitContext eoln s = (r, s') \<Longrightarrow> omit_reach s'"
| reach_destroy: "omit_reach s \<Longrightarrow> DestroyOmitContexts s = (n, s') \<Longrightarrow> omit_reach s'"
| reach_omit: "omit_reach s \<Longrightarrow> line_ok toks \<Longrightarrow> DoOmit eoln toks s = Some (r, s') \<Longrightarrow> omit_reach s'"
| reach_add: "omit_reach s \<Longrightarrow> AddGlobalOmit dse s = Some (r, s') \<Longrightarrow> omit_reach s'"

inductive_cases omit_reachE: "omit_reach s"

lemma DestroyOmitContexts_inv: "omit_inv s \<Longrightarrow> DestroyOmitContexts s = (n, s') \<Longrightarrow> omit_inv s'"
  by (auto simp: DestroyOmitContexts_def omit_inv_def)

lemma omit_reach_inv: "omit_reach s \<Longrightarrow> omit_inv s"
proof (induction rule: omit_reach.induct)
  case reach_init
  show ?case by (rule omit_init_inv)
next
  case (reach_clear s eoln r s')
  then show ?case using ClearGlobalOmits_inv by (auto simp: DoClear_def)
next
  case (reach_push s mem f l eoln r s')
  then show ?case using PushOmitContext_inv by blast
next
  case (reach_pop s eoln r s')
  then show ?case using PopOmitContext_inv by blast
next
  case (reach_destroy s n s')
  then show ?case using DestroyOmitContexts_inv by blast
next
  case (reach_omit s toks eoln r s')
  then show ?case using DoOmit_spec [of s toks eoln] by (metis option.inject prod.inject)
next
  case (reach_add s dse r s')
  then show ?case using AddGlobalOmit_spec [of s dse] by (metis option.inject prod.inject)
qed

section \<open>Properties\<close>

text \<open>
  C14. The two searches of the sorted arrays and the weekday masks give the declarative
  meaning of an omitted day: its weekday is in the local or the global mask, its date is in
  the set of full dates, or its month and day are in the set of partial dates.
\<close>

theorem IsOmitted_meaning:
  assumes "omit_inv s" "0 \<le> dse" "ofunc = [] \<or> UserFuncExists uf ofunc = 0"
  shows "IsOmitted uf s dse lomit ofunc = Some (Inr (omitted_day s lomit dse))"
  by (rule IsOmitted_omitted_day [OF assms])

theorem IsOmitted_meaning_witness:
  "IsOmitted \<lparr>UserFuncExists = \<lambda>_. -1, call_date = \<lambda>_ _. Inl E_UNDEF_FUNC\<rparr> omit_init 5 0b0100000 [] = Some (Inr True)"
proof -
  have "omitted_day omit_init 0b0100000 5" by (simp add: omitted_day_def in_week_def)
  then show ?thesis
    by (subst IsOmitted_meaning [OF omit_init_inv]) simp_all
qed

text \<open>
  C9. Whatever commands a script runs, the omit context keeps its invariant: both arrays
  sorted, without duplicates and within their bounds, the partial array holding only real
  month days, and never all seven weekdays omitted; and the next OMIT and ADDOMIT command
  ends, without a write outside the arrays.
\<close>

theorem omit_context_safe:
  assumes "omit_reach s" "line_ok toks"
  shows "omit_inv s \<and> DoOmit eoln toks s \<noteq> None \<and> AddGlobalOmit dse s \<noteq> None"
proof -
  have inv: "omit_inv s" by (rule omit_reach_inv [OF assms(1)])
  moreover have "DoOmit eoln toks s \<noteq> None" by (rule DoOmit_spec [OF inv assms(2), of eoln]) simp
  moreover have "AddGlobalOmit dse s \<noteq> None" by (rule AddGlobalOmit_spec [OF inv, of dse]) simp
  ultimately show ?thesis by blast
qed

theorem omit_context_safe_witness:
  "DoOmit None [Inr (T_Month, 1), Inr (T_Day, 29)] omit_init \<noteq> None"
  using omit_context_safe [of omit_init "[Inr (T_Month, 1), Inr (T_Day, 29)]" None]
  by (simp add: reach_init line_ok_def tok_ok_def)

text \<open>
  C10. An OMIT command that succeeds with dates omits exactly the days of its range: a range
  with years adds its days to the full dates, a range of months and days adds, around the
  end of the year if need be, its month days to the partial dates; nothing else changes.
\<close>

theorem DoOmit_adds_range:
  assumes "omit_inv s" "line_ok toks"
    and "omit_line False omit_parse_init toks = Inr (Some (p, ty))" "o_wd p = 0" "omit_range p = Inr (a, b)"
    and "DoOmit eoln toks s = Some (r, s')" "r \<in> {None, Some E_PARSE_AS_REM}"
  shows "full_set s' = full_set s \<union> range_full a b
    \<and> partial_set s' = partial_set s \<union> md_code ` range_partial a b
    \<and> WeekdayOmits s' = WeekdayOmits s"
  using DoOmit_spec [OF assms(1,2), of eoln] assms(3-7) by (metis option.inject prod.inject)

lemma DoOmit_christmas:
  "omit_line False omit_parse_init [Inr (T_Day, 25), Inr (T_Month, 11)]
      = Inr (Some (omit_parse_init\<lparr>ymd0 := \<lparr>o_y = NO_YR, o_m = 11, o_d = 25\<rparr>\<rparr>, T_Empty))"
  "omit_range (omit_parse_init\<lparr>ymd0 := \<lparr>o_y = NO_YR, o_m = 11, o_d = 25\<rparr>\<rparr>)
      = Inr (\<lparr>o_y = NO_YR, o_m = 11, o_d = 25\<rparr>, \<lparr>o_y = NO_YR, o_m = 11, o_d = 25\<rparr>)"
  by (simp_all add: omit_token_def omit_parse_init_def no_ymd_def cur_ymd_def set_ymd_def omit_range_def Let_def)

theorem DoOmit_adds_range_witness:
  "\<exists>s'. DoOmit None [Inr (T_Day, 25), Inr (T_Month, 11)] omit_init = Some (None, s')
    \<and> partial_set s' = {md_code (11, 25)}"
proof -
  let ?toks = "[Inr (T_Day, 25), Inr (T_Month, 11)]"
  let ?p = "omit_parse_init\<lparr>ymd0 := \<lparr>o_y = NO_YR, o_m = 11, o_d = 25\<rparr>\<rparr>"
  have ok: "line_ok ?toks" by (simp add: line_ok_def tok_ok_def)
  have wd: "o_wd ?p = 0" by (simp add: omit_parse_init_def)
  have "DoOmit None ?toks omit_init = map_option (\<lambda>s. (None, s)) (omit_partial 11 25 11 25 omit_init)"
    using DoOmit_christmas
    by (simp add: DoOmit_def wd omit_dates_def MonthDays_def parse_as_rem_def map_option_case split: option.split)
  moreover obtain s' where "omit_partial 11 25 11 25 omit_init = Some s'"
    by (rule omit_partial_spec [OF omit_init_inv, of "(11, 25)" "(11, 25)"])
      (simp_all add: md_valid_iff MonthDays_def)
  ultimately have s': "DoOmit None ?toks omit_init = Some (None, s')" by simp
  have empty: "partial_set omit_init = {}" by (simp add: partial_set_def elems_def omit_init_def)
  have "md_valid (11, 25)" by (simp add: md_valid_iff MonthDays_def)
  then show ?thesis
    using DoOmit_adds_range [OF omit_init_inv ok DoOmit_christmas(1) wd DoOmit_christmas(2) s'] s'
    by (simp add: range_partial_def md_range_same empty)
qed

text \<open>
  C17. PUSH-OMIT-CONTEXT saves the context and POP-OMIT-CONTEXT brings it back, whatever
  happened to the arrays in between, as long as the stack is what PUSH left.
\<close>

theorem PushOmitContext_PopOmitContext:
  assumes "omit_inv s" "PushOmitContext True f l eoln s = (eoln, s1)"
    and "SavedOmitContexts s2 = SavedOmitContexts s1" "PopOmitContext eoln' s2 = (r, s3)"
  shows "r = eoln' \<and> full_set s3 = full_set s \<and> partial_set s3 = partial_set s
    \<and> WeekdayOmits s3 = WeekdayOmits s \<and> SavedOmitContexts s3 = SavedOmitContexts s"
  by (rule Push_Pop [OF assms(1-3), of eoln']) (use assms(4) in simp)

theorem PushOmitContext_PopOmitContext_witness:
  "let s = omit_init\<lparr>WeekdayOmits := 3\<rparr>; s1 = snd (PushOmitContext True ''f'' 1 None s)
   in WeekdayOmits (snd (PopOmitContext None (ClearGlobalOmits s1))) = 3"
proof -
  let ?s = "omit_init\<lparr>WeekdayOmits := 3\<rparr>" let ?s1 = "snd (PushOmitContext True ''f'' 1 None ?s)"
  obtain r s3 where pop: "PopOmitContext None (ClearGlobalOmits ?s1) = (r, s3)"
    by (cases "PopOmitContext None (ClearGlobalOmits ?s1)")
  have "omit_inv ?s" using omit_init_inv by (simp add: omit_inv_def)
  moreover have "PushOmitContext True ''f'' 1 None ?s = (None, ?s1)" by (simp add: PushOmitContext_def Let_def)
  moreover have "SavedOmitContexts (ClearGlobalOmits ?s1) = SavedOmitContexts ?s1"
    by (simp add: ClearGlobalOmits_def)
  ultimately have "WeekdayOmits s3 = WeekdayOmits ?s"
    using PushOmitContext_PopOmitContext [of ?s "''f''" 1 None ?s1 "ClearGlobalOmits ?s1" None r s3] pop by blast
  then show ?thesis using pop by simp
qed

end
