(* ===== verification/SimpleTrig.thy ===== *)
theory SimpleTrig
  imports Omits
begin

text \<open>
  The first half of \<^verbatim>\<open>src/src/trigger.c\<close>: \<open>NextSimpleTrig\<close>, the next date that matches the
  day, month, year and weekday of a reminder.  A loop of the source that may run forever is
  a partial function with result \<open>None\<close>; so is a shift by a negative weekday and a read
  outside the table of month lengths.  \<open>trig_match\<close> says which dates a trigger matches, and
  \<open>NextSimpleTrig_spec\<close> that the code finds the first of them.
\<close>

section \<open>The loops of NextSimpleTrig\<close>

text \<open>\<^verbatim>\<open>while (! ((wd) & (1 << ((x)%7)))) (x)++\<close>\<close>

partial_function (option) ADVANCE_TO_WD :: "int \<Rightarrow> int \<Rightarrow> int option" where
  "ADVANCE_TO_WD x wd =
    (if x smod 7 < 0 then None
     else if wd AND weekday_bit x = 0 then ADVANCE_TO_WD (x + 1) wd else Some x)"

text \<open>The first month from \<open>m\<close> of year \<open>y\<close> on that has a day \<open>d\<close>, going on to the next year.\<close>

partial_function (option) next_month_with :: "int \<Rightarrow> int \<Rightarrow> int \<Rightarrow> (int \<times> int) option" where
  "next_month_with d m y =
    (if d > DaysInMonth m y then
       if m + 1 = 12 then next_month_with d 0 (y + 1) else next_month_with d (m + 1) y
     else Some (m, y))"

text \<open>The same within the year: upwards, and downwards.\<close>

partial_function (option) month_up :: "int \<Rightarrow> int \<Rightarrow> int \<Rightarrow> int option" where
  "month_up d m y =
    (if m < 0 \<or> m > 11 then None
     else if d > DaysInMonth m y then month_up d (m + 1) y else Some m)"

partial_function (option) month_down :: "int \<Rightarrow> int \<Rightarrow> int \<Rightarrow> int option" where
  "month_down d m y =
    (if m < 0 \<or> m > 11 then None
     else if d > DaysInMonth m y then month_down d (m - 1) y else Some m)"

text \<open>The first year from \<open>y\<close> on whose month \<open>m\<close> has a day \<open>d\<close>.\<close>

partial_function (option) year_up :: "int \<Rightarrow> int \<Rightarrow> int \<Rightarrow> int option" where
  "year_up d m y = (if d > DaysInMonth m y then year_up d m (y + 1) else Some y)"

section \<open>NextSimpleTrig, case by case\<close>

text \<open>
  One definition for each \<open>case\<close> of the switch.  \<open>Inr (-1)\<close> is an expired trigger, \<open>Inl\<close> an
  error.  \<open>day\<close>, \<open>mon\<close>, \<open>yr\<close> and \<open>wd\<close> are the trigger's; \<open>(y, m, d)\<close> is the start date.
\<close>

type_synonym trig_result = "(errcode + int) option"

definition simple_wd :: "int \<Rightarrow> int \<Rightarrow> trig_result" where
  "simple_wd wd start = map_option Inr (ADVANCE_TO_WD start wd)"

definition simple_day :: "int \<Rightarrow> int \<times> int \<times> int \<Rightarrow> trig_result" where
  "simple_day day start = (case start of (y, m, d) \<Rightarrow>
    (let (m, y) = if d > day then if m + 1 = 12 then (0, y + 1) else (m + 1, y) else (m, y)
     in do { (m, y) \<leftarrow> next_month_with day m y; Some (Inr (DSE y m day)) }))"

definition simple_mon :: "int \<Rightarrow> int \<Rightarrow> int \<times> int \<times> int \<Rightarrow> trig_result" where
  "simple_mon mon startdate start = (case start of (y, m, d) \<Rightarrow>
    (if m = mon then Some (Inr startdate)
     else if m > mon then Some (Inr (DSE (y + 1) mon 1)) else Some (Inr (DSE y mon 1))))"

definition simple_yr :: "int \<Rightarrow> int \<Rightarrow> int \<times> int \<times> int \<Rightarrow> trig_result" where
  "simple_yr yr startdate start = (case start of (y, m, d) \<Rightarrow>
    (if y = yr then Some (Inr startdate)
     else if y < yr then Some (Inr (DSE yr 0 1)) else Some (Inr (-1))))"

definition simple_day_mon :: "int \<Rightarrow> int \<Rightarrow> int \<times> int \<times> int \<Rightarrow> trig_result" where
  "simple_day_mon day mon start = (case start of (y, m, d) \<Rightarrow>
    (if day > MonthDays ! nat mon then Some (Inl E_BAD_DATE)
     else do {
       y \<leftarrow> year_up day mon (if m > mon \<or> m = mon \<and> d > day then y + 1 else y);
       Some (Inr (DSE y mon day)) }))"

definition simple_day_yr :: "int \<Rightarrow> int \<Rightarrow> int \<times> int \<times> int \<Rightarrow> trig_result" where
  "simple_day_yr day yr start = (case start of (y, m, d) \<Rightarrow>
    (if y < yr then Some (Inr (DSE yr 0 day))
     else if y > yr then Some (Inr (-1))
     else if d > day \<and> m + 1 = 12 then Some (Inr (-1))
     else do {
       m \<leftarrow> month_up day (if d > day then m + 1 else m) yr;
       Some (Inr (DSE yr m day)) }))"

definition simple_mon_yr :: "int \<Rightarrow> int \<Rightarrow> int \<Rightarrow> int \<times> int \<times> int \<Rightarrow> trig_result" where
  "simple_mon_yr mon yr startdate start = (case start of (y, m, d) \<Rightarrow>
    (if y > yr \<or> y = yr \<and> m > mon then Some (Inr (-1))
     else if y < yr then Some (Inr (DSE yr mon 1))
     else if m = mon then Some (Inr startdate)
     else Some (Inr (DSE yr mon 1))))"

definition simple_day_mon_yr :: "int \<Rightarrow> int \<Rightarrow> int \<Rightarrow> trig_result" where
  "simple_day_mon_yr day mon yr =
    (if day > DaysInMonth mon yr then Some (Inl E_BAD_DATE) else Some (Inr (DSE yr mon day)))"

definition simple_wd_yr :: "int \<Rightarrow> int \<Rightarrow> int \<Rightarrow> int \<times> int \<times> int \<Rightarrow> trig_result" where
  "simple_wd_yr wd yr startdate start = (case start of (y, m, d) \<Rightarrow>
    (if y > yr then Some (Inr (-1))
     else do {
       j \<leftarrow> ADVANCE_TO_WD (if y < yr then DSE yr 0 1 else startdate) wd;
       Some (Inr (if DSEYear j > yr then -1 else j)) }))"

definition simple_wd_mon :: "int \<Rightarrow> int \<Rightarrow> int \<Rightarrow> int \<times> int \<times> int \<Rightarrow> trig_result" where
  "simple_wd_mon wd mon startdate start = (case start of (y, m, d) \<Rightarrow>
    (let later = map_option Inr
        (ADVANCE_TO_WD (if m \<ge> mon then DSE (y + 1) mon 1 else DSE y mon 1) wd)
     in if m = mon then do {
          j \<leftarrow> ADVANCE_TO_WD startdate wd;
          if DSEMonth j = mon then Some (Inr j) else later }
        else later))"

text \<open>
  Cases that look for a weekday on or after a numbered day try several months or years; a
  date that is too early passes on to the next try.
\<close>

definition try_day :: "int \<Rightarrow> int \<Rightarrow> int \<Rightarrow> trig_result \<Rightarrow> trig_result" where
  "try_day base wd startdate continue =
    do { j \<leftarrow> ADVANCE_TO_WD base wd; if j \<ge> startdate then Some (Inr j) else continue }"

definition simple_wd_day :: "int \<Rightarrow> int \<Rightarrow> int \<Rightarrow> int \<times> int \<times> int \<Rightarrow> trig_result" where
  "simple_wd_day wd day startdate start = (case start of (y, m, d) \<Rightarrow>
    (let next_avail =
           (let (m2, y) = if m + 1 > 11 then (0, y + 1) else (m + 1, y)
            in do { m2 \<leftarrow> month_up day m2 y; map_option Inr (ADVANCE_TO_WD (DSE y m2 day) wd) });
         this_month =
           (if day \<le> DaysInMonth m y then try_day (DSE y m day) wd startdate next_avail else next_avail)
     in if m \<noteq> 0 \<or> y > BASE then
          (let (m2, y2) = if m - 1 < 0 then (11, y - 1) else (m - 1, y)
           in if day \<le> DaysInMonth m2 y2 then try_day (DSE y2 m2 day) wd startdate this_month
              else this_month)
        else this_month))"

text \<open>A try within a year: a date past its end is -1.\<close>

definition try_in_year :: "int \<Rightarrow> int \<Rightarrow> int \<Rightarrow> int \<Rightarrow> trig_result \<Rightarrow> trig_result" where
  "try_in_year base wd yr startdate continue =
    do { j \<leftarrow> ADVANCE_TO_WD base wd;
         if DSEYear j > yr then Some (Inr (-1))
         else if j \<ge> startdate then Some (Inr j) else continue }"

definition simple_wd_day_yr :: "int \<Rightarrow> int \<Rightarrow> int \<Rightarrow> int \<Rightarrow> int \<times> int \<times> int \<Rightarrow> trig_result" where
  "simple_wd_day_yr wd day yr startdate start = (case start of (y, m, d) \<Rightarrow>
    (let next_month =
           (if m = 11 then Some (Inr (-1))
            else do {
              m2 \<leftarrow> month_up day (m + 1) day;
              j \<leftarrow> ADVANCE_TO_WD (DSE yr m2 day) wd;
              Some (Inr (if DSEYear j > yr then -1 else j)) });
         this_month =
           (if day \<le> DaysInMonth m yr then try_in_year (DSE yr m day) wd yr startdate next_month
            else next_month)
     in if y > yr + 1 \<or> y > yr \<and> m > 0 then Some (Inr (-1))
        else if y > yr then try_day (DSE yr 11 day) wd startdate this_month
        else if y < yr then map_option Inr (ADVANCE_TO_WD (DSE yr 0 day) wd)
        else if m > 0 then do {
          m2 \<leftarrow> month_down day (m - 1) yr;
          try_in_year (DSE yr m2 day) wd yr startdate this_month }
        else this_month))"

definition simple_wd_day_mon :: "int \<Rightarrow> int \<Rightarrow> int \<Rightarrow> int \<Rightarrow> int \<times> int \<times> int \<Rightarrow> trig_result" where
  "simple_wd_day_mon wd day mon startdate start = (case start of (y, m, d) \<Rightarrow>
    (if day > MonthDays ! nat mon then Some (Inl E_BAD_DATE)
     else do {
       y1 \<leftarrow> year_up day mon (if y > BASE then y - 1 else y);
       try_day (DSE y1 mon day) wd startdate (do {
         y2 \<leftarrow> year_up day mon (y1 + 1);
         try_day (DSE y2 mon day) wd startdate (do {
           y3 \<leftarrow> year_up day mon (y2 + 1);
           map_option Inr (ADVANCE_TO_WD (DSE y3 mon day) wd) }) }) }))"

definition simple_wd_mon_yr :: "int \<Rightarrow> int \<Rightarrow> int \<Rightarrow> int \<Rightarrow> int \<times> int \<times> int \<Rightarrow> trig_result" where
  "simple_wd_mon_yr wd mon yr startdate start = (case start of (y, m, d) \<Rightarrow>
    (if y > yr \<or> y = yr \<and> m > mon then Some (Inr (-1))
     else if yr > y \<or> yr = y \<and> mon > m then map_option Inr (ADVANCE_TO_WD (DSE yr mon 1) wd)
     else do {
       j \<leftarrow> ADVANCE_TO_WD startdate wd;
       (case FromDSE j of (y2, m2, d2) \<Rightarrow> Some (Inr (if m2 = mon then j else -1))) }))"

definition simple_wd_day_mon_yr :: "int \<Rightarrow> int \<Rightarrow> int \<Rightarrow> int \<Rightarrow> trig_result" where
  "simple_wd_day_mon_yr wd day mon yr =
    (if day > DaysInMonth mon yr then Some (Inl E_BAD_DATE)
     else map_option Inr (ADVANCE_TO_WD (DSE yr mon day) wd))"

definition NextSimpleTrig :: "int \<Rightarrow> Trigger \<Rightarrow> trig_result" where
  "NextSimpleTrig startdate trig =
    (let start = FromDSE startdate;
         day = trg_d trig; mon = trg_m trig; yr = trg_y trig; wd = trg_wd trig
     in case (wd \<noteq> NO_WD, day \<noteq> NO_DAY, mon \<noteq> NO_MON, yr \<noteq> NO_YR) of
          (False, False, False, False) \<Rightarrow> Some (Inr startdate)
        | (True, False, False, False) \<Rightarrow> simple_wd wd startdate
        | (False, True, False, False) \<Rightarrow> simple_day day start
        | (False, False, True, False) \<Rightarrow> simple_mon mon startdate start
        | (False, False, False, True) \<Rightarrow> simple_yr yr startdate start
        | (False, True, True, False) \<Rightarrow> simple_day_mon day mon start
        | (False, True, False, True) \<Rightarrow> simple_day_yr day yr start
        | (False, False, True, True) \<Rightarrow> simple_mon_yr mon yr startdate start
        | (False, True, True, True) \<Rightarrow> simple_day_mon_yr day mon yr
        | (True, False, False, True) \<Rightarrow> simple_wd_yr wd yr startdate start
        | (True, False, True, False) \<Rightarrow> simple_wd_mon wd mon startdate start
        | (True, True, False, False) \<Rightarrow> simple_wd_day wd day startdate start
        | (True, True, False, True) \<Rightarrow> simple_wd_day_yr wd day yr startdate start
        | (True, True, True, False) \<Rightarrow> simple_wd_day_mon wd day mon startdate start
        | (True, False, True, True) \<Rightarrow> simple_wd_mon_yr wd mon yr startdate start
        | (True, True, True, True) \<Rightarrow> simple_wd_day_mon_yr wd day mon yr)"

section \<open>The loops end\<close>

text \<open>\<open>j\<close> is the first day of the week mask \<open>wd\<close> from \<open>b\<close> on.\<close>

definition wd_after :: "int \<Rightarrow> int \<Rightarrow> int \<Rightarrow> bool" where
  "wd_after wd b j \<longleftrightarrow> b \<le> j \<and> in_week wd j \<and> (\<forall>k. b \<le> k \<and> k < j \<longrightarrow> \<not> in_week wd k)"

lemma wd_after_unique: "wd_after wd b j \<Longrightarrow> wd_after wd b j' \<Longrightarrow> j = j'"
  unfolding wd_after_def by (meson linorder_neqE not_le)

lemma wd_after_mono: "wd_after wd b j \<Longrightarrow> wd_after wd b' j' \<Longrightarrow> b \<le> b' \<Longrightarrow> j \<le> j'"
  unfolding wd_after_def by (meson not_le order_trans)

lemma wd_bit_exists:
  assumes "0 < (wd::int)" "wd < 128"
  obtains n where "n < 7" "bit wd n"
proof -
  have wd: "take_bit 7 wd = wd" using assms by (simp add: take_bit_int_eq_self)
  have "wd = 0" if none: "\<forall>n<7. \<not> bit wd n"
  proof (rule bit_eqI)
    fix n
    have "bit wd n \<longleftrightarrow> n < 7 \<and> bit wd n" using bit_take_bit_iff [of 7 wd n] wd by simp
    then show "bit wd n \<longleftrightarrow> bit 0 n" using none by auto
  qed
  then show thesis using assms that by force
qed

lemma in_week_soon:
  assumes "0 < wd" "wd < 128"
  obtains i where "0 \<le> i" "i \<le> 6" "in_week wd (x + i)"
proof -
  obtain n where n: "n < 7" "bit wd n" using wd_bit_exists assms by blast
  define i where "i = (int n - x) mod 7"
  have "(x + i) mod 7 = (x + (int n - x)) mod 7" unfolding i_def by (rule mod_add_right_eq)
  also have "\<dots> = int n" using n by simp
  finally have "(x + i) mod 7 = int n" .
  then have "in_week wd (x + i)" using n by (simp add: in_week_def)
  moreover have "0 \<le> i" "i \<le> 6" using pos_mod_bound [of 7 "int n - x"] by (simp_all add: i_def)
  ultimately show thesis using that by blast
qed

lemma wd_after_step: "\<not> in_week wd x \<Longrightarrow> wd_after wd (x + 1) j \<Longrightarrow> wd_after wd x j"
proof -
  assume "\<not> in_week wd x" and j: "wd_after wd (x + 1) j"
  moreover have "x \<le> k \<Longrightarrow> k = x \<or> x + 1 \<le> k" for k by linarith
  ultimately show ?thesis by (auto simp: wd_after_def)
qed

lemma wd_after_refl: "in_week wd x \<Longrightarrow> wd_after wd x x"
  unfolding wd_after_def by auto

lemma ADVANCE_unfold:
  assumes x: "0 \<le> x"
  shows "ADVANCE_TO_WD x wd = (if in_week wd x then Some x else ADVANCE_TO_WD (x + 1) wd)"
proof -
  have "\<not> x smod 7 < 0" using x by (simp add: smod_nonneg)
  then show ?thesis using weekday_mask [OF x, of wd] by (subst ADVANCE_TO_WD.simps) auto
qed

lemma ADVANCE_TO_WD_spec:
  assumes wd: "0 < wd" "wd < 128" and x: "0 \<le> x"
  obtains j where "ADVANCE_TO_WD x wd = Some j" "wd_after wd x j" "j \<le> x + 6"
proof -
  obtain i where i: "0 \<le> i" "i \<le> 6" "in_week wd (x + i)" by (rule in_week_soon [OF wd, of x])
  have "\<exists>j. ADVANCE_TO_WD x wd = Some j \<and> wd_after wd x j \<and> j \<le> x + int n"
    if "in_week wd (x + int n)" "0 \<le> x" for n x
    using that
  proof (induction n arbitrary: x)
    case 0
    then show ?case
      by (simp add: ADVANCE_unfold wd_after_refl)
  next
    case (Suc n)
    show ?case
    proof (cases "in_week wd x")
      case True
      then show ?thesis using Suc.prems
        by (simp add: ADVANCE_unfold wd_after_refl)
    next
      case False
      have shift: "in_week wd ((x + 1) + int n)" using Suc.prems by (simp add: algebra_simps)
      obtain j where j: "ADVANCE_TO_WD (x + 1) wd = Some j" "wd_after wd (x + 1) j" "j \<le> x + 1 + int n"
        using Suc.IH [OF shift] Suc.prems by auto
      have "wd_after wd x j" by (rule wd_after_step [OF False j(2)])
      moreover have "ADVANCE_TO_WD x wd = ADVANCE_TO_WD (x + 1) wd"
        using False Suc.prems by (simp add: ADVANCE_unfold)
      ultimately show ?thesis using j by auto
    qed
  qed
  from this [of x "nat i"] obtain j where "ADVANCE_TO_WD x wd = Some j" "wd_after wd x j" "j \<le> x + i"
    using i x by auto
  then show thesis using that i by simp
qed

text \<open>Two months in a row are never both shorter than 31 days.\<close>

lemma next_month_31: "0 \<le> m \<Longrightarrow> m \<le> 11 \<Longrightarrow> month_length y m < 31 \<Longrightarrow> m \<noteq> 11 \<and> month_length y' (m + 1) = 31"
  by (auto simp: month_length_def split: if_splits)

lemma prev_month_31: "0 \<le> m \<Longrightarrow> m \<le> 11 \<Longrightarrow> month_length y m < 31 \<Longrightarrow> m \<noteq> 0 \<and> month_length y' (m - 1) = 31"
  by (auto simp: month_length_def split: if_splits)

lemma next_month_with_spec:
  assumes "0 \<le> m" "m \<le> 11" "d \<le> 31"
  shows "next_month_with d m y = Some (if d \<le> month_length y m then m else m + 1, y)"
  using assms next_month_31 [of m y y]
  by (subst next_month_with.simps, subst next_month_with.simps) (auto simp: DaysInMonth_length)

lemma month_up_spec:
  assumes "0 \<le> m" "m \<le> 11" "d \<le> 31"
  shows "month_up d m y = Some (if d \<le> month_length y m then m else m + 1)"
  using assms next_month_31 [of m y y]
  by (subst month_up.simps, subst month_up.simps) (auto simp: DaysInMonth_length)

lemma month_down_spec:
  assumes "0 \<le> m" "m \<le> 11" "d \<le> 31"
  shows "month_down d m y = Some (if d \<le> month_length y m then m else m - 1)"
  using assms prev_month_31 [of m y y]
  by (subst month_down.simps, subst month_down.simps) (auto simp: DaysInMonth_length)

lemma year_up_spec:
  assumes m: "0 \<le> m" "m \<le> 11" and d: "d \<le> MonthDays ! nat m"
  obtains y' where "year_up d m y = Some y'" "y \<le> y'" "d \<le> month_length y' m"
    "\<forall>k. y \<le> k \<and> k < y' \<longrightarrow> month_length k m < d"
proof -
  have step: "\<exists>y'. year_up d m y = Some y' \<and> y \<le> y' \<and> d \<le> month_length y' m
      \<and> (\<forall>k. y \<le> k \<and> k < y' \<longrightarrow> month_length k m < d)"
    if "d \<le> month_length (y + int n) m" for n y
    using that
  proof (induction n arbitrary: y)
    case 0
    then show ?case using m by (subst year_up.simps) (simp add: DaysInMonth_length)
  next
    case (Suc n)
    show ?case
    proof (cases "d \<le> month_length y m")
      case True
      then show ?thesis using m by (subst year_up.simps) (simp add: DaysInMonth_length)
    next
      case False
      have "d \<le> month_length ((y + 1) + int n) m" using Suc.prems by (simp add: algebra_simps)
      then obtain y' where y': "year_up d m (y + 1) = Some y'" "y + 1 \<le> y'" "d \<le> month_length y' m"
        "\<forall>k. y + 1 \<le> k \<and> k < y' \<longrightarrow> month_length k m < d" using Suc.IH by blast
      moreover have "year_up d m y = year_up d m (y + 1)"
        using m False by (subst year_up.simps) (simp add: DaysInMonth_length)
      moreover have "month_length k m < d" if "y \<le> k" "k < y'" for k
        using y'(4) False that by (cases "k = y") auto
      ultimately show ?thesis by auto
    qed
  qed
  obtain n where n: "leap (y + int n)"
  proof -
    define n where "n = nat ((- y) mod 400)"
    have "(y + int n) mod 400 = (y + (- y)) mod 400"
      unfolding n_def by (simp only: nat_0_le pos_mod_sign zero_less_numeral mod_add_right_eq)
    then have "400 dvd y + int n" by (simp add: dvd_eq_mod_eq_0)
    moreover have "4 dvd y + int n" by (rule dvd_trans [OF _ \<open>400 dvd y + int n\<close>]) simp
    ultimately have "leap (y + int n)" by (simp add: leap_def)
    then show thesis by (rule that)
  qed
  have "month_length (y + int n) m = MonthDays ! nat m"
    using n m by (auto simp: month_length_def MonthDays_def elim!: month_cases [of m])
  then have "d \<le> month_length (y + int n) m" using d by simp
  then show thesis using step that by blast
qed

section \<open>The dates a trigger matches\<close>

text \<open>
  What the day, month, year and weekday of a trigger mean.  Without a weekday, or with a
  weekday but no day, a date matches by its own components; with both, it matches when it
  is the first such weekday on or after a date that matches the other components (and
  within the year, if the trigger has one).
\<close>

definition dmy_match :: "Trigger \<Rightarrow> int \<times> int \<times> int \<Rightarrow> bool" where
  "dmy_match trig x \<longleftrightarrow> (case x of (y, m, d) \<Rightarrow>
    (trg_d trig = NO_DAY \<or> d = trg_d trig) \<and> (trg_m trig = NO_MON \<or> m = trg_m trig)
    \<and> (trg_y trig = NO_YR \<or> y = trg_y trig))"

definition trig_match :: "Trigger \<Rightarrow> int \<Rightarrow> bool" where
  "trig_match trig j \<longleftrightarrow> 0 \<le> j \<and>
    (if trg_wd trig = NO_WD then dmy_match trig (FromDSE j)
     else if trg_d trig = NO_DAY then dmy_match trig (FromDSE j) \<and> in_week (trg_wd trig) j
     else (trg_y trig = NO_YR \<or> DSEYear j = trg_y trig)
       \<and> (\<exists>x. is_date x \<and> dmy_match trig x \<and> wd_after (trg_wd trig) (DSE_of x) j))"

definition trig_ok :: "Trigger \<Rightarrow> bool" where
  "trig_ok trig \<longleftrightarrow>
    (trg_d trig = NO_DAY \<or> 1 \<le> trg_d trig \<and> trg_d trig \<le> 31)
    \<and> (trg_m trig = NO_MON \<or> 0 \<le> trg_m trig \<and> trg_m trig \<le> 11)
    \<and> (trg_y trig = NO_YR \<or> 1990 \<le> trg_y trig)
    \<and> 0 \<le> trg_wd trig \<and> trg_wd trig < 128"

text \<open>\<open>r\<close> is the first match from \<open>start\<close> on, or -1 when there is none.\<close>

definition next_of :: "(int \<Rightarrow> bool) \<Rightarrow> int \<Rightarrow> int \<Rightarrow> bool" where
  "next_of P start r \<longleftrightarrow>
    (if r = -1 then \<forall>k. start \<le> k \<longrightarrow> \<not> P k
     else start \<le> r \<and> P r \<and> (\<forall>k. start \<le> k \<and> k < r \<longrightarrow> \<not> P k))"

lemma next_ofI:
  "r \<noteq> -1 \<Longrightarrow> start \<le> r \<Longrightarrow> P r \<Longrightarrow> (\<And>k. start \<le> k \<Longrightarrow> k < r \<Longrightarrow> P k \<Longrightarrow> False) \<Longrightarrow> next_of P start r"
  by (auto simp: next_of_def)

lemma next_of_noneI: "(\<And>k. start \<le> k \<Longrightarrow> P k \<Longrightarrow> False) \<Longrightarrow> next_of P start (-1)"
  by (auto simp: next_of_def)

subsection \<open>Day numbers and dates\<close>

lemma DSE_less_iff:
  assumes "is_date (y, m, d)" "is_date (y', m', d')"
  shows "DSE y m d < DSE y' m' d' \<longleftrightarrow> y < y' \<or> y = y' \<and> (m < m' \<or> m = m' \<and> d < d')"
proof -
  consider "y < y'" | "y' < y" | "y = y'" "m < m'" | "y = y'" "m' < m" | "y = y'" "m = m'"
    by linarith
  then show ?thesis
  proof cases
    case 1 with DSE_less_year [OF assms] show ?thesis by simp
  next
    case 2 with DSE_less_year [OF assms(2,1)] show ?thesis by simp
  next
    case 3 with DSE_less_month [of y m d m' d'] assms show ?thesis by simp
  next
    case 4 with DSE_less_month [of y m' d' m d] assms show ?thesis by simp
  next
    case 5 with assms show ?thesis by (simp add: DSE_start)
  qed
qed

lemma DSE_le_iff:
  assumes "is_date (y, m, d)" "is_date (y', m', d')"
  shows "DSE y m d \<le> DSE y' m' d' \<longleftrightarrow> y < y' \<or> y = y' \<and> (m < m' \<or> m = m' \<and> d \<le> d')"
  using DSE_less_iff [OF assms(2,1)] by (simp add: not_less [symmetric]) linarith

lemma DSE_add: "1990 \<le> y \<Longrightarrow> DSE y m d + i = DSE y m (d + i)"
  by (simp add: DSE_start)

text \<open>Every day number is the number of the date it reads as.\<close>

lemma day_cases:
  assumes "0 \<le> k"
  obtains y m d where "k = DSE y m d" "is_date (y, m, d)" "FromDSE k = (y, m, d)"
proof -
  obtain y m d where "FromDSE k = (y, m, d)" by (cases "FromDSE k")
  then show thesis using FromDSE_spec [OF assms] that by blast
qed

lemma DSE_nonneg: "is_date (y, m, d) \<Longrightarrow> 0 \<le> DSE y m d"
  by (rule DSE_bounds(3))

text \<open>The first match of a property of dates, by comparison of dates.\<close>

lemma next_of_date:
  assumes s: "is_date (y, m, d)" and r: "is_date (y', m', d')" and P: "P (y', m', d')"
    and le: "y < y' \<or> y = y' \<and> (m < m' \<or> m = m' \<and> d \<le> d')"
    and least: "\<And>a b c. is_date (a, b, c) \<Longrightarrow> y < a \<or> y = a \<and> (m < b \<or> m = b \<and> d \<le> c) \<Longrightarrow>
      a < y' \<or> a = y' \<and> (b < m' \<or> b = m' \<and> c < d') \<Longrightarrow> P (a, b, c) \<Longrightarrow> False"
  shows "next_of (\<lambda>k. 0 \<le> k \<and> P (FromDSE k)) (DSE y m d) (DSE y' m' d')"
proof (rule next_ofI)
  show "DSE y' m' d' \<noteq> -1" using DSE_nonneg [OF r] by simp
  show "DSE y m d \<le> DSE y' m' d'" using DSE_le_iff [OF s r] le by simp
  show "0 \<le> DSE y' m' d' \<and> P (FromDSE (DSE y' m' d'))" using P r DSE_nonneg [OF r] by (simp add: FromDSE_DSE)
  fix k assume k: "DSE y m d \<le> k" "k < DSE y' m' d'" "0 \<le> k \<and> P (FromDSE k)"
  obtain a b c where abc: "k = DSE a b c" "is_date (a, b, c)" "FromDSE k = (a, b, c)"
    using day_cases k(3) by blast
  show False
    using least [OF abc(2)] k DSE_le_iff [OF s abc(2)] DSE_less_iff [OF abc(2) r] abc by simp
qed

lemma next_of_none_date:
  assumes s: "is_date (y, m, d)"
    and none: "\<And>a b c. is_date (a, b, c) \<Longrightarrow> y < a \<or> y = a \<and> (m < b \<or> m = b \<and> d \<le> c) \<Longrightarrow>
      P (a, b, c) \<Longrightarrow> False"
  shows "next_of (\<lambda>k. 0 \<le> k \<and> P (FromDSE k)) (DSE y m d) (-1)"
proof (rule next_of_noneI)
  fix k assume k: "DSE y m d \<le> k" "0 \<le> k \<and> P (FromDSE k)"
  obtain a b c where abc: "k = DSE a b c" "is_date (a, b, c)" "FromDSE k = (a, b, c)"
    using day_cases k(2) by blast
  show False using none [OF abc(2)] k DSE_le_iff [OF s abc(2)] abc by simp
qed

subsection \<open>Without a weekday\<close>

lemma simple_day_spec:
  assumes s: "is_date (y, m, d)" and day: "1 \<le> day" "day \<le> 31"
  obtains r where "simple_day day (y, m, d) = Some (Inr r)"
    "next_of (\<lambda>k. 0 \<le> k \<and> (case FromDSE k of (a, b, c) \<Rightarrow> c = day)) (DSE y m d) r"
proof -
  define m1 y1 where "m1 = (if d > day then if m = 11 then 0 else m + 1 else m)"
    and "y1 = (if d > day \<and> m = 11 then y + 1 else y)"
  have m1: "0 \<le> m1" "m1 \<le> 11" using s by (auto simp: m1_def)
  define m2 where "m2 = (if day \<le> month_length y1 m1 then m1 else m1 + 1)"
  have "simple_day day (y, m, d) = Some (Inr (DSE y1 m2 day))"
    using s next_month_with_spec [OF m1 day(2), of y1]
    by (auto simp: simple_day_def m1_def y1_def m2_def Let_def)
  moreover have "next_of (\<lambda>k. 0 \<le> k \<and> (case FromDSE k of (a, b, c) \<Rightarrow> c = day)) (DSE y m d) (DSE y1 m2 day)"
  proof (rule next_of_date [OF s])
    have m2: "m2 \<le> 11" "day \<le> month_length y1 m2"
      using next_month_31 [OF m1, of y1 y1] m1 day by (auto simp: m2_def)
    then show "is_date (y1, m2, day)" using s day m1 by (auto simp: y1_def m2_def)
    show "y < y1 \<or> y = y1 \<and> (m < m2 \<or> m = m2 \<and> d \<le> day)"
      by (auto simp: m1_def y1_def m2_def)
    fix a b c
    assume *: "is_date (a, b, c)" "y < a \<or> y = a \<and> (m < b \<or> m = b \<and> d \<le> c)"
      "a < y1 \<or> a = y1 \<and> (b < m2 \<or> b = m2 \<and> c < day)" "case (a, b, c) of (a, b, c) \<Rightarrow> c = day"
    then have c: "c = day" by simp
    have "a = y1 \<and> b = m1 \<or> False"
      using *(1,2,3) c s by (auto simp: m1_def y1_def m2_def split: if_splits)
    then show False using *(1,3) c by (auto simp: m2_def split: if_splits)
  qed simp
  ultimately show thesis by (rule that)
qed

lemma simple_mon_spec:
  assumes s: "is_date (y, m, d)" and mon: "0 \<le> mon" "mon \<le> 11"
  obtains r where "simple_mon mon (DSE y m d) (y, m, d) = Some (Inr r)"
    "next_of (\<lambda>k. 0 \<le> k \<and> (case FromDSE k of (a, b, c) \<Rightarrow> b = mon)) (DSE y m d) r"
proof -
  define r where "r = (if m = mon then (y, m, d) else if m > mon then (y + 1, mon, 1) else (y, mon, 1))"
  have len: "1 \<le> month_length a b" for a b using month_length_bounds(1) [of a b] by simp
  obtain a b c where abc: "r = (a, b, c)" by (cases r)
  have "simple_mon mon (DSE y m d) (y, m, d) = Some (Inr (DSE a b c))"
    using abc by (auto simp: simple_mon_def r_def split: if_splits)
  moreover have "next_of (\<lambda>k. 0 \<le> k \<and> (case FromDSE k of (a, b, c) \<Rightarrow> b = mon)) (DSE y m d) (DSE a b c)"
    by (rule next_of_date [OF s]) (use s mon len abc in \<open>auto simp: r_def split: if_splits\<close>)
  ultimately show thesis by (rule that)
qed

lemma simple_yr_spec:
  assumes s: "is_date (y, m, d)" and yr: "1990 \<le> yr"
  obtains r where "simple_yr yr (DSE y m d) (y, m, d) = Some (Inr r)"
    "next_of (\<lambda>k. 0 \<le> k \<and> (case FromDSE k of (a, b, c) \<Rightarrow> a = yr)) (DSE y m d) r"
proof -
  have len: "1 \<le> month_length a b" for a b using month_length_bounds(1) [of a b] by simp
  consider "y > yr" | "y \<le> yr" by linarith
  then show thesis
  proof cases
    case 1
    have "next_of (\<lambda>k. 0 \<le> k \<and> (case FromDSE k of (a, b, c) \<Rightarrow> a = yr)) (DSE y m d) (-1)"
      by (rule next_of_none_date [OF s]) (use 1 in auto)
    then show thesis using 1 by (intro that [of "-1"]) (simp_all add: simple_yr_def)
  next
    case 2
    define r where "r = (if y = yr then (y, m, d) else (yr, 0, 1))"
    obtain a b c where abc: "r = (a, b, c)" by (cases r)
    have "simple_yr yr (DSE y m d) (y, m, d) = Some (Inr (DSE a b c))"
      using abc 2 by (auto simp: simple_yr_def r_def split: if_splits)
    moreover have "next_of (\<lambda>k. 0 \<le> k \<and> (case FromDSE k of (a, b, c) \<Rightarrow> a = yr)) (DSE y m d) (DSE a b c)"
      by (rule next_of_date [OF s]) (use s yr len abc 2 in \<open>auto simp: r_def split: if_splits\<close>)
    ultimately show thesis by (rule that)
  qed
qed

lemma simple_day_mon_spec:
  assumes s: "is_date (y, m, d)" and mon: "0 \<le> mon" "mon \<le> 11" and day: "1 \<le> day" "day \<le> MonthDays ! nat mon"
  obtains r where "simple_day_mon day mon (y, m, d) = Some (Inr r)"
    "next_of (\<lambda>k. 0 \<le> k \<and> (case FromDSE k of (a, b, c) \<Rightarrow> c = day \<and> b = mon)) (DSE y m d) r"
proof -
  define y0 where "y0 = (if m > mon \<or> m = mon \<and> d > day then y + 1 else y)"
  obtain y1 where y1: "year_up day mon y0 = Some y1" "y0 \<le> y1" "day \<le> month_length y1 mon"
    "\<forall>k. y0 \<le> k \<and> k < y1 \<longrightarrow> month_length k mon < day" by (rule year_up_spec [OF mon day(2), of y0])
  have "simple_day_mon day mon (y, m, d) = Some (Inr (DSE y1 mon day))"
    using day(2) y1(1) by (auto simp: simple_day_mon_def y0_def)
  moreover have "next_of (\<lambda>k. 0 \<le> k \<and> (case FromDSE k of (a, b, c) \<Rightarrow> c = day \<and> b = mon)) (DSE y m d) (DSE y1 mon day)"
  proof (rule next_of_date [OF s])
    show "is_date (y1, mon, day)" using s mon day y1 by (auto simp: y0_def split: if_splits)
    show "y < y1 \<or> y = y1 \<and> (m < mon \<or> m = mon \<and> d \<le> day)"
      using y1(2) by (auto simp: y0_def split: if_splits)
    fix a b c
    assume *: "is_date (a, b, c)" "y < a \<or> y = a \<and> (m < b \<or> m = b \<and> d \<le> c)"
      "a < y1 \<or> a = y1 \<and> (b < mon \<or> b = mon \<and> c < day)"
      "case (a, b, c) of (a, b, c) \<Rightarrow> c = day \<and> b = mon"
    then have "y0 \<le> a" "a < y1" by (auto simp: y0_def)
    then have "month_length a mon < day" using y1(4) by blast
    then show False using * by auto
  qed simp
  ultimately show thesis by (rule that)
qed

lemma simple_day_yr_spec:
  assumes s: "is_date (y, m, d)" and day: "1 \<le> day" "day \<le> 31" and yr: "1990 \<le> yr"
  obtains r where "simple_day_yr day yr (y, m, d) = Some (Inr r)"
    "next_of (\<lambda>k. 0 \<le> k \<and> (case FromDSE k of (a, b, c) \<Rightarrow> c = day \<and> a = yr)) (DSE y m d) r"
proof -
  let ?P = "\<lambda>(a, b, c). c = day \<and> a = yr"
  consider (none) "y > yr \<or> y = yr \<and> d > day \<and> m = 11" | (early) "y < yr"
    | (same) "y = yr" "\<not> (d > day \<and> m = 11)" by linarith
  then show thesis
  proof cases
    case none
    have "next_of (\<lambda>k. 0 \<le> k \<and> ?P (FromDSE k)) (DSE y m d) (-1)"
      by (rule next_of_none_date [OF s]) (use none in auto)
    then show thesis using none by (intro that [of "-1"]) (auto simp: simple_day_yr_def)
  next
    case early
    have "next_of (\<lambda>k. 0 \<le> k \<and> ?P (FromDSE k)) (DSE y m d) (DSE yr 0 day)"
      by (rule next_of_date [OF s]) (use early day yr in \<open>auto simp: month_length_def\<close>)
    then show thesis using early by (intro that) (auto simp: simple_day_yr_def)
  next
    case same
    define m1 where "m1 = (if d > day then m + 1 else m)"
    have m1: "0 \<le> m1" "m1 \<le> 11" using s same by (auto simp: m1_def)
    define m2 where "m2 = (if day \<le> month_length yr m1 then m1 else m1 + 1)"
    have "simple_day_yr day yr (y, m, d) = Some (Inr (DSE yr m2 day))"
      using same month_up_spec [OF m1 day(2), of yr] by (auto simp: simple_day_yr_def m1_def m2_def)
    moreover have "next_of (\<lambda>k. 0 \<le> k \<and> ?P (FromDSE k)) (DSE y m d) (DSE yr m2 day)"
    proof (rule next_of_date [OF s])
      have "m2 \<le> 11" "day \<le> month_length yr m2"
        using next_month_31 [OF m1, of yr yr] m1 day by (auto simp: m2_def)
      then show "is_date (yr, m2, day)" using day m1 yr by (auto simp: m2_def)
      show "y < yr \<or> y = yr \<and> (m < m2 \<or> m = m2 \<and> d \<le> day)"
        using same by (auto simp: m1_def m2_def)
      fix a b c
      assume *: "is_date (a, b, c)" "y < a \<or> y = a \<and> (m < b \<or> m = b \<and> d \<le> c)"
        "a < yr \<or> a = yr \<and> (b < m2 \<or> b = m2 \<and> c < day)" "?P (a, b, c)"
      then have c: "c = day" "a = yr" by simp_all
      have "b = m1" using *(2,3) c same by (auto simp: m1_def m2_def split: if_splits)
      then show False using *(1,3) c by (auto simp: m2_def split: if_splits)
    qed simp
    ultimately show thesis by (rule that)
  qed
qed

lemma simple_mon_yr_spec:
  assumes s: "is_date (y, m, d)" and mon: "0 \<le> mon" "mon \<le> 11" and yr: "1990 \<le> yr"
  obtains r where "simple_mon_yr mon yr (DSE y m d) (y, m, d) = Some (Inr r)"
    "next_of (\<lambda>k. 0 \<le> k \<and> (case FromDSE k of (a, b, c) \<Rightarrow> b = mon \<and> a = yr)) (DSE y m d) r"
proof -
  let ?P = "\<lambda>(a, b, c). b = mon \<and> a = yr"
  have len: "1 \<le> month_length a b" for a b using month_length_bounds(1) [of a b] by simp
  show thesis
  proof (cases "y > yr \<or> y = yr \<and> m > mon")
    case True
    have "next_of (\<lambda>k. 0 \<le> k \<and> ?P (FromDSE k)) (DSE y m d) (-1)"
      by (rule next_of_none_date [OF s]) (use True in auto)
    then show thesis using True by (intro that [of "-1"]) (auto simp: simple_mon_yr_def)
  next
    case False
    define r where "r = (if y = yr \<and> m = mon then (y, m, d) else (yr, mon, 1))"
    obtain a b c where abc: "r = (a, b, c)" by (cases r)
    have "simple_mon_yr mon yr (DSE y m d) (y, m, d) = Some (Inr (DSE a b c))"
      using abc False by (auto simp: simple_mon_yr_def r_def split: if_splits)
    moreover have "next_of (\<lambda>k. 0 \<le> k \<and> ?P (FromDSE k)) (DSE y m d) (DSE a b c)"
      by (rule next_of_date [OF s]) (use s mon yr len abc False in \<open>auto simp: r_def split: if_splits\<close>)
    ultimately show thesis by (rule that)
  qed
qed

subsection \<open>With a weekday, without a day\<close>

definition wd_ok :: "int \<Rightarrow> bool" where
  "wd_ok wd \<longleftrightarrow> 0 < wd \<and> wd < 128"

lemma wd_after_le: "wd_ok wd \<Longrightarrow> 0 \<le> b \<Longrightarrow> wd_after wd b k \<Longrightarrow> k \<le> b + 6"
  using ADVANCE_TO_WD_spec [of wd b] wd_after_unique unfolding wd_ok_def by metis

lemma ADVANCE_obtain:
  assumes "wd_ok wd" "0 \<le> x"
  obtains j where "ADVANCE_TO_WD x wd = Some j" "wd_after wd x j" "x \<le> j" "j \<le> x + 6"
  using ADVANCE_TO_WD_spec [of wd x] assms that unfolding wd_ok_def wd_after_def by metis

lemma next_of_wd:
  assumes "0 \<le> base" "start \<le> base" and r: "wd_after wd base r" "Q (FromDSE r)"
    and none: "\<And>k. 0 \<le> k \<Longrightarrow> start \<le> k \<Longrightarrow> k < base \<Longrightarrow> Q (FromDSE k) \<Longrightarrow> in_week wd k \<Longrightarrow> False"
  shows "next_of (\<lambda>k. 0 \<le> k \<and> Q (FromDSE k) \<and> in_week wd k) start r"
proof (rule next_ofI)
  show "r \<noteq> -1" "start \<le> r" "0 \<le> r \<and> Q (FromDSE r) \<and> in_week wd r"
    using assms by (auto simp: wd_after_def)
  fix k assume k: "start \<le> k" "k < r" "0 \<le> k \<and> Q (FromDSE k) \<and> in_week wd k"
  then have "k < base" using r(1) by (auto simp: wd_after_def not_less [symmetric])
  then show False using none k by blast
qed

lemma FromDSE_add:
  "is_date (y, m, d) \<Longrightarrow> 0 \<le> i \<Longrightarrow> d + i \<le> month_length y m \<Longrightarrow> FromDSE (DSE y m d + i) = (y, m, d + i)"
  by (simp add: DSE_add FromDSE_DSE)

lemma month_first_week:
  assumes "1990 \<le> y" "0 \<le> m" "m \<le> 11" "DSE y m 1 \<le> j" "j \<le> DSE y m 1 + 6"
  shows "FromDSE j = (y, m, 1 + (j - DSE y m 1))"
  using FromDSE_add [of y m 1 "j - DSE y m 1"] assms month_length_bounds(1) [of y m] by simp

lemma simple_wd_spec:
  assumes wd: "wd_ok wd" and s: "0 \<le> start"
  obtains r where "simple_wd wd start = Some (Inr r)"
    "next_of (\<lambda>k. 0 \<le> k \<and> in_week wd k) start r"
proof -
  obtain j where j: "ADVANCE_TO_WD start wd = Some j" "wd_after wd start j"
    by (rule ADVANCE_obtain [OF wd s])
  have "next_of (\<lambda>k. 0 \<le> k \<and> True \<and> in_week wd k) start j"
    by (rule next_of_wd [OF s _ j(2)]) auto
  then show thesis using j by (intro that [of j]) (simp_all add: simple_wd_def)
qed

lemma simple_wd_yr_spec:
  assumes wd: "wd_ok wd" and s: "is_date (y, m, d)" and yr: "1990 \<le> yr"
  obtains r where "simple_wd_yr wd yr (DSE y m d) (y, m, d) = Some (Inr r)"
    "next_of (\<lambda>k. 0 \<le> k \<and> (case FromDSE k of (a, b, c) \<Rightarrow> a = yr) \<and> in_week wd k) (DSE y m d) r"
proof -
  let ?Q = "\<lambda>(a, b, c). a = yr"
  consider "y > yr" | "y < yr" | "y = yr" by linarith
  then show thesis
  proof cases
    case 1
    have "next_of (\<lambda>k. 0 \<le> k \<and> ?Q (FromDSE k)) (DSE y m d) (-1)"
      by (rule next_of_none_date [OF s]) (use 1 in auto)
    then have "next_of (\<lambda>k. 0 \<le> k \<and> ?Q (FromDSE k) \<and> in_week wd k) (DSE y m d) (-1)"
      by (auto simp: next_of_def)
    then show thesis by (rule that [rotated]) (use 1 in \<open>simp add: simple_wd_yr_def\<close>)
  next
    case 2
    have first: "is_date (yr, 0, 1)" using yr by (simp add: month_length_def)
    obtain j where j: "ADVANCE_TO_WD (DSE yr 0 1) wd = Some j" "wd_after wd (DSE yr 0 1) j"
      "DSE yr 0 1 \<le> j" "j \<le> DSE yr 0 1 + 6"
      by (rule ADVANCE_obtain [OF wd DSE_nonneg [OF first]])
    have f: "FromDSE j = (yr, 0, 1 + (j - DSE yr 0 1))"
      using month_first_week [of yr 0 j] j yr by simp
    have "next_of (\<lambda>k. 0 \<le> k \<and> ?Q (FromDSE k) \<and> in_week wd k) (DSE y m d) j"
    proof (rule next_of_wd [OF DSE_nonneg [OF first] _ j(2)])
      show "DSE y m d \<le> DSE yr 0 1" using DSE_le_iff [OF s first] 2 by simp
      show "?Q (FromDSE j)" using f by simp
      fix k assume k: "0 \<le> k" "k < DSE yr 0 1" "?Q (FromDSE k)"
      then obtain a b c where abc: "k = DSE a b c" "is_date (a, b, c)" "FromDSE k = (a, b, c)"
        using day_cases by blast
      then show False using k DSE_less_iff [OF abc(2) first] by auto
    qed
    then show thesis by (rule that [rotated]) (use 2 j f in \<open>simp add: simple_wd_yr_def DSEYear_def\<close>)
  next
    case 3
    obtain j where j: "ADVANCE_TO_WD (DSE y m d) wd = Some j" "wd_after wd (DSE y m d) j"
      "DSE y m d \<le> j" "j \<le> DSE y m d + 6"
      by (rule ADVANCE_obtain [OF wd DSE_nonneg [OF s]])
    then have "0 \<le> j" using DSE_nonneg [OF s] by simp
    then obtain a b c where abc: "j = DSE a b c" "is_date (a, b, c)" "FromDSE j = (a, b, c)"
      using day_cases by blast
    have "y \<le> a" using j(3) DSE_le_iff [OF s abc(2)] abc by auto
    show thesis
    proof (cases "a = yr")
      case True
      have "next_of (\<lambda>k. 0 \<le> k \<and> ?Q (FromDSE k) \<and> in_week wd k) (DSE y m d) j"
        by (rule next_of_wd [OF DSE_nonneg [OF s] _ j(2)]) (use abc True in auto)
      then show thesis
        by (rule that [rotated]) (use 3 j True abc(3) in \<open>simp add: simple_wd_yr_def DSEYear_def\<close>)
    next
      case False
      then have "yr < a" using \<open>y \<le> a\<close> 3 by simp
      have "next_of (\<lambda>k. 0 \<le> k \<and> ?Q (FromDSE k) \<and> in_week wd k) (DSE y m d) (-1)"
      proof (rule next_of_noneI)
        fix k assume k: "DSE y m d \<le> k" "0 \<le> k \<and> ?Q (FromDSE k) \<and> in_week wd k"
        obtain a' b' c' where abc': "k = DSE a' b' c'" "is_date (a', b', c')" "FromDSE k = (a', b', c')"
          using day_cases k(2) by blast
        have "k < j" using DSE_less_iff [OF abc'(2) abc(2)] abc abc' k \<open>yr < a\<close> by simp
        then show False using j(2) k by (simp add: wd_after_def)
      qed
      then show thesis
        by (rule that [rotated]) (use 3 j abc(3) \<open>yr < a\<close> in \<open>simp add: simple_wd_yr_def DSEYear_def\<close>)
    qed
  qed
qed

lemma simple_wd_mon_spec:
  assumes wd: "wd_ok wd" and s: "is_date (y, m, d)" and mon: "0 \<le> mon" "mon \<le> 11"
  obtains r where "simple_wd_mon wd mon (DSE y m d) (y, m, d) = Some (Inr r)"
    "next_of (\<lambda>k. 0 \<le> k \<and> (case FromDSE k of (a, b, c) \<Rightarrow> b = mon) \<and> in_week wd k) (DSE y m d) r"
proof -
  let ?Q = "\<lambda>(a, b, c). b = mon"
  define y1 where "y1 = (if m \<ge> mon then y + 1 else y)"
  have first: "is_date (y1, mon, 1)" using s mon month_length_bounds(1) [of y1 mon] by (simp add: y1_def)
  obtain l where l: "ADVANCE_TO_WD (DSE y1 mon 1) wd = Some l" "wd_after wd (DSE y1 mon 1) l"
    "DSE y1 mon 1 \<le> l" "l \<le> DSE y1 mon 1 + 6"
    by (rule ADVANCE_obtain [OF wd DSE_nonneg [OF first]])
  have f: "FromDSE l = (y1, mon, 1 + (l - DSE y1 mon 1))"
    using month_first_week [of y1 mon l] l first mon by simp
  have later: "next_of (\<lambda>k. 0 \<le> k \<and> ?Q (FromDSE k) \<and> in_week wd k) (DSE y m d) l"
    if none: "\<And>a b c. is_date (a, b, c) \<Longrightarrow> DSE y m d \<le> DSE a b c \<Longrightarrow> a = y \<Longrightarrow> b = mon \<Longrightarrow> m = mon \<Longrightarrow>
        in_week wd (DSE a b c) \<Longrightarrow> False"
  proof (rule next_of_wd [OF DSE_nonneg [OF first] _ l(2)])
    show "DSE y m d \<le> DSE y1 mon 1" using DSE_le_iff [OF s first] by (auto simp: y1_def)
    show "?Q (FromDSE l)" using f by simp
    fix k assume k: "0 \<le> k" "DSE y m d \<le> k" "k < DSE y1 mon 1" "?Q (FromDSE k)" "in_week wd k"
    then obtain a b c where abc: "k = DSE a b c" "is_date (a, b, c)" "FromDSE k = (a, b, c)"
      using day_cases by blast
    then have "b = mon" "a < y1" "y < a \<or> y = a \<and> m \<le> mon"
      using k DSE_less_iff [OF abc(2) first] DSE_le_iff [OF s abc(2)] by auto
    then have "a = y \<and> m = mon" by (auto simp: y1_def split: if_splits)
    then show False using none [OF abc(2)] k abc \<open>b = mon\<close> by simp
  qed
  show thesis
  proof (cases "m = mon")
    case False
    then have "simple_wd_mon wd mon (DSE y m d) (y, m, d) = Some (Inr l)"
      using l(1) by (auto simp: simple_wd_mon_def y1_def Let_def)
    then show thesis using that later False by blast
  next
    case True
    obtain j where j: "ADVANCE_TO_WD (DSE y m d) wd = Some j" "wd_after wd (DSE y m d) j"
      "DSE y m d \<le> j" "j \<le> DSE y m d + 6"
      by (rule ADVANCE_obtain [OF wd DSE_nonneg [OF s]])
    then have "0 \<le> j" using DSE_nonneg [OF s] by simp
    then obtain a b c where abc: "j = DSE a b c" "is_date (a, b, c)" "FromDSE j = (a, b, c)"
      using day_cases by blast
    show thesis
    proof (cases "b = mon")
      case b: True
      have "next_of (\<lambda>k. 0 \<le> k \<and> ?Q (FromDSE k) \<and> in_week wd k) (DSE y m d) j"
        by (rule next_of_wd [OF DSE_nonneg [OF s] _ j(2)]) (use abc b in auto)
      then show thesis using True j b abc(3)
        by (intro that [of j]) (simp_all add: simple_wd_mon_def DSEMonth_def)
    next
      case b: False
      have eq: "simple_wd_mon wd mon (DSE y m d) (y, m, d) = Some (Inr l)"
        using True b j(1) abc(3) l(1) by (simp add: simple_wd_mon_def y1_def DSEMonth_def Let_def)
      have "next_of (\<lambda>k. 0 \<le> k \<and> ?Q (FromDSE k) \<and> in_week wd k) (DSE y m d) l"
      proof (rule later)
        fix a' b' c' assume *: "is_date (a', b', c')" "DSE y m d \<le> DSE a' b' c'" "a' = y" "b' = mon"
          "in_week wd (DSE a' b' c')"
        have "DSE a' b' c' < j"
          using DSE_less_iff [OF *(1) abc(2)] DSE_le_iff [OF s abc(2)] abc(1) j(3) * True b by auto
        then show False using * j(2) by (simp add: wd_after_def)
      qed
      then show thesis by (rule that [OF eq])
    qed
  qed
qed

lemma next_year_far:
  assumes "is_date (y, m, d)" "is_date (y', m, d')" "y < y'"
  shows "DSE y m d + 300 < DSE y' m d'"
proof -
  have "year_start (y + 1) \<le> year_start y'" using assms by (intro year_start_mono) simp
  moreover have "month_start y m \<le> month_start y' m + 1"
    using assms by (auto simp: month_start_def MonthIndex_def IsLeapYear_leap elim!: month_cases [of m])
  ultimately show ?thesis
    using assms month_length_bounds(2) [of y m]
    by (cases "leap y") (simp_all add: DSE_start year_start_Suc DaysInYear_leap)
qed

lemma simple_wd_mon_yr_spec:
  assumes wd: "wd_ok wd" and s: "is_date (y, m, d)" and mon: "0 \<le> mon" "mon \<le> 11" and yr: "1990 \<le> yr"
  obtains r where "simple_wd_mon_yr wd mon yr (DSE y m d) (y, m, d) = Some (Inr r)"
    "next_of (\<lambda>k. 0 \<le> k \<and> (case FromDSE k of (a, b, c) \<Rightarrow> b = mon \<and> a = yr) \<and> in_week wd k) (DSE y m d) r"
proof -
  let ?Q = "\<lambda>(a, b, c). b = mon \<and> a = yr"
  have first: "is_date (yr, mon, 1)" using yr mon month_length_bounds(1) [of yr mon] by simp
  consider (past) "y > yr \<or> y = yr \<and> m > mon" | (early) "yr > y \<or> yr = y \<and> mon > m"
    | (same) "y = yr" "m = mon" by linarith
  then show thesis
  proof cases
    case past
    have "next_of (\<lambda>k. 0 \<le> k \<and> ?Q (FromDSE k)) (DSE y m d) (-1)"
      by (rule next_of_none_date [OF s]) (use past in auto)
    then have "next_of (\<lambda>k. 0 \<le> k \<and> ?Q (FromDSE k) \<and> in_week wd k) (DSE y m d) (-1)"
      by (auto simp: next_of_def)
    then show thesis using past by (intro that [of "-1"]) (auto simp: simple_wd_mon_yr_def)
  next
    case early
    obtain l where l: "ADVANCE_TO_WD (DSE yr mon 1) wd = Some l" "wd_after wd (DSE yr mon 1) l"
      "DSE yr mon 1 \<le> l" "l \<le> DSE yr mon 1 + 6"
      by (rule ADVANCE_obtain [OF wd DSE_nonneg [OF first]])
    have f: "FromDSE l = (yr, mon, 1 + (l - DSE yr mon 1))"
      using month_first_week [of yr mon l] l first mon by simp
    have "next_of (\<lambda>k. 0 \<le> k \<and> ?Q (FromDSE k) \<and> in_week wd k) (DSE y m d) l"
    proof (rule next_of_wd [OF DSE_nonneg [OF first] _ l(2)])
      show "DSE y m d \<le> DSE yr mon 1" using DSE_le_iff [OF s first] early by auto
      show "?Q (FromDSE l)" using f by simp
      fix k assume k: "0 \<le> k" "k < DSE yr mon 1" "?Q (FromDSE k)"
      then obtain a b c where abc: "k = DSE a b c" "is_date (a, b, c)" "FromDSE k = (a, b, c)"
        using day_cases by blast
      then show False using k DSE_less_iff [OF abc(2) first] by auto
    qed
    then show thesis using early l by (intro that [of l]) (auto simp: simple_wd_mon_yr_def)
  next
    case same
    obtain j where j: "ADVANCE_TO_WD (DSE y m d) wd = Some j" "wd_after wd (DSE y m d) j"
      "DSE y m d \<le> j" "j \<le> DSE y m d + 6"
      by (rule ADVANCE_obtain [OF wd DSE_nonneg [OF s]])
    then have "0 \<le> j" using DSE_nonneg [OF s] by simp
    then obtain a b c where abc: "j = DSE a b c" "is_date (a, b, c)" "FromDSE j = (a, b, c)"
      using day_cases by blast
    have near: "DSE a b c \<le> DSE y m d + 6" using j abc by simp
    have eq: "simple_wd_mon_yr wd mon yr (DSE y m d) (y, m, d) = Some (Inr (if b = mon then j else -1))"
      using same j abc(3) by (simp add: simple_wd_mon_yr_def)
    show thesis
    proof (cases "b = mon")
      case True
      have "a = yr"
        using next_year_far [of y m d a c] s near j(3) abc(1,2) DSE_le_iff [OF s abc(2)] True same by auto
      have "next_of (\<lambda>k. 0 \<le> k \<and> ?Q (FromDSE k) \<and> in_week wd k) (DSE y m d) j"
        by (rule next_of_wd [OF DSE_nonneg [OF s] _ j(2)]) (use abc \<open>a = yr\<close> True in auto)
      then show thesis using eq True by (intro that [of j]) simp_all
    next
      case False
      have "next_of (\<lambda>k. 0 \<le> k \<and> ?Q (FromDSE k) \<and> in_week wd k) (DSE y m d) (-1)"
      proof (rule next_of_noneI)
        fix k assume k: "DSE y m d \<le> k" "0 \<le> k \<and> ?Q (FromDSE k) \<and> in_week wd k"
        obtain a' b' c' where abc': "k = DSE a' b' c'" "is_date (a', b', c')" "FromDSE k = (a', b', c')"
          using day_cases k(2) by blast
        have "k < j"
          using DSE_less_iff [OF abc'(2) abc(2)] DSE_le_iff [OF s abc(2)] abc abc' j(3) k False same by auto
        then show False using j(2) k by (simp add: wd_after_def)
      qed
      then show thesis using eq False by (intro that [of "-1"]) simp_all
    qed
  qed
qed

subsection \<open>With a weekday and a day\<close>

text \<open>
  The first weekday on or after a date of the set \<open>B\<close>, among the days that \<open>R\<close> allows.  A
  try at one date of \<open>B\<close> settles the matter when all earlier ones come too early.
\<close>

declare split_paired_All [simp del] split_paired_Ex [simp del]

definition wd_base :: "(int \<times> int \<times> int \<Rightarrow> bool) \<Rightarrow> (int \<Rightarrow> bool) \<Rightarrow> int \<Rightarrow> int \<Rightarrow> bool" where
  "wd_base B R wd k \<longleftrightarrow> 0 \<le> k \<and> R k \<and> (\<exists>x. is_date x \<and> B x \<and> wd_after wd (DSE_of x) k)"

definition all_early :: "(int \<times> int \<times> int \<Rightarrow> bool) \<Rightarrow> int \<Rightarrow> int \<Rightarrow> bool" where
  "all_early B wd start \<longleftrightarrow> (\<forall>x k. is_date x \<and> B x \<and> wd_after wd (DSE_of x) k \<longrightarrow> k < start)"

lemma DSE_of_nonneg: "is_date x \<Longrightarrow> 0 \<le> DSE_of x"
  by (cases x) (use DSE_nonneg in \<open>simp add: DSE_of_def\<close>)

lemma next_of_wd_base:
  assumes x: "is_date x" "B x" and r: "wd_after wd (DSE_of x) r" "R r" "start \<le> r"
    and early: "all_early (\<lambda>z. B z \<and> DSE_of z < DSE_of x) wd start"
  shows "next_of (wd_base B R wd) start r"
proof (rule next_ofI)
  have "0 \<le> r" using r(1) DSE_of_nonneg [OF x(1)] by (simp add: wd_after_def)
  then show "r \<noteq> -1" "start \<le> r" "wd_base B R wd r" using x r by (auto simp: wd_base_def)
  fix k assume k: "start \<le> k" "k < r" "wd_base B R wd k"
  then obtain z where z: "is_date z" "B z" "wd_after wd (DSE_of z) k" by (auto simp: wd_base_def)
  have "\<not> DSE_of x \<le> DSE_of z" using wd_after_mono [OF r(1) z(3)] k(2) by linarith
  then have "DSE_of z < DSE_of x" by simp
  then have "k < start" using early z by (auto simp: all_early_def)
  then show False using k(1) by simp
qed

lemma next_of_wd_base_none:
  "all_early B wd start \<Longrightarrow> next_of (wd_base B R wd) start (-1)"
  by (rule next_of_noneI) (force simp: wd_base_def all_early_def)

lemma next_of_wd_base_past:
  assumes x: "is_date x" "B x" and r: "wd_after wd (DSE_of x) r"
    and late: "\<And>k. r \<le> k \<Longrightarrow> \<not> R k"
    and early: "all_early (\<lambda>z. B z \<and> DSE_of z < DSE_of x) wd start"
  shows "next_of (wd_base B R wd) start (-1)"
proof (rule next_of_noneI)
  fix k assume k: "start \<le> k" "wd_base B R wd k"
  then obtain z where z: "is_date z" "B z" "wd_after wd (DSE_of z) k" "R k" by (auto simp: wd_base_def)
  have "\<not> DSE_of x \<le> DSE_of z" using wd_after_mono [OF r z(3)] late z(4) by blast
  then have "DSE_of z < DSE_of x" by simp
  then have "k < start" using early z by (auto simp: all_early_def)
  then show False using k(1) by simp
qed

text \<open>A base whose weekday came too early, and everything before it.\<close>

lemma all_early_step:
  assumes r: "wd_after wd (DSE_of x) r" "r < start"
  shows "all_early (\<lambda>z. B z \<and> DSE_of z \<le> DSE_of x) wd start"
  using r wd_after_mono unfolding all_early_def by (meson le_less_trans)

lemma all_early_mono: "all_early B wd start \<Longrightarrow> (\<And>z. is_date z \<Longrightarrow> C z \<Longrightarrow> B z) \<Longrightarrow> all_early C wd start"
  unfolding all_early_def by blast

text \<open>Dates before the first day of the month before the start date's, or of the year before.\<close>

lemma all_early_before:
  assumes wd: "wd_ok wd" and b: "b + 6 \<le> start" and B: "\<And>z. is_date z \<Longrightarrow> B z \<Longrightarrow> DSE_of z < b"
  shows "all_early B wd start"
  unfolding all_early_def
proof (intro allI impI)
  fix z k assume z: "is_date z \<and> B z \<and> wd_after wd (DSE_of z) k"
  then have "k \<le> DSE_of z + 6" using wd_after_le [OF wd DSE_of_nonneg] by blast
  moreover have "DSE_of z < b" using B z by blast
  ultimately show "k < start" using b by simp
qed

lemma month_gap:
  assumes "is_date (a, b, 1)" "is_date (y, m, d)" "a < y \<or> a = y \<and> b < m"
  shows "DSE a b 1 + 28 \<le> DSE y m d"
proof -
  have last: "is_date (a, b, 28)" using assms month_length_bounds(1) [of a b] by simp
  then have "DSE a b 28 < DSE y m d" using DSE_less_iff [OF last assms(2)] assms(3) by auto
  moreover have "DSE a b 28 = DSE a b 1 + 27" using assms by (simp add: DSE_add)
  ultimately show ?thesis by simp
qed

lemma DSE_of_less:
  "is_date (a, b, c) \<Longrightarrow> is_date (y, m, d) \<Longrightarrow>
   DSE_of (a, b, c) < DSE_of (y, m, d) \<longleftrightarrow> a < y \<or> a = y \<and> (b < m \<or> b = m \<and> c < d)"
  by (simp add: DSE_of_def DSE_less_iff del: is_date.simps)

lemma DSE_of_le:
  "is_date (a, b, c) \<Longrightarrow> is_date (y, m, d) \<Longrightarrow>
   DSE_of (a, b, c) \<le> DSE_of (y, m, d) \<longleftrightarrow> a < y \<or> a = y \<and> (b < m \<or> b = m \<and> c \<le> d)"
  by (simp add: DSE_of_def DSE_le_iff del: is_date.simps)

text \<open>The months strictly before a month, as a set of dates.\<close>

definition before_month :: "int \<Rightarrow> int \<Rightarrow> int \<times> int \<times> int \<Rightarrow> bool" where
  "before_month y m z \<longleftrightarrow> (case z of (a, b, c) \<Rightarrow> a < y \<or> a = y \<and> b < m)"

lemma all_early_two_months:
  assumes wd: "wd_ok wd" and s: "is_date (y, m, d)" and p: "is_date (y2, m2, 1)"
    and lt: "y2 < y \<or> y2 = y \<and> m2 < m"
  shows "all_early (\<lambda>z. B z \<and> before_month y2 m2 z) wd (DSE y m d)"
proof (rule all_early_before [OF wd, of "DSE y2 m2 1"])
  show "DSE y2 m2 1 + 6 \<le> DSE y m d" using month_gap [OF p s lt] by simp
  fix z assume z: "is_date z" "B z \<and> before_month y2 m2 z"
  obtain a b c where abc: "z = (a, b, c)" by (cases z)
  show "DSE_of z < DSE y2 m2 1"
    using DSE_of_less [of a b c y2 m2 1] z p abc by (auto simp: before_month_def DSE_of_def)
qed

text \<open>
  One try at a numbered day of a month: with everything before the month too early, either
  the try is the answer, or everything up to the end of the month is too early.
\<close>

definition this_or_before :: "int \<Rightarrow> int \<Rightarrow> int \<times> int \<times> int \<Rightarrow> bool" where
  "this_or_before y m z \<longleftrightarrow> (case z of (a, b, c) \<Rightarrow> a < y \<or> a = y \<and> b \<le> m)"

lemma try_month:
  assumes wd: "wd_ok wd" and x: "is_date (y, m, day)"
    and B: "\<And>a b c. B (a, b, c) \<Longrightarrow> c = day" and Bx: "B (y, m, day)"
    and early: "all_early (\<lambda>z. B z \<and> before_month y m z) wd start"
  obtains j where "ADVANCE_TO_WD (DSE y m day) wd = Some j" "wd_after wd (DSE y m day) j"
    "j \<le> DSE y m day + 6"
    "start \<le> j \<and> R j \<longrightarrow> next_of (wd_base B R wd) start j"
    "(\<forall>k\<ge>j. \<not> R k) \<longrightarrow> next_of (wd_base B R wd) start (-1)"
    "j < start \<longrightarrow> all_early (\<lambda>z. B z \<and> this_or_before y m z) wd start"
proof -
  obtain j where j: "ADVANCE_TO_WD (DSE y m day) wd = Some j" "wd_after wd (DSE y m day) j"
    "DSE y m day \<le> j" "j \<le> DSE y m day + 6"
    by (rule ADVANCE_obtain [OF wd DSE_nonneg [OF x]])
  have j': "wd_after wd (DSE_of (y, m, day)) j" using j(2) by (simp add: DSE_of_def)
  have early': "all_early (\<lambda>z. B z \<and> DSE_of z < DSE_of (y, m, day)) wd start"
  proof (rule all_early_mono [OF early])
    fix z assume z: "is_date z" "B z \<and> DSE_of z < DSE_of (y, m, day)"
    obtain a b c where abc: "z = (a, b, c)" by (cases z)
    then have "c = day" using B z by blast
    then show "B z \<and> before_month y m z"
      using z abc DSE_of_less [of a b c y m day] x by (auto simp: before_month_def)
  qed
  have step: "all_early (\<lambda>z. B z \<and> this_or_before y m z) wd start" if "j < start"
  proof (rule all_early_mono [OF all_early_step [OF j' that, of B]])
    fix z assume z: "is_date z" "B z \<and> this_or_before y m z"
    obtain a b c where abc: "z = (a, b, c)" by (cases z)
    then have "c = day" using B z by blast
    then show "B z \<and> DSE_of z \<le> DSE_of (y, m, day)"
      using z abc DSE_of_le [of a b c y m day] x by (auto simp: this_or_before_def)
  qed
  show thesis
  proof (rule that [OF j(1,2,4)])
    show "start \<le> j \<and> R j \<longrightarrow> next_of (wd_base B R wd) start j"
      using next_of_wd_base [OF x Bx j' _ _ early'] by blast
    show "(\<forall>k\<ge>j. \<not> R k) \<longrightarrow> next_of (wd_base B R wd) start (-1)"
      using next_of_wd_base_past [OF x Bx j' _ early'] by blast
  qed (use step in blast)
qed

text \<open>A month without the day contributes nothing.\<close>

lemma skip_month:
  assumes early: "all_early (\<lambda>z. B z \<and> before_month y m z) wd start"
    and none: "\<And>c. is_date (y, m, c) \<Longrightarrow> B (y, m, c) \<Longrightarrow> False"
  shows "all_early (\<lambda>z. B z \<and> this_or_before y m z) wd start"
proof (rule all_early_mono [OF early])
  fix z assume z: "is_date z" "B z \<and> this_or_before y m z"
  then show "B z \<and> before_month y m z"
    using none by (cases z) (force simp: this_or_before_def before_month_def le_less simp del: is_date.simps)
qed

lemma simple_wd_day_spec:
  assumes wd: "wd_ok wd" and s: "is_date (y, m, d)" and day: "1 \<le> day" "day \<le> 31"
  obtains r where "simple_wd_day wd day (DSE y m d) (y, m, d) = Some (Inr r)"
    "next_of (wd_base (\<lambda>(a, b, c). c = day) (\<lambda>_. True) wd) (DSE y m d) r"
proof -
  let ?B = "\<lambda>(a :: int, b :: int, c). c = day" and ?R = "\<lambda>_ :: int. True" and ?start = "DSE y m d"
  let ?goal = "\<lambda>t. \<exists>r. t = Some (Inr r) \<and> next_of (wd_base ?B ?R wd) ?start r"
  have m: "0 \<le> m" "m \<le> 11" "1990 \<le> y" using s by simp_all
  define m1 y1 where "m1 = (if m = 11 then 0 else m + 1)" and "y1 = (if m = 11 then y + 1 else y)"
  have m1: "0 \<le> m1" "m1 \<le> 11" "1990 \<le> y1" using m by (auto simp: m1_def y1_def)
  define m3 where "m3 = (if day \<le> month_length y1 m1 then m1 else m1 + 1)"
  have m3: "m3 \<le> 11" "day \<le> month_length y1 m3"
    using next_month_31 [OF m1(1,2), of y1 y1] m1 day by (auto simp: m3_def)
  have date3: "is_date (y1, m3, day)" using m1 m3 day by (auto simp: m3_def)
  define next_avail :: trig_result where "next_avail = map_option Inr (ADVANCE_TO_WD (DSE y1 m3 day) wd) "
  have L3: "?goal next_avail" if L2: "all_early (\<lambda>z. ?B z \<and> this_or_before y m z) wd ?start"
  proof -
    have early: "all_early (\<lambda>z. ?B z \<and> before_month y1 m3 z) wd ?start"
    proof (rule all_early_mono [OF L2])
      fix z assume z: "is_date z" "?B z \<and> before_month y1 m3 z"
      obtain a b where abc: "z = (a, b, day)" using z by (cases z) auto
      show "?B z \<and> this_or_before y m z"
      proof (cases "a = y1 \<and> b = m1")
        case True
        then show ?thesis using z abc by (auto simp: before_month_def m3_def split: if_splits)
      next
        case False
        then show ?thesis
          using z abc m by (auto simp: before_month_def this_or_before_def m3_def m1_def y1_def split: if_splits)
      qed
    qed
    obtain j where j: "ADVANCE_TO_WD (DSE y1 m3 day) wd = Some j" "wd_after wd (DSE y1 m3 day) j"
      "j \<le> DSE y1 m3 day + 6"
      "?start \<le> j \<and> ?R j \<longrightarrow> next_of (wd_base ?B ?R wd) ?start j"
      "(\<forall>k\<ge>j. \<not> ?R k) \<longrightarrow> next_of (wd_base ?B ?R wd) ?start (-1)"
      "j < ?start \<longrightarrow> all_early (\<lambda>z. ?B z \<and> this_or_before y1 m3 z) wd ?start"
      by (rule try_month [OF wd date3 _ _ early, where R = ?R]) (simp, simp, rule that)
    have "?start \<le> DSE y1 m3 day"
      using DSE_le_iff [OF s date3] by (auto simp: y1_def m1_def m3_def)
    then have "?start \<le> j" using j(2) by (simp add: wd_after_def)
    then show ?thesis using j(1,4) by (simp add: next_avail_def)
  qed
  define this_month :: trig_result where "this_month = (if day \<le> month_length y m
    then try_day (DSE y m day) wd ?start next_avail else next_avail)"
  have L2: "?goal this_month" if L1: "all_early (\<lambda>z. ?B z \<and> before_month y m z) wd ?start"
  proof (cases "day \<le> month_length y m")
    case True
    then have date: "is_date (y, m, day)" using s day by simp
    obtain j where j: "ADVANCE_TO_WD (DSE y m day) wd = Some j" "wd_after wd (DSE y m day) j"
      "j \<le> DSE y m day + 6"
      "?start \<le> j \<and> ?R j \<longrightarrow> next_of (wd_base ?B ?R wd) ?start j"
      "(\<forall>k\<ge>j. \<not> ?R k) \<longrightarrow> next_of (wd_base ?B ?R wd) ?start (-1)"
      "j < ?start \<longrightarrow> all_early (\<lambda>z. ?B z \<and> this_or_before y m z) wd ?start"
      by (rule try_month [OF wd date _ _ L1, where R = ?R]) (simp, simp, rule that)
    then show ?thesis using L3 True by (auto simp: this_month_def try_day_def)
  next
    case False
    then show ?thesis using L3 skip_month [OF L1] by (auto simp: this_month_def)
  qed
  have "?goal (simple_wd_day wd day ?start (y, m, d))"
  proof (cases "m = 0 \<and> y = 1990")
    case True
    have none: "False" if "is_date z" "before_month y m z" for z
      using that True by (cases z) (auto simp: before_month_def)
    have "all_early (\<lambda>z. ?B z \<and> before_month y m z) wd ?start"
      unfolding all_early_def using none by blast
    moreover have "simple_wd_day wd day ?start (y, m, d) = this_month"
      using True m day month_up_spec [OF m1(1,2) day(2), of y1]
      by (auto simp: simple_wd_day_def this_month_def next_avail_def BASE_def DaysInMonth_length
          m1_def y1_def m3_def Let_def)
    ultimately show ?thesis using L2 by simp
  next
    case not_first: False
    define m2 y2 where "m2 = (if m = 0 then 11 else m - 1)" and "y2 = (if m = 0 then y - 1 else y)"
    have m2: "0 \<le> m2" "m2 \<le> 11" "1990 \<le> y2" using m not_first by (auto simp: m2_def y2_def)
    have lt: "y2 < y \<or> y2 = y \<and> m2 < m" by (auto simp: m2_def y2_def)
    have first: "is_date (y2, m2, 1)" using m2 month_length_bounds(1) [of y2 m2] by simp
    note L0 = all_early_two_months [OF wd s first lt, of ?B]
    have eq: "simple_wd_day wd day ?start (y, m, d) =
        (if day \<le> month_length y2 m2 then try_day (DSE y2 m2 day) wd ?start this_month else this_month)"
      using not_first m m2 day month_up_spec [OF m1(1,2) day(2), of y1]
      by (auto simp: simple_wd_day_def this_month_def next_avail_def BASE_def DaysInMonth_length
          m1_def y1_def m3_def m2_def y2_def Let_def)
    have prev: "all_early (\<lambda>z. ?B z \<and> before_month y m z) wd ?start"
      if "all_early (\<lambda>z. ?B z \<and> this_or_before y2 m2 z) wd ?start"
      by (rule all_early_mono [OF that])
        (auto simp: before_month_def this_or_before_def m2_def y2_def split: if_splits)
    show ?thesis
    proof (cases "day \<le> month_length y2 m2")
      case True
      then have date: "is_date (y2, m2, day)" using m2 day by simp
      obtain j where j: "ADVANCE_TO_WD (DSE y2 m2 day) wd = Some j" "wd_after wd (DSE y2 m2 day) j"
        "j \<le> DSE y2 m2 day + 6"
        "?start \<le> j \<and> ?R j \<longrightarrow> next_of (wd_base ?B ?R wd) ?start j"
        "(\<forall>k\<ge>j. \<not> ?R k) \<longrightarrow> next_of (wd_base ?B ?R wd) ?start (-1)"
        "j < ?start \<longrightarrow> all_early (\<lambda>z. ?B z \<and> this_or_before y2 m2 z) wd ?start"
        by (rule try_month [OF wd date _ _ L0, where R = ?R]) (simp, simp, rule that)
      then show ?thesis using L2 prev True by (auto simp: eq try_day_def)
    next
      case False
      then show ?thesis using L2 prev skip_month [OF L0] by (auto simp: eq)
    qed
  qed
  then show thesis using that by blast
qed

text \<open>
  With a year too, the matches are those within the year.  The start date lies in the year
  or before it; day 29 is left out, for the last loop of that case reads the day as a year.
\<close>

lemma DSEYear_DSE: "is_date (y, m, d) \<Longrightarrow> DSEYear (DSE y m d) = y"
  by (simp add: DSEYear_def FromDSE_DSE del: is_date.simps)

lemma DSEYear_mono:
  assumes "0 \<le> j" "j \<le> k"
  shows "DSEYear j \<le> DSEYear k"
proof -
  obtain a b c where j: "j = DSE a b c" "is_date (a, b, c)" "FromDSE j = (a, b, c)"
    using day_cases [OF assms(1)] by blast
  have "0 \<le> k" using assms by simp
  then obtain a' b' c' where k: "k = DSE a' b' c'" "is_date (a', b', c')" "FromDSE k = (a', b', c')"
    using day_cases by blast
  show ?thesis using DSE_le_iff [OF j(2) k(2)] j k assms(2) by (auto simp: DSEYear_def)
qed

lemma simple_wd_day_yr_before:
  assumes wd: "wd_ok wd" and s: "is_date (y, m, d)" and day: "1 \<le> day" "day \<le> 31"
    and yr: "1990 \<le> yr" and y: "y < yr"
  shows "\<exists>r. simple_wd_day_yr wd day yr (DSE y m d) (y, m, d) = Some (Inr r)
    \<and> next_of (wd_base (\<lambda>(a, b, c). c = day \<and> a = yr) (\<lambda>k. DSEYear k = yr) wd) (DSE y m d) r"
proof -
  let ?B = "\<lambda>(a, b :: int, c). c = day \<and> a = yr" and ?R = "\<lambda>k. DSEYear k = yr" and ?start = "DSE y m d"
  have date: "is_date (yr, 0, day)" using yr day by (simp add: month_length_def)
  have none: "False" if "is_date z" "?B z" "before_month yr 0 z" for z
    using that by (cases z) (auto simp: before_month_def)
  have E0: "all_early (\<lambda>z. ?B z \<and> before_month yr 0 z) wd ?start"
    unfolding all_early_def using none by blast
  obtain j where j: "ADVANCE_TO_WD (DSE yr 0 day) wd = Some j" "wd_after wd (DSE yr 0 day) j"
    "j \<le> DSE yr 0 day + 6"
    "?start \<le> j \<and> ?R j \<longrightarrow> next_of (wd_base ?B ?R wd) ?start j"
    "(\<forall>k\<ge>j. \<not> ?R k) \<longrightarrow> next_of (wd_base ?B ?R wd) ?start (-1)"
    "j < ?start \<longrightarrow> all_early (\<lambda>z. ?B z \<and> this_or_before yr 0 z) wd ?start"
    by (rule try_month [OF wd date _ _ E0, where R = ?R]) (simp, simp, rule that)
  have "DSE yr 0 day \<le> j" using j(2) by (simp add: wd_after_def)
  moreover have "?start \<le> DSE yr 0 day" using DSE_le_iff [OF s date] y by simp
  moreover have "DSEYear j = yr"
  proof -
    have dec31: "is_date (yr, 11, 31)" using yr by (simp add: month_length_def)
    have "DSE yr 0 day + 28 \<le> DSE yr 11 31"
    proof -
      have "DSE yr 0 31 < DSE yr 1 1" using yr by (intro DSE_less_month) (simp_all add: month_length_def)
      moreover have "DSE yr 1 1 + 28 \<le> DSE yr 11 31"
        using month_gap [of yr 1 yr 11 31] dec31 yr by (simp add: month_length_def)
      moreover have "DSE yr 0 day \<le> DSE yr 0 31" using yr day by (simp add: DSE_start)
      ultimately show ?thesis by simp
    qed
    then have "j \<le> DSE yr 11 31" using j(3) by simp
    then have "DSEYear j \<le> yr"
      using DSEYear_mono [of j "DSE yr 11 31"] DSEYear_DSE [OF dec31] DSE_nonneg [OF date]
        \<open>DSE yr 0 day \<le> j\<close> by simp
    moreover have "yr \<le> DSEYear j"
      using DSEYear_mono [OF DSE_nonneg [OF date] \<open>DSE yr 0 day \<le> j\<close>] DSEYear_DSE [OF date] by simp
    ultimately show ?thesis by simp
  qed
  moreover have "simple_wd_day_yr wd day yr ?start (y, m, d) = Some (Inr j)"
    using j(1) y by (simp add: simple_wd_day_yr_def Let_def)
  ultimately show ?thesis using j(4) by auto
qed

lemma simple_wd_day_yr_spec:
  assumes wd: "wd_ok wd" and s: "is_date (y, m, d)" and day: "1 \<le> day" "day \<le> 31" "day \<noteq> 29"
    and yr: "1990 \<le> yr" "y \<le> yr"
  obtains r where "simple_wd_day_yr wd day yr (DSE y m d) (y, m, d) = Some (Inr r)"
    "next_of (wd_base (\<lambda>(a, b, c). c = day \<and> a = yr) (\<lambda>k. DSEYear k = yr) wd) (DSE y m d) r"
proof -
  let ?B = "\<lambda>(a, b :: int, c). c = day \<and> a = yr" and ?R = "\<lambda>k. DSEYear k = yr" and ?start = "DSE y m d"
  let ?goal = "\<lambda>t. \<exists>r. t = Some (Inr r) \<and> next_of (wd_base ?B ?R wd) ?start r"
  have m: "0 \<le> m" "m \<le> 11" "1990 \<le> y" using s by simp_all
  have "?goal (simple_wd_day_yr wd day yr ?start (y, m, d))"
  proof (cases "y = yr")
    case False
    then show ?thesis using simple_wd_day_yr_before [OF wd s day(1,2) yr(1)] yr(2) by force
  next
    case same: True
    have R: "\<forall>k\<ge>j. \<not> ?R k" if "DSEYear j > yr" "0 \<le> j" for j
      using DSEYear_mono [OF that(2)] that(1) by force
    have R': "DSEYear j = yr" if "\<not> DSEYear j > yr" "?start \<le> j" for j
      using DSEYear_mono [OF DSE_nonneg [OF s] that(2)] DSEYear_DSE [OF s] that(1) same by simp
    define next_month :: trig_result where "next_month =
      (if m = 11 then Some (Inr (-1))
       else do {
         m2 \<leftarrow> month_up day (m + 1) day;
         j \<leftarrow> ADVANCE_TO_WD (DSE yr m2 day) wd;
         Some (Inr (if DSEYear j > yr then -1 else j)) })"
    have L3: "?goal next_month" if L2: "all_early (\<lambda>z. ?B z \<and> this_or_before yr m z) wd ?start"
    proof (cases "m = 11")
      case True
      have "all_early ?B wd ?start"
        by (rule all_early_mono [OF L2]) (auto simp: True this_or_before_def)
      then show ?thesis using True next_of_wd_base_none by (auto simp: next_month_def)
    next
      case False
      then have m1: "0 \<le> m + 1" "m + 1 \<le> 11" using m by simp_all
      define m3 where "m3 = (if day \<le> month_length yr (m + 1) then m + 1 else m + 2)"
      have m3: "m3 \<le> 11" "day \<le> month_length yr m3"
        using next_month_31 [OF m1, of yr yr] m1 day by (auto simp: m3_def algebra_simps)
      have up: "month_up day (m + 1) day = Some m3"
        using month_up_spec [OF m1 day(2), of day] day(3)
        by (auto simp: m3_def month_length_def split: if_splits)
      have date3: "is_date (yr, m3, day)" using m m3 day yr by (auto simp: m3_def)
      have early: "all_early (\<lambda>z. ?B z \<and> before_month yr m3 z) wd ?start"
      proof (rule all_early_mono [OF L2])
        fix z assume z: "is_date z" "?B z \<and> before_month yr m3 z"
        obtain b where abc: "z = (yr, b, day)" using z by (cases z) auto
        have "b \<noteq> m + 1" using z abc by (auto simp: before_month_def m3_def split: if_splits)
        then show "?B z \<and> this_or_before yr m z"
          using z abc by (auto simp: before_month_def this_or_before_def m3_def split: if_splits)
      qed
      obtain j where j: "ADVANCE_TO_WD (DSE yr m3 day) wd = Some j" "wd_after wd (DSE yr m3 day) j"
        "j \<le> DSE yr m3 day + 6"
        "?start \<le> j \<and> ?R j \<longrightarrow> next_of (wd_base ?B ?R wd) ?start j"
        "(\<forall>k\<ge>j. \<not> ?R k) \<longrightarrow> next_of (wd_base ?B ?R wd) ?start (-1)"
        "j < ?start \<longrightarrow> all_early (\<lambda>z. ?B z \<and> this_or_before yr m3 z) wd ?start"
        by (rule try_month [OF wd date3 _ _ early, where R = ?R]) (simp, simp, rule that)
      have "?start \<le> DSE yr m3 day" using DSE_le_iff [OF s date3] same by (auto simp: m3_def)
      then have "?start \<le> j" using j(2) by (simp add: wd_after_def)
      then show ?thesis
        using j(1,4,5) False up R [of j] R' [of j] DSE_nonneg [OF s]
        by (auto simp: next_month_def)
    qed
    define this_month :: trig_result where "this_month = (if day \<le> month_length yr m
      then try_in_year (DSE yr m day) wd yr ?start next_month else next_month)"
    have L2: "?goal this_month" if L1: "all_early (\<lambda>z. ?B z \<and> before_month yr m z) wd ?start"
    proof (cases "day \<le> month_length yr m")
      case True
      then have date: "is_date (yr, m, day)" using m yr day by simp
      obtain j where j: "ADVANCE_TO_WD (DSE yr m day) wd = Some j" "wd_after wd (DSE yr m day) j"
        "j \<le> DSE yr m day + 6"
        "?start \<le> j \<and> ?R j \<longrightarrow> next_of (wd_base ?B ?R wd) ?start j"
        "(\<forall>k\<ge>j. \<not> ?R k) \<longrightarrow> next_of (wd_base ?B ?R wd) ?start (-1)"
        "j < ?start \<longrightarrow> all_early (\<lambda>z. ?B z \<and> this_or_before yr m z) wd ?start"
        by (rule try_month [OF wd date _ _ L1, where R = ?R]) (simp, simp, rule that)
      have "0 \<le> j" using j(2) DSE_nonneg [OF date] by (simp add: wd_after_def)
      then show ?thesis using L3 True j R [of j] R' [of j] by (auto simp: this_month_def try_in_year_def)
    next
      case False
      then show ?thesis using L3 skip_month [OF L1] by (auto simp: this_month_def)
    qed
    show ?thesis
    proof (cases "m = 0")
      case True
      have none: "False" if "is_date z" "?B z" "before_month yr m z" for z
        using that True by (cases z) (auto simp: before_month_def)
      have "all_early (\<lambda>z. ?B z \<and> before_month yr m z) wd ?start"
        unfolding all_early_def using none by blast
      moreover have "simple_wd_day_yr wd day yr ?start (y, m, d) = this_month"
        using True same
        by (simp add: simple_wd_day_yr_def this_month_def next_month_def DaysInMonth_length Let_def)
      ultimately show ?thesis using L2 by simp
    next
      case False
      then have m1: "0 \<le> m - 1" "m - 1 \<le> 11" using m by simp_all
      define m2 where "m2 = (if day \<le> month_length yr (m - 1) then m - 1 else m - 2)"
      have m2: "0 \<le> m2" "m2 < m" "day \<le> month_length yr m2"
        using prev_month_31 [OF m1, of yr yr] m1 day by (auto simp: m2_def algebra_simps)
      have down: "month_down day (m - 1) yr = Some m2"
        using month_down_spec [OF m1 day(2), of yr] by (auto simp: m2_def)
      have date: "is_date (yr, m2, day)" using m m2 day yr by auto
      have first: "is_date (yr, m2, 1)" using date day by simp
      have L0: "all_early (\<lambda>z. ?B z \<and> before_month yr m2 z) wd ?start"
        by (rule all_early_two_months [OF wd s first]) (use same m2 in simp)
      obtain j where j: "ADVANCE_TO_WD (DSE yr m2 day) wd = Some j" "wd_after wd (DSE yr m2 day) j"
        "j \<le> DSE yr m2 day + 6"
        "?start \<le> j \<and> ?R j \<longrightarrow> next_of (wd_base ?B ?R wd) ?start j"
        "(\<forall>k\<ge>j. \<not> ?R k) \<longrightarrow> next_of (wd_base ?B ?R wd) ?start (-1)"
        "j < ?start \<longrightarrow> all_early (\<lambda>z. ?B z \<and> this_or_before yr m2 z) wd ?start"
        by (rule try_month [OF wd date _ _ L0, where R = ?R]) (simp, simp, rule that)
      have prev: "all_early (\<lambda>z. ?B z \<and> before_month yr m z) wd ?start" if "j < ?start"
      proof (rule all_early_mono)
        show "all_early (\<lambda>z. ?B z \<and> this_or_before yr m2 z) wd ?start" using j(6) that by simp
        fix z assume z: "is_date z" "?B z \<and> before_month yr m z"
        obtain b where abc: "z = (yr, b, day)" using z by (cases z) auto
        have "b = m - 1 \<longrightarrow> m2 = m - 1" using z abc by (auto simp: m2_def)
        moreover have "b < m" using z abc by (simp add: before_month_def)
        ultimately have "b \<le> m2" by (cases "b = m - 1") (auto simp: m2_def)
        then show "?B z \<and> this_or_before yr m2 z" using abc by (simp add: this_or_before_def)
      qed
      have "0 \<le> j" using j(2) DSE_nonneg [OF date] by (simp add: wd_after_def)
      have eq: "simple_wd_day_yr wd day yr ?start (y, m, d) =
          try_in_year (DSE yr m2 day) wd yr ?start this_month"
        using False m same down
        by (simp add: simple_wd_day_yr_def this_month_def next_month_def DaysInMonth_length Let_def)
      show ?thesis
        using j L2 prev R [OF _ \<open>0 \<le> j\<close>] R' [of j] by (auto simp: eq try_in_year_def)
    qed
  qed
  then show thesis using that by blast
qed

lemma simple_wd_day_mon_spec:
  assumes wd: "wd_ok wd" and s: "is_date (y, m, d)" and mon: "0 \<le> mon" "mon \<le> 11"
    and day: "1 \<le> day" "day \<le> MonthDays ! nat mon"
  obtains r where "simple_wd_day_mon wd day mon (DSE y m d) (y, m, d) = Some (Inr r)"
    "next_of (wd_base (\<lambda>(a, b, c). c = day \<and> b = mon) (\<lambda>_. True) wd) (DSE y m d) r"
proof -
  let ?B = "\<lambda>(a :: int, b, c). c = day \<and> b = mon" and ?R = "\<lambda>_ :: int. True" and ?start = "DSE y m d"
  let ?goal = "\<lambda>t. \<exists>r. t = Some (Inr r) \<and> next_of (wd_base ?B ?R wd) ?start r"
  have y: "1990 \<le> y" using s by simp
  define y0 where "y0 = (if y > 1990 then y - 1 else y)"
  obtain y1 where y1: "year_up day mon y0 = Some y1" "y0 \<le> y1" "day \<le> month_length y1 mon"
    "\<forall>k. y0 \<le> k \<and> k < y1 \<longrightarrow> month_length k mon < day" by (rule year_up_spec [OF mon day(2), of y0])
  obtain y2 where y2: "year_up day mon (y1 + 1) = Some y2" "y1 + 1 \<le> y2" "day \<le> month_length y2 mon"
    "\<forall>k. y1 + 1 \<le> k \<and> k < y2 \<longrightarrow> month_length k mon < day" by (rule year_up_spec [OF mon day(2), of "y1 + 1"])
  obtain y3 where y3: "year_up day mon (y2 + 1) = Some y3" "y2 + 1 \<le> y3" "day \<le> month_length y3 mon"
    "\<forall>k. y2 + 1 \<le> k \<and> k < y3 \<longrightarrow> month_length k mon < day" by (rule year_up_spec [OF mon day(2), of "y2 + 1"])
  have ge: "1990 \<le> y1" "1990 \<le> y2" "1990 \<le> y3" using y y1(2) y2(2) y3(2) by (auto simp: y0_def split: if_splits)
  have d1: "is_date (y1, mon, day)" and d2: "is_date (y2, mon, day)" and d3: "is_date (y3, mon, day)"
    using ge mon day y1(3) y2(3) y3(3) by simp_all
  have E1: "all_early (\<lambda>z. ?B z \<and> before_month y1 mon z) wd ?start"
  proof (cases "y > 1990")
    case True
    have first: "is_date (y - 1, 0, 1)" using True by (simp add: month_length_def)
    show ?thesis
    proof (rule all_early_before [OF wd, of "DSE (y - 1) 0 1"])
      show "DSE (y - 1) 0 1 + 6 \<le> ?start" using month_gap [OF first s] by simp
      fix z assume z: "is_date z" "?B z \<and> before_month y1 mon z"
      obtain a where abc: "z = (a, mon, day)" using z by (cases z) auto
      have "a < y1" "day \<le> month_length a mon" using z abc by (auto simp: before_month_def)
      then have "a < y - 1" using y1(4) True by (auto simp: y0_def not_le [symmetric])
      then show "DSE_of z < DSE (y - 1) 0 1"
        using DSE_of_less [of a mon day "y - 1" 0 1] z(1) first abc by (simp add: DSE_of_def)
    qed
  next
    case False
    then have "y0 = 1990" using y by (simp add: y0_def)
    have none: "False" if "is_date z" "?B z" "before_month y1 mon z" for z
      using that y1(4) \<open>y0 = 1990\<close> by (cases z) (auto simp: before_month_def not_le [symmetric])
    show ?thesis unfolding all_early_def using none by blast
  qed
  have later: "all_early (\<lambda>z. ?B z \<and> before_month b mon z) wd ?start"
    if "all_early (\<lambda>z. ?B z \<and> this_or_before a mon z) wd ?start"
      and "\<forall>k. a + 1 \<le> k \<and> k < b \<longrightarrow> month_length k mon < day" for a b
  proof (rule all_early_mono [OF that(1)])
    fix z assume z: "is_date z" "?B z \<and> before_month b mon z"
    obtain a' where abc: "z = (a', mon, day)" using z by (cases z) auto
    have "a' < b" "day \<le> month_length a' mon" using z abc by (auto simp: before_month_def)
    then have "\<not> a + 1 \<le> a'" using that(2) by (auto simp: not_le [symmetric])
    then show "?B z \<and> this_or_before a mon z" using abc by (auto simp: this_or_before_def)
  qed
  obtain j1 where j1: "ADVANCE_TO_WD (DSE y1 mon day) wd = Some j1" "wd_after wd (DSE y1 mon day) j1"
    "j1 \<le> DSE y1 mon day + 6"
    "?start \<le> j1 \<and> ?R j1 \<longrightarrow> next_of (wd_base ?B ?R wd) ?start j1"
    "(\<forall>k\<ge>j1. \<not> ?R k) \<longrightarrow> next_of (wd_base ?B ?R wd) ?start (-1)"
    "j1 < ?start \<longrightarrow> all_early (\<lambda>z. ?B z \<and> this_or_before y1 mon z) wd ?start"
    by (rule try_month [OF wd d1 _ _ E1, where R = ?R]) (simp, simp, rule that)
  show thesis
  proof (cases "?start \<le> j1")
    case True
    then show thesis
      using day y1(1) j1 that [of j1]
      by (simp add: simple_wd_day_mon_def try_day_def y0_def BASE_def)
  next
    case not1: False
    then have E2: "all_early (\<lambda>z. ?B z \<and> before_month y2 mon z) wd ?start"
      using later j1(6) y2(4) by simp
    obtain j2 where j2: "ADVANCE_TO_WD (DSE y2 mon day) wd = Some j2" "wd_after wd (DSE y2 mon day) j2"
      "j2 \<le> DSE y2 mon day + 6"
      "?start \<le> j2 \<and> ?R j2 \<longrightarrow> next_of (wd_base ?B ?R wd) ?start j2"
      "(\<forall>k\<ge>j2. \<not> ?R k) \<longrightarrow> next_of (wd_base ?B ?R wd) ?start (-1)"
      "j2 < ?start \<longrightarrow> all_early (\<lambda>z. ?B z \<and> this_or_before y2 mon z) wd ?start"
      by (rule try_month [OF wd d2 _ _ E2, where R = ?R]) (simp, simp, rule that)
    show thesis
    proof (cases "?start \<le> j2")
      case True
      then show thesis
        using day y1(1) y2(1) j1(1) not1 j2 that [of j2]
        by (simp add: simple_wd_day_mon_def try_day_def y0_def BASE_def)
    next
      case not2: False
      then have E3: "all_early (\<lambda>z. ?B z \<and> before_month y3 mon z) wd ?start"
        using later j2(6) y3(4) by simp
      obtain j3 where j3: "ADVANCE_TO_WD (DSE y3 mon day) wd = Some j3" "wd_after wd (DSE y3 mon day) j3"
        "j3 \<le> DSE y3 mon day + 6"
        "?start \<le> j3 \<and> ?R j3 \<longrightarrow> next_of (wd_base ?B ?R wd) ?start j3"
        "(\<forall>k\<ge>j3. \<not> ?R k) \<longrightarrow> next_of (wd_base ?B ?R wd) ?start (-1)"
        "j3 < ?start \<longrightarrow> all_early (\<lambda>z. ?B z \<and> this_or_before y3 mon z) wd ?start"
        by (rule try_month [OF wd d3 _ _ E3, where R = ?R]) (simp, simp, rule that)
      have "y < y3" using y1(2) y2(2) y3(2) by (auto simp: y0_def split: if_splits)
      then have "?start \<le> j3" using DSE_le_iff [OF s d3] j3(2) by (auto simp: wd_after_def)
      then show thesis
        using day y1(1) y2(1) y3(1) j1(1) not1 j2(1) not2 j3 that [of j3]
        by (simp add: simple_wd_day_mon_def try_day_def y0_def BASE_def)
    qed
  qed
qed

subsection \<open>All cases together\<close>

text \<open>
  A full date is answered wherever it lies, and a day and weekday of a year only from a
  start in or before that year; every other trigger is answered with its next match.
\<close>

definition full_date :: "Trigger \<Rightarrow> bool" where
  "full_date trig \<longleftrightarrow> trg_d trig \<noteq> NO_DAY \<and> trg_m trig \<noteq> NO_MON \<and> trg_y trig \<noteq> NO_YR"

definition wd_day_of_year :: "Trigger \<Rightarrow> bool" where
  "wd_day_of_year trig \<longleftrightarrow>
    trg_wd trig \<noteq> NO_WD \<and> trg_d trig \<noteq> NO_DAY \<and> trg_m trig = NO_MON \<and> trg_y trig \<noteq> NO_YR"

definition day_in_month :: "Trigger \<Rightarrow> bool" where
  "day_in_month trig \<longleftrightarrow>
    (trg_d trig \<noteq> NO_DAY \<and> trg_m trig \<noteq> NO_MON \<longrightarrow> trg_d trig \<le> MonthDays ! nat (trg_m trig))"

lemma trig_match_plain:
  "trg_wd trig = NO_WD \<Longrightarrow> trig_match trig = (\<lambda>k. 0 \<le> k \<and> dmy_match trig (FromDSE k))"
  by (simp add: fun_eq_iff trig_match_def)

lemma trig_match_wd:
  "trg_wd trig \<noteq> NO_WD \<Longrightarrow> trg_d trig = NO_DAY \<Longrightarrow>
   trig_match trig = (\<lambda>k. 0 \<le> k \<and> dmy_match trig (FromDSE k) \<and> in_week (trg_wd trig) k)"
  by (simp add: fun_eq_iff trig_match_def)

lemma trig_match_wd_day:
  "trg_wd trig \<noteq> NO_WD \<Longrightarrow> trg_d trig \<noteq> NO_DAY \<Longrightarrow>
   trig_match trig = wd_base (dmy_match trig) (\<lambda>k. trg_y trig = NO_YR \<or> DSEYear k = trg_y trig) (trg_wd trig)"
  by (simp add: fun_eq_iff trig_match_def wd_base_def)

lemma dmy_match_cong:
  "dmy_match trig = (\<lambda>(a, b, c). (trg_d trig = NO_DAY \<or> c = trg_d trig)
    \<and> (trg_m trig = NO_MON \<or> b = trg_m trig) \<and> (trg_y trig = NO_YR \<or> a = trg_y trig))"
  by (simp add: fun_eq_iff dmy_match_def)

lemma trig_ok_d: "trig_ok trig \<Longrightarrow> trg_d trig \<noteq> NO_DAY \<Longrightarrow> 1 \<le> trg_d trig"
    "trig_ok trig \<Longrightarrow> trg_d trig \<noteq> NO_DAY \<Longrightarrow> trg_d trig \<le> 31"
  and trig_ok_m: "trig_ok trig \<Longrightarrow> trg_m trig \<noteq> NO_MON \<Longrightarrow> 0 \<le> trg_m trig"
    "trig_ok trig \<Longrightarrow> trg_m trig \<noteq> NO_MON \<Longrightarrow> trg_m trig \<le> 11"
  and trig_ok_y: "trig_ok trig \<Longrightarrow> trg_y trig \<noteq> NO_YR \<Longrightarrow> 1990 \<le> trg_y trig"
  and trig_ok_wd: "trig_ok trig \<Longrightarrow> trg_wd trig \<noteq> NO_WD \<Longrightarrow> wd_ok (trg_wd trig)"
  by (auto simp: trig_ok_def wd_ok_def)

lemma NextSimpleTrig_plain:
  assumes ok: "trig_ok trig" and s: "0 \<le> start" and wd: "trg_wd trig = NO_WD"
    and nf: "\<not> full_date trig" and dm: "day_in_month trig"
  shows "\<exists>r. NextSimpleTrig start trig = Some (Inr r) \<and> next_of (trig_match trig) start r"
proof -
  obtain y m d where f: "start = DSE y m d" "is_date (y, m, d)" "FromDSE start = (y, m, d)"
    using day_cases [OF s] by blast
  note d = trig_ok_d [OF ok] and mon = trig_ok_m [OF ok] and y = trig_ok_y [OF ok]
  have dm': "trg_d trig \<noteq> NO_DAY \<Longrightarrow> trg_m trig \<noteq> NO_MON \<Longrightarrow> trg_d trig \<le> MonthDays ! nat (trg_m trig)"
    using dm by (simp add: day_in_month_def)
  have any: "next_of (\<lambda>k. 0 \<le> k) start start" using s by (auto simp: next_of_def)
  note unfold = NextSimpleTrig_def Let_def f(3) wd trig_match_plain [OF wd] dmy_match_cong
  show ?thesis
  proof (cases "trg_d trig = NO_DAY"; cases "trg_m trig = NO_MON"; cases "trg_y trig = NO_YR")
    assume c: "trg_d trig = NO_DAY" "trg_m trig = NO_MON" "trg_y trig = NO_YR"
    show ?thesis using any by (simp add: unfold c)
  next
    assume c: "trg_d trig = NO_DAY" "trg_m trig = NO_MON" "trg_y trig \<noteq> NO_YR"
    show ?thesis
      by (rule simple_yr_spec [OF f(2) y [OF c(3)]])
        (use c in \<open>simp add: unfold f(1) [symmetric] case_prod_beta\<close>)
  next
    assume c: "trg_d trig = NO_DAY" "trg_m trig \<noteq> NO_MON" "trg_y trig = NO_YR"
    show ?thesis
      by (rule simple_mon_spec [OF f(2) mon [OF c(2)]]) (use c in \<open>simp add: unfold f(1) [symmetric]\<close>)
  next
    assume c: "trg_d trig = NO_DAY" "trg_m trig \<noteq> NO_MON" "trg_y trig \<noteq> NO_YR"
    show ?thesis
      by (rule simple_mon_yr_spec [OF f(2) mon [OF c(2)] y [OF c(3)]]) (use c in \<open>simp add: unfold f(1) [symmetric]\<close>)
  next
    assume c: "trg_d trig \<noteq> NO_DAY" "trg_m trig = NO_MON" "trg_y trig = NO_YR"
    show ?thesis
      by (rule simple_day_spec [OF f(2) d [OF c(1)]]) (use c in \<open>simp add: unfold f(1) [symmetric]\<close>)
  next
    assume c: "trg_d trig \<noteq> NO_DAY" "trg_m trig = NO_MON" "trg_y trig \<noteq> NO_YR"
    show ?thesis
      by (rule simple_day_yr_spec [OF f(2) d [OF c(1)] y [OF c(3)]]) (use c in \<open>simp add: unfold f(1) [symmetric]\<close>)
  next
    assume c: "trg_d trig \<noteq> NO_DAY" "trg_m trig \<noteq> NO_MON" "trg_y trig = NO_YR"
    show ?thesis
      by (rule simple_day_mon_spec [OF f(2) mon [OF c(2)] d(1) [OF c(1)] dm' [OF c(1,2)]]) (use c in \<open>simp add: unfold f(1) [symmetric]\<close>)
  next
    assume "trg_d trig \<noteq> NO_DAY" "trg_m trig \<noteq> NO_MON" "trg_y trig \<noteq> NO_YR"
    then show ?thesis using nf by (simp add: full_date_def)
  qed
qed

lemma NextSimpleTrig_wd:
  assumes ok: "trig_ok trig" and s: "0 \<le> start" and wd: "trg_wd trig \<noteq> NO_WD" and nd: "trg_d trig = NO_DAY"
  shows "\<exists>r. NextSimpleTrig start trig = Some (Inr r) \<and> next_of (trig_match trig) start r"
proof -
  obtain y m d where f: "start = DSE y m d" "is_date (y, m, d)" "FromDSE start = (y, m, d)"
    using day_cases [OF s] by blast
  note mon = trig_ok_m [OF ok] and y = trig_ok_y [OF ok] and w = trig_ok_wd [OF ok wd]
  note unfold = NextSimpleTrig_def Let_def f(3) wd nd trig_match_wd [OF wd nd] dmy_match_cong
  show ?thesis
  proof (cases "trg_m trig = NO_MON"; cases "trg_y trig = NO_YR")
    assume c: "trg_m trig = NO_MON" "trg_y trig = NO_YR"
    show ?thesis by (rule simple_wd_spec [OF w s]) (use c in \<open>simp add: unfold\<close>)
  next
    assume c: "trg_m trig = NO_MON" "trg_y trig \<noteq> NO_YR"
    show ?thesis
      by (rule simple_wd_yr_spec [OF w f(2) y [OF c(2)]])
        (use c in \<open>simp add: unfold f(1) [symmetric] case_prod_beta\<close>)
  next
    assume c: "trg_m trig \<noteq> NO_MON" "trg_y trig = NO_YR"
    show ?thesis
      by (rule simple_wd_mon_spec [OF w f(2) mon [OF c(1)]]) (use c in \<open>simp add: unfold f(1) [symmetric]\<close>)
  next
    assume c: "trg_m trig \<noteq> NO_MON" "trg_y trig \<noteq> NO_YR"
    show ?thesis
      by (rule simple_wd_mon_yr_spec [OF w f(2) mon [OF c(1)] y [OF c(2)]])
        (use c in \<open>simp add: unfold f(1) [symmetric]\<close>)
  qed
qed

lemma NextSimpleTrig_wd_day:
  assumes ok: "trig_ok trig" and s: "0 \<le> start" and wd: "trg_wd trig \<noteq> NO_WD" and day: "trg_d trig \<noteq> NO_DAY"
    and nf: "\<not> full_date trig" and dm: "day_in_month trig"
    and yr: "wd_day_of_year trig \<Longrightarrow> trg_d trig \<noteq> 29 \<and> DSEYear start \<le> trg_y trig"
  shows "\<exists>r. NextSimpleTrig start trig = Some (Inr r) \<and> next_of (trig_match trig) start r"
proof -
  obtain y m d where f: "start = DSE y m d" "is_date (y, m, d)" "FromDSE start = (y, m, d)"
    using day_cases [OF s] by blast
  note d = trig_ok_d [OF ok day] and mon = trig_ok_m [OF ok] and y = trig_ok_y [OF ok]
    and w = trig_ok_wd [OF ok wd]
  have dm': "trg_m trig \<noteq> NO_MON \<Longrightarrow> trg_d trig \<le> MonthDays ! nat (trg_m trig)"
    using dm day by (simp add: day_in_month_def)
  note unfold = NextSimpleTrig_def Let_def f(3) wd day trig_match_wd_day [OF wd day] dmy_match_cong
  show ?thesis
  proof (cases "trg_m trig = NO_MON"; cases "trg_y trig = NO_YR")
    assume c: "trg_m trig = NO_MON" "trg_y trig = NO_YR"
    show ?thesis
      by (rule simple_wd_day_spec [OF w f(2) d]) (use c in \<open>simp add: unfold f(1) [symmetric]\<close>)
  next
    assume c: "trg_m trig = NO_MON" "trg_y trig \<noteq> NO_YR"
    then have "trg_d trig \<noteq> 29" "y \<le> trg_y trig"
      using yr wd day f(3) by (simp_all add: wd_day_of_year_def DSEYear_def)
    then show ?thesis
      by (rule simple_wd_day_yr_spec [OF w f(2) d _ y [OF c(2)]])
        (use c in \<open>simp add: unfold f(1) [symmetric]\<close>)
  next
    assume c: "trg_m trig \<noteq> NO_MON" "trg_y trig = NO_YR"
    show ?thesis
      by (rule simple_wd_day_mon_spec [OF w f(2) mon [OF c(1)] d(1) dm' [OF c(1)]])
        (use c in \<open>simp add: unfold f(1) [symmetric]\<close>)
  next
    assume "trg_m trig \<noteq> NO_MON" "trg_y trig \<noteq> NO_YR"
    then show ?thesis using nf day by (simp add: full_date_def)
  qed
qed

lemma NextSimpleTrig_spec:
  assumes "trig_ok trig" "0 \<le> start" "\<not> full_date trig" "day_in_month trig"
    and "wd_day_of_year trig \<Longrightarrow> trg_d trig \<noteq> 29 \<and> DSEYear start \<le> trg_y trig"
  shows "\<exists>r. NextSimpleTrig start trig = Some (Inr r) \<and> next_of (trig_match trig) start r"
  using NextSimpleTrig_plain [OF assms(1,2) _ assms(3,4)] NextSimpleTrig_wd [OF assms(1,2)]
    NextSimpleTrig_wd_day [OF assms(1,2) _ _ assms(3,4,5)] by blast

subsection \<open>Full dates, impossible dates, termination\<close>

lemma day_in_month_iff:
  assumes "trig_ok trig" "trg_m trig \<noteq> NO_MON"
  shows "trg_d trig \<le> MonthDays ! nat (trg_m trig) \<longleftrightarrow> (\<exists>y\<ge>1990. trg_d trig \<le> month_length y (trg_m trig))"
proof -
  have len: "month_length y (trg_m trig) \<le> MonthDays ! nat (trg_m trig)" for y
    using trig_ok_m [OF assms(1,2)]
    by (auto simp: month_length_def MonthDays_def elim!: month_cases [of "trg_m trig"])
  have "month_length 2000 (trg_m trig) = MonthDays ! nat (trg_m trig)"
    using trig_ok_m [OF assms(1,2)]
    by (auto simp: month_length_def MonthDays_def leap_def elim!: month_cases [of "trg_m trig"])
  then have "trg_d trig \<le> month_length 2000 (trg_m trig)" if "trg_d trig \<le> MonthDays ! nat (trg_m trig)"
    using that by simp
  moreover have "trg_d trig \<le> MonthDays ! nat (trg_m trig)" if "trg_d trig \<le> month_length y (trg_m trig)" for y
    using that len [of y] by linarith
  moreover have "(1990::int) \<le> 2000" by simp
  ultimately show ?thesis by blast
qed

lemma NextSimpleTrig_impossible:
  assumes ok: "trig_ok trig" and s: "0 \<le> start" and nf: "\<not> full_date trig" and dm: "\<not> day_in_month trig"
  shows "NextSimpleTrig start trig = Some (Inl E_BAD_DATE) \<and> (\<forall>k. \<not> trig_match trig k)"
proof -
  have c: "trg_d trig \<noteq> NO_DAY" "trg_m trig \<noteq> NO_MON" "trg_y trig = NO_YR"
    "\<not> trg_d trig \<le> MonthDays ! nat (trg_m trig)"
    using nf dm by (auto simp: day_in_month_def full_date_def)
  obtain y m d where f: "FromDSE start = (y, m, d)" by (cases "FromDSE start")
  have "\<not> dmy_match trig x" if "is_date x" for x
    using that c day_in_month_iff [OF ok c(2)] by (cases x) (auto simp: dmy_match_def)
  moreover have "is_date (FromDSE k)" if "0 \<le> k" for k
    using that gregorian.dec_valid by blast
  ultimately have "\<not> trig_match trig k" for k
    using c(1) by (auto simp: trig_match_def)
  moreover have "NextSimpleTrig start trig = Some (Inl E_BAD_DATE)"
    using c f by (cases "trg_wd trig = NO_WD")
      (simp_all add: NextSimpleTrig_def simple_day_mon_def simple_wd_day_mon_def Let_def)
  ultimately show ?thesis by blast
qed

lemma NextSimpleTrig_full:
  assumes ok: "trig_ok trig" and full: "full_date trig"
  shows "NextSimpleTrig start trig =
      (if trg_d trig \<le> month_length (trg_y trig) (trg_m trig)
       then if trg_wd trig = NO_WD then Some (Inr (DSE (trg_y trig) (trg_m trig) (trg_d trig)))
            else map_option Inr (ADVANCE_TO_WD (DSE (trg_y trig) (trg_m trig) (trg_d trig)) (trg_wd trig))
       else Some (Inl E_BAD_DATE))"
proof -
  have "DaysInMonth (trg_m trig) (trg_y trig) = month_length (trg_y trig) (trg_m trig)"
    using trig_ok_m [OF ok] full by (intro DaysInMonth_length) (auto simp: full_date_def)
  then show ?thesis
    using full by (auto simp: full_date_def NextSimpleTrig_def simple_day_mon_yr_def
        simple_wd_day_mon_yr_def Let_def)
qed

lemma ADVANCE_some: "wd_ok wd \<Longrightarrow> 0 \<le> b \<Longrightarrow> \<exists>j. ADVANCE_TO_WD b wd = Some j"
  by (metis ADVANCE_obtain)

lemma DSE_base: "1990 \<le> y \<Longrightarrow> 0 \<le> m \<Longrightarrow> m \<le> 11 \<Longrightarrow> 1 \<le> d \<Longrightarrow> 0 \<le> DSE y m d"
  using DSE_nonneg [of y m 1] DSE_add [of y m 1 "d - 1"] month_length_bounds(1) [of y m] by simp

lemma ADVANCE_ge: "wd_ok wd \<Longrightarrow> 0 \<le> b \<Longrightarrow> ADVANCE_TO_WD b wd = Some j \<Longrightarrow> b \<le> j"
  using ADVANCE_obtain [of wd b] by (metis option.inject)

text \<open>A result: an error, -1 or a day number.\<close>

definition returns :: "trig_result \<Rightarrow> bool" where
  "returns t \<longleftrightarrow> (\<exists>x. t = Some x \<and> (\<forall>r. x = Inr r \<longrightarrow> r = -1 \<or> 0 \<le> r))"

lemma returns_Inr [simp]: "returns (Some (Inr r)) \<longleftrightarrow> r = -1 \<or> 0 \<le> r"
  by (auto simp: returns_def)

lemma try_total:
  assumes "wd_ok wd" "0 \<le> b" "0 \<le> s" "returns t"
  shows "returns (try_day b wd s t)" "returns (try_in_year b wd yr s t)"
  using ADVANCE_some [OF assms(1,2)] assms(3,4) by (auto simp: try_day_def try_in_year_def)

lemma simple_wd_day_yr_total:
  assumes wd: "wd_ok wd" and s: "is_date (y, m, d)" and day: "1 \<le> day" "day \<le> 31" and yr: "1990 \<le> yr"
    and start: "0 \<le> start"
  shows "returns (simple_wd_day_yr wd day yr start (y, m, d))"
proof -
  have m: "0 \<le> m" "m \<le> 11" using s by simp_all
  note base = DSE_base [OF yr _ _ day(1)]
  define next_month :: trig_result where "next_month =
    (if m = 11 then Some (Inr (-1))
     else do {
       m2 \<leftarrow> month_up day (m + 1) day;
       j \<leftarrow> ADVANCE_TO_WD (DSE yr m2 day) wd;
       Some (Inr (if DSEYear j > yr then -1 else j)) })"
  have nm: "returns next_month"
  proof (cases "m = 11")
    case False
    define m3 where "m3 = (if day \<le> month_length day (m + 1) then m + 1 else m + 1 + 1)"
    have m1: "0 \<le> m + 1" "m + 1 \<le> 11" using m False by simp_all
    have "0 \<le> m3" "m3 \<le> 11" using next_month_31 [OF m1, of day 0] m1 day by (auto simp: m3_def)
    then have b3: "0 \<le> DSE yr m3 day" by (rule base)
    obtain j where "ADVANCE_TO_WD (DSE yr m3 day) wd = Some j" using ADVANCE_some [OF wd b3] by blast
    moreover from ADVANCE_ge [OF wd b3 this] b3 have "0 \<le> j" by simp
    ultimately show ?thesis using False month_up_spec [OF m1 day(2), of day] by (simp add: next_month_def m3_def)
  qed (simp add: next_month_def)
  define this_month where "this_month =
    (if day \<le> DaysInMonth m yr then try_in_year (DSE yr m day) wd yr start next_month else next_month)"
  have tm: "returns this_month"
    using nm try_total(2) [OF wd base [OF m] start nm] by (simp add: this_month_def)
  have prev: "returns (do { m2 \<leftarrow> month_down day (m - 1) yr; try_in_year (DSE yr m2 day) wd yr start this_month })"
    if "m > 0"
  proof -
    have m1: "0 \<le> m - 1" "m - 1 \<le> 11" using m that by simp_all
    define m2 where "m2 = (if day \<le> month_length yr (m - 1) then m - 1 else m - 1 - 1)"
    have "0 \<le> m2" "m2 \<le> 11" using prev_month_31 [OF m1, of yr 0] m1 day by (auto simp: m2_def)
    then show ?thesis
      using try_total(2) [OF wd base start tm] month_down_spec [OF m1 day(2), of yr] by (simp add: m2_def)
  qed
  have "returns (map_option Inr (ADVANCE_TO_WD (DSE yr 0 day) wd))"
    using ADVANCE_some [OF wd base [of 0]] ADVANCE_ge [OF wd base [of 0]] base [of 0] by fastforce
  moreover have "simple_wd_day_yr wd day yr start (y, m, d) =
      (if y > yr + 1 \<or> y > yr \<and> m > 0 then Some (Inr (-1))
       else if y > yr then try_day (DSE yr 11 day) wd start this_month
       else if y < yr then map_option Inr (ADVANCE_TO_WD (DSE yr 0 day) wd)
       else if m > 0 then do {
         m2 \<leftarrow> month_down day (m - 1) yr;
         try_in_year (DSE yr m2 day) wd yr start this_month }
       else this_month)"
    by (simp add: simple_wd_day_yr_def next_month_def this_month_def Let_def)
  ultimately show ?thesis
    using tm prev try_total(1) [OF wd base [of 11] start tm] by auto
qed

lemma NextSimpleTrig_returns:
  assumes ok: "trig_ok trig" and s: "0 \<le> start"
  shows "returns (NextSimpleTrig start trig)"
proof -
  consider "full_date trig" | "\<not> full_date trig" "\<not> day_in_month trig"
    | "\<not> full_date trig" "day_in_month trig" "wd_day_of_year trig"
    | "\<not> full_date trig" "day_in_month trig" "\<not> wd_day_of_year trig" by blast
  then show ?thesis
  proof cases
    case 1
    let ?b = "DSE (trg_y trig) (trg_m trig) (trg_d trig)"
    have b: "0 \<le> ?b"
      using 1 trig_ok_m [OF ok] trig_ok_d(1) [OF ok] trig_ok_y [OF ok]
      by (intro DSE_base) (auto simp: full_date_def)
    have "returns (map_option Inr (ADVANCE_TO_WD ?b (trg_wd trig)))" if "trg_wd trig \<noteq> NO_WD"
      using ADVANCE_some [OF trig_ok_wd [OF ok that] b] ADVANCE_ge [OF trig_ok_wd [OF ok that] b] b
      by fastforce
    then show ?thesis using NextSimpleTrig_full [OF ok 1] b by (simp add: returns_def)
  next
    case 2
    then show ?thesis using NextSimpleTrig_impossible [OF ok s] by (simp add: returns_def)
  next
    case 3
    then have c: "trg_wd trig \<noteq> NO_WD" "trg_d trig \<noteq> NO_DAY" "trg_m trig = NO_MON" "trg_y trig \<noteq> NO_YR"
      by (auto simp: wd_day_of_year_def)
    obtain y m d where f: "FromDSE start = (y, m, d)" "is_date (y, m, d)"
      using day_cases [OF s] by blast
    show ?thesis
      using simple_wd_day_yr_total [OF trig_ok_wd [OF ok c(1)] f(2) trig_ok_d [OF ok c(2)]
          trig_ok_y [OF ok c(4)] s] c f(1) by (simp add: NextSimpleTrig_def Let_def)
  next
    case 4
    then obtain r where "NextSimpleTrig start trig = Some (Inr r)" "next_of (trig_match trig) start r"
      using NextSimpleTrig_spec [OF ok s 4(1,2)] by blast
    then show ?thesis using s by (auto simp: next_of_def split: if_splits)
  qed
qed

section \<open>Properties\<close>

text \<open>
  C2. The heart of the program: for a trigger as the parser leaves it, \<open>NextSimpleTrig\<close>
  returns the first date on or after the start that matches the trigger's day, month, year
  and weekday, or -1 when there is none.  Full dates are answered wherever they lie, and for
  a day and weekday of a year the start lies in or before that year and the day is not 29.
\<close>

theorem NextSimpleTrig_first_match:
  assumes "trig_ok trig" "0 \<le> start" "\<not> full_date trig" "day_in_month trig"
    and "wd_day_of_year trig \<Longrightarrow> trg_d trig \<noteq> 29 \<and> DSEYear start \<le> trg_y trig"
  shows "\<exists>r. NextSimpleTrig start trig = Some (Inr r) \<and> next_of (trig_match trig) start r"
  by (rule NextSimpleTrig_spec [OF assms])

theorem NextSimpleTrig_first_match_witness:
  "\<exists>r. NextSimpleTrig 100 (new_trigger 0 5000\<lparr>trg_d := 29, trg_m := 1\<rparr>) = Some (Inr r)
    \<and> next_of (trig_match (new_trigger 0 5000\<lparr>trg_d := 29, trg_m := 1\<rparr>)) 100 r"
  by (rule NextSimpleTrig_first_match)
    (simp_all add: trig_ok_def full_date_def day_in_month_def wd_day_of_year_def MonthDays_def)

text \<open>
  C19. A day that no year's month has is an error, and no date matches such a trigger.
\<close>

theorem NextSimpleTrig_bad_date:
  assumes "trig_ok trig" "0 \<le> start" "\<not> full_date trig" "\<not> day_in_month trig"
  shows "NextSimpleTrig start trig = Some (Inl E_BAD_DATE) \<and> (\<forall>k. \<not> trig_match trig k)"
  by (rule NextSimpleTrig_impossible [OF assms])

theorem NextSimpleTrig_bad_date_witness:
  "NextSimpleTrig 100 (new_trigger 0 5000\<lparr>trg_d := 30, trg_m := 1\<rparr>) = Some (Inl E_BAD_DATE)"
  using NextSimpleTrig_bad_date [of "new_trigger 0 5000\<lparr>trg_d := 30, trg_m := 1\<rparr>" 100]
  by (simp add: trig_ok_def full_date_def day_in_month_def MonthDays_def)

text \<open>
  C16. Every loop of \<open>NextSimpleTrig\<close> ends: from any start and for any trigger as the parser
  leaves it, the function returns an error, -1 or a day number.
\<close>

theorem NextSimpleTrig_terminates:
  assumes "trig_ok trig" "0 \<le> start"
  shows "\<exists>x. NextSimpleTrig start trig = Some x \<and> (\<forall>r. x = Inr r \<longrightarrow> r = -1 \<or> 0 \<le> r)"
  using NextSimpleTrig_returns [OF assms] by (simp add: returns_def)

theorem NextSimpleTrig_terminates_witness:
  "NextSimpleTrig 14000 (new_trigger 0 5000\<lparr>trg_d := 29, trg_y := 2028, trg_wd := 32\<rparr>) \<noteq> None"
  using NextSimpleTrig_terminates [of "new_trigger 0 5000\<lparr>trg_d := 29, trg_y := 2028, trg_wd := 32\<rparr>" 14000]
  by (auto simp: trig_ok_def)

end
