(* ===== verification/Trigger.thy ===== *)
theory Trigger
  imports SimpleTrig
begin

text \<open>
  The second half of \<^verbatim>\<open>src/src/trigger.c\<close>: the BACK, REP, SKIP, BEFORE, AFTER and UNTIL
  clauses (\<open>GetNextTriggerDate\<close>), the search for a date that is today or later
  (\<open>ComputeTrigger\<close>), and the INFO strings of a trigger; with the time-zone adjustment of
  \<^verbatim>\<open>dorem.c\<close> and the saved last trigger of \<^verbatim>\<open>main.c\<close> that it uses.  The test for omitted days
  is the argument \<open>om\<close>; the locale \<open>omit_provider\<close> is the interface, and the omit context
  of theory \<open>Omits\<close> its interpretation.
\<close>

section \<open>INFO strings\<close>

definition strchr :: "string \<Rightarrow> char \<Rightarrow> string option" where
  "strchr s c = (case dropWhile (\<lambda>x. x \<noteq> c) s of [] \<Rightarrow> None | r \<Rightarrow> Some r)"

text \<open>The text before the first colon, if there is one.\<close>

definition header_of :: "string \<Rightarrow> string option" where
  "header_of i = (case strchr i CHR '':'' of None \<Rightarrow> None | Some r \<Rightarrow> Some (take (length i - length r) i))"

definition TrigInfoHeadersAreTheSame :: "string \<Rightarrow> string \<Rightarrow> bool" where
  "TrigInfoHeadersAreTheSame i1 i2 =
    (case (header_of i1, header_of i2) of
       (Some h1, Some h2) \<Rightarrow> length h1 = length h2 \<and> map tolower h1 = map tolower h2
     | _ \<Rightarrow> True)"

definition TrigInfoIsValid :: "string \<Rightarrow> bool" where
  "TrigInfoIsValid info =
    (case header_of info of
       None \<Rightarrow> False
     | Some h \<Rightarrow> h \<noteq> [] \<and> list_all (\<lambda>c. \<not> isspace c \<and> \<not> iscntrl c) h)"

text \<open>\<open>mem_ok\<close>: \<open>NewTrigInfo\<close> gets its memory.\<close>

definition AppendTrigInfo :: "bool \<Rightarrow> Trigger \<Rightarrow> string \<Rightarrow> errcode option \<times> Trigger" where
  "AppendTrigInfo mem_ok t info =
    (if \<not> TrigInfoIsValid info then (Some E_PARSE_ERR, t)
     else if \<not> mem_ok then (Some E_NO_MEM, t)
     else if list_ex (TrigInfoHeadersAreTheSame info) (infos t) then (Some E_PARSE_ERR, t)
     else (None, t\<lparr>infos := infos t @ [info]\<rparr>))"

fun find_info :: "string \<Rightarrow> string list \<Rightarrow> string option" where
  "find_info header [] = None"
| "find_info header (i # rest) =
    (if map tolower (take (length header) i) = map tolower header
        \<and> peek (drop (length header) i) = Some CHR '':''
     then Some (dropWhile isspace (drop (length header + 1) i))
     else find_info header rest)"

definition FindTrigInfo :: "Trigger \<Rightarrow> string \<Rightarrow> string option" where
  "FindTrigInfo t header = (if header = [] then None else find_info header (infos t))"

section \<open>The last trigger\<close>

record trig_globals =
  LastTrigger :: Trigger
  LastTimeTrig :: TimeTrig
  LastTriggerDate :: int
  LastTriggerTime :: int
  LastTrigValid :: bool

definition SaveLastTrigger :: "Trigger \<Rightarrow> trig_globals \<Rightarrow> trig_globals" where
  "SaveLastTrigger t g =
    g\<lparr>LastTrigger := fold (\<lambda>i l. snd (AppendTrigInfo True l i)) (infos t) (t\<lparr>infos := []\<rparr>)\<rparr>"

definition SaveLastTimeTrig :: "TimeTrig \<Rightarrow> trig_globals \<Rightarrow> trig_globals" where
  "SaveLastTimeTrig t g = g\<lparr>LastTimeTrig := t\<rparr>"

definition SaveAllTriggerInfo ::
    "Trigger \<Rightarrow> TimeTrig \<Rightarrow> int \<Rightarrow> int \<Rightarrow> bool \<Rightarrow> trig_globals \<Rightarrow> trig_globals" where
  "SaveAllTriggerInfo t tt trigdate trigtime valid g =
    (let g = SaveLastTimeTrig tt (SaveLastTrigger t g);
         g = (if trigdate \<noteq> -1 then g\<lparr>LastTriggerDate := trigdate, LastTrigValid := valid\<rparr> else g)
     in g\<lparr>LastTriggerTime := trigtime\<rparr>)"

text \<open>
  \<open>tz_convert\<close> of \<^verbatim>\<open>funcs.c\<close> rests on \<^verbatim>\<open>mktime\<close> and \<^verbatim>\<open>localtime\<close>: it is the argument \<open>tzc\<close>, which
  takes a year, month, day, hour, minute and the zone of the trigger to local time, or fails.
\<close>

type_synonym tz_conv = "int \<times> int \<times> int \<times> int \<times> int \<Rightarrow> string \<Rightarrow> (int \<times> int \<times> int \<times> int \<times> int) option"

definition AdjustTriggerForTimeZone ::
    "tz_conv \<Rightarrow> Trigger \<Rightarrow> int \<Rightarrow> TimeTrig \<Rightarrow> trig_globals \<Rightarrow> int \<times> Trigger \<times> TimeTrig \<times> trig_globals" where
  "AdjustTriggerForTimeZone tzc trig dse tim g =
    (case tz trig of
       None \<Rightarrow> (dse, trig, tim, g)
     | Some zone \<Rightarrow>
         if dse < 0 then (dse, trig, tim, g)
         else case FromDSE dse of (y, m, d) \<Rightarrow>
           (case tzc (y, m, d, ttime_orig tim sdiv 60, ttime_orig tim smod 60) zone of
              None \<Rightarrow> (dse, trig, tim, g)
            | Some (y, m, d, hh, mm) \<Rightarrow>
                let dse = DSE y m d;
                    tim = tim\<lparr>ttime := hh * 60 + mm\<rparr>;
                    trig = trig\<lparr>eventstart := dse * MINUTES_PER_DAY + ttime tim\<rparr>
                in (dse, trig, tim, SaveAllTriggerInfo trig tim dse (ttime tim) True g)))"

section \<open>The clauses around the simple trigger\<close>

text \<open>
  The loops that count their iterations: \<open>n\<close> iterations are left, so the counter is past
  \<open>MaxSatIter\<close> after a test when none is.  The result is the date and that test.
\<close>

type_synonym omit_test = "int \<Rightarrow> (errcode + bool) option"
type_synonym scan_result = "(errcode + int \<times> bool) option"

fun back_to_block :: "omit_test \<Rightarrow> nat \<Rightarrow> int \<Rightarrow> scan_result" where
  "back_to_block om 0 start = Some (Inr (start, True))"
| "back_to_block om (Suc n) start =
    (case om (start - 1) of
       None \<Rightarrow> None
     | Some (Inl e) \<Rightarrow> Some (Inl e)
     | Some (Inr omit) \<Rightarrow>
         if \<not> omit then Some (Inr (start, n = 0))
         else if start - 1 < 0 then Some (Inr (start - 1, n = 0))
         else back_to_block om n (start - 1))"

fun back_days :: "omit_test \<Rightarrow> nat \<Rightarrow> int \<Rightarrow> int \<Rightarrow> scan_result" where
  "back_days om 0 num simple = Some (Inr (simple, True))"
| "back_days om (Suc n) num simple =
    (if num = 0 then Some (Inr (simple, n = 0))
     else case om (simple - 1) of
       None \<Rightarrow> None
     | Some (Inl e) \<Rightarrow> Some (Inl e)
     | Some (Inr omit) \<Rightarrow> back_days om n (if \<not> omit then num - 1 else num) (simple - 1))"

fun before_block :: "omit_test \<Rightarrow> nat \<Rightarrow> int \<Rightarrow> scan_result" where
  "before_block om 0 simple = Some (Inr (simple, True))"
| "before_block om (Suc n) simple =
    (case om simple of
       None \<Rightarrow> None
     | Some (Inl e) \<Rightarrow> Some (Inl e)
     | Some (Inr omit) \<Rightarrow>
         if \<not> omit then Some (Inr (simple, n = 0))
         else if simple - 1 < 0 then Some (Inl E_CANT_TRIG)
         else before_block om n (simple - 1))"

fun after_block :: "omit_test \<Rightarrow> nat \<Rightarrow> int \<Rightarrow> scan_result" where
  "after_block om 0 simple = Some (Inr (simple, True))"
| "after_block om (Suc n) simple =
    (case om simple of
       None \<Rightarrow> None
     | Some (Inl e) \<Rightarrow> Some (Inl e)
     | Some (Inr omit) \<Rightarrow>
         if \<not> omit then Some (Inr (simple, n = 0)) else after_block om n (simple + 1))"

text \<open>A loop that ran out of iterations cannot compute the trigger.\<close>

definition limited :: "scan_result \<Rightarrow> (errcode + int) option" where
  "limited r = map_option (\<lambda>x. case x of Inl e \<Rightarrow> Inl e
     | Inr (j, over) \<Rightarrow> if over then Inl E_CANT_TRIG else Inr j) r"

definition bind_sum :: "(errcode + 'a) option \<Rightarrow> ('a \<Rightarrow> (errcode + 'b) option) \<Rightarrow> (errcode + 'b) option" where
  "bind_sum r f = (case r of None \<Rightarrow> None | Some (Inl e) \<Rightarrow> Some (Inl e) | Some (Inr x) \<Rightarrow> f x)"

definition skip_start :: "omit_test \<Rightarrow> int \<Rightarrow> Trigger \<Rightarrow> int \<Rightarrow> (errcode + int) option" where
  "skip_start om MaxSatIter trig start =
    (if trg_skip trig = AFTER_SKIP then
       map_option (\<lambda>x. case x of Inl e \<Rightarrow> Inl e
         | Inr (start, over) \<Rightarrow> if start < 0 \<or> over then Inl E_CANT_TRIG else Inr start)
         (back_to_block om (nat (MaxSatIter + 1)) start)
     else Some (Inr start))"

definition apply_back :: "omit_test \<Rightarrow> int \<Rightarrow> Trigger \<Rightarrow> int \<Rightarrow> (errcode + int) option" where
  "apply_back om MaxSatIter trig simple =
    (if trg_back trig = NO_BACK then Some (Inr simple)
     else if trg_back trig < 0 then Some (Inr (simple + trg_back trig))
     else limited (back_days om (nat (max MaxSatIter (trg_back trig * 2) + 1)) (trg_back trig) simple))"

text \<open>The last addition overflows when the sum is no \<open>int\<close>: that is undefined, \<open>None\<close>.\<close>

definition apply_rep :: "Trigger \<Rightarrow> int \<Rightarrow> int \<Rightarrow> (errcode + int) option" where
  "apply_rep trig start simple =
    (if trg_rep trig \<noteq> NO_REP \<and> simple < start then
       let k = (start - simple) sdiv trg_rep trig; simple = simple + k * trg_rep trig
       in if simple < start then
            if simple + trg_rep trig > INT_MAX then None else Some (Inr (simple + trg_rep trig))
          else Some (Inr simple)
     else Some (Inr simple))"

definition apply_skip :: "omit_test \<Rightarrow> int \<Rightarrow> Trigger \<Rightarrow> int \<Rightarrow> (errcode + int) option" where
  "apply_skip om MaxSatIter trig simple =
    (if trg_skip trig = BEFORE_SKIP then limited (before_block om (nat (MaxSatIter + 1)) simple)
     else if trg_skip trig = AFTER_SKIP then limited (after_block om (nat (MaxSatIter + 1)) simple)
     else Some (Inr simple))"

text \<open>
  \<open>GetNextTriggerDate\<close> sets the error, the flag \<open>expired\<close> and \<open>nextstart\<close>, and returns a date, -1
  when expired, -2 with an error of the omit tests.
\<close>

record next_trig =
  nt_err :: "errcode option"
  nt_date :: int
  nt_expired :: bool
  nt_nextstart :: int

definition GetNextTriggerDate ::
    "omit_test \<Rightarrow> int \<Rightarrow> bool \<Rightarrow> Trigger \<Rightarrow> int \<Rightarrow> int \<Rightarrow> next_trig option" where
  "GetNextTriggerDate om MaxSatIter calmode trig start nextstart =
    (let done = (\<lambda>e r x n. Some \<lparr>nt_err = e, nt_date = r, nt_expired = x, nt_nextstart = n\<rparr>) in
     if \<not> is_todo trig \<and> trg_until trig \<noteq> NO_UNTIL \<and> trg_until trig < start
     then done None (-1) True nextstart
     else if \<not> calmode \<and> is_todo trig \<and> complete_through trig \<noteq> NO_DATE \<and> complete_through trig \<ge> start
     then done None (-1) True nextstart
     else case skip_start om MaxSatIter trig start of
       None \<Rightarrow> None
     | Some (Inl e) \<Rightarrow> done (Some e) (-2) False nextstart
     | Some (Inr start) \<Rightarrow>
         (case NextSimpleTrig start trig of
            None \<Rightarrow> None
          | Some (Inl e) \<Rightarrow> done (Some e) (-1) False nextstart
          | Some (Inr simple) \<Rightarrow>
              if simple = -1 then done None (-1) False nextstart
              else let nextstart = simple + 1 in
                (case bind_sum (apply_back om MaxSatIter trig simple)
                    (\<lambda>simple. bind_sum (apply_rep trig start simple) (apply_skip om MaxSatIter trig)) of
                   None \<Rightarrow> None
                 | Some (Inl e) \<Rightarrow> done (Some e) (-2) False nextstart
                 | Some (Inr simple) \<Rightarrow>
                     if trg_until trig \<noteq> NO_UNTIL \<and> simple > trg_until trig
                     then done None (-1) False nextstart
                     else done None simple False nextstart)))"

section \<open>Looking for a date that is today or later\<close>

definition TRIG_ATTEMPTS :: nat where "TRIG_ATTEMPTS = 500"

text \<open>The globals the search reads.\<close>

record trig_env =
  MaxSatIter :: int
  DoCalendar :: bool
  DoSimpleCalendar :: bool
  HideCompletedTodos :: bool
  DSEToday :: int
  te_tz :: tz_conv

definition calmode :: "trig_env \<Rightarrow> bool" where
  "calmode env = ((DoSimpleCalendar env \<or> DoCalendar env) \<and> \<not> HideCompletedTodos env)"

type_synonym trig_out = "errcode option \<times> int \<times> Trigger \<times> trig_globals"

text \<open>\<open>LastTriggerDate\<close> and \<open>LastTrigValid\<close> as the search leaves them.\<close>

definition last_date :: "bool \<Rightarrow> int \<Rightarrow> trig_globals \<Rightarrow> trig_globals" where
  "last_date save result g =
    (if save then g\<lparr>LastTriggerDate := result, LastTrigValid := True\<rparr> else g)"

definition no_rescan :: "Trigger \<Rightarrow> bool" where
  "no_rescan trig = (trg_back trig = NO_BACK \<and> trg_skip trig = NO_SKIP \<and> trg_rep trig = NO_REP)"

text \<open>
  The time-zone retry: \<open>None\<close> when the result stands, \<open>Some\<close> of whether the search makes
  progress otherwise.
\<close>

definition tz_retry ::
    "trig_env \<Rightarrow> int \<Rightarrow> int \<Rightarrow> TimeTrig \<Rightarrow> int \<Rightarrow> Trigger \<Rightarrow> trig_globals \<Rightarrow> bool \<times> Trigger \<times> trig_globals" where
  "tz_retry env today ddays tim result trig g =
    (if tz trig = None then (False, trig, g)
     else case AdjustTriggerForTimeZone (te_tz env) trig result tim g of
       (new_result, trig, copy, g) \<Rightarrow>
         (scanfrom trig = NO_SCANFROM \<and> new_result < DSEToday env
            \<or> result + ddays \<ge> today \<and> new_result + ddays < today, trig, g))"

fun trig_search ::
    "trig_env \<Rightarrow> omit_test \<Rightarrow> bool \<Rightarrow> int \<Rightarrow> int \<Rightarrow> TimeTrig \<Rightarrow> nat \<Rightarrow> int \<Rightarrow> int \<Rightarrow> int \<Rightarrow> Trigger \<Rightarrow>
     trig_globals \<Rightarrow> trig_out option" where
  "trig_search env om save today ddays tim 0 start nextstart save_next trig g =
    Some (Some E_CANT_TRIG, -1, trig, g)"
| "trig_search env om save today ddays tim (Suc n) start nextstart save_next trig g =
    (case GetNextTriggerDate om (MaxSatIter env) (calmode env) trig start nextstart of
       None \<Rightarrow> None
     | Some nt \<Rightarrow>
         let result = nt_date nt; nextstart = nt_nextstart nt;
             trig = (if nt_expired nt then trig\<lparr>expired := True\<rparr> else trig) in
         if nt_err nt \<noteq> None then Some (nt_err nt, -1, trig, g)
         else if result = -1 then Some (None, -1, trig\<lparr>expired := True\<rparr>, g)
         else case (if trg_skip trig = SKIP_SKIP then om result else Some (Inr False)) of
           None \<Rightarrow> None
         | Some (Inl e) \<Rightarrow> Some (Some e, -1, trig, g)
         | Some (Inr omit) \<Rightarrow>
             (case tz_retry env today ddays tim result trig g of (retry, trig, g) \<Rightarrow>
                if retry then
                  if nextstart \<le> save_next then Some (None, -1, trig\<lparr>expired := True\<rparr>, g)
                  else trig_search env om save today ddays tim n (start + 1) (start + 1) nextstart trig g
                else if result + ddays \<ge> today \<and> (trg_skip trig \<noteq> SKIP_SKIP \<or> \<not> omit)
                then Some (None, result, trig, last_date save result g)
                else if no_rescan trig
                then Some (None, -1, trig\<lparr>expired := True\<rparr>, last_date save result g)
                else
                  let nextstart = (if trg_skip trig = SKIP_SKIP \<and> omit \<and> nextstart \<le> start \<and> result \<ge> start
                                   then result + 1 else nextstart) in
                  if nextstart \<le> start
                  then Some (None, -1, trig\<lparr>expired := True\<rparr>, last_date save result g)
                  else trig_search env om save today ddays tim n nextstart nextstart save_next trig g))"

text \<open>The checks before the search; \<open>wdo\<close> is the global \<open>WeekdayOmits\<close>.\<close>

definition trig_problem :: "int \<Rightarrow> Trigger \<Rightarrow> TimeTrig \<Rightarrow> int \<Rightarrow> errcode option" where
  "trig_problem wdo trig tim start =
    (if wdo OR localomit trig = 0x7F then Some E_2MANY_LOCALOMIT
     else if start < 0 then Some E_DATE_OVER
     else if duration tim \<noteq> NO_TIME \<and> ttime tim = NO_TIME then Some E_DURATION_NO_AT
     else if trg_rep trig \<noteq> NO_REP \<and> (trg_d trig = NO_DAY \<or> trg_m trig = NO_MON \<or> trg_y trig = NO_YR)
     then Some E_REP_FULSPEC
     else None)"

definition ComputeTriggerNoAdjustDuration ::
    "trig_env \<Rightarrow> omit_test \<Rightarrow> int \<Rightarrow> int \<Rightarrow> Trigger \<Rightarrow> TimeTrig \<Rightarrow> bool \<Rightarrow> int \<Rightarrow> trig_globals \<Rightarrow> trig_out option" where
  "ComputeTriggerNoAdjustDuration env om wdo today trig tim save ddays g =
    (let start = today - ddays;
         trig = trig\<lparr>expired := False\<rparr>;
         g = (if save then g\<lparr>LastTrigValid := False, LastTriggerDate := -1\<rparr> else g)
     in case trig_problem wdo trig tim start of
          Some e \<Rightarrow> Some (Some e, -1, trig, g)
        | None \<Rightarrow>
            trig_search env om save today ddays tim TRIG_ATTEMPTS start 0 0 trig
              (if save then SaveLastTrigger trig g else g))"

definition save_event :: "int \<Rightarrow> Trigger \<Rightarrow> TimeTrig \<Rightarrow> Trigger" where
  "save_event r trig tim =
    (if ttime tim \<noteq> NO_TIME then
       let trig = trig\<lparr>eventstart := MINUTES_PER_DAY * r + ttime tim,
                       eventstart_orig := MINUTES_PER_DAY * r + ttime tim\<rparr>
       in if duration tim \<noteq> NO_TIME then trig\<lparr>eventduration := duration tim\<rparr> else trig
     else trig)"

definition AdjustTriggerForDuration ::
    "int \<Rightarrow> int \<Rightarrow> Trigger \<Rightarrow> TimeTrig \<Rightarrow> bool \<Rightarrow> trig_globals \<Rightarrow>
     int \<times> Trigger \<times> TimeTrig \<times> trig_globals" where
  "AdjustTriggerForDuration today r trig tim save g =
    (let trig = save_event r trig tim;
         (r, tim) =
           (if r < today \<and> r + duration_days trig \<ge> today
            then (today, tim\<lparr>duration := duration tim - (today - r) * MINUTES_PER_DAY + ttime tim, ttime := 0\<rparr>)
            else (r, tim))
     in (r, trig, tim, if save then SaveAllTriggerInfo trig tim r (ttime tim) True g else g))"

definition ComputeTrigger ::
    "trig_env \<Rightarrow> omit_test \<Rightarrow> int \<Rightarrow> int \<Rightarrow> Trigger \<Rightarrow> TimeTrig \<Rightarrow> bool \<Rightarrow> trig_globals \<Rightarrow>
     (errcode option \<times> int \<times> Trigger \<times> TimeTrig \<times> trig_globals) option" where
  "ComputeTrigger env om wdo today trig tim save g =
    (case ComputeTriggerNoAdjustDuration env om wdo today trig tim save 0 g of
       None \<Rightarrow> None
     | Some (Some e, r, trig, g) \<Rightarrow> Some (Some e, r, trig, tim, g)
     | Some (None, r, trig, g) \<Rightarrow>
         if r = today then
           let trig = save_event r trig tim
           in Some (None, r, trig, tim, if save then SaveAllTriggerInfo trig tim r (ttime tim) True g else g)
         else
           let adjust = (\<lambda>r trig g. case AdjustTriggerForDuration today r trig tim save g of
                 (r, trig, tim, g) \<Rightarrow> Some (None, r, trig, tim, g))
           in if duration_days trig \<noteq> 0 then
                (case ComputeTriggerNoAdjustDuration env om wdo today trig tim save (duration_days trig) g of
                   None \<Rightarrow> None
                 | Some (Some e, r, trig, g) \<Rightarrow> Some (Some e, r, trig, tim, g)
                 | Some (None, r, trig, g) \<Rightarrow> adjust r trig g)
              else adjust r trig g)"

section \<open>The INFO strings are a map\<close>

text \<open>
  The strings of a trigger keep valid, pairwise different headers, so the list is a map
  from headers, in any case, to values.
\<close>

definition header_key :: "string \<Rightarrow> string option" where
  "header_key i = map_option (map tolower) (header_of i)"

definition infos_ok :: "string list \<Rightarrow> bool" where
  "infos_ok xs \<longleftrightarrow> list_all TrigInfoIsValid xs \<and> distinct (map header_key xs)"

lemma TrigInfoIsValid_header: "TrigInfoIsValid i \<Longrightarrow> \<exists>h. header_of i = Some h \<and> h \<noteq> []"
  by (auto simp: TrigInfoIsValid_def split: option.splits)

lemma headers_same_key:
  "TrigInfoIsValid i \<Longrightarrow> TrigInfoIsValid j \<Longrightarrow>
   TrigInfoHeadersAreTheSame i j \<longleftrightarrow> header_key i = header_key j"
  by (auto simp: TrigInfoHeadersAreTheSame_def header_key_def dest!: TrigInfoIsValid_header
      dest: map_eq_imp_length_eq)

lemma AppendTrigInfo_infos_ok:
  assumes "infos_ok (infos t)"
  shows "infos_ok (infos (snd (AppendTrigInfo m t i)))"
  using assms
  by (auto simp: AppendTrigInfo_def infos_ok_def list_all_iff list_ex_iff headers_same_key)

lemma AppendTrigInfo_adds:
  assumes "infos_ok (infos t)"
  shows "AppendTrigInfo True t i =
    (if TrigInfoIsValid i \<and> header_key i \<notin> header_key ` set (infos t)
     then (None, t\<lparr>infos := infos t @ [i]\<rparr>) else (Some E_PARSE_ERR, t))"
  using assms
  by (auto simp: AppendTrigInfo_def infos_ok_def list_all_iff list_ex_iff headers_same_key)

lemma infos_ok_append: "infos_ok (xs @ ys) \<Longrightarrow> infos_ok xs"
  by (simp add: infos_ok_def)

lemma fold_append_infos:
  "infos_ok (infos t @ xs) \<Longrightarrow>
   fold (\<lambda>i l. snd (AppendTrigInfo True l i)) xs t = t\<lparr>infos := infos t @ xs\<rparr>"
proof (induction xs arbitrary: t)
  case (Cons i xs)
  have "AppendTrigInfo True t i = (None, t\<lparr>infos := infos t @ [i]\<rparr>)"
    using Cons.prems infos_ok_append by (subst AppendTrigInfo_adds) (auto simp: infos_ok_def)
  then show ?case using Cons by simp
qed simp

text \<open>Saving the last trigger copies it.\<close>

lemma SaveLastTrigger_copy: "infos_ok (infos t) \<Longrightarrow> LastTrigger (SaveLastTrigger t g) = t"
  using fold_append_infos [of "t\<lparr>infos := []\<rparr>" "infos t"] by (simp add: SaveLastTrigger_def)

lemma header_of_split:
  "header_of i = Some h \<longleftrightarrow> (\<exists>r. i = h @ CHR '':'' # r \<and> CHR '':'' \<notin> set h)"
proof
  assume h: "header_of i = Some h"
  let ?d = "dropWhile (\<lambda>x. x \<noteq> CHR '':'') i" and ?t = "takeWhile (\<lambda>x. x \<noteq> CHR '':'') i"
  obtain a l where al: "?d = a # l" "h = take (length i - length ?d) i"
    using h by (cases ?d) (auto simp: header_of_def strchr_def)
  then have d: "?d \<noteq> []" by (metis list.distinct(1))
  moreover note al(2)
  moreover have i: "i = ?t @ ?d" by simp
  ultimately have "h = ?t" by (metis append_eq_conv_conj length_append add_diff_cancel_right')
  then have "CHR '':'' \<notin> set h" using set_takeWhileD by fast
  moreover have "a = CHR '':''" using hd_dropWhile [of "\<lambda>x. x \<noteq> CHR '':''" i] al(1) by simp
  then have "?t @ ?d = h @ CHR '':'' # l" by (simp only: al(1) \<open>h = ?t\<close>)
  then have "i = h @ CHR '':'' # l" by (rule trans [OF i])
  ultimately show "\<exists>r. i = h @ CHR '':'' # r \<and> CHR '':'' \<notin> set h" by blast
next
  assume "\<exists>r. i = h @ CHR '':'' # r \<and> CHR '':'' \<notin> set h"
  then obtain r where r: "i = h @ CHR '':'' # r" "CHR '':'' \<notin> set h" by blast
  then have "dropWhile (\<lambda>x. x \<noteq> CHR '':'') i = CHR '':'' # r"
    by (subst r(1), subst dropWhile_append2) (use r(2) in auto)
  then show "header_of i = Some h" using r by (simp add: header_of_def strchr_def)
qed

lemma tolower_colon: "tolower c = CHR '':'' \<longleftrightarrow> c = CHR '':''"
proof (cases "isupper c")
  case True
  then have "of_char (tolower c) = (of_char c + 32 :: int)"
    by (simp add: tolower_def ctype_defs)
  moreover have "tolower c = CHR '':'' \<Longrightarrow> of_char (tolower c) = (58 :: int)" by simp
  ultimately have "tolower c \<noteq> CHR '':''" using True by (auto simp: isupper_def)
  moreover have "c \<noteq> CHR '':''" using True by (auto simp: isupper_def)
  ultimately show ?thesis by simp
next
  case False
  then show ?thesis by (simp add: tolower_def)
qed

lemma find_info_match:
  assumes h: "CHR '':'' \<notin> set header"
  shows "map tolower (take (length header) i) = map tolower header \<and> peek (drop (length header) i) = Some CHR '':''
    \<longleftrightarrow> header_key i = Some (map tolower header)"
proof
  assume l: "map tolower (take (length header) i) = map tolower header \<and> peek (drop (length header) i) = Some CHR '':''"
  then have "CHR '':'' \<notin> set (take (length header) i)"
    using h tolower_colon by (metis (no_types, lifting) image_iff list.set_map)
  moreover obtain r where "drop (length header) i = CHR '':'' # r"
    using l by (auto simp: peek_def split: list.splits)
  then have "i = take (length header) i @ CHR '':'' # r" by (metis append_take_drop_id)
  ultimately have "header_of i = Some (take (length header) i)" using header_of_split by blast
  then show "header_key i = Some (map tolower header)" using l by (simp add: header_key_def)
next
  assume "header_key i = Some (map tolower header)"
  then obtain h' where h': "header_of i = Some h'" "map tolower h' = map tolower header"
    by (auto simp: header_key_def)
  then obtain r where "i = h' @ CHR '':'' # r" using header_of_split by blast
  moreover have "length header = length h'" using h'(2) by (metis length_map)
  ultimately show "map tolower (take (length header) i) = map tolower header \<and> peek (drop (length header) i) = Some CHR '':''"
    using h'(2) by simp
qed

text \<open>The value: what follows the colon and white space.\<close>

definition info_value :: "string \<Rightarrow> string" where
  "info_value i = (case header_of i of None \<Rightarrow> [] | Some h \<Rightarrow> dropWhile isspace (drop (length h + 1) i))"

lemma find_info_spec:
  assumes h: "CHR '':'' \<notin> set header"
  shows "find_info header xs =
    map_option info_value (find (\<lambda>i. header_key i = Some (map tolower header)) xs)"
proof (induction xs)
  case (Cons i xs)
  show ?case
  proof (cases "header_key i = Some (map tolower header)")
    case True
    then obtain h' where "header_of i = Some h'" "map tolower h' = map tolower header"
      by (auto simp: header_key_def)
    moreover from this(2) have "length h' = length header" by (metis length_map)
    ultimately show ?thesis using True find_info_match [OF h, of i] by (simp add: info_value_def)
  next
    case False
    then show ?thesis using Cons find_info_match [OF h, of i] by auto
  qed
qed simp

text \<open>Looking up a header after an append: the new value for the new header, the old one for others.\<close>

lemma FindTrigInfo_Append:
  assumes ok: "infos_ok (infos t)" and app: "AppendTrigInfo True t i = (None, t')"
    and h: "header \<noteq> []" "CHR '':'' \<notin> set header"
  shows "FindTrigInfo t' header =
    (if header_key i = Some (map tolower header) then Some (info_value i) else FindTrigInfo t header)"
proof -
  have t': "t' = t\<lparr>infos := infos t @ [i]\<rparr>" and new: "header_key i \<notin> header_key ` set (infos t)"
    using app by (simp_all add: AppendTrigInfo_adds [OF ok] split: if_splits)
  have "find (\<lambda>i. header_key i = Some (map tolower header)) (infos t) = None"
    if "header_key i = Some (map tolower header)"
    using new that by (auto simp: find_None_iff image_iff)
  moreover have "find P (xs @ [x]) = (case find P xs of Some y \<Rightarrow> Some y | None \<Rightarrow> if P x then Some x else None)"
    for P :: "string \<Rightarrow> bool" and x xs by (induction xs) auto
  ultimately show ?thesis
    using h by (auto simp: FindTrigInfo_def t' find_info_spec split: option.split)
qed

section \<open>The repetition\<close>

text \<open>The repetition without the limits of \<open>int\<close>.\<close>

definition rep_from :: "Trigger \<Rightarrow> int \<Rightarrow> int \<Rightarrow> int" where
  "rep_from trig start D =
    (if trg_rep trig \<noteq> NO_REP \<and> D < start then
       let E = D + (start - D) div trg_rep trig * trg_rep trig in if E < start then E + trg_rep trig else E
     else D)"

lemma rep_from_bounds:
  assumes "0 \<le> trg_rep trig" "0 \<le> D"
  shows "0 \<le> rep_from trig start D" "rep_from trig start D \<le> max D (start + trg_rep trig)"
proof -
  let ?n = "trg_rep trig" and ?q = "(start - D) div trg_rep trig"
  have "0 \<le> ?q * ?n" if "D < start" using that assms by (simp add: div_int_pos_iff)
  moreover have "D + ?q * ?n \<le> start" if "D < start"
    using that assms div_mult_mod_eq [of "start - D" ?n] by (cases "?n = 0") (auto simp: algebra_simps minus_mod_eq_mult_div [symmetric])
  ultimately show "0 \<le> rep_from trig start D" "rep_from trig start D \<le> max D (start + ?n)"
    using assms by (auto simp: rep_from_def Let_def)
qed

lemma apply_rep_fits:
  assumes "0 \<le> trg_rep trig" "0 \<le> D" "trg_rep trig = NO_REP \<or> start + trg_rep trig \<le> INT_MAX"
  shows "apply_rep trig start D = Some (Inr (rep_from trig start D))"
proof (cases "trg_rep trig \<noteq> NO_REP \<and> D < start")
  case True
  then have "(start - D) sdiv trg_rep trig = (start - D) div trg_rep trig" using assms by (intro sdiv_nonneg) auto
  then show ?thesis using True assms(3) by (auto simp: apply_rep_def rep_from_def Let_def)
qed (auto simp: apply_rep_def rep_from_def)

lemma apply_rep_Some:
  "0 \<le> trg_rep trig \<Longrightarrow> apply_rep trig start D = Some x \<Longrightarrow> x = Inr (rep_from trig start D)"
  by (auto simp: apply_rep_def rep_from_def Let_def sdiv_nonneg split: if_splits)

section \<open>The clauses\<close>

text \<open>
  The trigger code's view of the omit context: a state with an invariant, and a test that
  answers for every day of the calendar.
\<close>

locale omit_provider =
  fixes inv :: "'s \<Rightarrow> bool" and om :: "'s \<Rightarrow> omit_test" and omitted :: "'s \<Rightarrow> int \<Rightarrow> bool"
  assumes om_total: "inv s \<Longrightarrow> 0 \<le> d \<Longrightarrow> om s d = Some (Inr (omitted s d))"
begin

lemma after_block_spec:
  assumes inv: "inv s"
  shows "0 \<le> simple \<Longrightarrow> \<exists>j over. after_block (om s) n simple = Some (Inr (j, over)) \<and> simple \<le> j
    \<and> (\<forall>k. simple \<le> k \<and> k < j \<longrightarrow> omitted s k) \<and> (\<not> over \<longrightarrow> \<not> omitted s j)"
proof (induction n arbitrary: simple)
  case (Suc n)
  show ?case
  proof (cases "omitted s simple")
    case True
    obtain j over where j: "after_block (om s) n (simple + 1) = Some (Inr (j, over))" "simple + 1 \<le> j"
      "\<forall>k. simple + 1 \<le> k \<and> k < j \<longrightarrow> omitted s k" "\<not> over \<longrightarrow> \<not> omitted s j"
      using Suc.IH [of "simple + 1"] Suc.prems by auto
    moreover have "omitted s k" if "simple \<le> k" "k < j" for k
      using that j(3) True by (cases "k = simple") auto
    ultimately show ?thesis using True Suc.prems by (simp add: om_total [OF inv])
  next
    case False
    then have "after_block (om s) (Suc n) simple = Some (Inr (simple, n = 0))"
      using Suc.prems by (simp add: om_total [OF inv])
    then show ?thesis using False by force
  qed
qed force

text \<open>Enough iterations are as many as there are omitted days, and one more.\<close>

lemma after_block_finds:
  assumes inv: "inv s"
  shows "0 \<le> simple \<Longrightarrow> (\<forall>k. simple \<le> k \<and> k < j \<longrightarrow> omitted s k) \<Longrightarrow> \<not> omitted s j \<Longrightarrow> simple \<le> j \<Longrightarrow>
   j + 1 < simple + int n \<Longrightarrow> after_block (om s) n simple = Some (Inr (j, False))"
proof (induction n arbitrary: simple)
  case (Suc n)
  show ?case
  proof (cases "simple = j")
    case False
    then have "after_block (om s) n (simple + 1) = Some (Inr (j, False))"
      using Suc.prems by (intro Suc.IH) auto
    then show ?thesis using Suc.prems False by (simp add: om_total [OF inv])
  qed (use Suc.prems in \<open>auto simp: om_total [OF inv]\<close>)
qed simp

lemma before_block_spec:
  assumes inv: "inv s"
  shows "0 \<le> simple \<Longrightarrow> before_block (om s) n simple = Some (Inl E_CANT_TRIG) \<or>
    (\<exists>j over. before_block (om s) n simple = Some (Inr (j, over)) \<and> 0 \<le> j \<and> j \<le> simple
      \<and> (\<forall>k. j < k \<and> k \<le> simple \<longrightarrow> omitted s k) \<and> (\<not> over \<longrightarrow> \<not> omitted s j))"
proof (induction n arbitrary: simple)
  case (Suc n)
  show ?case
  proof (cases "omitted s simple")
    case True
    show ?thesis
    proof (cases "simple = 0")
      case z: True
      then show ?thesis using \<open>omitted s simple\<close> by (simp add: om_total [OF inv])
    next
      case False
      then have pos: "0 \<le> simple - 1" using Suc.prems by simp
      have eq: "before_block (om s) (Suc n) simple = before_block (om s) n (simple - 1)"
        using True False Suc.prems by (simp add: om_total [OF inv])
      consider "before_block (om s) n (simple - 1) = Some (Inl E_CANT_TRIG)"
        | j over where "before_block (om s) n (simple - 1) = Some (Inr (j, over))" "0 \<le> j" "j \<le> simple - 1"
          "\<forall>k. j < k \<and> k \<le> simple - 1 \<longrightarrow> omitted s k" "\<not> over \<longrightarrow> \<not> omitted s j"
        using Suc.IH [OF pos] by blast
      then show ?thesis
      proof cases
        case 2
        have "omitted s k" if "j < k" "k \<le> simple" for k
          using that 2(4) True by (cases "k = simple") auto
        then show ?thesis using 2 unfolding eq by auto
      next
        case 1
        then show ?thesis unfolding eq by (rule disjI1)
      qed
    qed
  next
    case False
    then have "before_block (om s) (Suc n) simple = Some (Inr (simple, n = 0))"
      using Suc.prems by (simp add: om_total [OF inv])
    then show ?thesis using False Suc.prems by force
  qed
qed force

text \<open>
  Going back to the start of a block of omitted days is safe when some earlier day is not
  omitted; without one the loop would test the day before the calendar begins.
\<close>

lemma back_to_block_spec:
  assumes inv: "inv s"
  shows "0 \<le> q \<Longrightarrow> q < start \<Longrightarrow> \<not> omitted s q \<Longrightarrow> \<exists>j over. back_to_block (om s) n start = Some (Inr (j, over))
    \<and> q < j \<and> j \<le> start \<and> (\<forall>k. j \<le> k \<and> k < start \<longrightarrow> omitted s k) \<and> (\<not> over \<longrightarrow> \<not> omitted s (j - 1))"
proof (induction n arbitrary: start)
  case (Suc n)
  show ?case
  proof (cases "omitted s (start - 1)")
    case True
    then have q: "q < start - 1" using Suc.prems by (cases "q = start - 1") auto
    obtain j over where j: "back_to_block (om s) n (start - 1) = Some (Inr (j, over))" "q < j" "j \<le> start - 1"
      "\<forall>k. j \<le> k \<and> k < start - 1 \<longrightarrow> omitted s k" "\<not> over \<longrightarrow> \<not> omitted s (j - 1)"
      using Suc.IH [OF Suc.prems(1) q Suc.prems(3)] by blast
    have "omitted s k" if "j \<le> k" "k < start" for k
      using that j(4) True by (cases "k = start - 1") auto
    moreover have "back_to_block (om s) (Suc n) start = Some (Inr (j, over))"
      using True q Suc.prems j(1) by (simp add: om_total [OF inv])
    ultimately show ?thesis using j(2,3,5) by force
  next
    case False
    then have "back_to_block (om s) (Suc n) start = Some (Inr (start, n = 0))"
      using Suc.prems by (simp add: om_total [OF inv])
    then show ?thesis using False Suc.prems by force
  qed
qed force

text \<open>Going back \<open>num\<close> days that are not omitted.\<close>

lemma back_days_spec:
  assumes inv: "inv s"
  shows "int n \<le> simple \<Longrightarrow> 0 \<le> num \<Longrightarrow> \<exists>j over. back_days (om s) n num simple = Some (Inr (j, over))
    \<and> 0 \<le> j \<and> j \<le> simple \<and> (\<not> over \<longrightarrow> int (card {k. j \<le> k \<and> k < simple \<and> \<not> omitted s k}) = num
      \<and> (0 < num \<longrightarrow> \<not> omitted s j))"
proof (induction n arbitrary: simple num)
  case (Suc n)
  show ?case
  proof (cases "num = 0")
    case False
    define num' where "num' = (if omitted s (simple - 1) then num else num - 1)"
    have "int n \<le> simple - 1" "0 \<le> num'" using Suc.prems False by (auto simp: num'_def)
    then obtain j over where j: "back_days (om s) n num' (simple - 1) = Some (Inr (j, over))" "0 \<le> j" "j \<le> simple - 1"
      "\<not> over \<longrightarrow> int (card {k. j \<le> k \<and> k < simple - 1 \<and> \<not> omitted s k}) = num' \<and> (0 < num' \<longrightarrow> \<not> omitted s j)"
      using Suc.IH by blast
    have eq: "back_days (om s) (Suc n) num simple = Some (Inr (j, over))"
      using False Suc.prems j(1) by (auto simp: om_total [OF inv] num'_def split: if_splits)
    have "{k. j \<le> k \<and> k < simple \<and> \<not> omitted s k} =
      (if omitted s (simple - 1) then {k. j \<le> k \<and> k < simple - 1 \<and> \<not> omitted s k}
       else insert (simple - 1) {k. j \<le> k \<and> k < simple - 1 \<and> \<not> omitted s k})"
      using j(3) by (auto simp: order.strict_iff_order)
    moreover have "finite {k. j \<le> k \<and> k < simple - 1 \<and> \<not> omitted s k}"
      by (rule finite_subset [of _ "{j..simple}"]) auto
    ultimately have "\<not> over \<longrightarrow> int (card {k. j \<le> k \<and> k < simple \<and> \<not> omitted s k}) = num"
      using j(4) by (auto simp: num'_def)
    moreover have "\<not> over \<longrightarrow> \<not> omitted s j"
    proof (cases "0 < num'")
      case True
      then show ?thesis using j(4) by blast
    next
      case no_more: False
      then have "num' = 0" "\<not> omitted s (simple - 1)"
        using False Suc.prems(2) by (auto simp: num'_def split: if_splits)
      then show ?thesis using j(1) by (cases n) auto
    qed
    ultimately show ?thesis using eq j(2,3) by force
  next
    case True
    moreover have "card {k. simple \<le> k \<and> k < simple \<and> \<not> omitted s k} = 0"
      by (subst card_eq_0_iff) auto
    ultimately show ?thesis using Suc.prems by (intro exI [of _ simple] exI [of _ "n = 0"]) auto
  qed
qed force

lemma before_skip_total:
  assumes inv: "inv s" and d: "0 \<le> simple"
  shows "apply_skip (om s) M trig simple \<noteq> None"
  using before_block_spec [OF inv d, of "nat (M + 1)"] after_block_spec [OF inv d, of "nat (M + 1)"]
  by (auto simp: apply_skip_def limited_def)

lemma GetNextTriggerDate_total:
  assumes inv: "inv s" and ok: "trig_ok trig" and rep: "0 \<le> trg_rep trig" and b: "trg_back trig = NO_BACK"
    and start: "0 \<le> start" and q: "trg_skip trig = AFTER_SKIP \<longrightarrow> (\<exists>q. 0 \<le> q \<and> q < start \<and> \<not> omitted s q)"
    and fits: "trg_rep trig = NO_REP \<or> start + trg_rep trig \<le> INT_MAX"
  shows "\<exists>nt. GetNextTriggerDate (om s) M cm trig start ns = Some nt
    \<and> (nt_err nt = None \<longrightarrow> nt_date nt \<noteq> -1 \<longrightarrow> 0 \<le> nt_date nt)"
proof -
  obtain st where st: "skip_start (om s) M trig start = Some st" "\<forall>j. st = Inr j \<longrightarrow> 0 \<le> j \<and> j \<le> start"
  proof (cases "trg_skip trig = AFTER_SKIP")
    case True
    then obtain q where "0 \<le> q" "q < start" "\<not> omitted s q" using q by blast
    then obtain j over where "back_to_block (om s) (nat (M + 1)) start = Some (Inr (j, over))" "q < j" "j \<le> start"
      using back_to_block_spec [OF inv] by blast
    then show thesis using that True \<open>0 \<le> q\<close> by (auto simp: skip_start_def)
  next
    case False
    then show thesis using that start by (simp add: skip_start_def)
  qed
  have rest: "\<exists>r. bind_sum (apply_back (om s) M trig simple)
      (\<lambda>simple. bind_sum (apply_rep trig j simple) (apply_skip (om s) M trig)) = Some r \<and> (\<forall>x. r = Inr x \<longrightarrow> 0 \<le> x)"
    if "0 \<le> j" "j \<le> start" "0 \<le> simple" for j simple
  proof -
    have "0 \<le> rep_from trig j simple" using rep_from_bounds(1) [OF rep that(3)] .
    moreover have "apply_rep trig j simple = Some (Inr (rep_from trig j simple))"
      using fits that by (intro apply_rep_fits [OF rep]) auto
    ultimately show ?thesis
      using b before_skip_total [OF inv, of "rep_from trig j simple"]
        before_block_spec [OF inv, of "rep_from trig j simple" "nat (M + 1)"]
        after_block_spec [OF inv, of "rep_from trig j simple" "nat (M + 1)"]
      by (auto simp: bind_sum_def apply_back_def apply_skip_def limited_def split: if_splits)
  qed
  show ?thesis
  proof (cases "\<not> is_todo trig \<and> trg_until trig \<noteq> NO_UNTIL \<and> trg_until trig < start
      \<or> \<not> cm \<and> is_todo trig \<and> complete_through trig \<noteq> NO_DATE \<and> complete_through trig \<ge> start")
    case True
    then show ?thesis by (auto simp: GetNextTriggerDate_def)
  next
    case go: False
    show ?thesis
    proof (cases st)
      case (Inl e)
      then show ?thesis using go st by (auto simp: GetNextTriggerDate_def)
    next
      case (Inr j)
      then have j: "0 \<le> j" "j \<le> start" using st by simp_all
      obtain sr where sr: "NextSimpleTrig j trig = Some sr" "\<forall>r. sr = Inr r \<longrightarrow> r = -1 \<or> 0 \<le> r"
        using NextSimpleTrig_returns [OF ok j(1)] by (auto simp: returns_def)
      show ?thesis
      proof (cases "\<exists>simple. sr = Inr simple \<and> simple \<noteq> -1")
        case False
        then show ?thesis using go st Inr sr
          by (cases sr) (auto simp: GetNextTriggerDate_def)
      next
        case True
        then obtain simple where simple: "sr = Inr simple" "simple \<noteq> -1" by blast
        then have "0 \<le> simple" using sr(2) by blast
        from rest [OF j this] obtain x where "bind_sum (apply_back (om s) M trig simple)
            (\<lambda>simple. bind_sum (apply_rep trig j simple) (apply_skip (om s) M trig)) = Some x" "\<forall>r. x = Inr r \<longrightarrow> 0 \<le> r"
          by blast
        then show ?thesis using go st Inr sr simple
          by (cases x) (auto simp: GetNextTriggerDate_def Let_def split: if_splits)
      qed
    qed
  qed
qed

end

section \<open>What the search returns\<close>

lemma before_block_stops: "before_block om n simple = Some (Inr (j, False)) \<Longrightarrow> om j = Some (Inr False)"
  by (induction n arbitrary: simple) (auto split: option.splits sum.splits if_splits)

lemma after_block_stops: "after_block om n simple = Some (Inr (j, False)) \<Longrightarrow> om j = Some (Inr False)"
  by (induction n arbitrary: simple) (auto split: option.splits sum.splits if_splits)

lemma limited_Some: "limited r = Some (Inr j) \<longleftrightarrow> r = Some (Inr (j, False))"
  by (cases r) (auto simp: limited_def split: sum.splits if_splits)

lemma apply_skip_stops:
  "apply_skip om M trig simple = Some (Inr j) \<Longrightarrow> trg_skip trig \<in> {BEFORE_SKIP, AFTER_SKIP} \<Longrightarrow>
   om j = Some (Inr False)"
  by (auto simp: apply_skip_def limited_Some split: if_splits dest: before_block_stops after_block_stops)

text \<open>A date that \<open>GetNextTriggerDate\<close> returns respects UNTIL, BEFORE and AFTER.\<close>

lemma GetNextTriggerDate_date:
  assumes "GetNextTriggerDate om M cm trig start ns = Some nt" "nt_err nt = None" "nt_date nt \<noteq> -1"
  shows "(trg_until trig = NO_UNTIL \<or> nt_date nt \<le> trg_until trig) \<and> \<not> nt_expired nt
    \<and> (trg_skip trig \<in> {BEFORE_SKIP, AFTER_SKIP} \<longrightarrow> om (nt_date nt) = Some (Inr False))"
proof -
  obtain st where st: "skip_start om M trig start = Some (Inr st)"
    using assms by (cases "skip_start om M trig start"; cases "the (skip_start om M trig start)")
      (auto simp: GetNextTriggerDate_def split: if_splits)
  obtain simple where simple: "NextSimpleTrig st trig = Some (Inr simple)" "simple \<noteq> -1"
    using assms st by (cases "NextSimpleTrig st trig"; cases "the (NextSimpleTrig st trig)")
      (auto simp: GetNextTriggerDate_def split: if_splits)
  let ?r = "bind_sum (apply_back om M trig simple) (\<lambda>simple. bind_sum (apply_rep trig st simple) (apply_skip om M trig))"
  obtain j where j: "?r = Some (Inr j)" "trg_until trig = NO_UNTIL \<or> j \<le> trg_until trig"
    "nt = \<lparr>nt_err = None, nt_date = j, nt_expired = False, nt_nextstart = simple + 1\<rparr>"
    using assms st simple by (cases ?r; cases "the ?r")
      (auto simp: GetNextTriggerDate_def Let_def split: if_splits)
  then obtain simple' where "apply_skip om M trig simple' = Some (Inr j)"
    by (auto simp: bind_sum_def split: option.splits sum.splits)
  then show ?thesis using apply_skip_stops j by auto
qed

lemma tz_retry_trig:
  assumes "tz_retry env today ddays tim result trig g = (retry, trig', g')"
  shows "\<exists>e. trig' = trig\<lparr>eventstart := e\<rparr>"
proof -
  have same: "trig = trig\<lparr>eventstart := eventstart trig\<rparr>" by (cases trig) simp
  have "trig' = trig \<or> (\<exists>e. trig' = trig\<lparr>eventstart := e\<rparr>)"
    using assms by (auto simp: tz_retry_def AdjustTriggerForTimeZone_def Let_def
        split: if_splits option.splits prod.splits)
  then show ?thesis using same by metis
qed

text \<open>What the clauses promise of a returned date.\<close>

definition trig_date_ok :: "omit_test \<Rightarrow> int \<Rightarrow> int \<Rightarrow> Trigger \<Rightarrow> int \<Rightarrow> bool" where
  "trig_date_ok om today ddays trig r \<longleftrightarrow>
    today \<le> r + ddays \<and> (trg_until trig = NO_UNTIL \<or> r \<le> trg_until trig)
    \<and> (trg_skip trig \<in> {SKIP_SKIP, BEFORE_SKIP, AFTER_SKIP} \<longrightarrow> om r = Some (Inr False))"

lemma trig_date_ok_update [simp]:
  "trig_date_ok om today ddays (trig\<lparr>eventstart := e\<rparr>) r = trig_date_ok om today ddays trig r"
  "trig_date_ok om today ddays (trig\<lparr>expired := x\<rparr>) r = trig_date_ok om today ddays trig r"
  by (simp_all add: trig_date_ok_def)

lemma trig_search_sound:
  "trig_search env om save today ddays tim n start ns sn trig g = Some (None, r, trig', g') \<Longrightarrow>
   r \<noteq> -1 \<Longrightarrow> trig_date_ok om today ddays trig r"
proof (induction n arbitrary: start ns sn trig g)
  case (Suc n)
  obtain nt where nt: "GetNextTriggerDate om (MaxSatIter env) (calmode env) trig start ns = Some nt"
    using Suc.prems by (auto split: option.splits)
  have err: "nt_err nt = None" and date: "nt_date nt \<noteq> -1"
    using Suc.prems nt by (auto simp: Let_def split: if_splits)
  note props = GetNextTriggerDate_date [OF nt err date]
  obtain omit where omit: "(if trg_skip trig = SKIP_SKIP then om (nt_date nt) else Some (Inr False)) = Some (Inr omit)"
    using Suc.prems nt err date props by (auto simp: Let_def split: if_splits option.splits sum.splits)
  obtain retry trig1 g1 where tz: "tz_retry env today ddays tim (nt_date nt) trig g = (retry, trig1, g1)"
    by (cases "tz_retry env today ddays tim (nt_date nt) trig g")
  obtain e where trig1: "trig1 = trig\<lparr>eventstart := e\<rparr>" using tz_retry_trig [OF tz] by blast
  let ?rec = "\<lambda>s n' sn'. trig_search env om save today ddays tim n s n' sn' trig1 g1 = Some (None, r, trig', g')"
  consider (here) "r = nt_date nt" "r + ddays \<ge> today" "trg_skip trig = SKIP_SKIP \<longrightarrow> \<not> omit"
    | (rec) s n' sn' where "?rec s n' sn'"
    using Suc.prems nt err date omit tz props trig1
    by (simp add: Let_def split: if_splits)
  then show ?case
  proof cases
    case here
    then show ?thesis using props omit by (auto simp: trig_date_ok_def split: if_splits)
  next
    case rec
    then show ?thesis using Suc.IH [OF rec Suc.prems(2)] by (simp add: trig1)
  qed
qed simp

lemma ComputeTriggerNoAdjust_sound:
  "ComputeTriggerNoAdjustDuration env om wdo today trig tim save ddays g = Some (None, r, trig', g') \<Longrightarrow>
   r \<noteq> -1 \<Longrightarrow> trig_date_ok om today ddays trig r"
  by (auto simp: ComputeTriggerNoAdjustDuration_def Let_def split: option.splits
      dest!: trig_search_sound)

section \<open>The search ends\<close>

lemma trig_ok_update [simp]:
  "trig_ok (trig\<lparr>eventstart := e\<rparr>) = trig_ok trig" "trig_ok (trig\<lparr>expired := x\<rparr>) = trig_ok trig"
  by (simp_all add: trig_ok_def)

text \<open>
  Room for \<open>n\<close> more repetitions below \<open>INT_MAX\<close>: each attempt of the search goes past the last
  date, or a repetition and a day further.
\<close>

definition last_base :: int where
  "last_base = 1461500"

definition rep_room :: "Trigger \<Rightarrow> nat \<Rightarrow> int \<Rightarrow> bool" where
  "rep_room trig n start \<longleftrightarrow> trg_rep trig = NO_REP \<or>
    full_date trig \<and> trg_y trig \<le> 5990 \<and> max start last_base + int n * (trg_rep trig + 1) \<le> INT_MAX"

lemma rep_room_update [simp]:
  "rep_room (trig\<lparr>eventstart := e\<rparr>) n start = rep_room trig n start"
  "rep_room (trig\<lparr>expired := x\<rparr>) n start = rep_room trig n start"
  by (simp_all add: rep_room_def full_date_def)

lemma rep_room_fits:
  assumes "rep_room trig (Suc n) start" "0 \<le> trg_rep trig"
  shows "trg_rep trig = NO_REP \<or> start + trg_rep trig \<le> INT_MAX"
proof (rule disjCI)
  assume "\<not> start + trg_rep trig \<le> INT_MAX"
  moreover have "0 \<le> int n * (trg_rep trig + 1)" using assms(2) by simp
  ultimately show "trg_rep trig = NO_REP" using assms(1) by (auto simp: rep_room_def algebra_simps)
qed

lemma rep_room_later:
  assumes "rep_room trig (Suc n) start" "0 \<le> trg_rep trig"
    "trg_rep trig \<noteq> NO_REP \<longrightarrow> start' \<le> max (start + trg_rep trig + 1) last_base"
  shows "rep_room trig n start'"
proof (cases "trg_rep trig = NO_REP")
  case False
  then have "max start' last_base \<le> max start last_base + (trg_rep trig + 1)" using assms(2,3) by auto
  moreover have "int (Suc n) * (trg_rep trig + 1) = (trg_rep trig + 1) + int n * (trg_rep trig + 1)"
    by (simp add: algebra_simps)
  ultimately show ?thesis using assms(1) False by (auto simp: rep_room_def)
qed (simp add: rep_room_def)

text \<open>A complete date, moved to a weekday or not, does not depend on where the search starts.\<close>

lemma NextSimpleTrig_full_base:
  assumes ok: "trig_ok trig" and full: "full_date trig" and yr: "trg_y trig \<le> 5990"
    and D: "NextSimpleTrig start trig = Some (Inr D)"
  shows "0 \<le> D \<and> D < last_base"
proof -
  let ?b = "DSE (trg_y trig) (trg_m trig) (trg_d trig)"
  note m = trig_ok_m [OF ok] and d = trig_ok_d(1) [OF ok] and y = trig_ok_y [OF ok]
  note N = NextSimpleTrig_full [OF ok full, of start]
  have day: "trg_d trig \<le> month_length (trg_y trig) (trg_m trig)" using N D by (auto split: if_splits)
  then have date: "DateOK (trg_y trig) (trg_m trig) (trg_d trig)"
    using full m d y yr by (auto simp: DateOK_is_date full_date_def)
  then have b: "0 \<le> ?b" "?b \<le> 1461400" using DSE_upper DSE_bounds(3) by (auto simp: DateOK_is_date)
  show ?thesis
  proof (cases "trg_wd trig = NO_WD")
    case True
    then show ?thesis using N D day b by (simp add: last_base_def)
  next
    case False
    note wd = trig_ok_wd [OF ok False]
    have A: "ADVANCE_TO_WD ?b (trg_wd trig) = Some D"
      using N D day False by (cases "ADVANCE_TO_WD ?b (trg_wd trig)") simp_all
    obtain j where "ADVANCE_TO_WD ?b (trg_wd trig) = Some j" "?b \<le> j" "j \<le> ?b + 6" by (rule ADVANCE_obtain [OF wd b(1)])
    then have "?b \<le> D" "D \<le> ?b + 6" using A by simp_all
    then show ?thesis using b by (simp add: last_base_def)
  qed
qed

lemma GetNextTriggerDate_next:
  assumes G: "GetNextTriggerDate om M cm trig start ns = Some nt" "nt_err nt = None" "nt_date nt \<noteq> -1"
    and ok: "trig_ok trig" "full_date trig" "trg_y trig \<le> 5990" and b: "trg_back trig = NO_BACK" and rep: "0 \<le> trg_rep trig"
  shows "nt_nextstart nt \<le> last_base \<and>
    (trg_skip trig = SKIP_SKIP \<longrightarrow> nt_date nt + 1 \<le> max (start + trg_rep trig + 1) last_base)"
proof -
  obtain st where st: "skip_start om M trig start = Some (Inr st)"
    using G by (cases "skip_start om M trig start"; cases "the (skip_start om M trig start)")
      (auto simp: GetNextTriggerDate_def split: if_splits)
  obtain D where D: "NextSimpleTrig st trig = Some (Inr D)" "D \<noteq> -1"
    using G st by (cases "NextSimpleTrig st trig"; cases "the (NextSimpleTrig st trig)")
      (auto simp: GetNextTriggerDate_def split: if_splits)
  note base = NextSimpleTrig_full_base [OF ok D(1)]
  let ?r = "bind_sum (apply_back om M trig D) (\<lambda>simple. bind_sum (apply_rep trig st simple) (apply_skip om M trig))"
  obtain j where j: "?r = Some (Inr j)" "nt_date nt = j" "nt_nextstart nt = D + 1"
    using G st D by (cases ?r; cases "the ?r") (auto simp: GetNextTriggerDate_def Let_def split: if_splits)
  have "j \<le> max D (start + trg_rep trig)" if skip: "trg_skip trig = SKIP_SKIP"
  proof -
    have "apply_rep trig st D = Some (Inr j)"
      using j(1) b skip by (auto simp: bind_sum_def apply_back_def apply_skip_def split: option.splits sum.splits)
    then have "j = rep_from trig start D" using apply_rep_Some [OF rep, of st D] st skip by (simp add: skip_start_def)
    then show ?thesis using rep_from_bounds(2) [OF rep] base by simp
  qed
  then show ?thesis using j base by auto
qed

text \<open>
  What the search relies on: a trigger as the parser leaves it, no BACK, and, for AFTER,
  some day before the start that is not omitted.
\<close>

context omit_provider
begin

definition searchable :: "'s \<Rightarrow> Trigger \<Rightarrow> nat \<Rightarrow> int \<Rightarrow> bool" where
  "searchable s trig n start \<longleftrightarrow> trig_ok trig \<and> 0 \<le> trg_rep trig \<and> trg_back trig = NO_BACK \<and> 0 \<le> start
    \<and> rep_room trig n start
    \<and> (trg_skip trig = AFTER_SKIP \<longrightarrow> (\<exists>q. 0 \<le> q \<and> q < start \<and> \<not> omitted s q))"

lemma searchable_later:
  assumes "searchable s trig (Suc n) start" "start \<le> start'"
    "trg_rep trig \<noteq> NO_REP \<longrightarrow> start' \<le> max (start + trg_rep trig + 1) last_base"
  shows "searchable s trig n start'"
  using assms rep_room_later [of trig n start start'] unfolding searchable_def by force

lemma searchable_update [simp]:
  "searchable s (trig\<lparr>eventstart := e\<rparr>) n start = searchable s trig n start"
  "searchable s (trig\<lparr>expired := x\<rparr>) n start = searchable s trig n start"
  by (simp_all add: searchable_def)

lemma searchable_date:
  assumes "inv s" "searchable s trig (Suc n) start"
  shows "\<exists>nt. GetNextTriggerDate (om s) M cm trig start ns = Some nt
    \<and> (nt_err nt = None \<longrightarrow> nt_date nt \<noteq> -1 \<longrightarrow> 0 \<le> nt_date nt)"
proof -
  have s: "trig_ok trig" "0 \<le> trg_rep trig" "trg_back trig = NO_BACK" "0 \<le> start" "rep_room trig (Suc n) start"
    "trg_skip trig = AFTER_SKIP \<longrightarrow> (\<exists>q. 0 \<le> q \<and> q < start \<and> \<not> omitted s q)"
    using assms(2) unfolding searchable_def by auto
  show ?thesis by (rule GetNextTriggerDate_total [OF assms(1) s(1-4,6) rep_room_fits [OF s(5,2)]])
qed

lemma trig_search_total:
  assumes inv: "inv s"
  shows "searchable s trig n start \<Longrightarrow>
    trig_search env (om s) save today ddays tim n start ns sn trig g \<noteq> None"
proof (induction n arbitrary: start ns sn trig g)
  case (Suc n)
  obtain nt where nt: "GetNextTriggerDate (om s) (MaxSatIter env) (calmode env) trig start ns = Some nt"
    "nt_err nt = None \<longrightarrow> nt_date nt \<noteq> -1 \<longrightarrow> 0 \<le> nt_date nt"
    using searchable_date [OF inv Suc.prems, of "MaxSatIter env" "calmode env" ns]
    by (elim exE conjE) (rule that)
  define trig0 where "trig0 = (if nt_expired nt then trig\<lparr>expired := True\<rparr> else trig)"
  have s0: "searchable s trig0 (Suc n) start" "trg_rep trig0 = trg_rep trig" "trg_skip trig0 = trg_skip trig"
    using Suc.prems by (simp_all add: trig0_def)
  obtain retry trig1 g1 where tz: "tz_retry env today ddays tim (nt_date nt) trig0 g = (retry, trig1, g1)"
    by (cases "tz_retry env today ddays tim (nt_date nt) trig0 g")
  obtain e where trig1: "trig1 = trig0\<lparr>eventstart := e\<rparr>" using tz_retry_trig [OF tz] by blast
  have s1: "searchable s trig1 (Suc n) start" "trg_rep trig1 = trg_rep trig" "trg_skip trig1 = trg_skip trig"
    using s0 by (simp_all add: trig1)
  have rec: "trig_search env (om s) save today ddays tim n st ns sn trig1 g1 \<noteq> None"
    if "start \<le> st" "trg_rep trig \<noteq> NO_REP \<longrightarrow> st \<le> max (start + trg_rep trig + 1) last_base" for st ns sn
    using Suc.IH [OF searchable_later [OF s1(1) that(1)]] that(2) s1(2) by simp
  show ?case
  proof (cases "nt_err nt = None \<and> nt_date nt \<noteq> -1")
    case True
    define omit where "omit = (trg_skip trig = SKIP_SKIP \<and> omitted s (nt_date nt))"
    have om: "(if trg_skip trig = SKIP_SKIP then om s (nt_date nt) else Some (Inr False)) = Some (Inr omit)"
      using nt(2) True om_total [OF inv] by (simp add: omit_def)
    have room: "nt_nextstart nt \<le> max (start + trg_rep trig + 1) last_base"
      "trg_skip trig = SKIP_SKIP \<Longrightarrow> nt_date nt + 1 \<le> max (start + trg_rep trig + 1) last_base" if "trg_rep trig \<noteq> NO_REP"
    proof -
      have "trig_ok trig" "full_date trig" "trg_y trig \<le> 5990" "trg_back trig = NO_BACK" "0 \<le> trg_rep trig"
        using Suc.prems that by (auto simp: searchable_def rep_room_def)
      from GetNextTriggerDate_next [OF nt(1) _ _ this] True
      show "nt_nextstart nt \<le> max (start + trg_rep trig + 1) last_base"
        "trg_skip trig = SKIP_SKIP \<Longrightarrow> nt_date nt + 1 \<le> max (start + trg_rep trig + 1) last_base" by auto
    qed
    have "0 \<le> trg_rep trig" using Suc.prems by (simp add: searchable_def)
    then have tries: "trig_search env (om s) save today ddays tim n (start + 1) (start + 1) sn trig1 g1 \<noteq> None"
      "start \<le> nt_date nt \<Longrightarrow> trg_skip trig = SKIP_SKIP \<Longrightarrow>
        trig_search env (om s) save today ddays tim n (nt_date nt + 1) (nt_date nt + 1) sn trig1 g1 \<noteq> None"
      "start < nt_nextstart nt \<Longrightarrow>
        trig_search env (om s) save today ddays tim n (nt_nextstart nt) (nt_nextstart nt) sn trig1 g1 \<noteq> None" for sn
      using room by (intro rec; auto)+
    show ?thesis
      using True nt(1) tz om s0(3) s1(3) by (simp add: Let_def trig0_def [symmetric] not_le tries del: not_None_eq)
  qed (use nt(1) in \<open>auto simp: Let_def\<close>)
qed simp

end

text \<open>The omit context of \<^verbatim>\<open>omit.c\<close> provides the test, for triggers without an OMITFUNC.\<close>

definition omit_test_of :: "ufuncs \<Rightarrow> Trigger \<Rightarrow> omit_state \<Rightarrow> omit_test" where
  "omit_test_of uf trig s d = IsOmitted uf s d (localomit trig) (omitfunc trig)"

definition omit_test_plain :: "int \<Rightarrow> omit_state \<Rightarrow> omit_test" where
  "omit_test_plain lomit s d = IsOmitted \<lparr>UserFuncExists = \<lambda>_. -1, call_date = \<lambda>_ _. Inl E_UNDEF_FUNC\<rparr> s d lomit []"

lemma omit_test_plain: "omitfunc trig = [] \<Longrightarrow> omit_test_of uf trig s = omit_test_plain (localomit trig) s"
  by (simp add: fun_eq_iff omit_test_of_def omit_test_plain_def IsOmitted_def)

interpretation omit_context: omit_provider omit_inv "omit_test_plain lomit" "\<lambda>s d. omitted_day s lomit d"
  for lomit
  by unfold_locales (simp add: omit_test_plain_def IsOmitted_omitted_day)

lemma trig_problem_update [simp]:
  "trig_problem wdo (trig\<lparr>expired := x\<rparr>) tim start = trig_problem wdo trig tim start"
  by (simp add: trig_problem_def)

text \<open>What a trigger must fulfil for the search from \<open>today\<close> to end.\<close>

definition repeats_soon :: "Trigger \<Rightarrow> int \<Rightarrow> bool" where
  "repeats_soon trig today \<longleftrightarrow> 0 \<le> trg_rep trig \<and>
    (trg_rep trig \<noteq> NO_REP \<longrightarrow> trg_rep trig \<le> 1000000 \<and> trg_y trig \<le> 5990 \<and> today \<le> 1000000000)"

definition working_day_before :: "omit_state \<Rightarrow> Trigger \<Rightarrow> int \<Rightarrow> bool" where
  "working_day_before s trig start \<longleftrightarrow>
    (trg_skip trig = AFTER_SKIP \<longrightarrow> (\<exists>q. 0 \<le> q \<and> q < start \<and> \<not> omitted_day s (localomit trig) q))"

lemma working_day_before_later: "working_day_before s trig start \<Longrightarrow> start \<le> start' \<Longrightarrow> working_day_before s trig start'"
  by (force simp: working_day_before_def)

lemma ComputeTriggerNoAdjust_total:
  assumes "omit_inv s" and ofn: "omitfunc trig = []"
    and t: "trig_ok trig" "trg_back trig = NO_BACK" "repeats_soon trig today" "0 \<le> ddays"
      "working_day_before s trig (today - ddays)"
  shows "ComputeTriggerNoAdjustDuration env (omit_test_of uf trig s) wdo today trig tim save ddays g \<noteq> None"
proof (cases "trig_problem wdo trig tim (today - ddays)")
  case (Some e)
  then show ?thesis by (simp add: ComputeTriggerNoAdjustDuration_def Let_def)
next
  case None
  then have start: "0 \<le> today - ddays" and full: "trg_rep trig \<noteq> NO_REP \<Longrightarrow> full_date trig"
    by (auto simp: trig_problem_def full_date_def split: if_splits)
  have "max (today - ddays) last_base + int TRIG_ATTEMPTS * (trg_rep trig + 1) \<le> INT_MAX" if "trg_rep trig \<noteq> NO_REP"
    using t(3,4) that by (auto simp: repeats_soon_def last_base_def TRIG_ATTEMPTS_def)
  then have "rep_room trig TRIG_ATTEMPTS (today - ddays)"
    using full t(3) by (auto simp: rep_room_def repeats_soon_def)
  then have "omit_context.searchable (localomit trig) s trig TRIG_ATTEMPTS (today - ddays)"
    using t start by (simp add: omit_context.searchable_def working_day_before_def repeats_soon_def)
  then show ?thesis
    using omit_context.trig_search_total [OF assms(1), of "localomit trig" "trig\<lparr>expired := False\<rparr>" TRIG_ATTEMPTS "today - ddays"]
      omit_context.searchable_update(2) None
    by (simp add: ComputeTriggerNoAdjustDuration_def Let_def omit_test_plain [OF ofn] split: option.split)
qed

section \<open>Simple reminders\<close>

text \<open>
  A reminder without clauses: the search returns the first match from today on, if UNTIL
  allows it.
\<close>

definition in_until :: "Trigger \<Rightarrow> int \<Rightarrow> bool" where
  "in_until trig k \<longleftrightarrow> trg_until trig = NO_UNTIL \<or> k \<le> trg_until trig"

lemma in_until_update [simp]: "in_until (trig\<lparr>expired := x\<rparr>) k = in_until trig k"
  by (simp add: in_until_def)

lemma next_of_until:
  assumes "next_of P start r" "0 \<le> start"
  shows "next_of (\<lambda>k. P k \<and> in_until trig k) start (if r \<noteq> -1 \<and> in_until trig r then r else -1)"
proof (cases "r \<noteq> -1 \<and> in_until trig r")
  case True
  then show ?thesis using assms by (auto simp: next_of_def)
next
  case False
  have "\<not> (P k \<and> in_until trig k)" if k: "start \<le> k" for k
  proof
    assume *: "P k \<and> in_until trig k"
    then have "r \<noteq> -1" "\<not> k < r" using assms(1) k by (auto simp: next_of_def split: if_splits)
    then show False using * False by (auto simp: in_until_def)
  qed
  then show ?thesis using False by (auto simp: next_of_def)
qed

lemma GetNextTriggerDate_simple:
  assumes plain: "no_rescan trig" "\<not> is_todo trig"
    and r: "NextSimpleTrig start trig = Some (Inr r)" "next_of P start r" and s: "0 \<le> start"
  shows "\<exists>nt. GetNextTriggerDate om M cm trig start ns = Some nt \<and> nt_err nt = None
    \<and> nt_date nt = (if r \<noteq> -1 \<and> in_until trig r then r else -1)"
proof (cases "trg_until trig \<noteq> NO_UNTIL \<and> trg_until trig < start")
  case True
  then have "\<not> (r \<noteq> -1 \<and> in_until trig r)" using r(2) by (auto simp: next_of_def in_until_def split: if_splits)
  then show ?thesis using True plain by (auto simp: GetNextTriggerDate_def)
next
  case False
  then show ?thesis using plain r(1)
    by (cases "r = -1"; cases "trg_until trig \<noteq> NO_UNTIL \<and> trg_until trig < r")
      (auto simp: GetNextTriggerDate_def skip_start_def no_rescan_def Let_def bind_sum_def
          apply_back_def apply_rep_def apply_skip_def in_until_def)
qed

lemma ComputeTrigger_plain:
  assumes ok: "trig_ok trig" and plain: "no_rescan trig" "\<not> is_todo trig" "tz trig = None"
    and nf: "\<not> full_date trig" "day_in_month trig"
    and yr: "wd_day_of_year trig \<Longrightarrow> trg_d trig \<noteq> 29 \<and> DSEYear today \<le> trg_y trig"
    and today: "0 \<le> today" and np: "trig_problem wdo trig tim today = None"
  obtains r trig' g' where
    "ComputeTriggerNoAdjustDuration env om wdo today trig tim save 0 g = Some (None, r, trig', g')"
    "next_of (\<lambda>k. trig_match trig k \<and> in_until trig k) today r"
    "expired trig' \<longleftrightarrow> r = -1"
proof -
  let ?trig = "trig\<lparr>expired := False\<rparr>"
  obtain r where r: "NextSimpleTrig today trig = Some (Inr r)" "next_of (trig_match trig) today r"
    using NextSimpleTrig_spec [OF ok today nf yr] by blast
  define r' where "r' = (if r \<noteq> -1 \<and> in_until trig r then r else -1)"
  have r'': "next_of (\<lambda>k. trig_match trig k \<and> in_until trig k) today r'"
    unfolding r'_def by (rule next_of_until [OF r(2) today])
  have "NextSimpleTrig today ?trig = Some (Inr r)" using r(1) by (simp add: NextSimpleTrig_def)
  moreover have "no_rescan ?trig" "\<not> is_todo ?trig" using plain by (simp_all add: no_rescan_def)
  ultimately obtain nt where nt: "GetNextTriggerDate om (MaxSatIter env) (calmode env) ?trig today 0 = Some nt"
    "nt_err nt = None" "nt_date nt = r'"
    using GetNextTriggerDate_simple [of ?trig today r "trig_match trig" om "MaxSatIter env" "calmode env" 0]
      r(2) today by (auto simp only: r'_def in_until_update)
  have np': "trig_problem wdo ?trig tim today = None" using np by simp
  have step: "\<exists>trig' g'. trig_search env om save today 0 tim (Suc n) today 0 0 ?trig g = Some (None, r', trig', g')
      \<and> (expired trig' \<longleftrightarrow> r' = -1)" for g n
  proof (cases "r' = -1")
    case True
    then show ?thesis using nt by (simp add: Let_def)
  next
    case False
    then have "\<not> nt_expired nt" using GetNextTriggerDate_date [OF nt(1,2)] nt(3) by simp
    moreover have "today \<le> r'" using r'' False by (simp add: next_of_def)
    ultimately show ?thesis
      using nt False plain by (simp add: Let_def tz_retry_def no_rescan_def last_date_def)
  qed
  have "TRIG_ATTEMPTS = Suc 499" by (simp add: TRIG_ATTEMPTS_def)
  then show thesis
    using that [OF _ r''] step [of 499] np' by (force simp: ComputeTriggerNoAdjustDuration_def Let_def)
qed

section \<open>Repeating reminders\<close>

text \<open>
  A full date with a repetition: the days are \<open>D\<close>, \<open>D + rep\<close>, \<open>D + 2 rep\<close> and so on.
\<close>

definition rep_match :: "Trigger \<Rightarrow> int \<Rightarrow> bool" where
  "rep_match trig k \<longleftrightarrow> (\<exists>i\<ge>0. k = DSE (trg_y trig) (trg_m trig) (trg_d trig) + i * trg_rep trig)"

lemma rep_from_update [simp]: "rep_from (trig\<lparr>expired := x\<rparr>) start D = rep_from trig start D"
  by (simp add: rep_from_def Let_def)

lemma rep_from_spec:
  assumes rep: "0 < trg_rep trig" and D: "0 \<le> D" "0 \<le> start"
  shows "next_of (\<lambda>k. \<exists>i\<ge>0. k = D + i * trg_rep trig) start (rep_from trig start D)"
proof (cases "D < start")
  case False
  show ?thesis
  proof (rule next_ofI)
    fix k assume "start \<le> k" "k < rep_from trig start D" "\<exists>i\<ge>0. k = D + i * trg_rep trig"
    then obtain i where i: "0 \<le> i" "D + i * trg_rep trig < D" using False by (auto simp: rep_from_def)
    moreover have "0 \<le> i * trg_rep trig" using rep i(1) by (intro mult_nonneg_nonneg) auto
    ultimately show False by linarith
  qed (use False D in \<open>auto simp: rep_from_def intro: exI [of _ 0]\<close>)
next
  case True
  let ?n = "trg_rep trig" and ?q = "(start - D) div trg_rep trig"
  define e where "e = (if D + ?q * ?n < start then 1 else 0 :: int)"
  have q0: "0 \<le> ?q" using True rep by (simp add: pos_imp_zdiv_nonneg_iff)
  have qle: "?q * ?n \<le> start - D" using rep by (simp add: mult.commute minus_mod_eq_mult_div [symmetric])
  have qlt: "start - D < (?q + 1) * ?n"
  proof -
    have "(start - D) mod ?n < ?n" using rep by simp
    moreover have "?q * ?n + (start - D) mod ?n = start - D" by (rule div_mult_mod_eq)
    moreover have "(?q + 1) * ?n = ?q * ?n + ?n" by (simp add: algebra_simps)
    ultimately show ?thesis by linarith
  qed
  have eq: "rep_from trig start D = D + (?q + e) * ?n"
    using True rep by (auto simp: rep_from_def Let_def e_def algebra_simps)
  show ?thesis unfolding eq
  proof (rule next_ofI)
    show "start \<le> D + (?q + e) * ?n" using qlt by (auto simp: e_def algebra_simps)
    then show "D + (?q + e) * ?n \<noteq> -1" using D by simp
    show "\<exists>i\<ge>0. D + (?q + e) * ?n = D + i * ?n" using q0 by (intro exI [of _ "?q + e"]) (simp add: e_def)
    fix k assume k: "start \<le> k" "k < D + (?q + e) * ?n" "\<exists>i\<ge>0. k = D + i * ?n"
    then obtain i where i: "k = D + i * ?n" by blast
    then have "i * ?n < (?q + e) * ?n" using k(2) by simp
    then have "i < ?q + e" using rep by (simp add: mult_less_cancel_right)
    then have "i \<le> ?q" "e = 0 \<Longrightarrow> i < ?q" by (auto simp: e_def split: if_splits)
    then have "i * ?n \<le> ?q * ?n" using rep by simp
    moreover have "i * ?n < ?q * ?n" if "e = 0" using \<open>e = 0 \<Longrightarrow> i < ?q\<close> that rep by simp
    ultimately show False using k(1) i qle by (auto simp: e_def split: if_splits)
  qed
qed

lemma GetNextTriggerDate_rep:
  assumes plain: "trg_back trig = NO_BACK" "trg_skip trig = NO_SKIP" "\<not> is_todo trig" and rep: "trg_rep trig \<noteq> NO_REP"
    and r: "NextSimpleTrig start trig = Some (Inr D)" "D \<noteq> -1" "next_of P start (rep_from trig start D)"
    and s: "0 \<le> start" and fits: "0 \<le> trg_rep trig" "0 \<le> D" "start + trg_rep trig \<le> INT_MAX"
  shows "\<exists>nt. GetNextTriggerDate om M cm trig start ns = Some nt \<and> nt_err nt = None
    \<and> nt_date nt = (if in_until trig (rep_from trig start D) then rep_from trig start D else -1)"
proof (cases "trg_until trig \<noteq> NO_UNTIL \<and> trg_until trig < start")
  case True
  then have "\<not> in_until trig (rep_from trig start D) \<or> rep_from trig start D = -1"
    using r(3) by (auto simp: next_of_def in_until_def split: if_splits)
  then show ?thesis using True plain by (auto simp: GetNextTriggerDate_def)
next
  case False
  then show ?thesis using plain rep r(1,2) apply_rep_fits [OF fits(1,2)] fits(3)
    by (cases "trg_until trig \<noteq> NO_UNTIL \<and> trg_until trig < rep_from trig start D")
      (auto simp: GetNextTriggerDate_def skip_start_def Let_def bind_sum_def
          apply_back_def apply_skip_def in_until_def)
qed

lemma ComputeTrigger_repeating:
  assumes ok: "trig_ok trig" and plain: "trg_back trig = NO_BACK" "trg_skip trig = NO_SKIP" "\<not> is_todo trig" "tz trig = None"
    and full: "full_date trig" "trg_wd trig = NO_WD" "trg_d trig \<le> month_length (trg_y trig) (trg_m trig)"
    and rep: "0 < trg_rep trig" and today: "0 \<le> today" "today + trg_rep trig \<le> INT_MAX" and np: "trig_problem wdo trig tim today = None"
  obtains r trig' g' where
    "ComputeTriggerNoAdjustDuration env om wdo today trig tim save 0 g = Some (None, r, trig', g')"
    "next_of (\<lambda>k. rep_match trig k \<and> in_until trig k) today r"
    "expired trig' \<longleftrightarrow> r = -1"
proof -
  let ?trig = "trig\<lparr>expired := False\<rparr>"
  define D where "D = DSE (trg_y trig) (trg_m trig) (trg_d trig)"
  have D: "0 \<le> D" unfolding D_def
    using full(1) trig_ok_m [OF ok] trig_ok_d(1) [OF ok] trig_ok_y [OF ok]
    by (intro DSE_base) (auto simp: full_date_def)
  define r where "r = rep_from trig today D"
  have r: "next_of (rep_match trig) today r"
    using rep_from_spec [OF rep D today(1)] by (simp add: r_def rep_match_def [abs_def] D_def)
  have "r \<noteq> -1"
  proof
    assume "r = -1"
    then have none: "\<not> rep_match trig k" if "today \<le> k" for k using r that by (auto simp: next_of_def)
    have "today \<le> today * trg_rep trig" using rep today(1) by (simp add: mult_le_cancel_left1)
    then have "today \<le> D + today * trg_rep trig" using D by linarith
    moreover have "rep_match trig (D + today * trg_rep trig)"
      using today(1) by (auto simp: rep_match_def D_def)
    ultimately show False using none by blast
  qed
  define r' where "r' = (if in_until trig r then r else -1)"
  have r'': "next_of (\<lambda>k. rep_match trig k \<and> in_until trig k) today r'"
    using next_of_until [OF r today(1), of trig] \<open>r \<noteq> -1\<close> by (simp add: r'_def)
  have "NextSimpleTrig today ?trig = Some (Inr D)"
    using NextSimpleTrig_full [of ?trig today] ok full by (simp add: full_date_def D_def)
  then obtain nt where nt: "GetNextTriggerDate om (MaxSatIter env) (calmode env) ?trig today 0 = Some nt"
    "nt_err nt = None" "nt_date nt = r'"
    using GetNextTriggerDate_rep [of ?trig today D "rep_match trig" om "MaxSatIter env" "calmode env" 0]
      plain rep D r today by (auto simp: r'_def r_def)
  have np': "trig_problem wdo ?trig tim today = None" using np by simp
  have step: "\<exists>trig' g'. trig_search env om save today 0 tim (Suc n) today 0 0 ?trig g = Some (None, r', trig', g')
      \<and> (expired trig' \<longleftrightarrow> r' = -1)" for g n
  proof (cases "r' = -1")
    case True
    then show ?thesis using nt by (simp add: Let_def)
  next
    case False
    then have "\<not> nt_expired nt" using GetNextTriggerDate_date [OF nt(1,2)] nt(3) by simp
    moreover have "today \<le> r'" using r'' False by (simp add: next_of_def)
    ultimately show ?thesis
      using nt False plain by (simp add: Let_def tz_retry_def last_date_def)
  qed
  have "TRIG_ATTEMPTS = Suc 499" by (simp add: TRIG_ATTEMPTS_def)
  then show thesis
    using that [OF _ r''] step [of 499] np' by (force simp: ComputeTriggerNoAdjustDuration_def Let_def)
qed

section \<open>The day of the reminder\<close>

lemma duration_days_save [simp]: "duration_days (save_event r trig tim) = duration_days trig"
  by (simp add: save_event_def Let_def)

lemma AdjustTriggerForDuration_day:
  "AdjustTriggerForDuration today r trig tim save g = (r', trig', tim', g') \<Longrightarrow>
   r' = (if r < today \<and> today \<le> r + duration_days trig then today else r)"
  by (auto simp: AdjustTriggerForDuration_def Let_def split: if_splits)

text \<open>The search changes two members of the trigger.\<close>

definition searched :: "Trigger \<Rightarrow> Trigger \<Rightarrow> bool" where
  "searched trig trig' \<longleftrightarrow> trig'\<lparr>expired := False, eventstart := 0\<rparr> = trig\<lparr>expired := False, eventstart := 0\<rparr>"

lemma searched_refl [simp]: "searched trig trig"
  by (simp add: searched_def)

lemma searched_update [simp]:
  "searched trig trig' \<Longrightarrow> searched trig (trig'\<lparr>expired := x\<rparr>)"
  "searched trig trig' \<Longrightarrow> searched trig (trig'\<lparr>eventstart := v\<rparr>)"
  by (auto simp: searched_def)

lemma searched_trans: "searched t u \<Longrightarrow> searched u v \<Longrightarrow> searched t v"
  by (auto simp: searched_def)

lemma searchedD:
  assumes "searched trig trig'"
  shows "duration_days trig' = duration_days trig" "trig_ok trig' = trig_ok trig" "trg_back trig' = trg_back trig"
    "repeats_soon trig' today = repeats_soon trig today" "omitfunc trig' = omitfunc trig"
    "working_day_before s trig' start = working_day_before s trig start"
    "omit_test_of uf trig' s = omit_test_of uf trig s"
proof -
  have f: "f (trig'\<lparr>expired := False, eventstart := 0\<rparr>) = f (trig\<lparr>expired := False, eventstart := 0\<rparr>)" for f :: "Trigger \<Rightarrow> 'b"
    using assms by (simp add: searched_def)
  show "duration_days trig' = duration_days trig" "trig_ok trig' = trig_ok trig" "trg_back trig' = trg_back trig"
    "repeats_soon trig' today = repeats_soon trig today" "omitfunc trig' = omitfunc trig"
    "working_day_before s trig' start = working_day_before s trig start"
    "omit_test_of uf trig' s = omit_test_of uf trig s"
    using f [of duration_days] f [of trig_ok] f [of trg_back] f [of "\<lambda>t. repeats_soon t today"] f [of omitfunc]
      f [of "\<lambda>t. working_day_before s t start"] f [of "\<lambda>t. omit_test_of uf t s"]
    by (simp_all add: repeats_soon_def working_day_before_def omit_test_of_def [abs_def])
qed

lemma trig_search_keeps:
  "trig_search env om save today ddays tim n start ns sn trig g = Some (e, r, trig', g') \<Longrightarrow> searched trig trig'"
proof (induction n arbitrary: start ns sn trig g)
  case (Suc n)
  obtain nt where nt: "GetNextTriggerDate om (MaxSatIter env) (calmode env) trig start ns = Some nt"
    using Suc.prems by (auto split: option.splits)
  define trig0 where "trig0 = (if nt_expired nt then trig\<lparr>expired := True\<rparr> else trig)"
  obtain retry trig1 g1 where tz: "tz_retry env today ddays tim (nt_date nt) trig0 g = (retry, trig1, g1)"
    by (cases "tz_retry env today ddays tim (nt_date nt) trig0 g")
  obtain x where trig1: "trig1 = trig0\<lparr>eventstart := x\<rparr>" using tz_retry_trig [OF tz] by blast
  have d: "searched trig trig0" "searched trig trig1" by (simp_all add: trig1 trig0_def)
  have rec: "trig_search env om save today ddays tim n st ns sn trig1 g1 = Some (e, r, trig', g') \<Longrightarrow> searched trig trig'"
    for st ns sn using Suc.IH searched_trans [OF d(2)] by blast
  note prems = Suc.prems [unfolded trig_search.simps nt option.case Let_def trig0_def [symmetric]]
  show ?case
    using prems tz d rec by (auto split: if_splits option.splits sum.splits)
qed simp

lemma ComputeTriggerNoAdjust_keeps:
  assumes "ComputeTriggerNoAdjustDuration env om wdo today trig tim save ddays g = Some (e, r, trig', g')"
  shows "searched trig trig'"
proof -
  have "searched (trig\<lparr>expired := False\<rparr>) trig' \<Longrightarrow> searched trig trig'"
    using searched_trans [of trig "trig\<lparr>expired := False\<rparr>" trig'] by simp
  then show ?thesis using assms
    by (auto simp: ComputeTriggerNoAdjustDuration_def Let_def split: option.splits dest!: trig_search_keeps)
qed

lemma ComputeTrigger_total:
  assumes "omit_inv s" "omitfunc trig = []"
    and t: "trig_ok trig" "trg_back trig = NO_BACK" "repeats_soon trig today" "0 \<le> duration_days trig"
      "working_day_before s trig (today - duration_days trig)"
  shows "ComputeTrigger env (omit_test_of uf trig s) wdo today trig tim save g \<noteq> None"
proof -
  have "working_day_before s trig (today - 0)" using t(4) by (intro working_day_before_later [OF t(5)]) simp
  then obtain e r trig1 g1 where one:
    "ComputeTriggerNoAdjustDuration env (omit_test_of uf trig s) wdo today trig tim save 0 g = Some (e, r, trig1, g1)"
    using ComputeTriggerNoAdjust_total [OF assms(1-2) t(1-3), of 0 env uf wdo tim save g]
    by (cases "ComputeTriggerNoAdjustDuration env (omit_test_of uf trig s) wdo today trig tim save 0 g") auto
  note keep = searchedD [OF ComputeTriggerNoAdjust_keeps [OF one]]
  have "ComputeTriggerNoAdjustDuration env (omit_test_of uf trig s) wdo today trig1 tim save (duration_days trig1) g1 \<noteq> None"
    using ComputeTriggerNoAdjust_total [of s trig1 today "duration_days trig1" env uf] assms keep by simp
  then show ?thesis using one
    by (auto simp: ComputeTrigger_def Let_def split: option.split prod.split)
qed

text \<open>A date that \<open>ComputeTrigger\<close> returns is never in the past.\<close>

lemma ComputeTrigger_day:
  assumes c: "ComputeTrigger env om wdo today trig tim save g = Some (None, r, trig', tim', g')"
    and r: "r \<noteq> -1" and dd: "0 \<le> duration_days trig"
  shows "today \<le> r"
proof -
  obtain r1 trig1 g1 where one: "ComputeTriggerNoAdjustDuration env om wdo today trig tim save 0 g = Some (None, r1, trig1, g1)"
    using c by (auto simp: ComputeTrigger_def split: option.splits prod.splits)
  note sound1 = ComputeTriggerNoAdjust_sound [OF one]
  have d1: "duration_days trig1 = duration_days trig" by (rule searchedD [OF ComputeTriggerNoAdjust_keeps [OF one]])
  show ?thesis
  proof (cases "r1 = today")
    case True
    then show ?thesis using c one by (simp add: ComputeTrigger_def Let_def)
  next
    case other: False
    show ?thesis
    proof (cases "duration_days trig = 0")
      case True
      then have "AdjustTriggerForDuration today r1 trig1 tim save g1 = (r, trig', tim', g')"
        using c one other d1 by (simp add: ComputeTrigger_def Let_def split: prod.splits)
      from AdjustTriggerForDuration_day [OF this] show ?thesis
        using sound1 r True d1 by (auto simp: trig_date_ok_def split: if_splits)
    next
      case False
      then obtain r2 trig2 g2 where two:
        "ComputeTriggerNoAdjustDuration env om wdo today trig1 tim save (duration_days trig) g1 = Some (None, r2, trig2, g2)"
        "AdjustTriggerForDuration today r2 trig2 tim save g2 = (r, trig', tim', g')"
        using c one other d1 by (simp add: ComputeTrigger_def Let_def split: option.splits prod.splits)
      have "duration_days trig2 = duration_days trig" using searchedD(1) [OF ComputeTriggerNoAdjust_keeps [OF two(1)]] d1 by simp
      moreover have "r2 \<noteq> -1 \<Longrightarrow> today \<le> r2 + duration_days trig"
        using ComputeTriggerNoAdjust_sound [OF two(1)] by (simp add: trig_date_ok_def)
      ultimately show ?thesis using AdjustTriggerForDuration_day [OF two(2)] r by (auto split: if_splits)
    qed
  qed
qed

section \<open>Properties\<close>

text \<open>
  C1. A reminder without BACK, REP or SKIP clauses is triggered on its first matching date
  from today on, unless that lies past its UNTIL date; it is marked expired exactly when
  there is no such date.  It is no TODO, has no time zone, and is accepted by the checks before
  the search.  Its date is not complete (some of day, month and year is left out), and its day
  exists in its month, if it has both.  If it has a weekday, a day and a year, but no month,
  the day is not the 29th and the year is not over: the code's answers differ there.
\<close>

theorem ComputeTrigger_first_match:
  assumes "trig_ok trig" "no_rescan trig" "\<not> is_todo trig" "tz trig = None"
    and "\<not> full_date trig" "day_in_month trig"
    and "wd_day_of_year trig \<Longrightarrow> trg_d trig \<noteq> 29 \<and> DSEYear today \<le> trg_y trig"
    and "0 \<le> today" "trig_problem wdo trig tim today = None"
  shows "\<exists>r trig' g'.
    ComputeTriggerNoAdjustDuration env om wdo today trig tim save 0 g = Some (None, r, trig', g')
    \<and> next_of (\<lambda>k. trig_match trig k \<and> in_until trig k) today r \<and> (expired trig' \<longleftrightarrow> r = -1)"
  by (rule ComputeTrigger_plain [OF assms, of env om save g]) (assumption, intro exI conjI)

definition no_env :: trig_env where
  "no_env = \<lparr>MaxSatIter = 10000, DoCalendar = False, DoSimpleCalendar = False,
     HideCompletedTodos = False, DSEToday = 0, te_tz = \<lambda>_ _. None\<rparr>"

definition no_globals :: trig_globals where
  "no_globals = \<lparr>LastTrigger = new_trigger 0 5000, LastTimeTrig = new_timetrig 0,
     LastTriggerDate = -1, LastTriggerTime = 0, LastTrigValid = False\<rparr>"

theorem ComputeTrigger_first_match_witness:
  "\<exists>r trig' g'. ComputeTriggerNoAdjustDuration no_env (omit_test_plain 0 omit_init) 0 200
      (new_trigger 0 5000\<lparr>trg_d := 13, trg_wd := 16\<rparr>) (new_timetrig 0) True 0 no_globals
      = Some (None, r, trig', g')
    \<and> next_of (\<lambda>k. trig_match (new_trigger 0 5000\<lparr>trg_d := 13, trg_wd := 16\<rparr>) k
        \<and> in_until (new_trigger 0 5000\<lparr>trg_d := 13, trg_wd := 16\<rparr>) k) 200 r
    \<and> (expired trig' \<longleftrightarrow> r = -1)"
  by (rule ComputeTrigger_first_match)
    (simp_all add: trig_ok_def no_rescan_def full_date_def day_in_month_def wd_day_of_year_def
      trig_problem_def)

text \<open>
  C11. A complete date with a repetition, without weekday, BACK, SKIP, time zone or TODO, is
  triggered on the first day from today on of the sequence date, date + rep, date + 2 rep and so
  on, unless that lies past its UNTIL date.  Today and the repetition together do not pass
  \<open>INT_MAX\<close>, where the addition of the code overflows.
\<close>

theorem ComputeTrigger_first_repeat:
  assumes "trig_ok trig" "trg_back trig = NO_BACK" "trg_skip trig = NO_SKIP" "\<not> is_todo trig" "tz trig = None"
    and "full_date trig" "trg_wd trig = NO_WD" "trg_d trig \<le> month_length (trg_y trig) (trg_m trig)"
    and "0 < trg_rep trig" "0 \<le> today" "today + trg_rep trig \<le> INT_MAX" "trig_problem wdo trig tim today = None"
  shows "\<exists>r trig' g'.
    ComputeTriggerNoAdjustDuration env om wdo today trig tim save 0 g = Some (None, r, trig', g')
    \<and> next_of (\<lambda>k. rep_match trig k \<and> in_until trig k) today r \<and> (expired trig' \<longleftrightarrow> r = -1)"
  by (rule ComputeTrigger_repeating [OF assms, of env om save g]) (intro exI conjI)

theorem ComputeTrigger_first_repeat_witness:
  "let trig = new_trigger 0 5000\<lparr>trg_d := 1, trg_m := 0, trg_y := 2024, trg_rep := 14\<rparr> in
   \<exists>r trig' g'. ComputeTriggerNoAdjustDuration no_env (omit_test_plain 0 omit_init) 0 13000
      trig (new_timetrig 0) False 0 no_globals = Some (None, r, trig', g')
    \<and> next_of (\<lambda>k. rep_match trig k \<and> in_until trig k) 13000 r \<and> (expired trig' \<longleftrightarrow> r = -1)"
  unfolding Let_def
  by (rule ComputeTrigger_first_repeat)
    (simp_all add: trig_ok_def full_date_def month_length_def trig_problem_def)

text \<open>
  C12. Whatever its clauses, a date the search returns is today or later, counted to the end
  of the event, not past UNTIL, and, with SKIP, BEFORE or AFTER, not an omitted day.
\<close>

theorem ComputeTrigger_respects_clauses:
  assumes "ComputeTriggerNoAdjustDuration env om wdo today trig tim save ddays g = Some (None, r, trig', g')"
    and "r \<noteq> -1"
  shows "today \<le> r + ddays \<and> (trg_until trig = NO_UNTIL \<or> r \<le> trg_until trig)
    \<and> (trg_skip trig \<in> {SKIP_SKIP, BEFORE_SKIP, AFTER_SKIP} \<longrightarrow> om r = Some (Inr False))"
  using ComputeTriggerNoAdjust_sound [OF assms] by (simp add: trig_date_ok_def)

lemma every_fortnight:
  obtains r trig' g' where
    "ComputeTriggerNoAdjustDuration no_env (omit_test_plain 0 omit_init) 0 13000
      (new_trigger 0 5000\<lparr>trg_d := 1, trg_m := 0, trg_y := 2024, trg_rep := 14\<rparr>) (new_timetrig 0) False 0
      no_globals = Some (None, r, trig', g')" "r \<noteq> -1"
proof -
  let ?t = "new_trigger 0 5000\<lparr>trg_d := 1, trg_m := 0, trg_y := 2024, trg_rep := 14\<rparr>"
  obtain r trig' g' where r: "ComputeTriggerNoAdjustDuration no_env (omit_test_plain 0 omit_init) 0 13000
      ?t (new_timetrig 0) False 0 no_globals = Some (None, r, trig', g')"
    "next_of (\<lambda>k. rep_match ?t k \<and> in_until ?t k) 13000 r"
    by (rule ComputeTrigger_repeating [of ?t 13000 0 "new_timetrig 0" no_env "omit_test_plain 0 omit_init" False no_globals])
      (simp_all add: trig_ok_def full_date_def month_length_def trig_problem_def)
  have "r \<noteq> -1"
  proof
    assume "r = -1"
    then have "\<not> (rep_match ?t k \<and> in_until ?t k)" if "13000 \<le> k" for k using r(2) that by (auto simp: next_of_def)
    moreover have "0 \<le> DSE 2024 0 1" by (rule DSE_base) simp_all
    moreover have "rep_match ?t (DSE 2024 0 1 + 1000 * 14)" unfolding rep_match_def by (intro exI [of _ 1000]) simp
    ultimately show False by (force simp: in_until_def)
  qed
  then show thesis using that r(1) by blast
qed

theorem ComputeTrigger_respects_clauses_witness:
  "\<exists>r trig' g'. ComputeTriggerNoAdjustDuration no_env (omit_test_plain 0 omit_init) 0 13000
      (new_trigger 0 5000\<lparr>trg_d := 1, trg_m := 0, trg_y := 2024, trg_rep := 14\<rparr>) (new_timetrig 0) False 0
      no_globals = Some (None, r, trig', g') \<and> 13000 \<le> r"
proof -
  obtain r trig' g' where r: "ComputeTriggerNoAdjustDuration no_env (omit_test_plain 0 omit_init) 0 13000
      (new_trigger 0 5000\<lparr>trg_d := 1, trg_m := 0, trg_y := 2024, trg_rep := 14\<rparr>) (new_timetrig 0) False 0
      no_globals = Some (None, r, trig', g')" "r \<noteq> -1" by (rule every_fortnight)
  then show ?thesis using ComputeTrigger_respects_clauses [OF r] by auto
qed

text \<open>
  C18. The date of \<open>ComputeTrigger\<close>, with an event that lasts several days moved to today, is
  never in the past.
\<close>

theorem ComputeTrigger_not_past:
  assumes "ComputeTrigger env om wdo today trig tim save g = Some (None, r, trig', tim', g')"
    and "r \<noteq> -1" "0 \<le> duration_days trig"
  shows "today \<le> r"
  by (rule ComputeTrigger_day [OF assms])

theorem ComputeTrigger_not_past_witness:
  "\<exists>r t tim g. ComputeTrigger no_env (omit_test_plain 0 omit_init) 0 13000
      (new_trigger 0 5000\<lparr>trg_d := 1, trg_m := 0, trg_y := 2024, trg_rep := 14\<rparr>) (new_timetrig 0) False
      no_globals = Some (None, r, t, tim, g) \<and> 13000 \<le> r"
proof -
  let ?t = "new_trigger 0 5000\<lparr>trg_d := 1, trg_m := 0, trg_y := 2024, trg_rep := 14\<rparr>"
  obtain r trig' g' where r: "ComputeTriggerNoAdjustDuration no_env (omit_test_plain 0 omit_init) 0 13000
      ?t (new_timetrig 0) False 0 no_globals = Some (None, r, trig', g')" "r \<noteq> -1" by (rule every_fortnight)
  have dd: "duration_days trig' = 0" using searchedD(1) [OF ComputeTriggerNoAdjust_keeps [OF r(1)]] by simp
  obtain t tim g where c: "ComputeTrigger no_env (omit_test_plain 0 omit_init) 0 13000 ?t (new_timetrig 0) False no_globals
      = Some (None, r, t, tim, g)"
  proof (cases "AdjustTriggerForDuration 13000 r trig' (new_timetrig 0) False g'")
    case (fields r' t tim g)
    have "r' = r"
      using AdjustTriggerForDuration_day [OF fields] ComputeTriggerNoAdjust_sound [OF r] by (simp add: trig_date_ok_def)
    then show thesis
      using that r(1) dd fields unfolding ComputeTrigger_def Let_def by (cases "r = 13000") simp_all
  qed
  then show ?thesis using ComputeTrigger_not_past [OF c r(2)] by simp
qed

text \<open>
  C13. \<open>ComputeTrigger\<close> ends, with a date, no date or an error: with the omit context of any
  sequence of omit commands, none of its loops runs forever or tests a day before the calendar
  begins.  The trigger has fields in range, no BACK and no OMITFUNC; with AFTER, some day before
  the first one searched is not omitted; a repetition is of at most a million days, from a date
  that can be written, and today is at most day 1000000000, so that no sum overflows.
\<close>

theorem ComputeTrigger_terminates:
  assumes "omit_reach s" "omitfunc trig = []" "trig_ok trig" "trg_back trig = NO_BACK" "repeats_soon trig today"
    and "0 \<le> duration_days trig" "working_day_before s trig (today - duration_days trig)"
  shows "ComputeTrigger env (omit_test_of uf trig s) wdo today trig tim save g \<noteq> None"
  by (rule ComputeTrigger_total [OF omit_reach_inv [OF assms(1)] assms(2-)])

theorem ComputeTrigger_terminates_witness:
  "ComputeTrigger no_env
     (omit_test_of \<lparr>UserFuncExists = \<lambda>_. -1, call_date = \<lambda>_ _. Inl E_UNDEF_FUNC\<rparr>
       (new_trigger 0 5000\<lparr>trg_skip := AFTER_SKIP, trg_d := 1, trg_m := 0, trg_y := 2024, trg_rep := 14, duration_days := 3\<rparr>) omit_init)
     0 13000 (new_trigger 0 5000\<lparr>trg_skip := AFTER_SKIP, trg_d := 1, trg_m := 0, trg_y := 2024, trg_rep := 14, duration_days := 3\<rparr>)
     (new_timetrig 0) True no_globals \<noteq> None"
proof -
  have "\<not> omitted_day omit_init 0 q" for q
    by (simp add: omitted_day_def in_week_def omit_init_def full_set_def partial_set_def elems_def split: prod.split)
  then have "\<exists>q. 0 \<le> q \<and> q < 12997 \<and> \<not> omitted_day omit_init 0 q" by (intro exI [of _ 5]) simp
  then show ?thesis
    by (intro ComputeTrigger_terminates [OF reach_init]) (simp_all add: trig_ok_def repeats_soon_def working_day_before_def)
qed



text \<open>
  C22. The INFO strings of a trigger are a map: after an accepted INFO string, its header, in
  any case, finds its value, and every other header finds what it found before.
\<close>

theorem FindTrigInfo_after_Append:
  assumes "infos_ok (infos t)" "AppendTrigInfo True t i = (None, t')" "header \<noteq> []" "CHR '':'' \<notin> set header"
  shows "infos_ok (infos t') \<and> FindTrigInfo t' header =
    (if header_key i = Some (map tolower header) then Some (info_value i) else FindTrigInfo t header)"
  using FindTrigInfo_Append [OF assms] AppendTrigInfo_infos_ok [OF assms(1), of True i] assms(2) by simp

theorem FindTrigInfo_after_Append_witness:
  "\<exists>t'. AppendTrigInfo True (new_trigger 0 5000) ''Where: here'' = (None, t')
    \<and> FindTrigInfo t' ''WHERE'' = Some ''here''"
proof -
  let ?t = "new_trigger 0 5000" and ?i = "''Where: here''"
  have ok: "infos_ok (infos ?t)" by (simp add: infos_ok_def)
  have h: "header_of ?i = Some ''Where''" by code_simp
  then have app: "AppendTrigInfo True ?t ?i = (None, ?t\<lparr>infos := [?i]\<rparr>)"
    by (simp add: AppendTrigInfo_def TrigInfoIsValid_def isspace_def iscntrl_def)
  have low: "map tolower ''WHERE'' = ''where''" "map tolower ''Where'' = ''where''" by code_simp+
  have "isspace CHR '' ''" "\<not> isspace CHR ''h''" by (simp_all add: isspace_def)
  then have "info_value ?i = ''here''" using h by (simp add: info_value_def)
  moreover have "header_key ?i = Some (map tolower ''WHERE'')" using h low by (simp only: header_key_def option.map)
  ultimately have "FindTrigInfo (?t\<lparr>infos := [?i]\<rparr>) ''WHERE'' = Some ''here''"
    using FindTrigInfo_after_Append [OF ok app, of "''WHERE''"] by simp
  then show ?thesis using app by blast
qed

end
