(* ===== verification/RemParse.thy ===== *)
theory RemParse
  imports Parser Trigger
begin

text \<open>
  The line of a reminder, \<open>ParseRem\<close> of \<^verbatim>\<open>src/src/dorem.c\<close>: words are read until the type of
  the reminder, and fill in a trigger and a time trigger.  The functions return an error or
  the new state; warnings and messages are not modelled.  A failed parse is dropped by its
  callers, so the state it leaves behind is not modelled either.
\<close>

section \<open>Settings and words\<close>

record rem_config =
  DefaultDelta :: int
  DefaultPrio :: int
  DefaultTDelta :: int
  rc_seps :: seps
  rc_eval :: evaluator

definition PASSTHRU_LEN :: nat where "PASSTHRU_LEN = 32"

definition next_word :: "rem_config \<Rightarrow> Parser \<Rightarrow> errcode + string \<times> Parser" where
  "next_word cf p = (case ParseToken (rc_eval cf) p of (Inl e, _) \<Rightarrow> Inl e | (Inr w, p) \<Rightarrow> Inr (w, p))"

definition next_token :: "rem_config \<Rightarrow> Parser \<Rightarrow> errcode + string \<times> TokTypes \<times> int \<times> Parser" where
  "next_token cf p =
    (case next_word cf p of
       Inl e \<Rightarrow> Inl e
     | Inr (w, p) \<Rightarrow> case FindToken (rc_seps cf) w of (ty, v) \<Rightarrow> Inr (w, ty, v, p))"

text \<open>The error in a token that \<open>FindToken\<close> rejects; it stores no other numbers there.\<close>

definition token_code :: "int \<Rightarrow> errcode" where
  "token_code v = (case errcode_of (- v) of Some e \<Rightarrow> e | None \<Rightarrow> E_SWERR)"

lemma next_word_used: "next_word cf p = Inr (w, p') \<Longrightarrow> used (length w) p' p"
  by (auto simp: next_word_def ParseToken_used split: prod.splits sum.splits)

lemma next_token_used:
  assumes "next_token cf p = Inr (w, ty, v, p')"
  shows "used (length w) p' p" "used 0 p' p" "used 0 (PushToken w p') p"
    "ty \<noteq> T_Empty \<Longrightarrow> (p', p) \<in> word_order"
proof -
  have w: "ParseToken (rc_eval cf) p = (Inr w, p')" "FindToken (rc_seps cf) w = (ty, v)"
    using assms by (auto simp: next_token_def next_word_def split: prod.splits sum.splits)
  show used: "used (length w) p' p" by (rule ParseToken_used [OF w(1)])
  then show "used 0 p' p" by (rule used_weaken)
  show "used 0 (PushToken w p') p" by (rule PushToken_used [OF w(1)])
  show "(p', p) \<in> word_order" if "ty \<noteq> T_Empty"
    using used that w(2) by (cases w) (auto simp: FindToken_def intro: used_word_order)
qed

section \<open>Dates and times of clauses\<close>

text \<open>
  \<open>GetFullDate\<close>: a date, or a year, month and day in any order; the word after it is pushed
  back.
\<close>

function get_full_date ::
    "rem_config \<Rightarrow> int \<Rightarrow> int \<Rightarrow> int \<Rightarrow> Parser \<Rightarrow> errcode + int \<times> Parser" where
  "get_full_date cf y m d p =
    (case next_token cf p of
       Inl e \<Rightarrow> Inl e
     | Inr (w, ty, v, p) \<Rightarrow>
         if ty = T_Year then if y \<noteq> NO_YR then Inl E_YR_TWICE else get_full_date cf v m d p
         else if ty = T_Month then if m \<noteq> NO_MON then Inl E_MON_TWICE else get_full_date cf y v d p
         else if ty = T_Day then if d \<noteq> NO_DAY then Inl E_DAY_TWICE else get_full_date cf y m v p
         else if ty = T_Date then
           if y \<noteq> NO_YR then Inl E_YR_TWICE
           else if m \<noteq> NO_MON then Inl E_MON_TWICE
           else if d \<noteq> NO_DAY then Inl E_DAY_TWICE
           else Inr (v, p)
         else if ty = T_Illegal \<and> v < 0 then Inl (token_code v)
         else if y = NO_YR \<or> m = NO_MON \<or> d = NO_DAY then Inl E_INCOMPLETE
         else if \<not> DateOK y m d then Inl E_BAD_DATE
         else Inr (DSE y m d, PushToken w p))"
  by pat_completeness auto
termination
  by (relation "inv_image word_order (\<lambda>(cf, y, m, d, p). p)")
    (auto intro: next_token_used(4))

definition GetFullDate :: "rem_config \<Rightarrow> Parser \<Rightarrow> errcode + int \<times> Parser" where
  "GetFullDate cf p = get_full_date cf NO_YR NO_MON NO_DAY p"

definition ParseUntil :: "rem_config \<Rightarrow> Parser \<Rightarrow> Trigger \<Rightarrow> errcode + Parser \<times> Trigger" where
  "ParseUntil cf p t =
    (if trg_until t \<noteq> NO_UNTIL then Inl E_UNTIL_TWICE
     else case GetFullDate cf p of
       Inl e \<Rightarrow> Inl e
     | Inr (dse, p) \<Rightarrow> Inr (p, t\<lparr>trg_until := dse\<rparr>))"

function time_trig ::
    "rem_config \<Rightarrow> bool \<Rightarrow> Parser \<Rightarrow> TimeTrig \<Rightarrow> errcode + Parser \<times> TimeTrig" where
  "time_trig cf seen_delta p tim =
    (case next_token cf p of
       Inl e \<Rightarrow> Inl e
     | Inr (w, ty, v, p) \<Rightarrow>
         if ty = T_Time then
           if ttime tim \<noteq> NO_TIME then Inl E_TIME_TWICE
           else time_trig cf seen_delta p (tim\<lparr>ttime := v, ttime_orig := v\<rparr>)
         else if ty = T_Delta then
           if seen_delta then Inl E_DELTA_TWICE
           else time_trig cf True p (tim\<lparr>tt_delta := (if v \<ge> 0 then v else - v)\<rparr>)
         else if ty = T_Rep then
           if tt_rep tim \<noteq> NO_REP then Inl E_REP_TWICE
           else time_trig cf seen_delta p (tim\<lparr>tt_rep := v\<rparr>)
         else if ty = T_Illegal \<and> v < 0 then Inl (token_code v)
         else if ttime tim = NO_TIME then Inl E_EXPECT_TIME
         else Inr (PushToken w p, tim))"
  by pat_completeness auto
termination
  by (relation "inv_image word_order (\<lambda>(cf, sd, p, tim). p)")
    (auto intro: next_token_used(4))

definition ParseTimeTrig :: "rem_config \<Rightarrow> Parser \<Rightarrow> TimeTrig \<Rightarrow> errcode + Parser \<times> TimeTrig" where
  "ParseTimeTrig cf p tim = time_trig cf False p tim"

function ParseLocalOmit :: "rem_config \<Rightarrow> Parser \<Rightarrow> Trigger \<Rightarrow> errcode + Parser \<times> Trigger" where
  "ParseLocalOmit cf p t =
    (case next_token cf p of
       Inl e \<Rightarrow> Inl e
     | Inr (w, ty, v, p) \<Rightarrow>
         if ty = T_WkDay then ParseLocalOmit cf p (t\<lparr>localomit := localomit t OR push_bit (nat v) 1\<rparr>)
         else if localomit t = NO_WD then Inl E_EXPECTING_WEEKDAY
         else Inr (PushToken w p, t))"
  by pat_completeness auto
termination
  by (relation "inv_image word_order (\<lambda>(cf, p, t). p)")
    (auto intro: next_token_used(4))

text \<open>A day the reminder is computed from: a date, or a number of days before today.\<close>

definition set_from :: "int \<Rightarrow> int \<Rightarrow> Trigger \<Rightarrow> Trigger" where
  "set_from kind dse t = (if kind = FROM_TYPE then t\<lparr>trg_from := dse\<rparr> else t\<lparr>scanfrom := dse\<rparr>)"

function scan_from ::
    "rem_config \<Rightarrow> int \<Rightarrow> int \<Rightarrow> int \<Rightarrow> int \<Rightarrow> Parser \<Rightarrow> Trigger \<Rightarrow> errcode + Parser \<times> Trigger" where
  "scan_from cf kind y m d p t =
    (case next_token cf p of
       Inl e \<Rightarrow> Inl e
     | Inr (w, ty, v, p) \<Rightarrow>
         if ty = T_Year then if y \<noteq> NO_YR then Inl E_YR_TWICE else scan_from cf kind v m d p t
         else if ty = T_Month then if m \<noteq> NO_MON then Inl E_MON_TWICE else scan_from cf kind y v d p t
         else if ty = T_Day then if d \<noteq> NO_DAY then Inl E_DAY_TWICE else scan_from cf kind y m v p t
         else if ty = T_Date then
           if y \<noteq> NO_YR then Inl E_YR_TWICE
           else if m \<noteq> NO_MON then Inl E_MON_TWICE
           else if d \<noteq> NO_DAY then Inl E_DAY_TWICE
           else Inr (p, set_from kind v t)
         else if ty = T_Back then
           if kind \<noteq> SCANFROM_TYPE then Inl E_INCOMPLETE
           else if y \<noteq> NO_YR then Inl E_YR_TWICE
           else if m \<noteq> NO_MON then Inl E_MON_TWICE
           else if d \<noteq> NO_DAY then Inl E_DAY_TWICE
           else Inr (p\<lparr>p_expr_happened := True, p_nonconst_expr := True\<rparr>,
                     t\<lparr>scanfrom := (if v > 0 then - v else v), nonconst_expr := True\<rparr>)
         else if ty = T_Illegal \<and> v < 0 then Inl (token_code v)
         else if y = NO_YR \<or> m = NO_MON \<or> d = NO_DAY then Inl E_INCOMPLETE
         else if \<not> DateOK y m d then Inl E_BAD_DATE
         else Inr (PushToken w p, set_from kind (DSE y m d) t))"
  by pat_completeness auto
termination
  by (relation "inv_image word_order (\<lambda>(cf, k, y, m, d, p, t). p)")
    (auto intro: next_token_used(4))

declare get_full_date.simps [simp del] time_trig.simps [simp del]
  ParseLocalOmit.simps [simp del] scan_from.simps [simp del]

definition ParseScanFrom ::
    "rem_config \<Rightarrow> Parser \<Rightarrow> Trigger \<Rightarrow> int \<Rightarrow> errcode + Parser \<times> Trigger" where
  "ParseScanFrom cf p t kind =
    (if scanfrom t \<noteq> NO_SCANFROM then Inl E_SCAN_TWICE
     else if trg_from t \<noteq> NO_DATE then Inl E_SCAN_TWICE
     else scan_from cf kind NO_YR NO_MON NO_DAY p t)"

text \<open>The source tests for a negative number because the sum of the digits may overflow.\<close>

definition ParsePriority :: "rem_config \<Rightarrow> Parser \<Rightarrow> Trigger \<Rightarrow> errcode + Parser \<times> Trigger" where
  "ParsePriority cf p t =
    (case next_word cf p of
       Inl e \<Rightarrow> Inl e
     | Inr (u, p) \<Rightarrow>
         if \<not> starts isdigit u then Inl E_EXPECTING_NUMBER
         else case parse_digits 0 u of (n, rest) \<Rightarrow>
           if rest \<noteq> [] then Inl E_EXPECTING_NUMBER
           else if n < 0 \<or> n > 9999 then Inl E_2HIGH
           else Inr (p, t\<lparr>priority := n\<rparr>))"

definition ComputeTrigDuration :: "TimeTrig \<Rightarrow> int" where
  "ComputeTrigDuration t =
    (if ttime t = NO_TIME \<or> duration t = NO_TIME then 0
     else cint (cint (ttime t + duration t) - 1) sdiv MINUTES_PER_DAY)"

definition FixSpecialType :: "Trigger \<Rightarrow> Trigger" where
  "FixSpecialType t =
    (if trg_typ t \<noteq> PASSTHRU_TYPE then t
     else let s = map tolower (passthru t) in
       if s = ''msg'' then t\<lparr>trg_typ := MSG_TYPE\<rparr>
       else if s = ''msf'' then t\<lparr>trg_typ := MSF_TYPE\<rparr>
       else if s = ''run'' then t\<lparr>trg_typ := RUN_TYPE\<rparr>
       else if s = ''cal'' then t\<lparr>trg_typ := CAL_TYPE\<rparr>
       else if s = ''ps'' then t\<lparr>trg_typ := PS_TYPE\<rparr>
       else if s = ''psfile'' then t\<lparr>trg_typ := PSF_TYPE\<rparr>
       else t)"

section \<open>The words of a reminder\<close>

text \<open>\<open>seen_delta\<close> is local to \<open>ParseRem\<close>.\<close>

record rem_state =
  rs_parser :: Parser
  rs_trig :: Trigger
  rs_tim :: TimeTrig
  seen_delta :: bool

text \<open>
  What a word makes of the line: more words follow, the reminder's type ends the loop, the
  function returns at once, or fails.
\<close>

datatype rem_step = RemMore rem_state | RemDone rem_state | RemReturn rem_state | RemFail errcode

definition more_trig :: "rem_state \<Rightarrow> Trigger \<Rightarrow> rem_step" where
  "more_trig s t = RemMore (s\<lparr>rs_trig := t\<rparr>)"

definition clause :: "rem_state \<Rightarrow> errcode + Parser \<times> Trigger \<Rightarrow> rem_step" where
  "clause s r = (case r of Inl e \<Rightarrow> RemFail e | Inr (p, t) \<Rightarrow> RemMore (s\<lparr>rs_parser := p, rs_trig := t\<rparr>))"

definition timed_clause :: "rem_state \<Rightarrow> errcode + Parser \<times> TimeTrig \<Rightarrow> rem_step" where
  "timed_clause s r =
    (case r of
       Inl e \<Rightarrow> RemFail e
     | Inr (p, tim) \<Rightarrow>
         RemMore (s\<lparr>rs_parser := p, rs_tim := tim,
                    rs_trig := (rs_trig s)\<lparr>duration_days := ComputeTrigDuration tim\<rparr>\<rparr>))"

definition worded :: "rem_config \<Rightarrow> rem_state \<Rightarrow> (string \<Rightarrow> rem_state \<Rightarrow> rem_step) \<Rightarrow> rem_step" where
  "worded cf s k =
    (case next_word cf (rs_parser s) of
       Inl e \<Rightarrow> RemFail e
     | Inr (w, p) \<Rightarrow> k w (s\<lparr>rs_parser := p\<rparr>))"

text \<open>The parts of a date, and a date as a whole.\<close>

definition set_date :: "Trigger \<Rightarrow> int \<Rightarrow> errcode + Trigger" where
  "set_date t dse =
    (if trg_d t \<noteq> NO_DAY then Inl E_DAY_TWICE
     else if trg_m t \<noteq> NO_MON then Inl E_MON_TWICE
     else if trg_y t \<noteq> NO_YR then Inl E_YR_TWICE
     else case FromDSE dse of (y, m, d) \<Rightarrow> Inr (t\<lparr>trg_y := y, trg_m := m, trg_d := d\<rparr>))"

definition date_word :: "TokTypes \<Rightarrow> int \<Rightarrow> rem_state \<Rightarrow> rem_step" where
  "date_word ty v s =
    (let t = rs_trig s in
     if ty = T_Ordinal then
       if trg_d t \<noteq> NO_DAY then RemFail E_DAY_TWICE
       else if v < 0 then
         if trg_back t \<noteq> NO_BACK then RemFail E_BACK_TWICE
         else more_trig s (t\<lparr>trg_back := -7, trg_d := 1, adj_for_last := True, need_wkday := True\<rparr>)
       else more_trig s (t\<lparr>trg_d := 1 + 7 * v, need_wkday := True\<rparr>)
     else if ty = T_Date then
       (case set_date t v of Inl e \<Rightarrow> RemFail e | Inr t \<Rightarrow> more_trig s t)
     else if ty = T_DateTime then
       (case set_date t (v sdiv MINUTES_PER_DAY) of
          Inl e \<Rightarrow> RemFail e
        | Inr t \<Rightarrow>
            more_trig (s\<lparr>rs_tim := (rs_tim s)\<lparr>ttime := v smod MINUTES_PER_DAY,
                                           ttime_orig := v smod MINUTES_PER_DAY\<rparr>\<rparr>) t)
     else if ty = T_WkDay then
       if trg_wd t AND push_bit (nat v) 1 \<noteq> 0 then RemFail E_WD_TWICE
       else more_trig s (t\<lparr>trg_wd := trg_wd t OR push_bit (nat v) 1\<rparr>)
     else if ty = T_Month then
       if trg_m t \<noteq> NO_MON then RemFail E_MON_TWICE else more_trig s (t\<lparr>trg_m := v\<rparr>)
     else if ty = T_Year then
       if trg_y t \<noteq> NO_YR then RemFail E_YR_TWICE else more_trig s (t\<lparr>trg_y := v\<rparr>)
     else if ty = T_Day then
       if trg_d t \<noteq> NO_DAY then RemFail E_DAY_TWICE else more_trig s (t\<lparr>trg_d := v\<rparr>)
     else if ty = T_Back then
       if trg_back t \<noteq> NO_BACK then RemFail E_BACK_TWICE else more_trig s (t\<lparr>trg_back := v\<rparr>)
     else if ty = T_BackAdj then
       if trg_back t \<noteq> NO_BACK then RemFail E_BACK_TWICE
       else if trg_d t \<noteq> NO_DAY then RemFail E_DAY_TWICE
       else more_trig s (t\<lparr>trg_back := v, trg_d := 1, adj_for_last := True\<rparr>)
     else RemFail E_PARSE_ERR)"

text \<open>Words that set a field of the trigger, at most once where the code checks it.\<close>

definition flag_word :: "TokTypes \<Rightarrow> int \<Rightarrow> rem_state \<Rightarrow> rem_step" where
  "flag_word ty v s =
    (let t = rs_trig s in
     if ty = T_Todo then
       if is_todo t then RemFail E_TODO_TWICE else more_trig s (t\<lparr>is_todo := True\<rparr>)
     else if ty = T_In then RemMore s
     else if ty = T_MaybeUncomputable then more_trig s (t\<lparr>maybe_uncomputable := True\<rparr>)
     else if ty = T_Skip then
       if trg_skip t \<noteq> NO_SKIP then RemFail E_SKIP_ERR else more_trig s (t\<lparr>trg_skip := v\<rparr>)
     else if ty = T_Rep then
       if trg_rep t \<noteq> NO_REP then RemFail E_REP_TWICE else more_trig s (t\<lparr>trg_rep := v\<rparr>)
     else if ty = T_Delta then
       if seen_delta s then RemFail E_DELTA_TWICE
       else more_trig (s\<lparr>seen_delta := True\<rparr>) (t\<lparr>delta := v\<rparr>)
     else if ty = T_Once then
       if once t \<noteq> NO_ONCE then RemFail E_ONCE_TWICE else more_trig s (t\<lparr>once := 1\<rparr>)
     else if ty = T_AddOmit then more_trig s (t\<lparr>addomit := True\<rparr>)
     else if ty = T_NoQueue then more_trig s (t\<lparr>noqueue := True\<rparr>)
     else if ty = T_LongTime then RemFail E_BAD_TIME
     else RemFail E_PARSE_ERR)"

text \<open>
  \<open>MAX-OVERDUE\<close>.  A word that is no number and no token either has the error number 0, which
  is \<open>OK\<close>: the function then returns without an error.
\<close>

definition max_overdue_word :: "rem_config \<Rightarrow> rem_state \<Rightarrow> rem_step" where
  "max_overdue_word cf s =
    (if max_overdue (rs_trig s) \<ge> 0 then RemFail E_MAX_OVERDUE_TWICE
     else case next_token cf (rs_parser s) of
       Inl e \<Rightarrow> RemFail e
     | Inr (w, ty, v, p) \<Rightarrow>
         let s = s\<lparr>rs_parser := p\<rparr> in
         if ty = T_Illegal then if v = 0 then RemReturn s else RemFail (token_code v)
         else if ty \<noteq> T_Day \<and> ty \<noteq> T_Year \<and> ty \<noteq> T_Number then RemFail E_EXPECTING_NUMBER
         else if v < 0 then RemFail E_2LOW
         else more_trig s ((rs_trig s)\<lparr>max_overdue := v\<rparr>))"

definition duration_word :: "rem_config \<Rightarrow> rem_state \<Rightarrow> rem_step" where
  "duration_word cf s =
    (case next_token cf (rs_parser s) of
       Inl e \<Rightarrow> RemFail e
     | Inr (w, ty, v, p) \<Rightarrow>
         if ty \<in> {T_Time, T_LongTime, T_Year, T_Day, T_Number} then
           let tim = (rs_tim s)\<lparr>duration := (if v \<noteq> 0 then v else NO_TIME)\<rparr> in
           timed_clause s (Inr (p, tim))
         else RemFail E_BAD_TIME)"

definition type_word :: "rem_config \<Rightarrow> int \<Rightarrow> rem_state \<Rightarrow> rem_step" where
  "type_word cf v s =
    (let t = (rs_trig s)\<lparr>trg_typ := v\<rparr> in
     if isnested (rs_parser s) then RemFail E_CANT_NEST_RTYPE
     else if v = PASSTHRU_TYPE then
       worded cf s (\<lambda>w s. if w = [] then RemFail E_EOLN
         else RemDone (s\<lparr>rs_trig := FixSpecialType (t\<lparr>passthru := StrnCpy w PASSTHRU_LEN\<rparr>)\<rparr>))
     else RemDone (s\<lparr>rs_trig := FixSpecialType t\<rparr>))"

definition info_word :: "rem_config \<Rightarrow> rem_state \<Rightarrow> rem_step" where
  "info_word cf s =
    (case ParseQuotedString (rc_eval cf) (rs_parser s) of
       (Inl e, _) \<Rightarrow> RemFail e
     | (Inr w, p) \<Rightarrow>
         (case AppendTrigInfo True (rs_trig s) w of
            (Some e, _) \<Rightarrow> RemFail e
          | (None, t) \<Rightarrow> RemMore (s\<lparr>rs_parser := p, rs_trig := t\<rparr>)))"

definition tz_word :: "rem_config \<Rightarrow> rem_state \<Rightarrow> rem_step" where
  "tz_word cf s =
    (if tz (rs_trig s) \<noteq> None then RemFail E_TZ_SPECIFIED_TWICE
     else case ParseTokenOrQuotedString (rc_eval cf) (rs_parser s) of
       (Inl e, _) \<Rightarrow> RemFail e
     | (Inr w, p) \<Rightarrow> RemMore (s\<lparr>rs_parser := p, rs_trig := (rs_trig s)\<lparr>tz := Some w\<rparr>\<rparr>))"

text \<open>The words that read further words.\<close>

definition clause_word :: "rem_config \<Rightarrow> TokTypes \<Rightarrow> int \<Rightarrow> rem_state \<Rightarrow> rem_step" where
  "clause_word cf ty v s =
    (let t = rs_trig s; tim = rs_tim s; p = rs_parser s in
     if ty = T_MaxOverdue then max_overdue_word cf s
     else if ty = T_Priority then clause s (ParsePriority cf p t)
     else if ty = T_Time then
       if ttime tim \<noteq> NO_TIME then RemFail E_TIME_TWICE
       else timed_clause s (ParseTimeTrig cf p (tim\<lparr>ttime := v, ttime_orig := v\<rparr>))
     else if ty = T_At then timed_clause s (ParseTimeTrig cf p tim)
     else if ty = T_Scanfrom then clause s (ParseScanFrom cf p t v)
     else if ty = T_RemType then type_word cf v s
     else if ty = T_Through then
       if trg_rep t \<noteq> NO_REP then RemFail E_REP_TWICE
       else clause s (ParseUntil cf p (t\<lparr>trg_rep := 1\<rparr>))
     else if ty = T_CompleteThrough then
       if complete_through t \<noteq> NO_DATE then RemFail E_COMPLETE_THROUGH_TWICE
       else (case GetFullDate cf p of
               Inl e \<Rightarrow> RemFail e
             | Inr (dse, p) \<Rightarrow> RemMore (s\<lparr>rs_parser := p, rs_trig := t\<lparr>complete_through := dse\<rparr>\<rparr>))
     else if ty = T_Until then clause s (ParseUntil cf p t)
     else if ty = T_Omit then clause s (ParseLocalOmit cf p t)
     else if ty = T_OmitFunc then
       worded cf s (\<lambda>w s. RemMore (s\<lparr>
         rs_trig := t\<lparr>omitfunc := strtolower (StrnCpy w VAR_NAME_LEN), nonconst_expr := True\<rparr>,
         rs_parser := (rs_parser s)\<lparr>p_expr_happened := True, p_nonconst_expr := True\<rparr>\<rparr>))
     else if ty = T_Warn then
       worded cf s (\<lambda>w s. more_trig s (t\<lparr>trg_warn := strtolower (StrnCpy w VAR_NAME_LEN)\<rparr>))
     else if ty = T_Sched then
       worded cf s (\<lambda>w s. more_trig s (t\<lparr>trg_sched := strtolower (StrnCpy w VAR_NAME_LEN)\<rparr>))
     else if ty = T_Tag then
       worded cf s (\<lambda>w s. if CHR '','' \<in> set w then RemFail E_PARSE_ERR
         else more_trig s (t\<lparr>tags := AppendTag (tags t) w\<rparr>))
     else if ty = T_Tz then tz_word cf s
     else if ty = T_Info then info_word cf s
     else duration_word cf s)"

definition date_types :: "TokTypes list" where
  "date_types = [T_Ordinal, T_Date, T_DateTime, T_WkDay, T_Month, T_Year, T_Day, T_Back, T_BackAdj, T_Number]"

definition flag_types :: "TokTypes list" where
  "flag_types = [T_Todo, T_In, T_MaybeUncomputable, T_Skip, T_Rep, T_Delta, T_Once, T_AddOmit,
     T_NoQueue, T_LongTime]"

definition clause_types :: "TokTypes list" where
  "clause_types = [T_MaxOverdue, T_Priority, T_Time, T_At, T_Scanfrom, T_RemType, T_Through,
     T_CompleteThrough, T_Until, T_Omit, T_OmitFunc, T_Warn, T_Sched, T_Tag, T_Tz, T_Info, T_Duration]"

text \<open>One turn of the loop, after the word \<open>w\<close> has been read.\<close>

definition rem_word :: "rem_config \<Rightarrow> string \<Rightarrow> TokTypes \<Rightarrow> int \<Rightarrow> rem_state \<Rightarrow> rem_step" where
  "rem_word cf w ty v s =
    (if ty \<in> set date_types then date_word ty v s
     else if ty \<in> set flag_types then flag_word ty v s
     else if ty \<in> set clause_types then clause_word cf ty v s
     else if ty = T_Empty then RemDone s
     else if ty = T_Illegal \<and> v < 0 then RemFail (token_code v)
     else let s = s\<lparr>rs_parser := PushToken w (rs_parser s), rs_trig := (rs_trig s)\<lparr>trg_typ := MSG_TYPE\<rparr>\<rparr> in
       if isnested (rs_parser s) then RemFail E_CANT_NEST_RTYPE else RemDone s)"

section \<open>The loop over the words\<close>

text \<open>
  The clauses keep every relation on parse pointers that reading keeps and that a word read and
  pushed back keeps too.
\<close>

locale line_relation = parse_relation +
  assumes R_pushback: "ParseToken ev p = (Inr w, p') \<Longrightarrow> R (PushToken w p') p"
    and R_flags [simp]: "R (p\<lparr>p_expr_happened := a, p_nonconst_expr := b\<rparr>) q \<longleftrightarrow> R p q"
begin

lemma next_word_R: "next_word cf p = Inr (w, p') \<Longrightarrow> R p' p"
  by (auto simp: next_word_def ParseToken_R split: prod.splits sum.splits)

lemma next_token_R:
  assumes "next_token cf p = Inr (w, ty, v, p')"
  shows "R p' p" "R (PushToken w p') p"
  using assms ParseToken_R R_pushback by (auto simp: next_token_def next_word_def split: prod.splits sum.splits)

lemma get_full_date_R: "get_full_date cf y m d p = Inr (dse, p') \<Longrightarrow> R p' p"
proof (induction cf y m d p arbitrary: p' rule: get_full_date.induct)
  case (1 cf y m d p)
  obtain w ty v q where q: "next_token cf p = Inr (w, ty, v, q)"
    using "1.prems" by (auto simp: get_full_date.simps [of cf y m d p] split: sum.splits)
  have step: "R r q \<Longrightarrow> R r p" for r using R_trans next_token_R(1) [OF q] by blast
  show ?case
    using "1.IH" [OF q refl refl refl] "1.prems" q next_token_R [OF q] step
    by (auto simp: get_full_date.simps [of cf y m d p] split: if_splits)
qed

lemma GetFullDate_R: "GetFullDate cf p = Inr (dse, p') \<Longrightarrow> R p' p"
  by (auto simp: GetFullDate_def get_full_date_R)

lemma ParseUntil_R: "ParseUntil cf p t = Inr (p', t') \<Longrightarrow> R p' p"
  by (auto simp: ParseUntil_def GetFullDate_R split: sum.splits if_splits)

lemma time_trig_R: "time_trig cf sd p tim = Inr (p', tim') \<Longrightarrow> R p' p"
proof (induction cf sd p tim arbitrary: p' rule: time_trig.induct)
  case (1 cf sd p tim)
  obtain w ty v q where q: "next_token cf p = Inr (w, ty, v, q)"
    using "1.prems" by (auto simp: time_trig.simps [of cf sd p tim] split: sum.splits)
  have step: "R r q \<Longrightarrow> R r p" for r using R_trans next_token_R(1) [OF q] by blast
  show ?case
    using "1.IH" [OF q refl refl refl] "1.prems" q next_token_R [OF q] step
    by (auto simp: time_trig.simps [of cf sd p tim] split: if_splits)
qed

lemma ParseLocalOmit_R: "ParseLocalOmit cf p t = Inr (p', t') \<Longrightarrow> R p' p"
proof (induction cf p t arbitrary: p' rule: ParseLocalOmit.induct)
  case (1 cf p t)
  obtain w ty v q where q: "next_token cf p = Inr (w, ty, v, q)"
    using "1.prems" by (auto simp: ParseLocalOmit.simps [of cf p t] split: sum.splits)
  have step: "R r q \<Longrightarrow> R r p" for r using R_trans next_token_R(1) [OF q] by blast
  show ?case
    using "1.IH" [OF q refl refl refl] "1.prems" q next_token_R [OF q] step
    by (auto simp: ParseLocalOmit.simps [of cf p t] split: if_splits)
qed

lemma scan_from_R: "scan_from cf k y m d p t = Inr (p', t') \<Longrightarrow> R p' p"
proof (induction cf k y m d p t arbitrary: p' rule: scan_from.induct)
  case (1 cf k y m d p t)
  obtain w ty v q where q: "next_token cf p = Inr (w, ty, v, q)"
    using "1.prems" by (auto simp: scan_from.simps [of cf k y m d p t] split: sum.splits)
  have step: "R r q \<Longrightarrow> R r p" for r using R_trans next_token_R(1) [OF q] by blast
  show ?case
    using "1.IH" [OF q refl refl refl] "1.prems" q next_token_R [OF q] step
    by (auto simp: scan_from.simps [of cf k y m d p t] split: if_splits)
qed

lemma ParseScanFrom_R: "ParseScanFrom cf p t k = Inr (p', t') \<Longrightarrow> R p' p"
  by (auto simp: ParseScanFrom_def scan_from_R split: if_splits)

lemma ParsePriority_R: "ParsePriority cf p t = Inr (p', t') \<Longrightarrow> R p' p"
  by (auto simp: ParsePriority_def dest!: next_word_R split: sum.splits prod.splits if_splits)

definition step_R :: "Parser \<Rightarrow> rem_step \<Rightarrow> bool" where
  "step_R p r \<longleftrightarrow> (\<forall>s. r = RemMore s \<longrightarrow> R (rs_parser s) p)"

lemma step_R_simps [simp]:
  "step_R p (RemMore s) \<longleftrightarrow> R (rs_parser s) p" "step_R p (RemDone s)"
  "step_R p (RemReturn s)" "step_R p (RemFail e)"
  "step_R p (more_trig s t) \<longleftrightarrow> R (rs_parser s) p"
  by (simp_all add: step_R_def more_trig_def)

lemma clause_R: "(\<And>p' t'. r = Inr (p', t') \<Longrightarrow> R p' p) \<Longrightarrow> step_R p (clause s r)"
  by (auto simp: clause_def split: sum.splits)

lemma timed_clause_R: "(\<And>p' t'. r = Inr (p', t') \<Longrightarrow> R p' p) \<Longrightarrow> step_R p (timed_clause s r)"
  by (auto simp: timed_clause_def split: sum.splits)

lemma worded_R:
  "(\<And>w s'. R (rs_parser s') (rs_parser s) \<Longrightarrow> step_R (rs_parser s) (k w s')) \<Longrightarrow>
   step_R (rs_parser s) (worded cf s k)"
  by (auto simp: worded_def dest!: next_word_R split: sum.splits)

lemma date_word_R: "step_R (rs_parser s) (date_word ty v s)"
  by (simp add: date_word_def Let_def split: sum.splits)

lemma flag_word_R: "step_R (rs_parser s) (flag_word ty v s)"
  by (simp add: flag_word_def Let_def)

lemma max_overdue_word_R: "step_R (rs_parser s) (max_overdue_word cf s)"
  by (auto simp: max_overdue_word_def Let_def next_token_R(1) split: sum.splits prod.splits)

lemma type_word_R: "step_R (rs_parser s) (type_word cf v s)"
  unfolding type_word_def Let_def by (auto intro: worded_R)

lemma info_word_R: "step_R (rs_parser s) (info_word cf s)"
  by (auto simp: info_word_def dest: ParseQuotedString_R split: sum.splits prod.splits option.splits)

lemma tz_word_R: "step_R (rs_parser s) (tz_word cf s)"
  by (auto simp: tz_word_def dest: ParseTokenOrQuotedString_R split: sum.splits prod.splits)

lemma duration_word_R: "step_R (rs_parser s) (duration_word cf s)"
  by (auto simp: duration_word_def Let_def next_token_R(1) intro: timed_clause_R
      split: sum.splits prod.splits)

lemma complete_through_R:
  "step_R p (case GetFullDate cf p of Inl e \<Rightarrow> RemFail e
     | Inr (dse, p) \<Rightarrow> RemMore (s\<lparr>rs_parser := p, rs_trig := f dse\<rparr>))"
  by (auto dest: GetFullDate_R split: sum.splits)

lemmas clause_words_R = max_overdue_word_R type_word_R info_word_R tz_word_R
  duration_word_R complete_through_R

lemma clause_word_R: "step_R (rs_parser s) (clause_word cf ty v s)"
  unfolding clause_word_def Let_def ParseTimeTrig_def
  by (simp add: clause_words_R clause_R timed_clause_R worded_R ParsePriority_R
      time_trig_R ParseScanFrom_R ParseUntil_R ParseLocalOmit_R)

lemma rem_word_R: "step_R (rs_parser s) (rem_word cf w ty v s)"
  unfolding rem_word_def Let_def by (simp add: date_word_R flag_word_R clause_word_R)

end

lemma flags_used [simp]:
  "used k (p\<lparr>p_expr_happened := a, p_nonconst_expr := b\<rparr>) q \<longleftrightarrow> used k p q"
  by (simp add: used_def text_size_def)

interpretation used: line_relation "used 0"
  by unfold_locales (auto intro: PushToken_used)

lemma rem_word_shorter:
  assumes "next_token cf p = Inr (w, ty, v, q)" "rem_word cf w ty v (s\<lparr>rs_parser := q\<rparr>) = RemMore s'"
  shows "(rs_parser s', p) \<in> word_order"
proof -
  have "FindToken (rc_seps cf) w = (ty, v)"
    using assms(1) by (auto simp: next_token_def split: sum.splits prod.splits)
  moreover have "ty \<noteq> T_Empty"
    using assms(2) by (auto simp: rem_word_def date_types_def flag_types_def clause_types_def)
  ultimately have "0 < length w" by (cases w) (auto simp: FindToken_def)
  moreover have "used 0 (rs_parser s') q"
    using used.rem_word_R [of "s\<lparr>rs_parser := q\<rparr>" cf w ty v] assms(2) by simp
  ultimately show ?thesis
    using used_0_trans [OF _ next_token_used(1) [OF assms(1)]] used_word_order by blast
qed

text \<open>The flag tells a return from within the loop from its end.\<close>

function rem_loop :: "rem_config \<Rightarrow> rem_state \<Rightarrow> errcode + bool \<times> rem_state" where
  "rem_loop cf s =
    (case next_token cf (rs_parser s) of
       Inl e \<Rightarrow> Inl e
     | Inr (w, ty, v, p) \<Rightarrow>
         (case rem_word cf w ty v (s\<lparr>rs_parser := p\<rparr>) of
            RemMore s \<Rightarrow> rem_loop cf s
          | RemDone s \<Rightarrow> Inr (True, s)
          | RemReturn s \<Rightarrow> Inr (False, s)
          | RemFail e \<Rightarrow> Inl e))"
  by pat_completeness auto
termination
  by (relation "inv_image word_order (\<lambda>(cf, s). rs_parser s)") (auto intro: rem_word_shorter)

declare rem_loop.simps [simp del]

text \<open>What is done after the loop, but for the warnings.\<close>

definition note_expr :: "Parser \<Rightarrow> Trigger \<Rightarrow> Trigger" where
  "note_expr p t =
    (let t = (if p_nonconst_expr p then t\<lparr>nonconst_expr := True\<rparr> else t)
     in if p_expr_happened p then t\<lparr>expr_happened := True\<rparr> else t)"

text \<open>LAST counts back from the first of the next month.\<close>

definition adjust_for_last :: "Trigger \<Rightarrow> Trigger" where
  "adjust_for_last t =
    (if \<not> adj_for_last t then t
     else
       let t = t\<lparr>adj_for_last := False\<rparr> in
       if trg_m t = NO_MON then t
       else if trg_m t + 1 < 12 then t\<lparr>trg_m := trg_m t + 1\<rparr>
       else if trg_y t \<noteq> NO_YR then t\<lparr>trg_m := 0, trg_y := trg_y t + 1\<rparr>
       else t\<lparr>trg_m := 0\<rparr>)"

definition strip_tz :: "Trigger \<Rightarrow> Trigger" where
  "strip_tz t =
    (case tz t of
       Some z \<Rightarrow> if starts (\<lambda>c. c = CHR ''!'') z then t\<lparr>tz := Some (tl z)\<rparr> else t
     | None \<Rightarrow> t)"

definition finish_rem :: "rem_state \<Rightarrow> errcode + Parser \<times> Trigger \<times> TimeTrig" where
  "finish_rem s =
    (let p = rs_parser s; t = note_expr p (rs_trig s); tim = rs_tim s in
     if need_wkday t \<and> trg_wd t = NO_WD then Inl E_PARSE_ERR
     else Inr (p, strip_tz (adjust_for_last t),
               if trg_sched t \<noteq> [] then tim\<lparr>tt_delta := NO_DELTA\<rparr> else tim))"

definition ParseRem :: "rem_config \<Rightarrow> Parser \<Rightarrow> errcode + Parser \<times> Trigger \<times> TimeTrig" where
  "ParseRem cf p =
    (case rem_loop cf \<lparr>rs_parser = p, rs_trig = new_trigger (DefaultDelta cf) (DefaultPrio cf),
           rs_tim = new_timetrig (DefaultTDelta cf), seen_delta = False\<rparr> of
       Inl e \<Rightarrow> Inl e
     | Inr (ended, s) \<Rightarrow>
         if ended then finish_rem s else Inr (rs_parser s, rs_trig s, rs_tim s))"

end
