(* ===== verification/RemLine.thy ===== *)
theory RemLine
  imports RemParse "HOL-Library.Multiset"
begin

text \<open>
  What the parser of reminder lines promises to the computation of trigger dates: from a line
  of plain text whose numbers have at most nine digits, a reminder that is accepted has a
  trigger with a day, month, year and weekdays in range.  Longer numbers overflow in the
  source.
\<close>

section \<open>Lines without long numbers\<close>

text \<open>\<open>runs_ok k s\<close>: at most \<open>k\<close> digits come first, and at most nine in a row later.\<close>

fun runs_ok :: "nat \<Rightarrow> string \<Rightarrow> bool" where
  "runs_ok k [] = True"
| "runs_ok k (c # s) = (if isdigit c then 0 < k \<and> runs_ok (k - 1) s else runs_ok 9 s)"

definition fine :: "string \<Rightarrow> bool" where
  "fine s \<longleftrightarrow> cstring s \<and> CHR ''['' \<notin> set s \<and> runs_ok 9 s"

lemma runs_ok_mono: "runs_ok k s \<Longrightarrow> k \<le> l \<Longrightarrow> runs_ok l s"
proof (induction s arbitrary: k l)
  case (Cons c s)
  then show ?case using Cons.IH [of "k - 1" "l - 1"] by (auto split: if_splits)
qed simp

lemma runs_ok_prefix: "runs_ok k (u @ v) \<Longrightarrow> runs_ok k u"
  by (induction u arbitrary: k) (auto split: if_splits)

lemma runs_ok_suffix: "runs_ok k (u @ v) \<Longrightarrow> k \<le> 9 \<Longrightarrow> runs_ok 9 v"
proof (induction u arbitrary: k)
  case (Cons c u)
  then show ?case using Cons.IH [of "k - 1"] Cons.IH [of 9] by (auto split: if_splits)
qed (auto intro: runs_ok_mono)

lemma runs_ok_space: "runs_ok k u \<Longrightarrow> runs_ok 9 v \<Longrightarrow> runs_ok k (u @ CHR '' '' # v)"
  by (induction u arbitrary: k) (auto simp: isdigit_def split: if_splits)

lemma fine_prefix: "fine (u @ v) \<Longrightarrow> fine u"
  using runs_ok_prefix by (auto simp: fine_def cstring_def)

lemma fine_suffix: "fine (u @ v) \<Longrightarrow> fine v"
  using runs_ok_suffix [of 9] by (auto simp: fine_def cstring_def)

lemma fine_Cons: "fine (c # s) \<Longrightarrow> fine s"
  using fine_suffix [of "[c]" s] by simp

lemma fine_Nil [simp]: "fine []"
  by (simp add: fine_def cstring_def)

lemma fine_space: "fine u \<Longrightarrow> fine v \<Longrightarrow> fine (u @ CHR '' '' # v)"
  using runs_ok_space [of 9 u v] by (auto simp: fine_def cstring_def)

definition stream :: "Parser \<Rightarrow> string" where
  "stream p = tokenPushed p @ pos p"

definition good :: "Parser \<Rightarrow> bool" where
  "good p \<longleftrightarrow> \<not> isnested p \<and> epos p = [] \<and> fine (stream p)"

lemma ParseChar_good:
  assumes "good p"
  obtains p' where "ParseChar ev look p = (Inr (peek (stream p)), p')" "good p'"
    "stream p' = (if look then stream p else tl (stream p))"
proof (cases "tokenPushed p")
  case (Cons c s)
  then have "ParseChar ev look p = (Inr (Some c), if look then p else p\<lparr>tokenPushed := s\<rparr>)"
    by (rule ParseChar_pushed)
  moreover have "good (p\<lparr>tokenPushed := s\<rparr>)"
    using assms Cons by (auto simp: good_def stream_def dest: fine_Cons)
  ultimately show thesis using that Cons assms by (auto simp: stream_def split: if_splits)
next
  case Nil
  have nn: "\<not> nesting p" "settle p = p" using assms by (auto simp: good_def nesting_def settle_def)
  show thesis
  proof (cases "pos p")
    case pos: Nil
    then show thesis using that [of p] assms nn Nil
      by (simp add: ParseChar_def parse_text_end stream_def)
  next
    case pos: (Cons c s)
    then have "c \<noteq> CHR ''[''" using assms Nil by (auto simp: good_def stream_def fine_def)
    then have "ParseChar ev look p = (Inr (Some c), if look then p else p\<lparr>pos := s\<rparr>)"
      using Nil pos nn by (simp add: ParseChar_def parse_text_char)
    moreover have "good (p\<lparr>pos := s\<rparr>)" using assms Nil pos by (auto simp: good_def stream_def dest: fine_Cons)
    ultimately show thesis using that Nil pos assms by (auto simp: stream_def split: if_splits)
  qed
qed

lemma ParseChar_goodD:
  assumes "good p" "ParseChar ev look p = (Inr c, p')"
  shows "good p'" "c = peek (stream p)" "stream p' = (if look then stream p else tl (stream p))"
proof -
  obtain q where "ParseChar ev look p = (Inr (peek (stream p)), q)" "good q"
      "stream q = (if look then stream p else tl (stream p))"
    by (rule ParseChar_good [OF assms(1)])
  then show "good p'" "c = peek (stream p)" "stream p' = (if look then stream p else tl (stream p))"
    using assms(2) by auto
qed

interpretation keeps_good: parse_relation "\<lambda>p' p. good p \<longrightarrow> good p'"
  by unfold_locales (auto dest: ParseChar_goodD(1))

text \<open>A word read from such a line is a part of it.\<close>

definition ahead :: "char option \<Rightarrow> Parser \<Rightarrow> string" where
  "ahead c p = (case c of None \<Rightarrow> [] | Some x \<Rightarrow> x # stream p)"

lemma ahead_next:
  assumes "good p" "ParseChar ev False p = (Inr c, p')"
  shows "ahead c p' = stream p"
  using ParseChar_goodD [OF assms] by (cases "stream p") (auto simp: ahead_def)

lemma skip_empty_fine:
  "skip_empty ev c p = (Inr d, p') \<Longrightarrow> good p \<Longrightarrow> fine (ahead c p) \<Longrightarrow> fine (ahead d p')"
proof (induction ev c p arbitrary: d p' rule: skip_empty.induct)
  case (1 ev c p)
  show ?case
  proof (cases "\<exists>x. c = Some x \<and> isempty x")
    case True
    then obtain x where x: "c = Some x" "isempty x" by blast
    then obtain e r where r: "ParseChar ev False p = (Inr e, r)" "skip_empty ev e r = (Inr d, p')"
      using "1.prems" by (auto simp: skip_empty.simps [of ev "Some x"] split: prod.splits sum.splits)
    have "fine (ahead e r)"
      using ahead_next [OF "1.prems"(2) r(1)] "1.prems"(3) x(1) fine_Cons by (simp add: ahead_def)
    then show ?thesis
      using "1.IH" [OF x r(1) [symmetric] refl] r(2) ParseChar_goodD(1) [OF "1.prems"(2) r(1)] by simp
  next
    case False
    then show ?thesis using "1.prems" by (auto simp: skip_empty.simps [of ev c] split: option.splits)
  qed
qed

lemma read_word_fine:
  "read_word ev w c p = (Inr u, p') \<Longrightarrow> good p \<Longrightarrow> fine (w @ ahead c p) \<Longrightarrow> fine u"
proof (induction ev w c p arbitrary: u p' rule: read_word.induct)
  case (1 ev w c p)
  show ?case
  proof (cases "\<exists>x. c = Some x \<and> \<not> isempty x")
    case True
    then obtain x where x: "c = Some x" "\<not> isempty x" by blast
    then obtain e r where r: "ParseChar ev False p = (Inr e, r)" "read_word ev (w @ [x]) e r = (Inr u, p')"
      using "1.prems" by (auto simp: read_word.simps [of ev w "Some x"] split: prod.splits sum.splits)
    have "fine ((w @ [x]) @ ahead e r)"
      using ahead_next [OF "1.prems"(2) r(1)] "1.prems"(3) x(1) by (simp add: ahead_def)
    then show ?thesis
      using "1.IH" [OF x r(1) [symmetric] refl] r(2) ParseChar_goodD(1) [OF "1.prems"(2) r(1)] by simp
  next
    case False
    then show ?thesis using "1.prems" fine_prefix
      by (auto simp: read_word.simps [of ev w c] split: option.splits)
  qed
qed

lemma ParseToken_fine:
  assumes "ParseToken ev p = (Inr w, p')" "good p"
  shows "fine w"
proof -
  obtain c q d r where q: "ParseChar ev False p = (Inr c, q)" "skip_empty ev c q = (Inr d, r)"
      "read_word ev [] d r = (Inr w, p')"
    using assms by (auto simp: ParseToken_def split: prod.splits sum.splits)
  have good: "good q" "good r"
    using ParseChar_goodD(1) [OF assms(2) q(1)] keeps_good.skip_empty_R [OF q(2)] by auto
  have "fine (ahead c q)" using ahead_next [OF assms(2) q(1)] assms(2) by (simp add: good_def)
  from skip_empty_fine [OF q(2) good(1) this] show ?thesis
    using read_word_fine [OF q(3) good(2)] by simp
qed

lemma PushToken_good: "good p \<Longrightarrow> fine w \<Longrightarrow> good (PushToken w p)"
  using fine_suffix fine_space by (auto simp: good_def stream_def PushToken_def)

interpretation keeps_good: line_relation "\<lambda>p' p. good p \<longrightarrow> good p'"
proof
  show "good p \<longrightarrow> good (PushToken w p')" if "ParseToken ev p = (Inr w, p')" for ev p w p'
    using PushToken_good ParseToken_fine [OF that] keeps_good.ParseToken_R [OF that] by blast
qed (auto simp: good_def stream_def)

section \<open>The values of their tokens\<close>

lemma parse_digits_runs:
  "parse_digits v s = (n, r) \<Longrightarrow> runs_ok k s \<Longrightarrow> k \<le> 9 \<Longrightarrow> 0 \<le> v \<Longrightarrow> v < 10 ^ (9 - k) \<Longrightarrow>
   0 \<le> n \<and> n < 1000000000 \<and> runs_ok 9 r"
proof (induction v s arbitrary: k rule: parse_digits.induct)
  case (1 v)
  then have "(10::int) ^ (9 - k) \<le> 10 ^ 9" by (intro power_increasing) auto
  then show ?case using 1 by simp
next
  case (2 v c s)
  show ?case
  proof (cases "isdigit c")
    case True
    then obtain j where j: "k = Suc j" using "2.prems"(2) by (cases k) auto
    let ?w = "v * 10 + (ch c - 48)"
    have d: "0 \<le> ch c - 48" "ch c - 48 \<le> 9" using isdigit_ch [OF True] by auto
    have "v < 10 ^ (8 - j)" "j \<le> 8" using "2.prems"(3,5) j by auto
    then have "(v + 1) * 10 \<le> 10 ^ (8 - j) * (10::int)" by (intro mult_right_mono) auto
    also have "\<dots> = 10 ^ Suc (8 - j)" by simp
    also have "Suc (8 - j) = 9 - j" using \<open>j \<le> 8\<close> by simp
    finally have le: "(v + 1) * 10 \<le> 10 ^ (9 - j)" .
    have "?w < (v + 1) * 10" using d by simp
    then have w: "?w < 10 ^ (9 - j)" using le by (rule less_le_trans)
    have w0: "0 \<le> ?w" using d "2.prems"(4) by simp
    have "(10::int) ^ (9 - j) \<le> 10 ^ 9" by (intro power_increasing) auto
    then have "?w < 1000000000" using w by simp
    then have "cint (cint (v * 10) + (ch c - 48)) = ?w"
      using d "2.prems"(4) by (simp add: cint_id in_int_def)
    then show ?thesis using "2.IH" [OF True, of j] "2.prems" w w0 True j by simp
  next
    case False
    have "(10::int) ^ (9 - k) \<le> 10 ^ 9" by (intro power_increasing) auto
    then have "v < 1000000000" using "2.prems"(5) by simp
    then show ?thesis using False "2.prems" by auto
  qed
qed

lemma parse_digits_9: "parse_digits 0 s = (n, r) \<Longrightarrow> runs_ok 9 s \<Longrightarrow> 0 \<le> n \<and> n < 1000000000 \<and> runs_ok 9 r"
  by (rule parse_digits_runs [of 0 s n r 9]) auto

lemma runs_ok_tl: "runs_ok 9 s \<Longrightarrow> runs_ok 9 (tl s)"
  using runs_ok_suffix [of 9 "[hd s]" "tl s"] by (cases s) auto

lemma ParseLiteralTime_runs:
  assumes "ParseLiteralTime sp s = Inr (t, r)" "runs_ok 9 s"
  shows "0 \<le> t \<and> t < 1440"
proof -
  obtain h s1 where h: "parse_digits 0 s = (h, s1)" by fastforce
  obtain m s2 where m: "parse_digits 0 (tl s1) = (m, s2)" by fastforce
  obtain a s3 where a: "parse_ampm s2 = (a, s3)" by fastforce
  have c: "h \<le> 23" "m \<le> 59" "\<exists>h'. ampm_hour a h = Some h' \<and> t = cint (cint (h' * 60) + m)"
    using assms(1) h m a unfolding ParseLiteralTime_def
    by (auto simp: Let_def split: if_splits option.splits)
  moreover have "0 \<le> h" "0 \<le> m"
    using parse_digits_9 [OF h assms(2)] parse_digits_9 [OF m runs_ok_tl] by auto
  ultimately show ?thesis using ampm_hour_bounds hour_minute_bounds by blast
qed

text \<open>What the trigger needs of a token, beyond \<open>tok_ok\<close>.\<close>

definition rem_tok_ok :: "TokTypes \<times> int \<Rightarrow> bool" where
  "rem_tok_ok tok \<longleftrightarrow> tok_ok tok \<and> (case tok of (ty, v) \<Rightarrow>
     (ty = T_DateTime \<or> ty = T_Rep \<longrightarrow> 0 \<le> v) \<and> (ty = T_Time \<longrightarrow> 0 \<le> v \<and> v < 1440)
     \<and> (ty = T_Ordinal \<longrightarrow> v \<le> 3))"

lemma date_token_runs:
  assumes "date_token sp s = (T_DateTime, v)" "seps_ok sp" "runs_ok 9 s"
    and "parse_digits 0 s = (y, r)" "starts (\<lambda>c. c = CHR ''-'' \<or> c = CHR ''/'') r"
  shows "0 \<le> v"
proof -
  have n: "\<not> starts (is_timesep sp) r"
    using assms(2,5) by (cases r) (auto simp: is_timesep_def seps_ok_def)
  obtain dse tim p where lit: "ParseLiteralDateOrTime sp s = Inr (dse, tim, p)" "tim \<noteq> NO_TIME"
      "v = cint (MINUTES_PER_DAY * dse + tim)"
    using assms(1) by (auto simp: date_token_def token_error_def split: sum.splits prod.splits if_splits)
  obtain y' m d where ok: "DateOK y' m d" "dse = DSE y' m d"
    using ParseLiteralDateOrTime_date [OF lit(1) assms(4) n] by blast
  obtain m' r1 where m: "parse_digits 0 (tl r) = (m', r1)" by fastforce
  obtain d' r2 where d: "parse_digits 0 (tl r1) = (d', r2)" by fastforce
  have "ParseLiteralTime sp (tl r2) = Inr (tim, p)"
    using lit(1,2) assms(4) m d n unfolding ParseLiteralDateOrTime_def
    by (auto simp: Let_def split: if_splits sum.splits prod.splits)
  moreover have "runs_ok 9 (tl r2)"
    using parse_digits_9 [OF assms(4,3)] parse_digits_9 [OF m runs_ok_tl] parse_digits_9 [OF d runs_ok_tl]
      runs_ok_tl by blast
  ultimately have "0 \<le> tim \<and> tim < 1440" by (rule ParseLiteralTime_runs)
  moreover have "0 \<le> dse" "dse \<le> 1461400"
    using ok DSE_upper [OF ok(1)] DSE_nonneg by (auto simp: DateOK_is_date)
  ultimately show ?thesis using lit(3) by (simp add: cint_id in_int_def MINUTES_PER_DAY_def)
qed

lemma signed_token_runs:
  assumes "signed_token ty 1 s = (ty, v)" "ty \<noteq> T_Illegal" "runs_ok 9 s"
  shows "0 \<le> v"
proof -
  obtain n r where n: "parse_digits 0 s = (n, r)" by fastforce
  then show ?thesis using assms parse_digits_9 [OF n assms(3)]
    by (auto simp: signed_token_def token_error_def init_token_def cint_id in_int_def split: if_splits)
qed

lemma time_token_runs:
  assumes "time_token h s = (T_Time, v)" "0 \<le> h" "runs_ok 9 s"
  shows "0 \<le> v \<and> v < 1440"
proof -
  obtain m r where m: "parse_digits 0 s = (m, r)" by fastforce
  obtain a r' where a: "parse_ampm r = (a, r')" by fastforce
  have "m \<le> 59" "\<exists>h'. ampm_hour a h = Some h' \<and> h' \<le> 23 \<and> v = cint (cint (h' * 60) + m)"
    using assms(1) m a by (auto simp: time_token_def token_error_def Let_def split: if_splits option.splits)
  moreover have "0 \<le> m" using parse_digits_9 [OF m assms(3)] by simp
  moreover have "ampm_hour a h = Some h' \<Longrightarrow> 0 \<le> h'" for h'
    using assms(2) by (auto simp: ampm_hour_def split: option.splits if_splits)
  ultimately show ?thesis using hour_minute_bounds by blast
qed

lemma FindNumericToken_runs:
  assumes "FindNumericToken sp s = (ty, v)" "seps_ok sp" "runs_ok 9 s"
  shows "(ty = T_DateTime \<or> ty = T_Rep \<longrightarrow> 0 \<le> v) \<and> (ty = T_Time \<longrightarrow> 0 \<le> v \<and> v < 1440) \<and> ty \<noteq> T_Ordinal"
proof -
  obtain n r where n: "parse_digits 0 s = (n, r)" by fastforce
  note rr = parse_digits_9 [OF n assms(3)]
  consider (date) "starts isdigit s" "starts (\<lambda>c. c = CHR ''-'' \<or> c = CHR ''/'') r" "date_token sp s = (ty, v)"
    | (time) "starts (is_timesep sp) r" "time_token n (tl r) = (ty, v)"
    | (rep) "signed_token T_Rep 1 (tl s) = (ty, v)"
    | (other) "ty \<notin> {T_DateTime, T_Rep, T_Time, T_Ordinal}"
    using assms(1) n
    by (auto simp: FindNumericToken_def classify_number_def signed_token_def doubled_token_def
        token_error_def init_token_def split: if_splits prod.splits)
  then show ?thesis
  proof cases
    case date
    have "ty \<noteq> T_Time \<and> ty \<noteq> T_Rep \<and> ty \<noteq> T_Ordinal"
      using date_token_ranges [OF date(3) assms(2) n date(2)] by auto
    then show ?thesis using date date_token_runs [OF _ assms(2,3) n date(2)] by auto
  next
    case time
    have "ty \<in> {T_Time, T_LongTime, T_Illegal}"
      using time(2) by (auto simp: time_token_def token_error_def Let_def split: if_splits prod.splits option.splits)
    then show ?thesis using time time_token_runs [of n "tl r" v] rr runs_ok_tl by auto
  next
    case rep
    have "ty \<in> {T_Rep, T_Illegal}"
      using rep by (auto simp: signed_token_def token_error_def init_token_def split: if_splits prod.splits)
    then show ?thesis using rep signed_token_runs [of T_Rep "tl s" v] assms(3) runs_ok_tl by auto
  qed auto
qed

lemma TokArray_rem_ok: "i < length TokArray \<Longrightarrow> rem_tok_ok (tok_entry i)"
proof -
  have "list_all (\<lambda>t. tok_type t \<noteq> T_DateTime \<and> tok_type t \<noteq> T_Rep \<and> tok_type t \<noteq> T_Time
      \<and> (tok_type t = T_Ordinal \<longrightarrow> tok_val t \<le> 3)) TokArray"
    unfolding TokArray_def by simp
  moreover assume "i < length TokArray"
  ultimately show ?thesis using TokArray_ok [of i] by (simp add: list_all_length rem_tok_ok_def tok_entry_def)
qed

lemma FindToken_rem_ok:
  assumes "seps_ok sp" "fine s"
  shows "rem_tok_ok (FindToken sp s)"
proof (cases "s \<noteq> [] \<and> isalpha (hd s)")
  case True
  have s: "cstring s" using assms(2) by (simp add: fine_def)
  have eq: "FindToken sp s = lookup_token s" using FindToken_lookup True s by blast
  show ?thesis
  proof (cases "\<exists>i<length TokArray. qualifies s (TokArray ! i)")
    case True
    then show ?thesis using lookup_token_entry TokArray_rem_ok eq by metis
  next
    case False
    then show ?thesis using lookup_token_none [of s]
      by (auto simp: eq init_token_def rem_tok_ok_def tok_ok_def)
  qed
next
  case False
  have "tok_ok (FindToken sp s)" using FindToken_ok assms by (simp add: fine_def)
  moreover have "case FindToken sp s of (ty, v) \<Rightarrow>
     (ty = T_DateTime \<or> ty = T_Rep \<longrightarrow> 0 \<le> v) \<and> (ty = T_Time \<longrightarrow> 0 \<le> v \<and> v < 1440) \<and> (ty = T_Ordinal \<longrightarrow> v \<le> 3)"
    using False FindNumericToken_runs [of sp s] assms
    by (auto simp: FindToken_def fine_def split: prod.splits if_splits)
  ultimately show ?thesis by (simp add: rem_tok_ok_def)
qed

section \<open>The trigger of a line\<close>

definition fields_ok :: "Trigger \<Rightarrow> TimeTrig \<Rightarrow> bool" where
  "fields_ok t tim \<longleftrightarrow> trig_ok t \<and> 0 \<le> trg_rep t
    \<and> (ttime tim = NO_TIME \<or> 0 \<le> ttime tim \<and> ttime tim < 1440)"

lemma next_token_good:
  assumes "next_token cf p = Inr (w, ty, v, q)" "good p" "seps_ok (rc_seps cf)"
  shows "good q" "rem_tok_ok (ty, v)"
proof -
  have w: "ParseToken (rc_eval cf) p = (Inr w, q)" "FindToken (rc_seps cf) w = (ty, v)"
    using assms(1) by (auto simp: next_token_def next_word_def split: prod.splits sum.splits)
  show "good q" using keeps_good.ParseToken_R [OF w(1)] assms(2) by simp
  show "rem_tok_ok (ty, v)"
    using FindToken_rem_ok [OF assms(3) ParseToken_fine [OF w(1) assms(2)]] w(2) by simp
qed

lemma time_trig_fields:
  "time_trig cf sd p tim = Inr (p', tim') \<Longrightarrow> good p \<Longrightarrow> seps_ok (rc_seps cf) \<Longrightarrow>
   fields_ok t tim \<Longrightarrow> fields_ok t tim'"
proof (induction cf sd p tim rule: time_trig.induct)
  case (1 cf sd p tim)
  obtain w ty v q where q: "next_token cf p = Inr (w, ty, v, q)"
    using "1.prems" by (auto simp: time_trig.simps [of cf sd p tim] split: sum.splits)
  note ok = next_token_good [OF q "1.prems"(2,3)]
  show ?case
    using "1.IH" [OF q refl refl refl] "1.prems" q ok
    by (auto simp: time_trig.simps [of cf sd p tim] fields_ok_def rem_tok_ok_def split: if_splits)
qed

lemma ParseLocalOmit_fields:
  "ParseLocalOmit cf p t = Inr (p', t') \<Longrightarrow> fields_ok t tim \<Longrightarrow> fields_ok t' tim"
proof (induction cf p t rule: ParseLocalOmit.induct)
  case (1 cf p t)
  obtain w ty v q where q: "next_token cf p = Inr (w, ty, v, q)"
    using "1.prems" by (auto simp: ParseLocalOmit.simps [of cf p t] split: sum.splits)
  show ?case
    using "1.IH" [OF q refl refl refl] "1.prems" q
    by (auto simp: ParseLocalOmit.simps [of cf p t] fields_ok_def trig_ok_def split: if_splits)
qed

lemma set_from_fields [simp]: "fields_ok (set_from k d t) tim \<longleftrightarrow> fields_ok t tim"
  by (simp add: set_from_def fields_ok_def trig_ok_def)

lemma scan_from_fields:
  "scan_from cf k y m d p t = Inr (p', t') \<Longrightarrow> fields_ok t tim \<Longrightarrow> fields_ok t' tim"
proof (induction cf k y m d p t rule: scan_from.induct)
  case (1 cf k y m d p t)
  obtain w ty v q where q: "next_token cf p = Inr (w, ty, v, q)"
    using "1.prems" by (auto simp: scan_from.simps [of cf k y m d p t] split: sum.splits)
  have "fields_ok (t\<lparr>scanfrom := x, nonconst_expr := True\<rparr>) tim" for x
    using "1.prems"(2) by (simp add: fields_ok_def trig_ok_def)
  then show ?case
    using "1.IH" [OF q refl refl refl] "1.prems" q
    by (auto simp: scan_from.simps [of cf k y m d p t] split: if_splits)
qed

definition step_fields :: "rem_step \<Rightarrow> bool" where
  "step_fields r \<longleftrightarrow>
    (\<forall>s. r = RemMore s \<or> r = RemDone s \<or> r = RemReturn s \<longrightarrow> fields_ok (rs_trig s) (rs_tim s))"

lemma step_fields_simps [simp]:
  "step_fields (RemMore s) \<longleftrightarrow> fields_ok (rs_trig s) (rs_tim s)"
  "step_fields (RemDone s) \<longleftrightarrow> fields_ok (rs_trig s) (rs_tim s)"
  "step_fields (RemReturn s) \<longleftrightarrow> fields_ok (rs_trig s) (rs_tim s)"
  "step_fields (RemFail e)"
  "step_fields (more_trig s t) \<longleftrightarrow> fields_ok t (rs_tim s)"
  by (auto simp: step_fields_def more_trig_def)

lemma set_date_fields:
  assumes "set_date t dse = Inr t'" "fields_ok t tim" "0 \<le> dse"
  shows "fields_ok t' tim"
proof -
  obtain y m d where x: "FromDSE dse = (y, m, d)" by (cases "FromDSE dse")
  have "is_date (y, m, d)" using gregorian.dec_valid [OF assms(3)] x by simp
  then show ?thesis using assms x month_length_bounds(2) [of y m]
    by (auto simp: set_date_def fields_ok_def trig_ok_def split: if_splits)
qed

lemma fields_ok_ignores [simp]:
  "fields_ok (t\<lparr>trg_back := n\<rparr>) tim \<longleftrightarrow> fields_ok t tim"
  "fields_ok (t\<lparr>adj_for_last := b\<rparr>) tim \<longleftrightarrow> fields_ok t tim"
  "fields_ok (t\<lparr>need_wkday := b\<rparr>) tim \<longleftrightarrow> fields_ok t tim"
  "fields_ok (t\<lparr>trg_until := n\<rparr>) tim \<longleftrightarrow> fields_ok t tim"
  "fields_ok (t\<lparr>duration_days := n\<rparr>) tim \<longleftrightarrow> fields_ok t tim"
  "fields_ok (t\<lparr>trg_typ := n\<rparr>) tim \<longleftrightarrow> fields_ok t tim"
  "fields_ok (t\<lparr>passthru := w\<rparr>) tim \<longleftrightarrow> fields_ok t tim"
  "fields_ok (t\<lparr>infos := ws\<rparr>) tim \<longleftrightarrow> fields_ok t tim"
  "fields_ok (t\<lparr>tz := z\<rparr>) tim \<longleftrightarrow> fields_ok t tim"
  "fields_ok (t\<lparr>max_overdue := n\<rparr>) tim \<longleftrightarrow> fields_ok t tim"
  "fields_ok (t\<lparr>complete_through := n\<rparr>) tim \<longleftrightarrow> fields_ok t tim"
  "fields_ok (t\<lparr>trg_warn := w\<rparr>) tim \<longleftrightarrow> fields_ok t tim"
  "fields_ok (t\<lparr>trg_sched := w\<rparr>) tim \<longleftrightarrow> fields_ok t tim"
  "fields_ok (t\<lparr>tags := w\<rparr>) tim \<longleftrightarrow> fields_ok t tim"
  "fields_ok (t\<lparr>omitfunc := w\<rparr>) tim \<longleftrightarrow> fields_ok t tim"
  "fields_ok (t\<lparr>nonconst_expr := b\<rparr>) tim \<longleftrightarrow> fields_ok t tim"
  "fields_ok (t\<lparr>expr_happened := b\<rparr>) tim \<longleftrightarrow> fields_ok t tim"
  "fields_ok t (tim\<lparr>duration := n\<rparr>) \<longleftrightarrow> fields_ok t tim"
  "fields_ok t (tim\<lparr>tt_delta := n\<rparr>) \<longleftrightarrow> fields_ok t tim"
  by (simp_all add: fields_ok_def trig_ok_def)

lemma fields_ok_set:
  "fields_ok t tim \<Longrightarrow> 1 \<le> v \<Longrightarrow> v \<le> 31 \<Longrightarrow> fields_ok (t\<lparr>trg_d := v\<rparr>) tim"
  "fields_ok t tim \<Longrightarrow> 0 \<le> v \<Longrightarrow> v \<le> 11 \<Longrightarrow> fields_ok (t\<lparr>trg_m := v\<rparr>) tim"
  "fields_ok t tim \<Longrightarrow> 1990 \<le> v \<Longrightarrow> fields_ok (t\<lparr>trg_y := v\<rparr>) tim"
  "fields_ok t tim \<Longrightarrow> 0 \<le> v \<Longrightarrow> v < 128 \<Longrightarrow> fields_ok (t\<lparr>trg_wd := v\<rparr>) tim"
  "fields_ok t tim \<Longrightarrow> 0 \<le> v \<Longrightarrow> fields_ok (t\<lparr>trg_rep := v\<rparr>) tim"
  "fields_ok t tim \<Longrightarrow> 0 \<le> v \<Longrightarrow> v < 1440 \<Longrightarrow> fields_ok t (tim\<lparr>ttime := v, ttime_orig := v\<rparr>)"
  by (simp_all add: fields_ok_def trig_ok_def)

lemma rem_tok_okD:
  assumes "rem_tok_ok (ty, v)"
  shows "ty = T_WkDay \<Longrightarrow> 0 \<le> v \<and> v \<le> 6" "ty = T_Month \<Longrightarrow> 0 \<le> v \<and> v \<le> 11"
    "ty = T_Day \<Longrightarrow> 1 \<le> v \<and> v \<le> 31" "ty = T_Year \<Longrightarrow> 1990 \<le> v"
    "ty = T_Ordinal \<Longrightarrow> v \<le> 3" "ty = T_Rep \<Longrightarrow> 0 \<le> v" "ty = T_Time \<Longrightarrow> 0 \<le> v \<and> v < 1440"
    "ty = T_DateTime \<Longrightarrow> 0 \<le> v" "ty = T_Date \<Longrightarrow> 0 \<le> v"
  using assms DSE_nonneg by (auto simp: rem_tok_ok_def tok_ok_def DateOK_is_date)

lemma date_word_fields:
  assumes ok: "fields_ok (rs_trig s) (rs_tim s)" and tok: "rem_tok_ok (ty, v)"
  shows "step_fields (date_word ty v s)"
proof -
  let ?t = "rs_trig s"
  note v = rem_tok_okD [OF tok]
  have wd: "fields_ok (?t\<lparr>trg_wd := trg_wd ?t OR push_bit (nat v) 1\<rparr>) (rs_tim s)" if "ty = T_WkDay"
    using or_mask weekday_push_bit [of v] ok v(1) [OF that]
    by (intro fields_ok_set) (auto simp: fields_ok_def trig_ok_def)
  have date: "fields_ok t' (rs_tim s)" if "ty = T_Date" "set_date ?t v = Inr t'" for t'
    using set_date_fields [OF that(2) ok] v(9) that(1) by simp
  have datetime: "fields_ok t' ((rs_tim s)\<lparr>ttime := v smod MINUTES_PER_DAY, ttime_orig := v smod MINUTES_PER_DAY\<rparr>)"
    if "ty = T_DateTime" "set_date ?t (v sdiv MINUTES_PER_DAY) = Inr t'" for t'
  proof -
    have "0 \<le> v sdiv MINUTES_PER_DAY" "0 \<le> v smod MINUTES_PER_DAY" "v smod MINUTES_PER_DAY < 1440"
      using v(8) [OF that(1)] by (simp_all add: sdiv_nonneg smod_nonneg MINUTES_PER_DAY_def)
    then show ?thesis using set_date_fields [OF that(2) ok] fields_ok_set(6) by blast
  qed
  have ord: "fields_ok (?t\<lparr>trg_d := 1 + 7 * v\<rparr>) (rs_tim s)" if "ty = T_Ordinal" "\<not> v < 0"
    using fields_ok_set(1) [OF ok] v(5) [OF that(1)] that(2) by simp
  show ?thesis unfolding date_word_def Let_def
    using ok v ord wd date datetime fields_ok_set
    by (simp split: sum.splits)
qed

lemma flag_word_fields:
  assumes ok: "fields_ok (rs_trig s) (rs_tim s)" and tok: "rem_tok_ok (ty, v)"
  shows "step_fields (flag_word ty v s)"
proof -
  have other: "fields_ok (rs_trig s\<lparr>is_todo := b\<rparr>) (rs_tim s)" "fields_ok (rs_trig s\<lparr>maybe_uncomputable := b\<rparr>) (rs_tim s)"
    "fields_ok (rs_trig s\<lparr>trg_skip := n\<rparr>) (rs_tim s)" "fields_ok (rs_trig s\<lparr>delta := n\<rparr>) (rs_tim s)"
    "fields_ok (rs_trig s\<lparr>once := n\<rparr>) (rs_tim s)" "fields_ok (rs_trig s\<lparr>addomit := b\<rparr>) (rs_tim s)"
    "fields_ok (rs_trig s\<lparr>noqueue := b\<rparr>) (rs_tim s)" for b n
    using ok by (simp_all add: fields_ok_def trig_ok_def)
  show ?thesis unfolding flag_word_def Let_def
    using ok rem_tok_okD(6) [OF tok] fields_ok_set(5) by (simp add: other)
qed

lemma clause_fields:
  "(\<And>p t. r = Inr (p, t) \<Longrightarrow> fields_ok t (rs_tim s)) \<Longrightarrow> step_fields (clause s r)"
  by (auto simp: clause_def split: sum.splits)

lemma timed_clause_fields:
  "(\<And>p tim. r = Inr (p, tim) \<Longrightarrow> fields_ok (rs_trig s) tim) \<Longrightarrow> step_fields (timed_clause s r)"
  by (auto simp: timed_clause_def split: sum.splits)

lemma worded_fields:
  "(\<And>w p. step_fields (k w (s\<lparr>rs_parser := p\<rparr>))) \<Longrightarrow> step_fields (worded cf s k)"
  by (auto simp: worded_def split: sum.splits)

lemma FixSpecialType_fields [simp]: "fields_ok (FixSpecialType t) tim \<longleftrightarrow> fields_ok t tim"
  by (simp add: FixSpecialType_def Let_def fields_ok_def trig_ok_def)

lemma ParsePriority_fields: "ParsePriority cf p t = Inr (p', t') \<Longrightarrow> fields_ok t tim \<Longrightarrow> fields_ok t' tim"
  by (auto simp: ParsePriority_def fields_ok_def trig_ok_def split: sum.splits prod.splits if_splits)

lemma ParseUntil_fields: "ParseUntil cf p t = Inr (p', t') \<Longrightarrow> fields_ok t tim \<Longrightarrow> fields_ok t' tim"
  by (auto simp: ParseUntil_def fields_ok_def trig_ok_def split: sum.splits if_splits)

lemma ParseScanFrom_fields: "ParseScanFrom cf p t k = Inr (p', t') \<Longrightarrow> fields_ok t tim \<Longrightarrow> fields_ok t' tim"
  by (auto simp: ParseScanFrom_def scan_from_fields split: if_splits)

lemma clause_word_fields:
  assumes ok: "fields_ok (rs_trig s) (rs_tim s)" and tok: "rem_tok_ok (ty, v)"
    and good: "good (rs_parser s)" and sp: "seps_ok (rc_seps cf)"
  shows "step_fields (clause_word cf ty v s)"
proof -
  let ?p = "rs_parser s" and ?t = "rs_trig s" and ?tim = "rs_tim s"
  have timed: "step_fields (timed_clause s (ParseTimeTrig cf ?p tim))" if "fields_ok ?t tim" for tim
    using time_trig_fields [OF _ good sp that] by (auto intro: timed_clause_fields simp: ParseTimeTrig_def)
  have max_overdue: "step_fields (max_overdue_word cf s)"
    using ok by (auto simp: max_overdue_word_def Let_def split: sum.splits)
  have type: "step_fields (type_word cf v s)"
    using ok by (auto simp: type_word_def Let_def intro!: worded_fields)
  have info: "step_fields (info_word cf s)"
    using ok by (auto simp: info_word_def AppendTrigInfo_def split: sum.splits prod.splits if_splits)
  have tz: "step_fields (tz_word cf s)"
    using ok by (auto simp: tz_word_def split: sum.splits prod.splits)
  have dur: "step_fields (duration_word cf s)"
    using ok by (auto simp: duration_word_def Let_def intro!: timed_clause_fields split: sum.splits prod.splits)
  have until: "step_fields (clause s (ParseUntil cf ?p t))" if "fields_ok t ?tim" for t
    using ParseUntil_fields that by (intro clause_fields) blast
  have complete: "step_fields (case GetFullDate cf ?p of Inl e \<Rightarrow> RemFail e
      | Inr (dse, p) \<Rightarrow> RemMore (s\<lparr>rs_parser := p, rs_trig := ?t\<lparr>complete_through := dse\<rparr>\<rparr>))"
    using ok by (simp split: sum.splits)
  have others: "step_fields (clause s (ParsePriority cf ?p ?t))" "step_fields (clause s (ParseScanFrom cf ?p ?t v))"
      "step_fields (clause s (ParseLocalOmit cf ?p ?t))"
    using ParsePriority_fields ParseScanFrom_fields ParseLocalOmit_fields ok by (blast intro: clause_fields)+
  have time: "fields_ok ?t (?tim\<lparr>ttime := v, ttime_orig := v\<rparr>)" if "ty = T_Time"
    using fields_ok_set(6) [OF ok] rem_tok_okD(7) [OF tok that] by simp
  have rep: "fields_ok (?t\<lparr>trg_rep := 1\<rparr>) ?tim" using fields_ok_set(5) [OF ok] by simp
  show ?thesis unfolding clause_word_def Let_def
    using ok max_overdue type info tz dur others complete timed time until rep
    by (simp add: worded_fields)
qed

lemma rem_word_fields:
  assumes "fields_ok (rs_trig s) (rs_tim s)" "rem_tok_ok (ty, v)" "good (rs_parser s)" "seps_ok (rc_seps cf)"
  shows "step_fields (rem_word cf w ty v s)"
  unfolding rem_word_def Let_def
  using assms by (simp add: date_word_fields flag_word_fields clause_word_fields)

lemma rem_loop_fields:
  "rem_loop cf s = Inr (b, s') \<Longrightarrow> fields_ok (rs_trig s) (rs_tim s) \<Longrightarrow> good (rs_parser s) \<Longrightarrow>
   seps_ok (rc_seps cf) \<Longrightarrow> fields_ok (rs_trig s') (rs_tim s')"
proof (induction cf s rule: rem_loop.induct)
  case (1 cf s)
  obtain w ty v q where q: "next_token cf (rs_parser s) = Inr (w, ty, v, q)"
    using "1.prems" by (auto simp: rem_loop.simps [of cf s] split: sum.splits)
  let ?s = "s\<lparr>rs_parser := q\<rparr>"
  have ok: "step_fields (rem_word cf w ty v ?s)"
    using rem_word_fields [of ?s ty v cf w] next_token_good [OF q "1.prems"(3,4)] "1.prems"(2,4) by simp
  show ?case
  proof (cases "rem_word cf w ty v ?s")
    case (RemMore r)
    have "good (rs_parser r)"
      using keeps_good.rem_word_R [of ?s cf w ty v] next_token_good(1) [OF q "1.prems"(3,4)] RemMore
      by simp
    then show ?thesis
      using "1.IH" [OF q refl refl refl RemMore] "1.prems" ok q RemMore
      by (simp add: rem_loop.simps [of cf s])
  qed (use "1.prems" q ok in \<open>auto simp: rem_loop.simps [of cf s]\<close>)
qed

lemma note_expr_fields [simp]: "fields_ok (note_expr p t) tim \<longleftrightarrow> fields_ok t tim"
  by (simp add: note_expr_def Let_def)

lemma strip_tz_fields [simp]: "fields_ok (strip_tz t) tim \<longleftrightarrow> fields_ok t tim"
  by (simp add: strip_tz_def split: option.splits)

lemma adjust_for_last_fields: "fields_ok t tim \<Longrightarrow> fields_ok (adjust_for_last t) tim"
  by (auto simp: adjust_for_last_def Let_def fields_ok_def trig_ok_def)

lemma finish_rem_fields:
  assumes "finish_rem s = Inr (p, t, tim)" "fields_ok (rs_trig s) (rs_tim s)"
  shows "fields_ok t tim"
  using assms adjust_for_last_fields [of "note_expr (rs_parser s) (rs_trig s)" "rs_tim s"]
  unfolding finish_rem_def Let_def by (auto split: if_splits)

lemma ParseRem_fields:
  assumes "seps_ok (rc_seps cf)" "good p" "ParseRem cf p = Inr (p', t, tim)"
  shows "fields_ok t tim"
proof -
  have "fields_ok (new_trigger dd dp) (new_timetrig dt)" for dd dp dt
    by (simp add: fields_ok_def trig_ok_def)
  then show ?thesis
    using assms finish_rem_fields rem_loop_fields [of cf]
    by (fastforce simp: ParseRem_def split: sum.splits if_splits)
qed

lemma CreateParser_good: "fine line \<Longrightarrow> good (CreateParser line)"
  by (simp add: good_def stream_def CreateParser_def)

section \<open>The order of the words of a date\<close>

definition date_step :: "TokTypes \<times> int \<Rightarrow> rem_state \<Rightarrow> rem_state option" where
  "date_step tok s = (case date_word (fst tok) (snd tok) s of RemMore s \<Rightarrow> Some s | _ \<Rightarrow> None)"

definition date_words :: "(TokTypes \<times> int) list \<Rightarrow> rem_state \<Rightarrow> rem_state option" where
  "date_words toks s = fold (\<lambda>tok r. Option.bind r (date_step tok)) toks (Some s)"

definition date_part :: "TokTypes \<times> int \<Rightarrow> bool" where
  "date_part tok \<longleftrightarrow> fst tok \<in> {T_Day, T_Month, T_Year, T_WkDay} \<and> tok_ok tok"

lemma date_step_simps:
  "date_step (T_Day, v) s =
    (if trg_d (rs_trig s) \<noteq> NO_DAY then None else Some (s\<lparr>rs_trig := (rs_trig s)\<lparr>trg_d := v\<rparr>\<rparr>))"
  "date_step (T_Month, v) s =
    (if trg_m (rs_trig s) \<noteq> NO_MON then None else Some (s\<lparr>rs_trig := (rs_trig s)\<lparr>trg_m := v\<rparr>\<rparr>))"
  "date_step (T_Year, v) s =
    (if trg_y (rs_trig s) \<noteq> NO_YR then None else Some (s\<lparr>rs_trig := (rs_trig s)\<lparr>trg_y := v\<rparr>\<rparr>))"
  "date_step (T_WkDay, v) s =
    (if bit (trg_wd (rs_trig s)) (nat v) then None
     else Some (s\<lparr>rs_trig := (rs_trig s)\<lparr>trg_wd := trg_wd (rs_trig s) OR 2 ^ nat v\<rparr>\<rparr>))"
  by (simp_all add: date_step_def date_word_def Let_def more_trig_def and_exp_eq_0_iff_not_bit)

lemma date_part_ge: "date_part (ty, v) \<Longrightarrow> 0 \<le> v"
  unfolding date_part_def fst_conv
  by (elim conjE insertE emptyE; simp add: tok_ok_def)

lemma date_part_wd_neq: "date_part (T_WkDay, v) \<Longrightarrow> date_part (T_WkDay, w) \<Longrightarrow> v \<noteq> w \<Longrightarrow> nat v \<noteq> nat w"
  using date_part_ge [of T_WkDay v] date_part_ge [of T_WkDay w] by (simp add: eq_nat_nat_iff)

lemma bit_or_exp: "bit (a OR 2 ^ m) n \<longleftrightarrow> bit (a :: int) n \<or> m = n"
  by (auto simp: bit_or_iff bit_exp_iff)

lemma date_step_commute:
  assumes "date_part a" "date_part b"
  shows "Option.bind (date_step a s) (date_step b) = Option.bind (date_step b s) (date_step a)"
proof (cases "a = b")
  case False
  obtain ta va tb vb where ab: "a = (ta, va)" "b = (tb, vb)" by (cases a; cases b)
  have wd: "nat va \<noteq> nat vb" if "ta = T_WkDay" "tb = T_WkDay"
    using assms False that date_part_wd_neq by (simp add: ab)
  have "ta \<in> {T_Day, T_Month, T_Year, T_WkDay}" "tb \<in> {T_Day, T_Month, T_Year, T_WkDay}"
    using assms by (simp_all add: ab date_part_def)
  moreover have "va \<noteq> -1" "vb \<noteq> -1" using assms date_part_ge [of ta va] date_part_ge [of tb vb] by (auto simp: ab)
  moreover have "(w OR 2 ^ nat va) OR 2 ^ nat vb = (w OR 2 ^ nat vb) OR 2 ^ nat va" for w :: int
    by (metis or.assoc or.commute)
  ultimately show ?thesis unfolding ab using wd
    by (elim insertE emptyE) (simp_all add: date_step_simps bit_or_exp)
qed simp

section \<open>Properties\<close>

definition default_config :: rem_config where
  "default_config = \<lparr>DefaultDelta = 0, DefaultPrio = NO_PRIORITY, DefaultTDelta = 0,
     rc_seps = default_seps, rc_eval = no_evaluator\<rparr>"

text \<open>An example: the line \<^verbatim>\<open>Fri 13\<close>.\<close>

lemma next_token_plain:
  assumes "plain p" "FindToken (rc_seps cf) (first_word (pos p)) = (ty, v)"
  shows "next_token cf p = Inr (first_word (pos p), ty, v, p\<lparr>pos := after_word (pos p)\<rparr>)"
  using ParseToken_plain [OF assms(1)] assms(2) by (simp add: next_token_def next_word_def)

lemma FindToken_Fri: "FindToken default_seps ''Fri'' = (T_WkDay, 4)"
  by (subst FindToken_lookup) (simp_all add: lookup_token_def TokArray_def qualifies_def canon_def
      ctype_defs cstring_def tok_entry_def char_of_eq_iff)

lemma FindToken_13: "FindToken default_seps ''13'' = (T_Day, 13)"
  by (simp add: FindToken_def FindNumericToken_def ctype_defs cint_id in_int_def classify_number_def
      is_timesep_def default_seps_def BASE_def)

lemma FindToken_Nil: "FindToken sp [] = (T_Empty, 0)"
  by (simp add: FindToken_def)

lemma CreateParser_simps [simp]:
  "pos (CreateParser s) = s" "(CreateParser s)\<lparr>pos := s'\<rparr> = CreateParser s'"
  "isnested (CreateParser s) = False" "p_nonconst_expr (CreateParser s) = False"
  "p_expr_happened (CreateParser s) = False" "plain (CreateParser s) \<longleftrightarrow> CHR ''['' \<notin> set s"
  by (simp_all add: CreateParser_def plain_def)

lemma default_config_simps [simp]:
  "DefaultDelta default_config = 0" "DefaultPrio default_config = NO_PRIORITY"
  "DefaultTDelta default_config = 0" "rc_seps default_config = default_seps"
  by (simp_all add: default_config_def)

lemma next_token_Fri_13:
  "next_token default_config (CreateParser ''Fri 13'') = Inr (''Fri'', T_WkDay, 4, CreateParser ''13'')"
  "next_token default_config (CreateParser ''13'') = Inr (''13'', T_Day, 13, CreateParser [])"
  "next_token default_config (CreateParser []) = Inr ([], T_Empty, 0, CreateParser [])"
  by (subst next_token_plain; simp add: first_word_def after_word_def isempty_def isspace_def
      FindToken_Fri FindToken_13 FindToken_Nil)+

lemma ParseRem_Fri_13:
  "ParseRem default_config (CreateParser ''Fri 13'') =
    Inr (CreateParser [], new_trigger 0 NO_PRIORITY\<lparr>trg_wd := 16, trg_d := 13\<rparr>, new_timetrig 0)"
  by (simp add: ParseRem_def rem_loop.simps next_token_Fri_13 rem_word_def date_types_def flag_types_def
      clause_types_def date_word_def Let_def more_trig_def finish_rem_def note_expr_def)
    (simp add: new_trigger_def adjust_for_last_def strip_tz_def)

text \<open>
  C24. A reminder line of plain text, with no number of more than nine digits, that the parser
  accepts gives a trigger with a day, month, year and weekdays in range, a repetition that is
  not negative, and a time within a day.
\<close>

theorem ParseRem_well_formed:
  assumes "seps_ok (rc_seps cf)" "fine line" "ParseRem cf (CreateParser line) = Inr (p, trig, tim)"
  shows "trig_ok trig \<and> 0 \<le> trg_rep trig \<and> (ttime tim = NO_TIME \<or> 0 \<le> ttime tim \<and> ttime tim < 1440)"
  using ParseRem_fields [OF assms(1) CreateParser_good [OF assms(2)] assms(3)] by (simp add: fields_ok_def)

theorem ParseRem_well_formed_witness:
  "trig_ok (new_trigger 0 NO_PRIORITY\<lparr>trg_wd := 16, trg_d := 13\<rparr>)"
proof -
  have "fine ''Fri 13''" by (simp add: fine_def cstring_def isdigit_def)
  moreover have "seps_ok (rc_seps default_config)" by (simp add: default_seps_def seps_ok_def)
  ultimately show ?thesis using ParseRem_well_formed [OF _ _ ParseRem_Fri_13] by blast
qed

text \<open>
  C25. From the line to the date: for an accepted reminder line of plain text (no bracketed
  expressions, no number of more than nine digits), and the omit context of any sequence of omit
  commands, \<open>ComputeTrigger\<close> ends with a date, no date or an error.  The line has no BACK and no
  OMITFUNC; with AFTER, some day before the first one searched is not omitted; a repetition is of
  at most a million days, and today at most day 1000000000; an event does not end before it starts.
\<close>

theorem ParseRem_ComputeTrigger_terminates:
  assumes "seps_ok (rc_seps cf)" "fine line" "ParseRem cf (CreateParser line) = Inr (p, trig, tim)"
    and "omit_reach s" "omitfunc trig = []" "trg_back trig = NO_BACK" "repeats_soon trig today"
    and "0 \<le> duration_days trig" "working_day_before s trig (today - duration_days trig)"
  shows "ComputeTrigger env (omit_test_of uf trig s) wdo today trig tim save g \<noteq> None"
  by (rule ComputeTrigger_total [OF omit_reach_inv [OF assms(4)] assms(5) _ assms(6-)])
    (use ParseRem_fields [OF assms(1) CreateParser_good [OF assms(2)] assms(3)] in \<open>simp add: fields_ok_def\<close>)

theorem ParseRem_ComputeTrigger_terminates_witness:
  "ComputeTrigger no_env
     (omit_test_of \<lparr>UserFuncExists = \<lambda>_. -1, call_date = \<lambda>_ _. Inl E_UNDEF_FUNC\<rparr>
        (new_trigger 0 NO_PRIORITY\<lparr>trg_wd := 16, trg_d := 13\<rparr>) omit_init) 0 100
     (new_trigger 0 NO_PRIORITY\<lparr>trg_wd := 16, trg_d := 13\<rparr>) (new_timetrig 0) True no_globals \<noteq> None"
  by (rule ParseRem_ComputeTrigger_terminates [OF _ _ ParseRem_Fri_13 reach_init])
    (simp_all add: fine_def cstring_def isdigit_def default_seps_def seps_ok_def repeats_soon_def working_day_before_def)

text \<open>
  C26. The day, month, year and weekdays of a reminder may come in any order: words of these
  kinds are accepted in one order if they are in another, and give the same trigger.
\<close>

theorem date_words_any_order:
  assumes "list_all date_part toks" "mset toks = mset toks'"
  shows "date_words toks s = date_words toks' s"
proof -
  let ?f = "\<lambda>tok r. Option.bind r (date_step tok)"
  have "?f a (?f b r) = ?f b (?f a r)" if "a \<in> set toks" "b \<in> set toks" for a b r
    using date_step_commute [of a b] assms(1) that by (cases r) (auto simp: list_all_iff)
  then show ?thesis unfolding date_words_def
    by (intro fold_permuted_eq [OF assms(2), where P = "\<lambda>_. True"]) simp_all
qed

theorem date_words_any_order_witness:
  "let s = \<lparr>rs_parser = CreateParser [], rs_trig = new_trigger 0 NO_PRIORITY, rs_tim = new_timetrig 0,
      seen_delta = False\<rparr>
   in date_words [(T_WkDay, 4), (T_Day, 13)] s = date_words [(T_Day, 13), (T_WkDay, 4)] s"
  unfolding Let_def by (rule date_words_any_order) (simp_all add: date_part_def tok_ok_def)

end
