(* ===== verification/IfElse.thy ===== *)
theory IfElse
  imports Parser
begin

text \<open>
  The state of IF...ELSE...ENDIF, \<^verbatim>\<open>src/src/ifelse.c\<close>, and the commands of \<^verbatim>\<open>src/src/main.c\<close>
  that change it.  Messages and the echo of purge mode are output and not modelled.
\<close>

section \<open>The array of open IFs\<close>

definition IF_NEST :: nat where "IF_NEST = 64"

record ifentry =
  ife_lineno :: nat
  if_true :: bool
  before_else :: bool
  was_constant :: bool

record if_state =
  IfArray :: "ifentry list"
  if_pointer :: nat
  base_pointer :: nat
  return_encountered :: bool

text \<open>C clears a static array.\<close>

definition if_init :: if_state where
  "if_init =
    \<lparr>IfArray = replicate IF_NEST \<lparr>ife_lineno = 0, if_true = False, before_else = False, was_constant = False\<rparr>,
     if_pointer = 0, base_pointer = 0, return_encountered = False\<rparr>"

definition push_if :: "nat \<Rightarrow> bool \<Rightarrow> bool \<Rightarrow> if_state \<Rightarrow> errcode option \<times> if_state" where
  "push_if lineno is_true const s =
    (if if_pointer s \<ge> IF_NEST then (Some E_NESTED_IF, s)
     else (None, s\<lparr>IfArray := (IfArray s) [if_pointer s :=
              \<lparr>ife_lineno = lineno, if_true = is_true, before_else = True, was_constant = const\<rparr>],
            if_pointer := if_pointer s + 1\<rparr>))"

definition if_stack_full :: "if_state \<Rightarrow> errcode option" where
  "if_stack_full s = (if if_pointer s \<ge> IF_NEST then Some E_NESTED_IF else None)"

definition encounter_else :: "if_state \<Rightarrow> errcode option \<times> if_state" where
  "encounter_else s =
    (if if_pointer s \<le> base_pointer s then (Some E_ELSE_NO_IF, s)
     else if \<not> before_else (IfArray s ! (if_pointer s - 1)) then (Some E_ELSE_NO_IF, s)
     else (None, s\<lparr>IfArray := (IfArray s) [if_pointer s - 1 :=
              (IfArray s ! (if_pointer s - 1))\<lparr>before_else := False\<rparr>]\<rparr>))"

definition encounter_endif :: "if_state \<Rightarrow> errcode option \<times> if_state" where
  "encounter_endif s =
    (if if_pointer s \<le> base_pointer s then (Some E_ENDIF_NO_IF, s)
     else (None, s\<lparr>if_pointer := if_pointer s - 1\<rparr>))"

definition get_base_if_pointer :: "if_state \<Rightarrow> nat" where
  "get_base_if_pointer s = base_pointer s"

definition get_if_pointer :: "if_state \<Rightarrow> nat" where
  "get_if_pointer s = if_pointer s"

definition set_base_if_pointer :: "nat \<Rightarrow> if_state \<Rightarrow> if_state" where
  "set_base_if_pointer n s = s\<lparr>base_pointer := n\<rparr>"

definition ignored_entry :: "ifentry \<Rightarrow> bool" where
  "ignored_entry e \<longleftrightarrow> if_true e \<and> \<not> before_else e \<or> \<not> if_true e \<and> before_else e"

definition should_ignore_line :: "if_state \<Rightarrow> bool" where
  "should_ignore_line s \<longleftrightarrow>
    return_encountered s \<or> list_ex (\<lambda>i. ignored_entry (IfArray s ! i)) [base_pointer s..<if_pointer s]"

definition in_constant_context :: "if_state \<Rightarrow> bool" where
  "in_constant_context s \<longleftrightarrow> list_all (\<lambda>i. was_constant (IfArray s ! i)) [0..<if_pointer s]"

text \<open>The loop only prints and counts down.\<close>

definition pop_excess_ifs :: "if_state \<Rightarrow> if_state" where
  "pop_excess_ifs s =
    (let s = s\<lparr>return_encountered := False\<rparr> in
     if if_pointer s \<le> base_pointer s then s else s\<lparr>if_pointer := base_pointer s\<rparr>)"

section \<open>The array as two stacks\<close>

text \<open>
  The entries of the files that wait for an included one to end, and those of the current file;
  what lies above the pointer is never read.
\<close>

definition if_ok :: "if_state \<Rightarrow> bool" where
  "if_ok s \<longleftrightarrow> length (IfArray s) = IF_NEST \<and> base_pointer s \<le> if_pointer s \<and> if_pointer s \<le> IF_NEST"

definition outer_ifs :: "if_state \<Rightarrow> ifentry list" where
  "outer_ifs s = take (base_pointer s) (IfArray s)"

definition own_ifs :: "if_state \<Rightarrow> ifentry list" where
  "own_ifs s = drop (base_pointer s) (take (if_pointer s) (IfArray s))"

lemma if_ok_init: "if_ok if_init"
  by (simp add: if_ok_def if_init_def)

lemma outer_own: "base_pointer s \<le> if_pointer s \<Longrightarrow> outer_ifs s @ own_ifs s = take (if_pointer s) (IfArray s)"
  unfolding outer_ifs_def own_ifs_def
  by (metis append_take_drop_id min.absorb2 min.commute take_take)

lemma should_ignore_own:
  assumes "if_ok s"
  shows "should_ignore_line s \<longleftrightarrow> return_encountered s \<or> list_ex ignored_entry (own_ifs s)"
proof -
  have "own_ifs s = map (\<lambda>i. IfArray s ! i) [base_pointer s..<if_pointer s]"
    using assms by (intro nth_equalityI) (simp_all add: own_ifs_def if_ok_def)
  then show ?thesis by (simp add: should_ignore_line_def list_ex_iff)
qed

lemma constant_context_all:
  assumes "if_ok s"
  shows "in_constant_context s \<longleftrightarrow> list_all was_constant (outer_ifs s) \<and> list_all was_constant (own_ifs s)"
proof -
  have "take (if_pointer s) (IfArray s) = map (\<lambda>i. IfArray s ! i) [0..<if_pointer s]"
    using assms by (intro nth_equalityI) (simp_all add: if_ok_def)
  then have "in_constant_context s \<longleftrightarrow> list_all was_constant (outer_ifs s @ own_ifs s)"
    using assms by (simp add: in_constant_context_def outer_own if_ok_def list_all_iff)
  then show ?thesis by simp
qed

text \<open>A state is known, as far as the operations can tell, from these.\<close>

definition if_view :: "if_state \<Rightarrow> ifentry list \<Rightarrow> ifentry list \<Rightarrow> bool \<Rightarrow> bool" where
  "if_view s outer own ret \<longleftrightarrow>
    if_ok s \<and> outer_ifs s = outer \<and> own_ifs s = own \<and> return_encountered s = ret"

lemma own_length: "if_ok s \<Longrightarrow> length (outer_ifs s) = base_pointer s \<and> length (own_ifs s) = if_pointer s - base_pointer s"
  by (simp add: if_ok_def outer_ifs_def own_ifs_def)

lemma push_if_view:
  assumes "if_view s outer own ret" "length outer + length own < IF_NEST"
  shows "push_if n b c s = (None, snd (push_if n b c s))"
    "if_view (snd (push_if n b c s)) outer
       (own @ [\<lparr>ife_lineno = n, if_true = b, before_else = True, was_constant = c\<rparr>]) ret"
  using assms own_length [of s]
  by (auto simp: push_if_def if_view_def if_ok_def outer_ifs_def own_ifs_def take_Suc_conv_app_nth)

lemma own_last:
  assumes "if_view s outer (own @ [e]) ret"
  shows "base_pointer s < if_pointer s" "IfArray s ! (if_pointer s - 1) = e" "if_pointer s - 1 < length (IfArray s)"
    "drop (base_pointer s) (take (if_pointer s - 1) (IfArray s)) = own"
    "length outer = base_pointer s" "length own = if_pointer s - 1 - base_pointer s"
proof -
  have ok: "if_ok s" and own: "own_ifs s = own @ [e]" and out: "outer_ifs s = outer"
    using assms by (auto simp: if_view_def)
  have "length (own_ifs s) > 0" by (simp add: own)
  then show lt: "base_pointer s < if_pointer s" using own_length [OF ok] by simp
  then show "if_pointer s - 1 < length (IfArray s)" using ok by (auto simp: if_ok_def)
  have "take (if_pointer s) (IfArray s) = take (if_pointer s - 1) (IfArray s) @ [IfArray s ! (if_pointer s - 1)]"
    using lt \<open>if_pointer s - 1 < length (IfArray s)\<close> by (simp add: take_Suc_conv_app_nth [symmetric])
  then have "own_ifs s = drop (base_pointer s) (take (if_pointer s - 1) (IfArray s)) @ [IfArray s ! (if_pointer s - 1)]"
    using lt ok by (simp add: own_ifs_def if_ok_def)
  then show "IfArray s ! (if_pointer s - 1) = e" "drop (base_pointer s) (take (if_pointer s - 1) (IfArray s)) = own"
    by (simp_all add: own)
  show "length outer = base_pointer s" "length own = if_pointer s - 1 - base_pointer s"
    using own_length [OF ok] by (auto simp: own out)
qed

lemma encounter_else_view:
  assumes "if_view s outer (own @ [e]) ret" "before_else e"
  shows "fst (encounter_else s) = None"
    "if_view (snd (encounter_else s)) outer (own @ [e\<lparr>before_else := False\<rparr>]) ret"
proof -
  note last = own_last [OF assms(1)]
  show "fst (encounter_else s) = None" using last assms(2) by (simp add: encounter_else_def)
  have "take (if_pointer s) ((IfArray s)[if_pointer s - 1 := x]) = take (if_pointer s - 1) (IfArray s) @ [x]" for x
  proof -
    have "if_pointer s = Suc (if_pointer s - 1)" using last(1) by simp
    then show ?thesis using last(3) by (metis length_list_update nth_list_update_eq take_Suc_conv_app_nth take_update_cancel order_refl)
  qed
  then show "if_view (snd (encounter_else s)) outer (own @ [e\<lparr>before_else := False\<rparr>]) ret"
    using last assms
    by (auto simp: encounter_else_def if_view_def if_ok_def outer_ifs_def own_ifs_def take_update_swap list_update_beyond)
qed

lemma encounter_endif_view:
  assumes "if_view s outer (own @ [e]) ret"
  shows "fst (encounter_endif s) = None" "if_view (snd (encounter_endif s)) outer own ret"
  using own_last [OF assms] assms
  by (auto simp: encounter_endif_def if_view_def if_ok_def outer_ifs_def own_ifs_def)

lemma pop_excess_view: "if_view s outer own ret \<Longrightarrow> if_view (pop_excess_ifs s) outer [] False"
  by (auto simp: if_view_def pop_excess_ifs_def Let_def if_ok_def outer_ifs_def own_ifs_def)

lemma set_base_view:
  "if_view s outer own ret \<Longrightarrow> if_view (set_base_if_pointer (get_if_pointer s) s) (outer @ own) [] ret"
  "if_view s outer own ret \<Longrightarrow> get_base_if_pointer s = length outer"
  "if_view s (outer @ own) [] ret \<Longrightarrow> if_view (set_base_if_pointer (length outer) s) outer own ret"
proof -
  assume view: "if_view s outer own ret"
  then show "if_view (set_base_if_pointer (get_if_pointer s) s) (outer @ own) [] ret"
    using outer_own [of s]
    by (auto simp: if_view_def set_base_if_pointer_def get_if_pointer_def if_ok_def outer_ifs_def own_ifs_def)
  show "get_base_if_pointer s = length outer"
    using view own_length [of s] by (auto simp: if_view_def get_base_if_pointer_def)
next
  assume view: "if_view s (outer @ own) [] ret"
  then have ok: "if_ok s" and out: "take (base_pointer s) (IfArray s) = outer @ own" and ptr: "base_pointer s = if_pointer s"
    using own_length [of s] by (auto simp: if_view_def outer_ifs_def own_ifs_def if_ok_def)
  have len: "length outer \<le> base_pointer s" using ok arg_cong [OF out, of length] by (auto simp: if_ok_def)
  have "take (length outer) (IfArray s) = outer"
    using arg_cong [OF out, of "take (length outer)"] len by (simp add: min_def)
  then show "if_view (set_base_if_pointer (length outer) s) outer own ret"
    using view ok out ptr len
    by (simp add: if_view_def set_base_if_pointer_def if_ok_def outer_ifs_def own_ifs_def)
qed

end
