(* ===== verification/ExprVal.thy ===== *)
theory ExprVal
  imports Tokens
begin

text \<open>
  The values of the expression language: their types, coercions (\<open>DoCoerce\<close>) and the operators
  of \<^verbatim>\<open>src/src/expr.c\<close> on values that have been evaluated.
\<close>

section \<open>Types and settings\<close>

datatype vtype = INT_TYPE | TIME_TYPE | DATE_TYPE | DATETIME_TYPE | STR_TYPE

fun vtype_of :: "Value \<Rightarrow> vtype" where
  "vtype_of (IntV _) = INT_TYPE"
| "vtype_of (TimeV _) = TIME_TYPE"
| "vtype_of (DateV _) = DATE_TYPE"
| "vtype_of (DateTimeV _) = DATETIME_TYPE"
| "vtype_of (StrV _) = STR_TYPE"

text \<open>The member \<open>v.val\<close> of the union; strings have none.\<close>

fun val_of :: "Value \<Rightarrow> int" where
  "val_of (IntV n) = n"
| "val_of (TimeV n) = n"
| "val_of (DateV n) = n"
| "val_of (DateTimeV n) = n"
| "val_of (StrV _) = 0"

text \<open>The separators that values are read and written with, and \<open>$MaxStringLen\<close>.\<close>

record value_config =
  vc_seps :: seps
  DateTimeSep :: char
  MaxStringLen :: int

definition truthy :: "Value \<Rightarrow> bool" where
  "truthy v = (case v of StrV s \<Rightarrow> s \<noteq> [] | _ \<Rightarrow> val_of v \<noteq> 0)"

section \<open>Numbers as text\<close>

definition digit_char :: "nat \<Rightarrow> char" where
  "digit_char d = char_of (48 + d)"

fun digits :: "nat \<Rightarrow> string" where
  "digits n = (if n < 10 then [digit_char n] else digits (n div 10) @ [digit_char (n mod 10)])"

declare digits.simps [simp del]

text \<open>\<open>%0wd\<close>: the sign counts for the width.\<close>

definition pad0 :: "nat \<Rightarrow> string \<Rightarrow> string" where
  "pad0 w s = replicate (w - length s) (CHR ''0'') @ s"

definition fmt_int :: "nat \<Rightarrow> int \<Rightarrow> string" where
  "fmt_int w n = (if n < 0 then CHR ''-'' # pad0 (w - 1) (digits (nat (- n))) else pad0 w (digits (nat n)))"

definition fmt_time :: "value_config \<Rightarrow> int \<Rightarrow> string" where
  "fmt_time vc t = fmt_int 2 (t sdiv 60) @ [TimeSep (vc_seps vc)] @ fmt_int 2 (t smod 60)"

definition fmt_date :: "value_config \<Rightarrow> int \<Rightarrow> string" where
  "fmt_date vc dse =
    (case FromDSE dse of (y, m, d) \<Rightarrow>
       fmt_int 4 y @ [DateSep (vc_seps vc)] @ fmt_int 2 (m + 1) @ [DateSep (vc_seps vc)] @ fmt_int 2 d)"

definition fmt_datetime :: "value_config \<Rightarrow> int \<Rightarrow> string" where
  "fmt_datetime vc dt =
    fmt_date vc (dt sdiv MINUTES_PER_DAY) @ [DateTimeSep vc] @ fmt_time vc (dt smod MINUTES_PER_DAY)"

section \<open>Coercions\<close>

text \<open>Days and minutes wrap round where the code multiplies them without a check.\<close>

definition coerce_datetime :: "value_config \<Rightarrow> Value \<Rightarrow> errcode + Value" where
  "coerce_datetime vc v =
    (case v of
       IntV n \<Rightarrow> Inr (DateTimeV n)
     | DateV d \<Rightarrow> Inr (DateTimeV (cint (d * MINUTES_PER_DAY)))
     | StrV s \<Rightarrow>
         (case ParseLiteralDateOrTime (vc_seps vc) s of
            Inl e \<Rightarrow> Inl E_CANT_COERCE
          | Inr (i, m, r) \<Rightarrow>
              if i = NO_DATE then Inl E_CANT_COERCE
              else if r \<noteq> [] then Inl E_CANT_COERCE
              else Inr (DateTimeV (cint (cint (i * MINUTES_PER_DAY) + (if m = NO_TIME then 0 else m)))))
     | _ \<Rightarrow> Inl E_CANT_COERCE)"

definition coerce_str :: "value_config \<Rightarrow> Value \<Rightarrow> errcode + Value" where
  "coerce_str vc v =
    (case v of
       IntV n \<Rightarrow> Inr (StrV (fmt_int 0 n))
     | TimeV t \<Rightarrow> Inr (StrV (fmt_time vc t))
     | DateV d \<Rightarrow> Inr (StrV (fmt_date vc d))
     | DateTimeV dt \<Rightarrow> Inr (StrV (fmt_datetime vc dt))
     | StrV s \<Rightarrow> Inr (StrV s))"

definition coerce_int :: "Value \<Rightarrow> errcode + Value" where
  "coerce_int v =
    (case v of
       StrV s \<Rightarrow>
         (let neg = starts (\<lambda>c. c = CHR ''-'') s; (i, r) = parse_digits 0 (if neg then tl s else s) in
          if r \<noteq> [] then Inl E_CANT_COERCE else Inr (IntV (if neg then cint (- i) else i)))
     | _ \<Rightarrow> Inr (IntV (val_of v)))"

definition coerce_date :: "value_config \<Rightarrow> Value \<Rightarrow> errcode + Value" where
  "coerce_date vc v =
    (case v of
       IntV n \<Rightarrow> if n \<ge> 0 then Inr (DateV n) else Inl E_2LOW
     | StrV s \<Rightarrow>
         (case ParseLiteralDateOrTime (vc_seps vc) s of
            Inl e \<Rightarrow> Inl E_CANT_COERCE
          | Inr (i, m, r) \<Rightarrow>
              if i = NO_DATE then Inl E_CANT_COERCE
              else if r \<noteq> [] then Inl E_CANT_COERCE
              else Inr (DateV i))
     | DateTimeV dt \<Rightarrow> Inr (DateV (dt sdiv MINUTES_PER_DAY))
     | _ \<Rightarrow> Inl E_CANT_COERCE)"

definition day_minutes :: "int \<Rightarrow> int" where
  "day_minutes n = (let m = n smod MINUTES_PER_DAY in if m < 0 then m + MINUTES_PER_DAY else m)"

definition coerce_time :: "value_config \<Rightarrow> Value \<Rightarrow> errcode + Value" where
  "coerce_time vc v =
    (case v of
       IntV n \<Rightarrow> Inr (TimeV (day_minutes n))
     | DateTimeV n \<Rightarrow> Inr (TimeV (day_minutes n))
     | StrV s \<Rightarrow>
         (case ParseLiteralTime (vc_seps vc) s of
            Inl e \<Rightarrow> Inl E_CANT_COERCE
          | Inr (t, r) \<Rightarrow> if r \<noteq> [] then Inl E_CANT_COERCE else Inr (TimeV t))
     | _ \<Rightarrow> Inl E_CANT_COERCE)"

definition DoCoerce :: "value_config \<Rightarrow> vtype \<Rightarrow> Value \<Rightarrow> errcode + Value" where
  "DoCoerce vc ty v =
    (if ty = vtype_of v then Inr v
     else case ty of
       DATETIME_TYPE \<Rightarrow> coerce_datetime vc v
     | STR_TYPE \<Rightarrow> coerce_str vc v
     | INT_TYPE \<Rightarrow> coerce_int v
     | DATE_TYPE \<Rightarrow> coerce_date vc v
     | TIME_TYPE \<Rightarrow> coerce_time vc v)"

section \<open>Comparisons\<close>

datatype how = EQ | GT | LT | GE | LE | NE

fun strcmp :: "string \<Rightarrow> string \<Rightarrow> int" where
  "strcmp [] [] = 0"
| "strcmp [] (d # t) = -1"
| "strcmp (c # s) [] = 1"
| "strcmp (c # s) (d # t) =
    (if c = d then strcmp s t else if (of_char c :: nat) < of_char d then -1 else 1)"

definition holds :: "how \<Rightarrow> int \<Rightarrow> int \<Rightarrow> bool" where
  "holds how a b =
    (case how of EQ \<Rightarrow> a = b | NE \<Rightarrow> a \<noteq> b | LT \<Rightarrow> a < b | GT \<Rightarrow> a > b | LE \<Rightarrow> a \<le> b | GE \<Rightarrow> a \<ge> b)"

definition compare_values :: "how \<Rightarrow> Value \<Rightarrow> Value \<Rightarrow> errcode + Value" where
  "compare_values how v1 v2 =
    (if vtype_of v1 \<noteq> vtype_of v2 then
       (if how = EQ then Inr (IntV 0) else if how = NE then Inr (IntV 1) else Inl E_BAD_TYPE)
     else case (v1, v2) of
       (StrV s, StrV t) \<Rightarrow> Inr (IntV (of_bool (holds how (strcmp s t) 0)))
     | _ \<Rightarrow> Inr (IntV (of_bool (holds how (val_of v1) (val_of v2)))))"

section \<open>Arithmetic\<close>

text \<open>
  The overflow tests compute in \<open>double\<close>, which keeps 53 significant bits and rounds to the
  nearest number, ties to the even one (IEEE 754).  Every number met here is a whole one, so
  \<open>to_double\<close> is the whole number that the \<open>double\<close> nearest to it holds, and each operation
  rounds its exact result.
\<close>

fun double_ulp :: "nat \<Rightarrow> int" where
  "double_ulp n = (if n < 2 ^ 53 then 1 else 2 * double_ulp (n div 2))"

definition to_double :: "int \<Rightarrow> int" where
  "to_double x =
    (let u = double_ulp (nat \<bar>x\<bar>); q = x div u; r = x mod u in
     if 2 * r < u \<or> 2 * r = u \<and> even q then q * u else (q + 1) * u)"

definition mul_overflow :: "int \<Rightarrow> int \<Rightarrow> bool" where
  "mul_overflow a b \<longleftrightarrow>
    (let aa = to_double a; bb = to_double b in
     if to_double (aa * bb) > to_double INT_MAX \<or> to_double (aa * bb) < to_double INT_MIN then True else False)"

definition add_overflow :: "int \<Rightarrow> int \<Rightarrow> bool" where
  "add_overflow a b \<longleftrightarrow>
    (let aa = to_double a; bb = to_double b in
     if to_double (aa + bb) < to_double INT_MIN then True
     else if to_double (aa + bb) > to_double INT_MAX then True
     else False)"

definition sub_overflow :: "int \<Rightarrow> int \<Rightarrow> bool" where
  "sub_overflow a b \<longleftrightarrow>
    (let aa = to_double a; bb = to_double b in
     if to_double (aa - bb) < to_double INT_MIN then True
     else if to_double (aa - bb) > to_double INT_MAX then True
     else False)"

declare double_ulp.simps [simp del]

definition add_strings :: "value_config \<Rightarrow> Value \<Rightarrow> Value \<Rightarrow> errcode + Value" where
  "add_strings vc v1 v2 =
    (case (DoCoerce vc STR_TYPE v1, DoCoerce vc STR_TYPE v2) of
       (Inr (StrV s), Inr (StrV t)) \<Rightarrow>
         if MaxStringLen vc > 0 \<and> int (length s + length t) > MaxStringLen vc then Inl E_STRING_TOO_LONG
         else Inr (StrV (s @ t))
     | (Inl e, _) \<Rightarrow> Inl e
     | (_, Inl e) \<Rightarrow> Inl e
     | _ \<Rightarrow> Inl E_SWERR)"

definition add_values :: "value_config \<Rightarrow> Value \<Rightarrow> Value \<Rightarrow> errcode + Value" where
  "add_values vc v1 v2 =
    (let t1 = vtype_of v1; t2 = vtype_of v2; a = val_of v1; b = val_of v2 in
     if t2 = INT_TYPE \<and> t1 = INT_TYPE then
       if add_overflow a b then Inl E_2HIGH else Inr (IntV (a + b))
     else if t1 = DATE_TYPE \<and> t2 = INT_TYPE \<or> t1 = INT_TYPE \<and> t2 = DATE_TYPE then
       if add_overflow a b then Inl E_DATE_OVER
       else if a + b < 0 then Inl E_DATE_OVER
       else Inr (DateV (a + b))
     else if t1 = DATETIME_TYPE \<and> (t2 = INT_TYPE \<or> t2 = TIME_TYPE)
           \<or> (t1 = INT_TYPE \<or> t1 = TIME_TYPE) \<and> t2 = DATETIME_TYPE then
       if add_overflow a b then Inl E_DATE_OVER
       else if a + b < 0 then Inl E_DATE_OVER
       else Inr (DateTimeV (a + b))
     else if t1 = TIME_TYPE \<and> t2 = INT_TYPE \<or> t1 = INT_TYPE \<and> t2 = TIME_TYPE
           \<or> t1 = TIME_TYPE \<and> t2 = TIME_TYPE then
       if add_overflow a b then Inl E_DATE_OVER
       else Inr (TimeV (day_minutes (a + b)))
     else if t1 = STR_TYPE \<or> t2 = STR_TYPE then add_strings vc v1 v2
     else Inl E_BAD_TYPE)"

definition subtract_values :: "Value \<Rightarrow> Value \<Rightarrow> errcode + Value" where
  "subtract_values v1 v2 =
    (let t1 = vtype_of v1; t2 = vtype_of v2; a = val_of v1; b = val_of v2 in
     if t1 = INT_TYPE \<and> t2 = INT_TYPE then
       if sub_overflow a b then Inl E_2HIGH else Inr (IntV (a - b))
     else if t1 = DATE_TYPE \<and> t2 = INT_TYPE then
       if sub_overflow a b then Inl E_DATE_OVER
       else if a - b < 0 then Inl E_DATE_OVER
       else Inr (DateV (a - b))
     else if t1 = DATETIME_TYPE \<and> (t2 = INT_TYPE \<or> t2 = TIME_TYPE) then
       if sub_overflow a b then Inl E_DATE_OVER
       else if a - b < 0 then Inl E_DATE_OVER
       else Inr (DateTimeV (a - b))
     else if t1 = TIME_TYPE \<and> t2 = INT_TYPE then Inr (TimeV (day_minutes (cint (a - b))))
     else if t1 = TIME_TYPE \<and> t2 = TIME_TYPE \<or> t1 = DATETIME_TYPE \<and> t2 = DATETIME_TYPE
           \<or> t1 = DATE_TYPE \<and> t2 = DATE_TYPE then
       if sub_overflow a b then Inl E_DATE_OVER else Inr (IntV (a - b))
     else Inl E_BAD_TYPE)"

text \<open>
  A string times a number repeats the string; the length is computed in an \<open>int\<close>, its
  product with the number also in an \<open>unsigned long\<close>.
\<close>

definition ulong :: "int \<Rightarrow> int" where
  "ulong n = n mod 2 ^ 64"

definition repeat_string :: "value_config \<Rightarrow> int \<Rightarrow> string \<Rightarrow> errcode + Value" where
  "repeat_string vc rep str =
    (if rep < 0 then Inl E_2LOW
     else if rep = 0 \<or> str = [] then Inr (StrV [])
     else let l = cint (int (length str)) in
       if cint (l * rep) < 0 then Inl E_STRING_TOO_LONG
       else if ulong (l * rep) \<ge> INT_MAX then Inl E_STRING_TOO_LONG
       else if MaxStringLen vc > 0 \<and> ulong (l * rep) > MaxStringLen vc then Inl E_STRING_TOO_LONG
       else Inr (StrV (concat (replicate (nat rep) str))))"

definition multiply_values :: "value_config \<Rightarrow> Value \<Rightarrow> Value \<Rightarrow> errcode + Value" where
  "multiply_values vc v1 v2 =
    (case (v1, v2) of
       (IntV a, IntV b) \<Rightarrow>
         if b = -1 \<and> a = INT_MIN \<or> a = -1 \<and> b = INT_MIN then Inl E_2HIGH
         else if mul_overflow a b then Inl E_2HIGH
         else Inr (IntV (a * b))
     | (IntV rep, StrV str) \<Rightarrow> repeat_string vc rep str
     | (StrV str, IntV rep) \<Rightarrow> repeat_string vc rep str
     | _ \<Rightarrow> Inl E_BAD_TYPE)"

definition divide_or_mod_values :: "bool \<Rightarrow> Value \<Rightarrow> Value \<Rightarrow> errcode + Value" where
  "divide_or_mod_values divides v1 v2 =
    (case (v1, v2) of
       (IntV a, IntV b) \<Rightarrow>
         if b = 0 then Inl E_DIV_ZERO
         else if b = -1 \<and> a = INT_MIN then Inl E_2HIGH
         else Inr (IntV (if divides then a sdiv b else a smod b))
     | _ \<Rightarrow> Inl E_BAD_TYPE)"

definition logical_not_value :: "Value \<Rightarrow> Value" where
  "logical_not_value v = IntV (of_bool (\<not> truthy v))"

definition unary_minus_value :: "Value \<Rightarrow> errcode + Value" where
  "unary_minus_value v =
    (case v of
       IntV n \<Rightarrow> if n = INT_MIN then Inl E_2LOW else Inr (IntV (- n))
     | _ \<Rightarrow> Inl E_BAD_TYPE)"

section \<open>The overflow tests\<close>

text \<open>
  Rounding keeps a number below \<open>2 ^ 53\<close> as it is and leaves a larger one at least
  \<open>2 ^ 52 - 1\<close> in size and on its side of zero, so the tests on rounded results are exact.
\<close>

lemma double_ulp_pos: "0 < double_ulp n"
proof (induction n rule: double_ulp.induct)
  case (1 n)
  then show ?case by (subst double_ulp.simps) simp
qed

lemma double_ulp_le: "2 ^ 53 \<le> n \<Longrightarrow> 2 ^ 52 * double_ulp n \<le> int n"
proof (induction n rule: double_ulp.induct)
  case (1 n)
  have u: "double_ulp n = 2 * double_ulp (n div 2)" using 1(2) by (subst double_ulp.simps) simp
  show ?case
  proof (cases "n div 2 < 2 ^ 53")
    case True
    then have "double_ulp (n div 2) = 1" by (subst double_ulp.simps) simp
    then show ?thesis using 1(2) u by simp
  next
    case False
    then have "2 ^ 52 * double_ulp (n div 2) \<le> int (n div 2)" using 1 by simp
    then show ?thesis using u by simp
  qed
qed

lemma mult_ge_int: "(k :: int) \<le> q \<Longrightarrow> 0 \<le> k \<Longrightarrow> 0 < u \<Longrightarrow> k \<le> q * u"
  using mult_mono [of k q 1 u] by simp

lemma to_double_exact: "\<bar>x\<bar> < 2 ^ 53 \<Longrightarrow> to_double x = x"
  by (simp add: to_double_def Let_def double_ulp.simps)

lemma to_double_large:
  assumes "2 ^ 53 \<le> \<bar>x\<bar>"
  shows "if 0 < x then 2 ^ 52 \<le> to_double x else to_double x \<le> 1 - 2 ^ 52"
proof -
  define u where "u = double_ulp (nat \<bar>x\<bar>)"
  have u: "0 < u" "2 ^ 52 * u \<le> \<bar>x\<bar>"
    unfolding u_def using double_ulp_pos double_ulp_le [of "nat \<bar>x\<bar>"] assms by auto
  have d: "to_double x = (x div u) * u \<or> to_double x = (x div u + 1) * u"
    unfolding to_double_def u_def by (simp add: Let_def)
  show ?thesis
  proof (cases "0 < x")
    case True
    have "2 ^ 52 = 2 ^ 52 * u div u" using u(1) by simp
    also have "\<dots> \<le> x div u" using u True by (intro zdiv_mono1) auto
    finally have q: "2 ^ 52 \<le> x div u" .
    show ?thesis using d True mult_ge_int [OF q] mult_ge_int [of "2 ^ 52" "x div u + 1"] q u(1) by auto
  next
    case False
    then have "x \<le> - (2 ^ 52) * u" using u(2) by simp
    then have "x div u \<le> - (2 ^ 52) * u div u" using u(1) by (rule zdiv_mono1)
    also have "\<dots> = - (2 ^ 52)" using u(1) nonzero_mult_div_cancel_right [of u "- (2 ^ 52)"] by (simp del: mult_minus_left)
    finally have q: "x div u \<le> - (2 ^ 52)" .
    then show ?thesis
      using d False mult_ge_int [of "2 ^ 52 - 1" "- (x div u)" u] mult_ge_int [of "2 ^ 52 - 1" "- (x div u + 1)" u] u(1)
      by (auto simp: algebra_simps)
  qed
qed

lemma to_double_in_int: "INT_MIN \<le> to_double x \<and> to_double x \<le> INT_MAX \<longleftrightarrow> in_int x"
proof (cases "\<bar>x\<bar> < 2 ^ 53")
  case True
  then show ?thesis by (simp add: to_double_exact in_int_def)
next
  case False
  then have "if 0 < x then 2 ^ 52 \<le> to_double x else to_double x \<le> 1 - 2 ^ 52"
    by (intro to_double_large) simp
  then show ?thesis using False by (auto simp: in_int_def split: if_splits)
qed

lemma in_int_double [simp]: "in_int a \<Longrightarrow> to_double a = a"
  by (rule to_double_exact) (auto simp: in_int_def)

lemma add_overflow_iff: "in_int a \<Longrightarrow> in_int b \<Longrightarrow> add_overflow a b \<longleftrightarrow> \<not> in_int (a + b)"
  using to_double_in_int [of "a + b"] by (auto simp: add_overflow_def Let_def to_double_exact)

lemma sub_overflow_iff: "in_int a \<Longrightarrow> in_int b \<Longrightarrow> sub_overflow a b \<longleftrightarrow> \<not> in_int (a - b)"
  using to_double_in_int [of "a - b"] by (auto simp: sub_overflow_def Let_def to_double_exact)

lemma mul_overflow_iff: "in_int a \<Longrightarrow> in_int b \<Longrightarrow> mul_overflow a b \<longleftrightarrow> \<not> in_int (a * b)"
  using to_double_in_int [of "a * b"] by (auto simp: mul_overflow_def Let_def to_double_exact)

lemmas overflow_iff = add_overflow_iff sub_overflow_iff mul_overflow_iff

section \<open>Reading numbers back\<close>

lemma cint_add: "cint (cint a + b) = cint (a + b)" and cint_mult: "cint (cint a * b) = cint (a * b)"
  and cint_minus: "cint (- cint a) = cint (- a)"
proof -
  define k where "k = - ((a + 2147483648) div 4294967296)"
  have k: "cint a = a + k * 4294967296"
    unfolding k_def cint_def using div_mult_mod_eq [of "a + 2147483648" 4294967296] by linarith
  have "cint (x + l * 4294967296) = cint x" for x l
    by (simp add: cint_def add.assoc [symmetric] add.commute [of _ 2147483648])
  from this [of "a + b" k] this [of "a * b" "k * b"] this [of "- a" "- k"]
  show "cint (cint a + b) = cint (a + b)" "cint (cint a * b) = cint (a * b)" "cint (- cint a) = cint (- a)"
    by (simp_all add: k algebra_simps)
qed

lemma cint_digit: "cint (cint (cint v * 10) + d) = cint (v * 10 + d)"
  by (simp add: cint_add cint_mult)

lemma parse_digits_wrap:
  "list_all isdigit s \<Longrightarrow> \<not> starts isdigit r \<Longrightarrow> parse_digits (cint v) (s @ r) = (cint (digits_val v s), r)"
proof (induction s arbitrary: v)
  case Nil
  then show ?case by (cases r) auto
qed (simp add: cint_digit)

lemma digit_char: "d < 10 \<Longrightarrow> isdigit (digit_char d) \<and> ch (digit_char d) = 48 + int d"
proof -
  assume d: "d < 10"
  have "(of_char (digit_char d) :: int) = 48 + int d"
    using d unfolding digit_char_def of_char_int by simp
  then show ?thesis using d by (simp add: ch_def isdigit_def Let_def)
qed

lemma digits_val_append: "digits_val v (s @ t) = digits_val (digits_val v s) t"
  by (simp add: digits_val_def)

lemma digits_val_zeros: "digits_val 0 (replicate k (CHR ''0'')) = 0"
  by (induction k) (simp_all add: ch_def)

lemma digits_value: "list_all isdigit (digits n) \<and> digits_val 0 (digits n) = int n"
proof (induction n rule: digits.induct)
  case (1 n)
  show ?case
  proof (cases "n < 10")
    case True
    then show ?thesis using digit_char [of n] by (simp add: digits.simps [of n])
  next
    case False
    with 1 have "list_all isdigit (digits (n div 10))" "digits_val 0 (digits (n div 10)) = int (n div 10)"
      by auto
    moreover have "int n = int (n div 10) * 10 + int (n mod 10)" by (simp add: zdiv_int zmod_int)
    ultimately show ?thesis
      using False digit_char [of "n mod 10"] by (simp add: digits.simps [of n] digits_val_append)
  qed
qed

lemma pad0_value: "list_all isdigit (pad0 w (digits n)) \<and> digits_val 0 (pad0 w (digits n)) = int n"
  using digits_value [of n]
  by (auto simp: pad0_def digits_val_append digits_val_zeros list_all_iff isdigit_def ch_def)

lemma digits_nonempty [simp]: "digits n \<noteq> []"
  by (subst digits.simps) simp

lemma pad0_starts: "starts isdigit (pad0 w (digits n) @ r)"
proof -
  have "pad0 w (digits n) \<noteq> []" by (simp add: pad0_def)
  then show ?thesis using pad0_value [of w n] by (cases "pad0 w (digits n)") simp_all
qed

text \<open>A number printed without a sign is read back.\<close>

lemma fmt_int_starts: "0 \<le> n \<Longrightarrow> starts isdigit (fmt_int w n @ r)"
  by (simp add: fmt_int_def pad0_starts)

lemma fmt_int_read:
  assumes "0 \<le> n" "n \<le> 2147483647" "\<not> starts isdigit r"
  shows "parse_digits 0 (fmt_int w n @ r) = (n, r)"
proof -
  have "cint 0 = 0" "cint n = n" using assms by (simp_all add: cint_id in_int_def)
  then show ?thesis
    using parse_digits_wrap [of "fmt_int w n" r 0] pad0_value [of w "nat n"] assms by (simp add: fmt_int_def)
qed

section \<open>Values written and read back\<close>

definition config_ok :: "value_config \<Rightarrow> bool" where
  "config_ok vc \<longleftrightarrow> seps_ok (vc_seps vc) \<and> (DateTimeSep vc = CHR ''@'' \<or> DateTimeSep vc = CHR ''T'')"

text \<open>The values a script can make: a minute of the day, a day or a minute that is not negative.\<close>

definition value_ok :: "Value \<Rightarrow> bool" where
  "value_ok v \<longleftrightarrow>
    (case v of
       IntV n \<Rightarrow> in_int n
     | TimeV t \<Rightarrow> 0 \<le> t \<and> t < 1440
     | DateV d \<Rightarrow> 0 \<le> d \<and> d \<le> INT_MAX
     | DateTimeV m \<Rightarrow> 0 \<le> m \<and> m \<le> INT_MAX
     | StrV s \<Rightarrow> cstring s)"

text \<open>Dates and times that can be written, with a year of at most 5990.\<close>

definition writable :: "Value \<Rightarrow> bool" where
  "writable v \<longleftrightarrow> value_ok v \<and>
    (case v of
       DateV d \<Rightarrow> d \<le> DSE 5990 11 31
     | DateTimeV m \<Rightarrow> m div 1440 \<le> DSE 5990 11 31
     | _ \<Rightarrow> True)"

lemma sep_not_digit:
  assumes "config_ok vc"
  shows "\<not> isdigit (TimeSep (vc_seps vc))" "\<not> isdigit (DateSep (vc_seps vc))" "\<not> isdigit (DateTimeSep vc)"
    "is_timesep (vc_seps vc) (TimeSep (vc_seps vc))" "is_datesep (vc_seps vc) (DateSep (vc_seps vc))"
    "\<not> is_timesep (vc_seps vc) (DateSep (vc_seps vc))"
  using assms by (auto simp: config_ok_def seps_ok_def isdigit_def ch_def is_timesep_def is_datesep_def)

lemma fmt_time_read:
  assumes "config_ok vc" "0 \<le> t" "t < 1440" "\<not> starts isdigit r" "parse_ampm r = (None, r)"
  shows "ParseLiteralTime (vc_seps vc) (fmt_time vc t @ r) = Inr (t, r)"
proof -
  let ?h = "t div 60" and ?m = "t mod 60" and ?sep = "TimeSep (vc_seps vc)"
  have rng: "0 \<le> ?h" "?h \<le> 23" "0 \<le> ?m" "?m \<le> 59" using assms by simp_all
  have fmt: "fmt_time vc t @ r = fmt_int 2 ?h @ ?sep # fmt_int 2 ?m @ r"
    using assms by (simp add: fmt_time_def sdiv_nonneg smod_nonneg)
  have h: "parse_digits 0 (fmt_time vc t @ r) = (?h, ?sep # fmt_int 2 ?m @ r)"
    unfolding fmt using rng sep_not_digit [OF assms(1)] by (intro fmt_int_read) simp_all
  have m: "parse_digits 0 (fmt_int 2 ?m @ r) = (?m, r)"
    using rng assms(4) by (intro fmt_int_read) simp_all
  have d: "starts isdigit (fmt_time vc t @ r)" "starts isdigit (fmt_int 2 ?m @ r)"
    using rng by (simp_all add: fmt fmt_int_starts)
  show ?thesis using rng assms(2,3)
    by (simp add: ParseLiteralTime_def d h m sep_not_digit [OF assms(1)] assms(5) ampm_hour_def
        cint_id in_int_def)
qed

lemma parse_ampm_Nil [simp]: "parse_ampm [] = (None, [])"
  by (simp add: parse_ampm_def)

lemma fmt_date_read:
  assumes "config_ok vc" "0 \<le> dse" "dse \<le> DSE 5990 11 31" "\<not> starts isdigit r"
  shows "ParseLiteralDateOrTime (vc_seps vc) (fmt_date vc dse @ r) =
    (if starts (\<lambda>c. c = CHR '' '' \<or> c = CHR ''@'' \<or> c = CHR ''T'' \<or> c = CHR ''t'') r
     then (case ParseLiteralTime (vc_seps vc) (tl r) of Inl e \<Rightarrow> Inl e | Inr (tim, s) \<Rightarrow> Inr (dse, tim, s))
     else Inr (dse, NO_TIME, r))"
proof -
  let ?sep = "DateSep (vc_seps vc)"
  obtain y m d where ymd: "FromDSE dse = (y, m, d)" by (cases "FromDSE dse")
  note ok = FromDSE_DateOK [OF assms(2,3) ymd]
  have "d \<le> 31"
    using ok(1) DaysInMonth_length [of m y] month_length_bounds(2) [of y m] by (auto simp: DateOK_def)
  then have rng: "0 \<le> y" "y \<le> 5990" "0 \<le> m" "m \<le> 11" "0 \<le> d" "d \<le> 31"
    using ok(1) by (auto simp: DateOK_def BASE_def YR_RANGE_def)
  have fmt: "fmt_date vc dse @ r = fmt_int 4 y @ ?sep # fmt_int 2 (m + 1) @ ?sep # fmt_int 2 d @ r"
    by (simp add: fmt_date_def ymd)
  note sep = sep_not_digit [OF assms(1)]
  have p: "parse_digits 0 (fmt_date vc dse @ r) = (y, ?sep # fmt_int 2 (m + 1) @ ?sep # fmt_int 2 d @ r)"
    "parse_digits 0 (fmt_int 2 (m + 1) @ ?sep # fmt_int 2 d @ r) = (m + 1, ?sep # fmt_int 2 d @ r)"
    "parse_digits 0 (fmt_int 2 d @ r) = (d, r)"
    unfolding fmt using rng sep assms(4) by (simp_all add: fmt_int_read)
  have d: "starts isdigit (fmt_date vc dse @ r)" "starts isdigit (fmt_int 2 (m + 1) @ ?sep # fmt_int 2 d @ r)"
    "starts isdigit (fmt_int 2 d @ r)"
    unfolding fmt using rng by (simp_all add: fmt_int_starts)
  have "cint (m + 1 - 1) = m" using rng by (simp add: cint_id in_int_def)
  then show ?thesis
    by (simp add: ParseLiteralDateOrTime_def d p sep ok)
qed

lemma fmt_int_0_read: "in_int n \<Longrightarrow> coerce_int (StrV (fmt_int 0 n)) = Inr (IntV n)"
proof -
  assume n: "in_int n"
  show ?thesis
  proof (cases "n < 0")
    case False
    then have "\<not> starts (\<lambda>c. c = CHR ''-'') (fmt_int 0 n)"
      using fmt_int_starts [of n 0 "[]"] by (cases "fmt_int 0 n") (auto simp: isdigit_def ch_def)
    then show ?thesis
      using fmt_int_read [of n "[]" 0] n False by (simp add: coerce_int_def in_int_def)
  next
    case True
    have "parse_digits 0 (digits (nat (- n))) = (cint (- n), [])"
      using parse_digits_wrap [of "digits (nat (- n))" "[]" 0] digits_value [of "nat (- n)"] True
      by (simp add: cint_id in_int_def)
    moreover have "cint (- cint (- n)) = n" using n by (simp add: cint_minus cint_id)
    ultimately show ?thesis using True by (simp add: coerce_int_def fmt_int_def pad0_def)
  qed
qed

section \<open>Operators keep values well formed\<close>

lemma day_minutes_range: "0 \<le> day_minutes n \<and> day_minutes n < 1440"
proof -
  have "\<bar>n smod 1440\<bar> < 1440" using abs_mod_less [of 1440 "\<bar>n\<bar>"] by (simp add: signed_modulo_int_def abs_mult sgn_if)
  then show ?thesis by (auto simp: day_minutes_def MINUTES_PER_DAY_def Let_def)
qed

lemma cstring_digits: "list_all isdigit s \<Longrightarrow> cstring s"
  by (auto simp: cstring_def list_all_iff isdigit_def ch_def)

lemma cstring_append [simp]: "cstring (s @ t) \<longleftrightarrow> cstring s \<and> cstring t"
  by (auto simp: cstring_def)

lemma cstring_Cons: "cstring (c # s) \<longleftrightarrow> c \<noteq> CHR 0x00 \<and> cstring s"
  by (auto simp: cstring_def)

lemma cstring_Nil [simp]: "cstring []"
  by (simp add: cstring_def)

lemma cstring_fmt_int [simp]: "cstring (fmt_int w n)"
  using pad0_value by (auto simp: fmt_int_def cstring_Cons cstring_digits)

lemma fmt_cstring:
  assumes "config_ok vc"
  shows "cstring (fmt_time vc t)" "cstring (fmt_date vc d)" "cstring (fmt_datetime vc m)"
proof -
  have "TimeSep (vc_seps vc) \<noteq> CHR 0x00" "DateSep (vc_seps vc) \<noteq> CHR 0x00" "DateTimeSep vc \<noteq> CHR 0x00"
    using assms by (auto simp: config_ok_def seps_ok_def)
  then show "cstring (fmt_time vc t)" "cstring (fmt_date vc d)" "cstring (fmt_datetime vc m)"
    by (auto simp: fmt_time_def fmt_date_def fmt_datetime_def cstring_Cons split: prod.splits)
qed

lemma coerce_str_ok:
  assumes "config_ok vc" "value_ok v"
  obtains s where "DoCoerce vc STR_TYPE v = Inr (StrV s)" "cstring s"
  using assms by (cases v) (auto simp: DoCoerce_def coerce_str_def fmt_cstring value_ok_def)

lemma val_of_in_int: "value_ok v \<Longrightarrow> in_int (val_of v)"
  by (cases v) (auto simp: value_ok_def in_int_def)

lemma add_values_ok:
  assumes "config_ok vc" "value_ok v1" "value_ok v2" "add_values vc v1 v2 = Inr v"
  shows "value_ok v"
proof -
  obtain s where s: "DoCoerce vc STR_TYPE v1 = Inr (StrV s)" "cstring s"
    using coerce_str_ok [OF assms(1,2)] .
  obtain t where t: "DoCoerce vc STR_TYPE v2 = Inr (StrV t)" "cstring t"
    using coerce_str_ok [OF assms(1,3)] .
  have str: "add_strings vc v1 v2 = Inr v \<Longrightarrow> value_ok v"
    using s t by (auto simp: add_strings_def value_ok_def split: if_splits)
  show ?thesis
    using assms(4) str day_minutes_range assms(2,3) [THEN val_of_in_int]
    unfolding add_values_def Let_def
    by (auto split: if_splits simp: value_ok_def overflow_iff) (auto simp: in_int_def)
qed

lemma subtract_values_ok:
  assumes "value_ok v1" "value_ok v2" "subtract_values v1 v2 = Inr v"
  shows "value_ok v"
  using assms(3) day_minutes_range assms(1,2) [THEN val_of_in_int] unfolding subtract_values_def Let_def
  by (auto split: if_splits simp: value_ok_def overflow_iff) (auto simp: in_int_def)

lemma cstring_concat_replicate: "cstring s \<Longrightarrow> cstring (concat (replicate n s))"
  by (induction n) simp_all

lemma repeat_string_ok: "cstring s \<Longrightarrow> repeat_string vc n s = Inr v \<Longrightarrow> value_ok v"
  by (auto simp: repeat_string_def value_ok_def Let_def cstring_concat_replicate split: if_splits)

lemma multiply_values_ok:
  assumes "value_ok v1" "value_ok v2" "multiply_values vc v1 v2 = Inr v"
  shows "value_ok v"
  using assms by (cases v1; cases v2)
    (auto simp: multiply_values_def overflow_iff value_ok_def dest: repeat_string_ok
      split: if_splits)

lemma sdiv_in_int:
  assumes "in_int a" "b \<noteq> 0" "\<not> (b = -1 \<and> a = INT_MIN)"
  shows "in_int (a sdiv b)"
proof (cases "b = 1 \<or> b = -1")
  case True
  then show ?thesis using assms by (auto simp: in_int_def signed_divide_int_def sgn_if)
next
  case False
  then have "2 \<le> \<bar>b\<bar>" using assms(2) by arith
  then have "0 \<le> \<bar>a\<bar> div \<bar>b\<bar>" "\<bar>a\<bar> div \<bar>b\<bar> \<le> \<bar>a\<bar> div 2"
    by (simp_all add: zdiv_mono2 pos_imp_zdiv_nonneg_iff)
  moreover have "\<bar>a\<bar> div 2 \<le> 1073741824" using assms(1) unfolding in_int_def by linarith
  ultimately have "0 \<le> \<bar>a\<bar> div \<bar>b\<bar>" "\<bar>a\<bar> div \<bar>b\<bar> \<le> 1073741824" by linarith+
  then show ?thesis by (auto simp: in_int_def signed_divide_int_def sgn_if)
qed

lemma smod_in_int: "in_int a \<Longrightarrow> in_int b \<Longrightarrow> b \<noteq> 0 \<Longrightarrow> in_int (a smod b)"
proof -
  assume "in_int a" "in_int b" "b \<noteq> 0"
  then have "0 \<le> \<bar>a\<bar> mod \<bar>b\<bar>" "\<bar>a\<bar> mod \<bar>b\<bar> < \<bar>b\<bar>" "\<bar>b\<bar> \<le> 2147483648"
    by (auto simp: in_int_def)
  then show ?thesis by (auto simp: in_int_def signed_modulo_int_def sgn_if)
qed

lemma divide_or_mod_values_ok:
  assumes "value_ok v1" "value_ok v2" "divide_or_mod_values d v1 v2 = Inr v"
  shows "value_ok v"
  using assms by (cases v1; cases v2)
    (auto simp: divide_or_mod_values_def value_ok_def sdiv_in_int smod_in_int split: if_splits)

lemma compare_values_ok: "compare_values h v1 v2 = Inr v \<Longrightarrow> value_ok v"
  by (auto simp: compare_values_def value_ok_def in_int_def split: if_splits Value.splits)

lemma unary_minus_value_ok: "value_ok w \<Longrightarrow> unary_minus_value w = Inr v \<Longrightarrow> value_ok v"
  by (auto simp: unary_minus_value_def value_ok_def in_int_def split: Value.splits if_splits)

lemma logical_not_value_ok [simp]: "value_ok (logical_not_value v)"
  by (simp add: logical_not_value_def value_ok_def in_int_def)

section \<open>Properties\<close>

text \<open>
  C29. A number, time, date or date and time that is written as a string is read back from it:
  \<open>DoCoerce\<close> to a string and back gives the value itself.
\<close>

theorem DoCoerce_string_roundtrip:
  assumes "config_ok vc" "writable v"
  shows "\<exists>s. DoCoerce vc STR_TYPE v = Inr (StrV s) \<and> DoCoerce vc (vtype_of v) (StrV s) = Inr v"
proof (cases v)
  case (IntV n)
  then show ?thesis
    using assms fmt_int_0_read [of n] by (simp add: writable_def value_ok_def DoCoerce_def coerce_str_def)
next
  case (TimeV t)
  then show ?thesis
    using assms fmt_time_read [OF assms(1), of t "[]"]
    by (simp add: writable_def value_ok_def DoCoerce_def coerce_str_def coerce_time_def)
next
  case (DateV d)
  then show ?thesis
    using assms fmt_date_read [OF assms(1), of d "[]"]
    by (simp add: writable_def value_ok_def DoCoerce_def coerce_str_def coerce_date_def)
next
  case (DateTimeV m)
  then have m: "0 \<le> m" "m \<le> 2147483647" "m div 1440 \<le> DSE 5990 11 31"
    using assms(2) by (simp_all add: writable_def value_ok_def)
  have "\<not> starts isdigit (DateTimeSep vc # s)" for s using sep_not_digit(3) [OF assms(1)] by simp
  moreover have "DateTimeSep vc = CHR ''@'' \<or> DateTimeSep vc = CHR ''T''"
    using assms(1) by (simp add: config_ok_def)
  moreover have "ParseLiteralTime (vc_seps vc) (fmt_time vc (m mod 1440)) = Inr (m mod 1440, [])"
    using fmt_time_read [OF assms(1), of "m mod 1440" "[]"] by simp
  moreover have "0 \<le> m div 1440" using m(1) by simp
  ultimately have "ParseLiteralDateOrTime (vc_seps vc) (fmt_datetime vc m) = Inr (m div 1440, m mod 1440, [])"
    using m fmt_date_read [OF assms(1), of "m div 1440" "DateTimeSep vc # fmt_time vc (m mod 1440)"]
    by (auto simp: fmt_datetime_def sdiv_nonneg smod_nonneg MINUTES_PER_DAY_def)
  moreover have "m div 1440 \<noteq> -1" "m mod 1440 \<noteq> 2147483647"
    using m(1) pos_mod_bound [of 1440 m] by (linarith, linarith)
  moreover have "0 \<le> m div 1440 * 1440" "m div 1440 * 1440 \<le> m"
    using m(1) div_mult_mod_eq [of m 1440] pos_mod_sign [of 1440 m] by (simp, linarith)
  ultimately have "cint (m div 1440 * 1440) = m div 1440 * 1440" "cint m = m" "m div 1440 \<noteq> -1"
    "m mod 1440 \<noteq> 2147483647"
    "ParseLiteralDateOrTime (vc_seps vc) (fmt_datetime vc m) = Inr (m div 1440, m mod 1440, [])"
    using m by (simp_all add: cint_id in_int_def)
  then show ?thesis
    using DateTimeV by (simp add: DoCoerce_def coerce_str_def coerce_datetime_def MINUTES_PER_DAY_def)
qed (simp add: DoCoerce_def)

theorem DoCoerce_string_roundtrip_witness:
  "\<exists>s. DoCoerce \<lparr>vc_seps = default_seps, DateTimeSep = CHR ''@'', MaxStringLen = 65535\<rparr> STR_TYPE (DateTimeV 50000000)
     = Inr (StrV s)
   \<and> DoCoerce \<lparr>vc_seps = default_seps, DateTimeSep = CHR ''@'', MaxStringLen = 65535\<rparr> DATETIME_TYPE (StrV s)
     = Inr (DateTimeV 50000000)"
proof -
  have "DSE 5990 11 31 \<ge> 34723" by (simp add: DSE_def Let_def IsLeapYear_def MonthIndex_def BASE_def sdiv_nonneg)
  then show ?thesis
  using DoCoerce_string_roundtrip [of "\<lparr>vc_seps = default_seps, DateTimeSep = CHR ''@'', MaxStringLen = 65535\<rparr>"
      "DateTimeV 50000000"]
  by (simp add: config_ok_def default_seps_def seps_ok_def writable_def value_ok_def)
qed

text \<open>
  C30. Arithmetic on numbers is exact or fails.  For two numbers of 32 bits, a sum, difference or
  product is the exact one when that fits in an \<open>int\<close> and otherwise the error \<open>E_2HIGH\<close>; a
  division by zero is \<open>E_DIV_ZERO\<close>, and otherwise the quotient is the exact one, truncated
  towards zero, with the remainder that belongs to it, or both are \<open>E_2HIGH\<close> when the quotient
  does not fit; the negation is exact, or \<open>E_2LOW\<close> when it does not fit.  A date plus a number
  is that many days later, or \<open>E_DATE_OVER\<close> when there is no such date.
\<close>

theorem integer_arithmetic_exact:
  assumes "in_int a" "in_int b"
  shows "add_values vc (IntV a) (IntV b) = (if in_int (a + b) then Inr (IntV (a + b)) else Inl E_2HIGH)
   \<and> subtract_values (IntV a) (IntV b) = (if in_int (a - b) then Inr (IntV (a - b)) else Inl E_2HIGH)
   \<and> multiply_values vc (IntV a) (IntV b) = (if in_int (a * b) then Inr (IntV (a * b)) else Inl E_2HIGH)
   \<and> divide_or_mod_values True (IntV a) (IntV b) =
       (if b = 0 then Inl E_DIV_ZERO else if in_int (a sdiv b) then Inr (IntV (a sdiv b)) else Inl E_2HIGH)
   \<and> divide_or_mod_values False (IntV a) (IntV b) =
       (if b = 0 then Inl E_DIV_ZERO else if in_int (a sdiv b) then Inr (IntV (a - a sdiv b * b)) else Inl E_2HIGH)
   \<and> unary_minus_value (IntV a) = (if in_int (- a) then Inr (IntV (- a)) else Inl E_2LOW)
   \<and> add_values vc (DateV a) (IntV b) =
       (if in_int (a + b) \<and> 0 \<le> a + b then Inr (DateV (a + b)) else Inl E_DATE_OVER)"
proof -
  have div: "in_int (a sdiv b) \<longleftrightarrow> \<not> (b = -1 \<and> a = INT_MIN)" if "b \<noteq> 0"
    using sdiv_in_int [OF assms(1) that] by (auto simp: in_int_def signed_divide_int_def sgn_if)
  have "a smod b = a - a sdiv b * b"
    using sdiv_mult_smod_eq [of a b] by linarith
  moreover have "\<not> in_int (a * b)" if "b = -1 \<and> a = INT_MIN \<or> a = -1 \<and> b = INT_MIN"
    using that by (auto simp: in_int_def)
  moreover have "in_int (- a) \<longleftrightarrow> a \<noteq> INT_MIN" using assms(1) by (auto simp: in_int_def)
  ultimately show ?thesis
    using assms div
    by (auto simp: add_values_def subtract_values_def multiply_values_def divide_or_mod_values_def
        unary_minus_value_def overflow_iff)
qed

theorem integer_arithmetic_exact_witness:
  "multiply_values \<lparr>vc_seps = default_seps, DateTimeSep = CHR ''@'', MaxStringLen = 65535\<rparr> (IntV 65536) (IntV 32768) = Inl E_2HIGH
   \<and> multiply_values \<lparr>vc_seps = default_seps, DateTimeSep = CHR ''@'', MaxStringLen = 65535\<rparr> (IntV 65536) (IntV (- 32768)) = Inr (IntV INT_MIN)
   \<and> divide_or_mod_values True (IntV (- 7)) (IntV 2) = Inr (IntV (- 3))"
  using integer_arithmetic_exact [of 65536 32768 "\<lparr>vc_seps = default_seps, DateTimeSep = CHR ''@'', MaxStringLen = 65535\<rparr>"]
    integer_arithmetic_exact [of 65536 "- 32768" "\<lparr>vc_seps = default_seps, DateTimeSep = CHR ''@'', MaxStringLen = 65535\<rparr>"]
    integer_arithmetic_exact [of "- 7" 2 "\<lparr>vc_seps = default_seps, DateTimeSep = CHR ''@'', MaxStringLen = 65535\<rparr>"]
  by (simp add: in_int_def signed_divide_int_def)

end
