(* ===== verification/Script.thy ===== *)
theory Script
  imports IfElse ExprVal
begin

text \<open>
  How a script is read and run: the files that include each other (\<^verbatim>\<open>src/src/files.c\<close>) and the
  loop over their lines with the commands for control (\<^verbatim>\<open>src/src/main.c\<close>).  A file is the list
  of its lines, as it is kept in memory; a directory is the files in it.  All other commands, and
  the expressions, are parameters that change a state of any type.
\<close>

section \<open>The state\<close>

definition INCLUDE_NEST :: nat where "INCLUDE_NEST = 9"

record CachedLine =
  cl_text :: string
  LineNo :: nat

record IncludeStruct =
  base_if_pointer :: nat
  is_CLine :: "CachedLine list"
  chain :: "CachedLine list list"

record 'w script =
  ifs :: if_state
  IStack :: "IncludeStruct list"
  CLine :: "CachedLine list"
  exit_status :: "int option"
  world :: 'w

text \<open>
  What the rest of the program does, with its changes to the state \<open>'w\<close>.  \<open>h_iftrig\<close> is the part
  of IFTRIG before the IF is opened, \<open>h_open\<close> opens a file or the files of a directory
  (\<open>GlobFailed\<close> is a failure of the C library to list it, after which the code does not go back
  to the including file, whose lines are then read twice),
  \<open>h_command\<close> runs any other command, told whether the line is ignored and whether it is in a
  constant context, and \<open>h_print\<close> prints an error.
\<close>

datatype open_result =
    Opened "CachedLine list" "CachedLine list list"
  | NotOpened errcode
  | GlobFailed

record 'w hooks =
  h_seps :: seps
  EvaluateExpr :: "Parser \<Rightarrow> 'w \<Rightarrow> (errcode + Value) \<times> Parser \<times> 'w"
  h_eoln :: "Parser \<Rightarrow> 'w \<Rightarrow> errcode option \<times> 'w"
  h_iftrig :: "Parser \<Rightarrow> 'w \<Rightarrow> (errcode + bool) \<times> 'w"
  h_name :: "TokTypes \<Rightarrow> Parser \<Rightarrow> 'w \<Rightarrow> (errcode + string) \<times> 'w"
  h_open :: "TokTypes \<Rightarrow> string \<Rightarrow> 'w \<Rightarrow> open_result \<times> 'w"
  h_command :: "tok_result \<Rightarrow> bool \<Rightarrow> bool \<Rightarrow> string \<Rightarrow> Parser \<Rightarrow> 'w \<Rightarrow> errcode option \<times> 'w"
  h_print :: "errcode \<Rightarrow> 'w \<Rightarrow> 'w"
  PurgeMode :: bool
  Hush :: bool

section \<open>Files\<close>

definition TopLevel :: "'w script \<Rightarrow> bool" where
  "TopLevel f \<longleftrightarrow> length (IStack f) \<le> 1"

text \<open>The result is \<open>Some E_EOF\<close> at the end of the first file.\<close>

definition PopFile :: "'w script \<Rightarrow> errcode option \<times> 'w script" where
  "PopFile f =
    (let f = f\<lparr>ifs := pop_excess_ifs (ifs f), CLine := []\<rparr> in
     case IStack f of
       [] \<Rightarrow> (Some E_EOF, f)
     | i # st \<Rightarrow>
         (case chain i of
            l # later \<Rightarrow> (None, f\<lparr>IStack := i\<lparr>chain := later\<rparr> # st, CLine := l\<rparr>)
          | [] \<Rightarrow>
              if TopLevel f then (Some E_EOF, f\<lparr>IStack := []\<rparr>)
              else (None, f\<lparr>IStack := st, ifs := set_base_if_pointer (base_if_pointer i) (ifs f),
                           CLine := is_CLine i\<rparr>)))"

definition files_left :: "IncludeStruct list \<Rightarrow> nat" where
  "files_left st = sum_list (map (\<lambda>i. 1 + length (chain i)) st)"

lemma files_left_simps [simp]:
  "files_left [] = 0" "files_left (i # st) = 1 + length (chain i) + files_left st"
  by (simp_all add: files_left_def)

lemma PopFile_files_left: "PopFile f = (None, f') \<Longrightarrow> files_left (IStack f') < files_left (IStack f)"
  by (auto simp: PopFile_def Let_def split: list.splits if_splits)

function ReadLine :: "'w script \<Rightarrow> (errcode + CachedLine) \<times> 'w script" where
  "ReadLine f =
    (case CLine f of
       l # ls \<Rightarrow> (Inr l, f\<lparr>CLine := ls\<rparr>)
     | [] \<Rightarrow>
         (case PopFile f of
            (Some e, f) \<Rightarrow> (Inl e, f)
          | (None, f) \<Rightarrow> ReadLine f))"
  by pat_completeness auto
termination
  by (relation "measure (\<lambda>f. files_left (IStack f))") (simp_all add: PopFile_files_left [OF sym])

declare ReadLine.simps [simp del]

definition IncludeFile :: "'w hooks \<Rightarrow> TokTypes \<Rightarrow> string \<Rightarrow> 'w script \<Rightarrow> errcode option \<times> 'w script" where
  "IncludeFile H ty fname f =
    (if length (IStack f) \<ge> INCLUDE_NEST then (Some E_NESTED_INCLUDE, f)
     else case h_open H ty fname (world f) of
       (NotOpened e, w) \<Rightarrow> (Some e, f\<lparr>ifs := (ifs f)\<lparr>return_encountered := False\<rparr>, world := w\<rparr>)
     | (GlobFailed, w) \<Rightarrow>
         (Some E_NO_MATCHING_REMS,
          f\<lparr>IStack := \<lparr>base_if_pointer = get_base_if_pointer (ifs f), is_CLine = CLine f, chain = []\<rparr> # IStack f,
            ifs := set_base_if_pointer (get_if_pointer (ifs f)) (ifs f), world := w\<rparr>)
     | (Opened ls later, w) \<Rightarrow>
         (None, f\<lparr>IStack := \<lparr>base_if_pointer = get_base_if_pointer (ifs f), is_CLine = CLine f, chain = later\<rparr> # IStack f,
                  ifs := set_base_if_pointer (get_if_pointer (ifs f)) (ifs f),
                  CLine := ls, world := w\<rparr>))"

section \<open>Commands for control\<close>

definition Eprint :: "'w hooks \<Rightarrow> errcode \<Rightarrow> 'w script \<Rightarrow> 'w script" where
  "Eprint H e f = (if should_ignore_line (ifs f) then f else f\<lparr>world := h_print H e (world f)\<rparr>)"

definition verify_eoln :: "'w hooks \<Rightarrow> Parser \<Rightarrow> 'w script \<Rightarrow> errcode option \<times> 'w script" where
  "verify_eoln H p f = (case h_eoln H p (world f) of (r, w) \<Rightarrow> (r, f\<lparr>world := w\<rparr>))"

definition push :: "nat \<Rightarrow> bool \<Rightarrow> bool \<Rightarrow> 'w script \<Rightarrow> 'w script" where
  "push n b const f = f\<lparr>ifs := snd (push_if n b const (ifs f))\<rparr>"

definition DoIf :: "'w hooks \<Rightarrow> nat \<Rightarrow> Parser \<Rightarrow> 'w script \<Rightarrow> errcode option \<times> 'w script" where
  "DoIf H n p f =
    (if if_stack_full (ifs f) \<noteq> None then (Some E_NESTED_IF, f)
     else if should_ignore_line (ifs f) then (None, push n True True f)
     else case EvaluateExpr H p (world f) of
       (Inl e, p, w) \<Rightarrow> verify_eoln H p (push n True False (Eprint H e (f\<lparr>world := w\<rparr>)))
     | (Inr v, p, w) \<Rightarrow> verify_eoln H p (push n (truthy v) (\<not> p_nonconst_expr p) (f\<lparr>world := w\<rparr>)))"

definition DoElse :: "'w hooks \<Rightarrow> Parser \<Rightarrow> 'w script \<Rightarrow> errcode option \<times> 'w script" where
  "DoElse H p f =
    (case encounter_else (ifs f) of
       (Some e, s) \<Rightarrow> (Some e, f\<lparr>ifs := s\<rparr>)
     | (None, s) \<Rightarrow> verify_eoln H p (f\<lparr>ifs := s\<rparr>))"

definition DoEndif :: "'w hooks \<Rightarrow> Parser \<Rightarrow> 'w script \<Rightarrow> errcode option \<times> 'w script" where
  "DoEndif H p f =
    (case encounter_endif (ifs f) of
       (Some e, s) \<Rightarrow> (Some e, f\<lparr>ifs := s\<rparr>)
     | (None, s) \<Rightarrow> verify_eoln H p (f\<lparr>ifs := s\<rparr>))"

definition DoIfTrig :: "'w hooks \<Rightarrow> nat \<Rightarrow> Parser \<Rightarrow> 'w script \<Rightarrow> errcode option \<times> 'w script" where
  "DoIfTrig H n p f =
    (if if_stack_full (ifs f) \<noteq> None then (Some E_NESTED_IF, f)
     else if should_ignore_line (ifs f) then (None, push n True False f)
     else case h_iftrig H p (world f) of
       (Inl e, w) \<Rightarrow> (Some e, f\<lparr>world := w\<rparr>)
     | (Inr b, w) \<Rightarrow> (None, push n b False (f\<lparr>world := w\<rparr>)))"

definition DoReturn :: "'w hooks \<Rightarrow> Parser \<Rightarrow> 'w script \<Rightarrow> errcode option \<times> 'w script" where
  "DoReturn H p f =
    (case verify_eoln H p f of (r, f) \<Rightarrow> (r, f\<lparr>ifs := (ifs f)\<lparr>return_encountered := True\<rparr>\<rparr>))"

definition DoInclude :: "'w hooks \<Rightarrow> TokTypes \<Rightarrow> Parser \<Rightarrow> 'w script \<Rightarrow> errcode option \<times> 'w script" where
  "DoInclude H ty p f =
    (case h_name H ty p (world f) of
       (Inl e, w) \<Rightarrow> (Some e, f\<lparr>world := w\<rparr>)
     | (Inr s, w) \<Rightarrow> IncludeFile H ty s (f\<lparr>world := w\<rparr>))"

definition DoExit :: "'w hooks \<Rightarrow> Parser \<Rightarrow> 'w script \<Rightarrow> 'w script" where
  "DoExit H p f =
    (if PurgeMode H then f
     else case EvaluateExpr H p (world f) of
       (r, _, w) \<Rightarrow> f\<lparr>exit_status := Some (case r of Inr (IntV n) \<Rightarrow> n | _ \<Rightarrow> 99), world := w\<rparr>)"

definition other_command :: "'w hooks \<Rightarrow> tok_result \<Rightarrow> string \<Rightarrow> Parser \<Rightarrow> 'w script \<Rightarrow> errcode option \<times> 'w script" where
  "other_command H tok line p f =
    (case h_command H tok (should_ignore_line (ifs f)) (in_constant_context (ifs f)) line p (world f) of
       (r, w) \<Rightarrow> (r, f\<lparr>world := w\<rparr>))"

section \<open>The loop over the lines\<close>

definition reads_when_ignored :: "TokTypes \<Rightarrow> bool" where
  "reads_when_ignored ty \<longleftrightarrow> ty = T_If \<or> ty = T_Else \<or> ty = T_EndIf \<or> ty = T_IfTrig \<or> ty = T_Set \<or> ty = T_Fset"

definition report :: "'w hooks \<Rightarrow> errcode option \<times> 'w script \<Rightarrow> 'w script" where
  "report H r = (case r of
       (None, f) \<Rightarrow> f
     | (Some e, f) \<Rightarrow> if \<not> Hush H \<or> e \<noteq> E_RUN_DISABLED then Eprint H e f else f)"

definition do_line :: "'w hooks \<Rightarrow> CachedLine \<Rightarrow> 'w script \<Rightarrow> 'w script" where
  "do_line H l f =
    (let (tok, s) = FindInitialToken (h_seps H) (cl_text l); ty = fst tok in
     if \<not> reads_when_ignored ty \<and> should_ignore_line (ifs f) then f
     else let p = CreateParser s in
       report H
        (if ty = T_If then DoIf H (LineNo l) p f
         else if ty = T_Return then DoReturn H p f
         else if ty = T_IfTrig then DoIfTrig H (LineNo l) p f
         else if ty = T_Else then DoElse H p f
         else if ty = T_EndIf then DoEndif H p f
         else if ty \<in> {T_Include, T_IncludeR, T_IncludeSys, T_IncludeCmd} then DoInclude H ty p f
         else if ty = T_Exit then (None, DoExit H p f)
         else other_command H tok (cl_text l) p f))"

text \<open>The run of a script up to its end, or up to EXIT.\<close>

inductive DoReminders :: "'w hooks \<Rightarrow> 'w script \<Rightarrow> 'w script \<Rightarrow> bool" for H where
  exited: "exit_status f \<noteq> None \<Longrightarrow> DoReminders H f f"
| eof: "exit_status f = None \<Longrightarrow> ReadLine f = (Inl e, f') \<Longrightarrow> DoReminders H f f'"
| line: "exit_status f = None \<Longrightarrow> ReadLine f = (Inr l, f1) \<Longrightarrow> DoReminders H (do_line H l f1) f' \<Longrightarrow>
    DoReminders H f f'"

code_pred DoReminders .

inductive_cases DoRemindersE: "DoReminders H f g"

end
