(* ===== verification/Structured.thy ===== *)
theory Structured
  imports Script
begin

text \<open>
  What a script with properly nested IFs means, and the proofs that the loop over its lines
  does just that.
\<close>

section \<open>Programs\<close>

datatype stmt =
    Cmd CachedLine
  | If CachedLine "stmt list" "(CachedLine \<times> stmt list) option" CachedLine

fun stmt_lines :: "stmt \<Rightarrow> CachedLine list" and block_lines :: "stmt list \<Rightarrow> CachedLine list" where
  "stmt_lines (Cmd l) = [l]"
| "stmt_lines (If l b None e) = l # block_lines b @ [e]"
| "stmt_lines (If l b (Some (m, c)) e) = l # block_lines b @ m # block_lines c @ [e]"
| "block_lines [] = []"
| "block_lines (s # ss) = stmt_lines s @ block_lines ss"

fun stmt_nest :: "stmt \<Rightarrow> nat" and block_nest :: "stmt list \<Rightarrow> nat" where
  "stmt_nest (Cmd l) = 0"
| "stmt_nest (If l b None e) = Suc (block_nest b)"
| "stmt_nest (If l b (Some (m, c)) e) = Suc (max (block_nest b) (block_nest c))"
| "block_nest [] = 0"
| "block_nest (s # ss) = max (stmt_nest s) (block_nest ss)"

text \<open>The command a line starts with, and the parse pointer behind it.\<close>

definition kind :: "'w hooks \<Rightarrow> CachedLine \<Rightarrow> TokTypes" where
  "kind H l = fst (fst (FindInitialToken (h_seps H) (cl_text l)))"

definition args :: "'w hooks \<Rightarrow> CachedLine \<Rightarrow> Parser" where
  "args H l = CreateParser (snd (FindInitialToken (h_seps H) (cl_text l)))"

definition bare :: "'w hooks \<Rightarrow> CachedLine \<Rightarrow> bool" where
  "bare H l \<longleftrightarrow> (\<forall>w. h_eoln H (args H l) w = (None, w))"

fun stmt_ok :: "'w hooks \<Rightarrow> stmt \<Rightarrow> bool" and block_ok :: "'w hooks \<Rightarrow> stmt list \<Rightarrow> bool" where
  "stmt_ok H (Cmd l) \<longleftrightarrow> kind H l \<notin> {T_If, T_IfTrig, T_Else, T_EndIf}"
| "stmt_ok H (If l b None e) \<longleftrightarrow>
    kind H l \<in> {T_If, T_IfTrig} \<and> block_ok H b \<and> kind H e = T_EndIf \<and> bare H e"
| "stmt_ok H (If l b (Some (m, c)) e) \<longleftrightarrow>
    kind H l \<in> {T_If, T_IfTrig} \<and> block_ok H b \<and> kind H m = T_Else \<and> bare H m \<and> block_ok H c \<and>
    kind H e = T_EndIf \<and> bare H e"
| "block_ok H [] \<longleftrightarrow> True"
| "block_ok H (s # ss) \<longleftrightarrow> stmt_ok H s \<and> block_ok H ss"

section \<open>Meaning\<close>

text \<open>
  A branch that is not taken has an effect too: SET and FSET lines in it are told so (they
  make what they would define non-constant).  \<open>c\<close> is the constant context.
\<close>

fun skip_stmt :: "'w hooks \<Rightarrow> bool \<Rightarrow> stmt \<Rightarrow> 'w \<Rightarrow> 'w"
  and skip_block :: "'w hooks \<Rightarrow> bool \<Rightarrow> stmt list \<Rightarrow> 'w \<Rightarrow> 'w" where
  "skip_stmt H c (Cmd l) w =
    (if kind H l \<in> {T_Set, T_Fset}
     then snd (h_command H (fst (FindInitialToken (h_seps H) (cl_text l))) True c (cl_text l) (args H l) w)
     else w)"
| "skip_stmt H c (If l b None e) w = skip_block H (c \<and> kind H l = T_If) b w"
| "skip_stmt H c (If l b (Some (m, d)) e) w =
    (let c = c \<and> kind H l = T_If in skip_block H c d (skip_block H c b w))"
| "skip_block H c [] w = w"
| "skip_block H c (s # ss) w = skip_block H c ss (skip_stmt H c s w)"

definition branches :: "stmt list \<Rightarrow> (CachedLine \<times> stmt list) option \<Rightarrow> bool \<Rightarrow> stmt list \<times> stmt list" where
  "branches b els t = (let d = (case els of None \<Rightarrow> [] | Some (_, d) \<Rightarrow> d) in if t then (b, d) else (d, b))"

definition print :: "'w hooks \<Rightarrow> errcode option \<Rightarrow> 'w \<Rightarrow> 'w" where
  "print H r w = (case r of None \<Rightarrow> w | Some e \<Rightarrow> if \<not> Hush H \<or> e \<noteq> E_RUN_DISABLED then h_print H e w else w)"

text \<open>
  The condition of IF or IFTRIG: whether it is true, and whether it is constant.  An expression
  with an error counts as true.  Errors after the expression are printed only if it is true,
  since the line after it is not ignored then.
\<close>

definition condition :: "'w hooks \<Rightarrow> CachedLine \<Rightarrow> 'w \<Rightarrow> ((bool \<times> bool) \<times> 'w) option" where
  "condition H l w =
    (if kind H l = T_If then
       let ((t, c), p, w) = (case EvaluateExpr H (args H l) w of
             (Inl e, p, w) \<Rightarrow> ((True, False), p, h_print H e w)
           | (Inr v, p, w) \<Rightarrow> ((truthy v, \<not> p_nonconst_expr p), p, w));
           (r, w) = h_eoln H p w
       in Some ((t, c), if t then print H r w else w)
     else case h_iftrig H (args H l) w of
       (Inl e, w) \<Rightarrow> None
     | (Inr t, w) \<Rightarrow> Some ((t, False), w))"

datatype outcome = Normal | Returned | Exited int

text \<open>\<open>d\<close> files are being read and \<open>k\<close> more IFs can be opened.\<close>

inductive exec_stmt :: "'w hooks \<Rightarrow> nat \<Rightarrow> nat \<Rightarrow> bool \<Rightarrow> stmt \<Rightarrow> 'w \<Rightarrow> 'w \<times> outcome \<Rightarrow> bool"
  and exec_block :: "'w hooks \<Rightarrow> nat \<Rightarrow> nat \<Rightarrow> bool \<Rightarrow> stmt list \<Rightarrow> 'w \<Rightarrow> 'w \<times> outcome \<Rightarrow> bool"
  and exec_files :: "'w hooks \<Rightarrow> nat \<Rightarrow> nat \<Rightarrow> bool \<Rightarrow> stmt list list \<Rightarrow> 'w \<Rightarrow> 'w \<times> outcome \<Rightarrow> bool"
  for H where
  command:
    "kind H l \<notin> {T_Return, T_Include, T_IncludeR, T_IncludeSys, T_IncludeCmd, T_Exit} \<Longrightarrow>
     h_command H (fst (FindInitialToken (h_seps H) (cl_text l))) False c (cl_text l) (args H l) w = (r, w') \<Longrightarrow>
     exec_stmt H d k c (Cmd l) w (print H r w', Normal)"
| return_file:
    "kind H l = T_Return \<Longrightarrow> h_eoln H (args H l) w = (r, w') \<Longrightarrow> exec_stmt H d k c (Cmd l) w (w', Returned)"
| no_exit: "kind H l = T_Exit \<Longrightarrow> PurgeMode H \<Longrightarrow> exec_stmt H d k c (Cmd l) w (w, Normal)"
| exit_script:
    "kind H l = T_Exit \<Longrightarrow> \<not> PurgeMode H \<Longrightarrow> EvaluateExpr H (args H l) w = (r, p, w') \<Longrightarrow>
     exec_stmt H d k c (Cmd l) w (w', Exited (case r of Inr (IntV n) \<Rightarrow> n | _ \<Rightarrow> 99))"
| include_bad_name:
    "kind H l \<in> {T_Include, T_IncludeR, T_IncludeSys, T_IncludeCmd} \<Longrightarrow>
     h_name H (kind H l) (args H l) w = (Inl e, w') \<Longrightarrow> exec_stmt H d k c (Cmd l) w (print H (Some e) w', Normal)"
| include_too_deep:
    "kind H l \<in> {T_Include, T_IncludeR, T_IncludeSys, T_IncludeCmd} \<Longrightarrow>
     h_name H (kind H l) (args H l) w = (Inr s, w') \<Longrightarrow> INCLUDE_NEST \<le> d \<Longrightarrow>
     exec_stmt H d k c (Cmd l) w (print H (Some E_NESTED_INCLUDE) w', Normal)"
| include_not_open:
    "kind H l \<in> {T_Include, T_IncludeR, T_IncludeSys, T_IncludeCmd} \<Longrightarrow>
     h_name H (kind H l) (args H l) w = (Inr s, w1) \<Longrightarrow> d < INCLUDE_NEST \<Longrightarrow>
     h_open H (kind H l) s w1 = (NotOpened e, w') \<Longrightarrow> exec_stmt H d k c (Cmd l) w (print H (Some e) w', Normal)"
| include_files:
    "kind H l \<in> {T_Include, T_IncludeR, T_IncludeSys, T_IncludeCmd} \<Longrightarrow>
     h_name H (kind H l) (args H l) w = (Inr s, w1) \<Longrightarrow> d < INCLUDE_NEST \<Longrightarrow>
     h_open H (kind H l) s w1 = (Opened ls later, w2) \<Longrightarrow> ls # later = map block_lines ps \<Longrightarrow>
     list_all (\<lambda>p. block_ok H p \<and> block_nest p \<le> k) ps \<Longrightarrow> exec_files H (Suc d) k c ps w2 out \<Longrightarrow>
     exec_stmt H d k c (Cmd l) w out"
| if_then_else:
    "condition H l w = Some ((t, cc), w1) \<Longrightarrow> branches b els t = (yes, no) \<Longrightarrow>
     w2 = (if t then w1 else skip_block H (c \<and> cc) no w1) \<Longrightarrow>
     exec_block H d k (c \<and> cc) yes w2 (w3, out) \<Longrightarrow>
     w' = (if t \<and> (\<forall>n. out \<noteq> Exited n) then skip_block H (c \<and> cc) no w3 else w3) \<Longrightarrow>
     exec_stmt H d (Suc k) c (If l b els e) w (w', out)"
| block_end: "exec_block H d k c [] w (w, Normal)"
| block_next:
    "exec_stmt H d k c s w (w1, Normal) \<Longrightarrow> exec_block H d k c ss w1 out \<Longrightarrow> exec_block H d k c (s # ss) w out"
| block_return:
    "exec_stmt H d k c s w (w1, Returned) \<Longrightarrow> exec_block H d k c (s # ss) w (skip_block H c ss w1, Returned)"
| block_exit:
    "exec_stmt H d k c s w (w1, Exited n) \<Longrightarrow> exec_block H d k c (s # ss) w (w1, Exited n)"
| files_end: "exec_files H d k c [] w (w, Normal)"
| files_next:
    "exec_block H d k c p w (w1, out1) \<Longrightarrow> \<forall>n. out1 \<noteq> Exited n \<Longrightarrow> exec_files H d k c ps w1 out \<Longrightarrow>
     exec_files H d k c (p # ps) w out"
| files_exit:
    "exec_block H d k c p w (w1, Exited n) \<Longrightarrow> exec_files H d k c (p # ps) w (w1, Exited n)"

section \<open>Runs\<close>

text \<open>Whatever the second state runs to, the first does.\<close>

definition leads :: "'w hooks \<Rightarrow> 'w script \<Rightarrow> 'w script \<Rightarrow> bool" where
  "leads H f f' \<longleftrightarrow> (\<forall>g. DoReminders H f' g \<longrightarrow> DoReminders H f g)"

lemma leads_refl [simp]: "leads H f f"
  by (simp add: leads_def)

lemma leads_trans [trans]: "leads H f g \<Longrightarrow> leads H g h \<Longrightarrow> leads H f h"
  by (simp add: leads_def)

lemma leads_line: "exit_status f = None \<Longrightarrow> CLine f = l # ls \<Longrightarrow> leads H f (do_line H l (f\<lparr>CLine := ls\<rparr>))"
  unfolding leads_def by (intro allI impI, rule DoReminders.line) (simp_all add: ReadLine.simps [of f])

lemma leads_pop:
  assumes "exit_status f = None" "CLine f = []" "PopFile f = (None, f')"
  shows "leads H f f'"
proof -
  have read: "ReadLine f = ReadLine f'" using assms by (simp add: ReadLine.simps [of f])
  have "exit_status f' = None" using assms
    by (auto simp: PopFile_def Let_def split: list.splits if_splits)
  note none = this
  show ?thesis unfolding leads_def
  proof (intro allI impI)
    fix g
    assume "DoReminders H f' g"
    then show "DoReminders H f g"
    proof (cases rule: DoReminders.cases)
      case exited
      then show ?thesis using none by simp
    next
      case (eof e)
      then show ?thesis using assms(1) read by (auto intro: DoReminders.eof)
    next
      case (line l f1)
      then show ?thesis using assms(1) read by (auto intro: DoReminders.line)
    qed
  qed
qed

text \<open>
  The state between two lines: \<open>outer\<close> and \<open>own\<close> are the open IFs, \<open>ret\<close> says that a RETURN has
  been met, and \<open>ls\<close> is the rest of the file.
\<close>

definition at :: "IncludeStruct list \<Rightarrow> ifentry list \<Rightarrow> ifentry list \<Rightarrow> bool \<Rightarrow> CachedLine list \<Rightarrow> 'w \<Rightarrow> 'w script \<Rightarrow> bool" where
  "at st outer own ret ls w f \<longleftrightarrow>
    exit_status f = None \<and> IStack f = st \<and> if_view (ifs f) outer own ret \<and> CLine f = ls \<and> world f = w"

definition ignoring :: "ifentry list \<Rightarrow> bool \<Rightarrow> bool" where
  "ignoring own ret \<longleftrightarrow> ret \<or> list_ex ignored_entry own"

lemma at_ignore: "at st outer own ret ls w f \<Longrightarrow> should_ignore_line (ifs f) \<longleftrightarrow> ignoring own ret"
  by (auto simp: at_def if_view_def should_ignore_own ignoring_def)

lemma at_constant:
  "at st outer own ret ls w f \<Longrightarrow> in_constant_context (ifs f) \<longleftrightarrow> list_all was_constant (outer @ own)"
  by (auto simp: at_def if_view_def constant_context_all)

lemma at_update:
  "at st outer own ret ls w f \<Longrightarrow> at st outer own ret ls w' (f\<lparr>world := w'\<rparr>)"
  "at st outer own ret ls w f \<Longrightarrow> if_view s outer' own' ret' \<Longrightarrow> at st outer' own' ret' ls w (f\<lparr>ifs := s\<rparr>)"
  "at st outer own ret ls w f \<Longrightarrow> at st outer own ret ls' w (f\<lparr>CLine := ls'\<rparr>)"
  by (simp_all add: at_def)

definition reaches :: "'w hooks \<Rightarrow> 'w script \<Rightarrow> ('w script \<Rightarrow> bool) \<Rightarrow> bool" where
  "reaches H f P \<longleftrightarrow> (\<exists>f'. leads H f f' \<and> P f')"

lemma reachesI: "leads H f f' \<Longrightarrow> P f' \<Longrightarrow> reaches H f P"
  unfolding reaches_def by blast

lemma reaches_trans: "reaches H f P \<Longrightarrow> (\<And>f'. P f' \<Longrightarrow> reaches H f' Q) \<Longrightarrow> reaches H f Q"
  unfolding reaches_def by (meson leads_trans)

lemma reaches_now: "P f \<Longrightarrow> reaches H f P"
  by (rule reachesI) simp_all

lemma reaches_line:
  assumes "at st outer own ret (l # ls) w f" "\<And>f'. at st outer own ret ls w f' \<Longrightarrow> P (do_line H l f')"
  shows "reaches H f P"
proof (rule reachesI)
  show "leads H f (do_line H l (f\<lparr>CLine := ls\<rparr>))" using assms(1) by (intro leads_line) (auto simp: at_def)
  show "P (do_line H l (f\<lparr>CLine := ls\<rparr>))" by (rule assms(2), rule at_update(3), fact assms(1))
qed

section \<open>One line\<close>

definition opened :: "CachedLine \<Rightarrow> bool \<Rightarrow> bool \<Rightarrow> ifentry" where
  "opened l b c = \<lparr>ife_lineno = LineNo l, if_true = b, before_else = True, was_constant = c\<rparr>"

lemma do_line_kind:
  "do_line H l f =
    (let ty = kind H l; p = args H l in
     if \<not> reads_when_ignored ty \<and> should_ignore_line (ifs f) then f
     else report H
        (if ty = T_If then DoIf H (LineNo l) p f
         else if ty = T_Return then DoReturn H p f
         else if ty = T_IfTrig then DoIfTrig H (LineNo l) p f
         else if ty = T_Else then DoElse H p f
         else if ty = T_EndIf then DoEndif H p f
         else if ty \<in> {T_Include, T_IncludeR, T_IncludeSys, T_IncludeCmd} then DoInclude H ty p f
         else if ty = T_Exit then (None, DoExit H p f)
         else other_command H (fst (FindInitialToken (h_seps H) (cl_text l))) (cl_text l) p f))"
  by (simp add: do_line_def kind_def args_def split_def Let_def)

lemma Eprint_at:
  "at st outer own ret ls w f \<Longrightarrow> at st outer own ret ls (if ignoring own ret then w else h_print H e w) (Eprint H e f)"
  by (simp add: Eprint_def at_ignore at_update(1)) (auto simp: at_def)

lemma report_at:
  "at st outer own ret ls w f \<Longrightarrow> at st outer own ret ls (if ignoring own ret then w else print H r w) (report H (r, f))"
  using Eprint_at [of st outer own ret ls w f H] by (cases r) (auto simp: report_def print_def)

lemma verify_eoln_at:
  assumes "at st outer own ret ls w f" "h_eoln H p w = (r, w')"
  obtains f' where "verify_eoln H p f = (r, f')" "at st outer own ret ls w' f'"
proof -
  have "verify_eoln H p f = (r, f\<lparr>world := w'\<rparr>)" using assms by (simp add: verify_eoln_def at_def)
  then show ?thesis using at_update(1) [OF assms(1)] that by blast
qed

lemma push_at:
  "at st outer own ret ls w f \<Longrightarrow> length outer + length own < IF_NEST \<Longrightarrow>
   at st outer (own @ [opened l b c]) ret ls w (push (LineNo l) b c f)"
  unfolding push_def opened_def by (rule at_update(2), assumption) (simp add: at_def push_if_view(2))

lemma room: "at st outer own ret ls w f \<Longrightarrow> length outer + length own < IF_NEST \<Longrightarrow> if_stack_full (ifs f) = None"
  by (auto simp: at_def if_view_def if_stack_full_def if_ok_def outer_ifs_def own_ifs_def)

lemma do_line_skipped:
  assumes "at st outer own ret ls w f" "ignoring own ret" "kind H l \<notin> {T_If, T_IfTrig, T_Else, T_EndIf}"
  shows "at st outer own ret ls (skip_stmt H (list_all was_constant (outer @ own)) (Cmd l) w) (do_line H l f)"
proof (cases "kind H l \<in> {T_Set, T_Fset}")
  case True
  let ?r = "h_command H (fst (FindInitialToken (h_seps H) (cl_text l))) True
    (list_all was_constant (outer @ own)) (cl_text l) (args H l) w"
  have "do_line H l f = report H (fst ?r, f\<lparr>world := snd ?r\<rparr>)"
  proof -
    have w: "world f = w" using assms(1) by (simp add: at_def)
    have "other_command H (fst (FindInitialToken (h_seps H) (cl_text l))) (cl_text l) (args H l) f =
        (fst ?r, f\<lparr>world := snd ?r\<rparr>)"
      unfolding other_command_def at_ignore [OF assms(1)] at_constant [OF assms(1)] w
      by (simp only: assms(2) split_def)
    then show ?thesis using True by (auto simp: do_line_kind reads_when_ignored_def)
  qed
  then show ?thesis using report_at [OF at_update(1) [OF assms(1)]] True assms(2) by simp
next
  case False
  then have "do_line H l f = f"
    using assms by (auto simp: do_line_kind reads_when_ignored_def at_ignore [OF assms(1)])
  then show ?thesis using assms(1) False by simp
qed

lemma do_line_If_skipped:
  assumes "at st outer own ret ls w f" "ignoring own ret" "kind H l \<in> {T_If, T_IfTrig}"
    "length outer + length own < IF_NEST"
  shows "at st outer (own @ [opened l True (kind H l = T_If)]) ret ls w (do_line H l f)"
  using assms(2,3) push_at [OF assms(1,4)]
  by (auto simp: do_line_kind reads_when_ignored_def DoIf_def DoIfTrig_def room [OF assms(1,4)]
      at_ignore [OF assms(1)] report_def)

lemma ignoring_opened: "\<not> ignoring own ret \<Longrightarrow> ignoring (own @ [opened l t c]) ret \<longleftrightarrow> \<not> t"
  by (simp add: ignoring_def opened_def ignored_entry_def)

lemma do_line_If:
  assumes "at st outer own ret ls w f" "\<not> ignoring own ret" "kind H l \<in> {T_If, T_IfTrig}"
    "length outer + length own < IF_NEST" "condition H l w = Some ((t, c), w')"
  shows "at st outer (own @ [opened l t c]) ret ls w' (do_line H l f)"
proof (cases "kind H l = T_If")
  case True
  obtain e p w1 where ev: "EvaluateExpr H (args H l) w = (e, p, w1)" by (cases "EvaluateExpr H (args H l) w") auto
  define t1 c1 w2 where "t1 = (case e of Inl _ \<Rightarrow> True | Inr v \<Rightarrow> truthy v)"
    and "c1 = (case e of Inl _ \<Rightarrow> False | Inr v \<Rightarrow> \<not> p_nonconst_expr p)"
    and "w2 = (case e of Inl e \<Rightarrow> h_print H e w1 | Inr v \<Rightarrow> w1)"
  obtain r w3 where eoln: "h_eoln H p w2 = (r, w3)" by (cases "h_eoln H p w2")
  define g where "g = push (LineNo l) t1 c1 (case e of Inl e \<Rightarrow> Eprint H e (f\<lparr>world := w1\<rparr>) | Inr v \<Rightarrow> f\<lparr>world := w1\<rparr>)"
  have "at st outer own ret ls w2 (case e of Inl e \<Rightarrow> Eprint H e (f\<lparr>world := w1\<rparr>) | Inr v \<Rightarrow> f\<lparr>world := w1\<rparr>)"
    using Eprint_at [OF at_update(1) [OF assms(1)]] at_update(1) [OF assms(1)] assms(2)
    by (auto simp: w2_def split: sum.split)
  then have g: "at st outer (own @ [opened l t1 c1]) ret ls w2 g" unfolding g_def by (rule push_at) (fact assms(4))
  obtain h where h: "verify_eoln H p g = (r, h)" "at st outer (own @ [opened l t1 c1]) ret ls w3 h"
    using verify_eoln_at [OF g eoln] by blast
  have "do_line H l f = report H (verify_eoln H p g)"
    using True assms(1,2) ev room [OF assms(1,4)]
    by (auto simp: do_line_kind reads_when_ignored_def DoIf_def at_ignore [OF assms(1)] g_def t1_def c1_def
        at_def split: sum.split)
  moreover have "condition H l w = Some ((t1, c1), if t1 then print H r w3 else w3)"
    using True ev eoln by (auto simp: condition_def t1_def c1_def w2_def split: sum.splits)
  ultimately show ?thesis
    using assms(5) report_at [OF h(2), of H r] h(1) ignoring_opened [OF assms(2), of l t1 c1] by auto
next
  case False
  then have k: "kind H l = T_IfTrig" using assms(3) by simp
  from assms(5) False have "h_iftrig H (args H l) w = (Inr t, w')" "\<not> c"
    by (auto simp: condition_def split: prod.splits sum.splits)
  then have "do_line H l f = push (LineNo l) t c (f\<lparr>world := w'\<rparr>)"
    using k assms(1,2) room [OF assms(1,4)]
    by (simp add: do_line_kind reads_when_ignored_def DoIfTrig_def at_ignore [OF assms(1)] report_def at_def)
  then show ?thesis using push_at [OF at_update(1) [OF assms(1)] assms(4)] by simp
qed

lemma do_line_Else:
  assumes "at st outer (own @ [e]) ret ls w f" "before_else e" "kind H l = T_Else" "bare H l"
  shows "at st outer (own @ [e\<lparr>before_else := False\<rparr>]) ret ls w (do_line H l f)"
proof -
  have view: "if_view (ifs f) outer (own @ [e]) ret" using assms(1) by (simp add: at_def)
  obtain s where s: "encounter_else (ifs f) = (None, s)" "if_view s outer (own @ [e\<lparr>before_else := False\<rparr>]) ret"
    using encounter_else_view [OF view assms(2)] by (cases "encounter_else (ifs f)") auto
  obtain g where "verify_eoln H (args H l) (f\<lparr>ifs := s\<rparr>) = (None, g)"
      "at st outer (own @ [e\<lparr>before_else := False\<rparr>]) ret ls w g"
    using verify_eoln_at [OF at_update(2) [OF assms(1) s(2)], of H "args H l" None w] assms(4)
    by (auto simp: bare_def)
  then show ?thesis
    using assms(3) s(1) by (simp add: do_line_kind reads_when_ignored_def DoElse_def report_def)
qed

lemma do_line_EndIf:
  assumes "at st outer (own @ [e]) ret ls w f" "kind H l = T_EndIf" "bare H l"
  shows "at st outer own ret ls w (do_line H l f)"
proof -
  have view: "if_view (ifs f) outer (own @ [e]) ret" using assms(1) by (simp add: at_def)
  obtain s where s: "encounter_endif (ifs f) = (None, s)" "if_view s outer own ret"
    using encounter_endif_view [OF view] by (cases "encounter_endif (ifs f)") auto
  obtain g where "verify_eoln H (args H l) (f\<lparr>ifs := s\<rparr>) = (None, g)" "at st outer own ret ls w g"
    using verify_eoln_at [OF at_update(2) [OF assms(1) s(2)], of H "args H l" None w] assms(3)
    by (auto simp: bare_def)
  then show ?thesis
    using assms(2) s(1) by (simp add: do_line_kind reads_when_ignored_def DoEndif_def report_def)
qed

section \<open>Branches that are not taken\<close>

lemma list_all_opened [simp]: "list_all was_constant (xs @ [opened l t c]) \<longleftrightarrow> list_all was_constant xs \<and> c"
  by (simp add: opened_def)

lemma ignoring_append: "ignoring own ret \<Longrightarrow> ignoring (own @ [e]) ret"
  by (auto simp: ignoring_def)

lemma opened_else [simp]:
  "before_else (opened l t c)" "was_constant ((opened l t c)\<lparr>before_else := False\<rparr>) = c"
  "ignored_entry ((opened l t c)\<lparr>before_else := False\<rparr>) = t"
  by (simp_all add: opened_def ignored_entry_def)

lemma skip_sim:
  fixes H :: "'w hooks"
  shows "at st outer own ret (stmt_lines s @ rest) w f \<Longrightarrow> ignoring own ret \<Longrightarrow> stmt_ok H s \<Longrightarrow>
      length outer + length own + stmt_nest s \<le> IF_NEST \<Longrightarrow> c = list_all was_constant (outer @ own) \<Longrightarrow>
      reaches H f (at st outer own ret rest (skip_stmt H c s w))"
    and "at st outer own ret (block_lines ss @ rest) w f \<Longrightarrow> ignoring own ret \<Longrightarrow> block_ok H ss \<Longrightarrow>
      length outer + length own + block_nest ss \<le> IF_NEST \<Longrightarrow> c = list_all was_constant (outer @ own) \<Longrightarrow>
      reaches H f (at st outer own ret rest (skip_block H c ss w))"
proof (induction H c s w and H c ss w arbitrary: own rest f and own rest f rule: skip_stmt_skip_block.induct)
  case (1 H c l w)
  then show ?case
    by (auto intro!: reaches_line do_line_skipped simp del: skip_stmt.simps list_all_append)
next
  case (2 H c l b e w)
  let ?own = "own @ [opened l True (kind H l = T_If)]"
  show ?case
  proof (rule reaches_trans)
    show "reaches H f (at st outer ?own ret (block_lines b @ e # rest) w)"
      using 2 by (auto intro!: reaches_line do_line_If_skipped)
    fix f1
    assume "at st outer ?own ret (block_lines b @ e # rest) w f1"
    then have "reaches H f1 (at st outer ?own ret (e # rest) (skip_block H (c \<and> kind H l = T_If) b w))"
      by (rule 2(1)) (use 2 in \<open>auto intro: ignoring_append simp: opened_def\<close>)
    then show "reaches H f1 (at st outer own ret rest (skip_stmt H c (If l b None e) w))"
    proof (rule reaches_trans)
      fix f2
      assume "at st outer ?own ret (e # rest) (skip_block H (c \<and> kind H l = T_If) b w) f2"
      then show "reaches H f2 (at st outer own ret rest (skip_stmt H c (If l b None e) w))"
        using 2 by (auto intro!: reaches_line do_line_EndIf)
    qed
  qed
next
  case (3 H c l b m d e w)
  let ?own = "own @ [opened l True (kind H l = T_If)]"
  let ?own2 = "own @ [(opened l True (kind H l = T_If))\<lparr>before_else := False\<rparr>]"
  let ?c = "c \<and> kind H l = T_If"
  show ?case
  proof (rule reaches_trans)
    show "reaches H f (at st outer ?own ret (block_lines b @ m # block_lines d @ e # rest) w)"
      using 3 by (auto intro!: reaches_line do_line_If_skipped)
    fix f1
    assume "at st outer ?own ret (block_lines b @ m # block_lines d @ e # rest) w f1"
    then have "reaches H f1 (at st outer ?own ret (m # block_lines d @ e # rest) (skip_block H ?c b w))"
      by (rule 3(1) [OF refl]) (use 3 in \<open>auto intro: ignoring_append simp: opened_def\<close>)
    then show "reaches H f1 (at st outer own ret rest (skip_stmt H c (If l b (Some (m, d)) e) w))"
    proof (rule reaches_trans)
      fix f2
      assume "at st outer ?own ret (m # block_lines d @ e # rest) (skip_block H ?c b w) f2"
      then have "reaches H f2 (at st outer ?own2 ret (block_lines d @ e # rest) (skip_block H ?c b w))"
        using 3 by (auto intro!: reaches_line do_line_Else)
      then show "reaches H f2 (at st outer own ret rest (skip_stmt H c (If l b (Some (m, d)) e) w))"
      proof (rule reaches_trans)
        fix f3
        assume "at st outer ?own2 ret (block_lines d @ e # rest) (skip_block H ?c b w) f3"
        then have "reaches H f3 (at st outer ?own2 ret (e # rest) (skip_block H ?c d (skip_block H ?c b w)))"
          by (rule 3(2) [OF refl]) (use 3 in \<open>auto intro: ignoring_append\<close>)
        then show "reaches H f3 (at st outer own ret rest (skip_stmt H c (If l b (Some (m, d)) e) w))"
        proof (rule reaches_trans)
          fix f4
          assume "at st outer ?own2 ret (e # rest) (skip_block H ?c d (skip_block H ?c b w)) f4"
          then show "reaches H f4 (at st outer own ret rest (skip_stmt H c (If l b (Some (m, d)) e) w))"
            using 3 by (auto intro!: reaches_line do_line_EndIf simp: Let_def)
        qed
      qed
    qed
  qed
next
  case (4 H c w)
  then show ?case by (simp add: reaches_now)
next
  case (5 H c s ss w)
  have "reaches H f (at st outer own ret (block_lines ss @ rest) (skip_stmt H c s w))"
    by (rule 5(1)) (use 5 in auto)
  then show ?case
  proof (rule reaches_trans)
    fix f1
    assume "at st outer own ret (block_lines ss @ rest) (skip_stmt H c s w) f1"
    then have "reaches H f1 (at st outer own ret rest (skip_block H c ss (skip_stmt H c s w)))"
      by (rule 5(2)) (use 5 in auto)
    then show "reaches H f1 (at st outer own ret rest (skip_block H c (s # ss) w))" by simp
  qed
qed

section \<open>Files that end and begin\<close>

lemma reaches_pop:
  assumes "at st outer own ret [] w f" "PopFile f = (None, f')" "P f'"
  shows "reaches H f P"
  using assms by (intro reachesI [of H f f'] leads_pop) (auto simp: at_def)

lemma reaches_after_pop:
  assumes "at st outer own ret [] w f" "PopFile f = (None, f')" "reaches H f' P"
  shows "reaches H f P"
  using reaches_trans [OF reaches_pop [OF assms(1,2), of "\<lambda>g. g = f'"]] assms(3) by simp

lemma PopFile_next:
  assumes "at (i # st) outer own ret [] w f" "chain i = l # later"
  obtains f' where "PopFile f = (None, f')" "at (i\<lparr>chain := later\<rparr> # st) outer [] False l w f'"
  using assms pop_excess_view [of "ifs f" outer own ret] that
  by (force simp: at_def PopFile_def)

lemma PopFile_return:
  assumes "at (i # st) (outer @ own) own' ret [] w f" "chain i = []" "st \<noteq> []" "base_if_pointer i = length outer"
  obtains f' where "PopFile f = (None, f')" "at st outer own False (is_CLine i) w f'"
proof -
  have "if_view (set_base_if_pointer (length outer) (pop_excess_ifs (ifs f))) outer own False"
    using assms(1) set_base_view(3) [OF pop_excess_view [of "ifs f" "outer @ own" own' ret]] by (simp add: at_def)
  then show ?thesis using assms that
    by (force simp: at_def PopFile_def TopLevel_def)
qed

text \<open>Before the first file of an INCLUDE the state is as if a file before it had just ended.\<close>

lemma leads_before_include:
  assumes "at (i\<lparr>chain := later\<rparr> # st) outer [] False l w f"
  shows "leads H f (f\<lparr>IStack := i\<lparr>chain := l # later\<rparr> # st, CLine := []\<rparr>)" (is "leads H f ?g")
proof -
  have f: "exit_status f = None" "IStack f = i\<lparr>chain := later\<rparr> # st" "CLine f = l" "return_encountered (ifs f) = False"
      "if_pointer (ifs f) \<le> base_pointer (ifs f)"
    using assms own_length [of "ifs f"] by (auto simp: at_def if_view_def)
  then have "pop_excess_ifs (ifs f) = ifs f" by (simp add: pop_excess_ifs_def)
  then have "PopFile ?g = (None, f)" using f by (simp add: PopFile_def)
  then have read: "ReadLine ?g = ReadLine f" by (simp add: ReadLine.simps [of ?g])
  show ?thesis unfolding leads_def
  proof (intro allI impI)
    fix g
    assume "DoReminders H ?g g"
    then show "DoReminders H f g"
      by (cases rule: DoReminders.cases) (use f(1) read in \<open>auto intro: DoReminders.eof DoReminders.line\<close>)
  qed
qed

lemma DoInclude_at:
  assumes "at st outer own False rest w f" "h_name H ty p w = (Inr s, w1)" "length st < INCLUDE_NEST"
    "h_open H ty s w1 = (Opened ls later, w2)"
  obtains f' where "DoInclude H ty p f = (None, f')"
    "at (\<lparr>base_if_pointer = length outer, is_CLine = rest, chain = later\<rparr> # st) (outer @ own) [] False ls w2 f'"
proof -
  have "if_view (ifs f) outer own False" using assms(1) by (simp add: at_def)
  from set_base_view(1,2) [OF this] assms that show ?thesis
    by (simp add: at_def DoInclude_def IncludeFile_def)
qed

section \<open>The loop does what the program means\<close>

definition result_at ::
    "IncludeStruct list \<Rightarrow> ifentry list \<Rightarrow> ifentry list \<Rightarrow> CachedLine list \<Rightarrow> 'w \<times> outcome \<Rightarrow> 'w script \<Rightarrow> bool" where
  "result_at st outer own rest res f \<longleftrightarrow>
    (case res of
       (w, Normal) \<Rightarrow> at st outer own False rest w f
     | (w, Returned) \<Rightarrow> at st outer own True rest w f
     | (w, Exited n) \<Rightarrow> exit_status f = Some n \<and> world f = w)"

lemma result_at_simps [simp]:
  "result_at st outer own rest (w, Normal) = at st outer own False rest w"
  "result_at st outer own rest (w, Returned) = at st outer own True rest w"
  "result_at st outer own rest (w, Exited n) = (\<lambda>f. exit_status f = Some n \<and> world f = w)"
  by (simp_all add: result_at_def fun_eq_iff)

lemma do_line_command:
  assumes "at st outer own False ls w f" "\<not> ignoring own False" "stmt_ok H (Cmd l)"
    "kind H l \<notin> {T_Return, T_Include, T_IncludeR, T_IncludeSys, T_IncludeCmd, T_Exit}"
    "h_command H (fst (FindInitialToken (h_seps H) (cl_text l))) False (list_all was_constant (outer @ own))
       (cl_text l) (args H l) w = (r, w')"
  shows "at st outer own False ls (print H r w') (do_line H l f)"
proof -
  have w: "world f = w" using assms(1) by (simp add: at_def)
  have "other_command H (fst (FindInitialToken (h_seps H) (cl_text l))) (cl_text l) (args H l) f = (r, f\<lparr>world := w'\<rparr>)"
    unfolding other_command_def at_ignore [OF assms(1)] at_constant [OF assms(1)] w
    using assms(2,5) by simp
  then have "do_line H l f = report H (r, f\<lparr>world := w'\<rparr>)"
    using assms(2-4) by (auto simp: do_line_kind at_ignore [OF assms(1)])
  then show ?thesis using report_at [OF at_update(1) [OF assms(1)], of w' H r] assms(2) by simp
qed

lemma do_line_return:
  assumes "at st outer own False ls w f" "\<not> ignoring own False" "kind H l = T_Return" "h_eoln H (args H l) w = (r, w')"
  shows "at st outer own True ls w' (do_line H l f)"
proof -
  obtain g where g: "verify_eoln H (args H l) f = (r, g)" "at st outer own False ls w' g"
    using verify_eoln_at [OF assms(1,4)] by blast
  have "if_view ((ifs g)\<lparr>return_encountered := True\<rparr>) outer own True"
    using g(2) by (simp add: at_def if_view_def if_ok_def outer_ifs_def own_ifs_def)
  from report_at [OF at_update(2) [OF g(2) this], of H r] show ?thesis
    using assms g(1) by (simp add: do_line_kind at_ignore [OF assms(1)] DoReturn_def ignoring_def)
qed

lemma do_line_exit:
  assumes "at st outer own False ls w f" "\<not> ignoring own False" "kind H l = T_Exit"
  shows "PurgeMode H \<Longrightarrow> do_line H l f = f"
    "\<not> PurgeMode H \<Longrightarrow> EvaluateExpr H (args H l) w = (r, p, w') \<Longrightarrow>
      do_line H l f = f\<lparr>exit_status := Some (case r of Inr (IntV n) \<Rightarrow> n | _ \<Rightarrow> 99), world := w'\<rparr>"
  using assms by (simp_all add: do_line_kind at_ignore [OF assms(1)] DoExit_def report_def at_def)

lemma do_line_include:
  assumes "at st outer own False ls w f" "\<not> ignoring own False"
    "kind H l \<in> {T_Include, T_IncludeR, T_IncludeSys, T_IncludeCmd}"
  shows "do_line H l f = report H (DoInclude H (kind H l) (args H l) f)"
  using assms by (auto simp: do_line_kind at_ignore [OF assms(1)])

lemma DoInclude_fails:
  assumes "at st outer own False ls w f"
  shows "h_name H ty p w = (Inl e, w1) \<Longrightarrow> DoInclude H ty p f = (Some e, f\<lparr>world := w1\<rparr>)"
    "h_name H ty p w = (Inr s, w1) \<Longrightarrow> INCLUDE_NEST \<le> length st \<Longrightarrow>
       DoInclude H ty p f = (Some E_NESTED_INCLUDE, f\<lparr>world := w1\<rparr>)"
    "h_name H ty p w = (Inr s, w1) \<Longrightarrow> length st < INCLUDE_NEST \<Longrightarrow> h_open H ty s w1 = (NotOpened e, w2) \<Longrightarrow>
       DoInclude H ty p f = (Some e, f\<lparr>world := w2\<rparr>)"
  using assms by (auto simp: at_def if_view_def DoInclude_def IncludeFile_def)

lemma include_error:
  assumes "at st outer own False ls w f" "\<not> ignoring own False"
    "kind H l \<in> {T_Include, T_IncludeR, T_IncludeSys, T_IncludeCmd}"
    "DoInclude H (kind H l) (args H l) f = (Some e, f\<lparr>world := w'\<rparr>)"
  shows "at st outer own False ls (print H (Some e) w') (do_line H l f)"
  using report_at [OF at_update(1) [OF assms(1)], of w' H "Some e"] assms(2)
  by (simp add: do_line_include [OF assms(1-3)] assms(4))

text \<open>A condition, the branch taken, the branch skipped: four ways through an IF.\<close>

lemma if_sim:
  assumes at: "at st outer own False (stmt_lines (If l b els e) @ rest) w f" "\<not> ignoring own False"
    and ok: "stmt_ok H (If l b els e)" "length outer + length own + Suc k \<le> IF_NEST" "stmt_nest (If l b els e) \<le> Suc k"
    and cond: "condition H l w = Some ((t, cc), w1)" "branches b els t = (yes, no)"
    and c: "c = list_all was_constant (outer @ own)"
    and w2: "w2 = (if t then w1 else skip_block H (c \<and> cc) no w1)"
    and w': "w' = (if t \<and> (\<forall>n. out \<noteq> Exited n) then skip_block H (c \<and> cc) no w3 else w3)"
    and exec: "\<And>own' rest' f'. at st outer own' False (block_lines yes @ rest') w2 f' \<Longrightarrow>
      \<not> ignoring own' False \<Longrightarrow> length own' = Suc (length own) \<Longrightarrow>
      list_all was_constant (outer @ own') = (c \<and> cc) \<Longrightarrow>
      reaches H f' (result_at st outer own' rest' (w3, out))"
    and none: "els = None \<Longrightarrow> \<not> t \<Longrightarrow> w3 = w2 \<and> out = Normal"
  shows "reaches H f (result_at st outer own rest (w', out))"
proof -
  define tail where "tail = (case els of None \<Rightarrow> e # rest | Some (m, d) \<Rightarrow> m # block_lines d @ e # rest)"
  have room: "length outer + length own < IF_NEST" using ok(2) by simp
  have kinds: "kind H l \<in> {T_If, T_IfTrig}" "kind H e = T_EndIf" "bare H e" "block_ok H b"
    "block_nest b \<le> k" "els = Some (m, d) \<Longrightarrow> kind H m = T_Else \<and> bare H m \<and> block_ok H d \<and> block_nest d \<le> k" for m d
    using ok(1,3) by (cases els; force)+
  let ?own = "own @ [opened l t cc]" and ?own2 = "own @ [(opened l t cc)\<lparr>before_else := False\<rparr>]"
  have const: "list_all was_constant (outer @ ?own) = (c \<and> cc)" "list_all was_constant (outer @ ?own2) = (c \<and> cc)"
    by (simp_all add: c) (auto simp: opened_def)
  have len: "length ?own = Suc (length own)" "length ?own2 = Suc (length own)" by simp_all
  have ign: "ignoring ?own r \<longleftrightarrow> r \<or> \<not> t" "ignoring ?own2 r \<longleftrightarrow> r \<or> t" for r
    using at(2) by (auto simp: ignoring_def opened_def ignored_entry_def)
  have start: "reaches H f (at st outer ?own False (block_lines b @ tail) w1)"
    by (rule reaches_line [of st outer own False l "block_lines b @ tail" w])
      (use at kinds(1) room cond(1) in \<open>auto simp: tail_def split: option.splits intro: do_line_If\<close>)
  have skip: "reaches H g (at st outer own' r ls (skip_block H (c \<and> cc) ss v))"
    if "at st outer own' r (block_lines ss @ ls) v g" "ignoring own' r" "block_ok H ss" "block_nest ss \<le> k"
      "length own' = Suc (length own)" "list_all was_constant (outer @ own') = (c \<and> cc)" for own' r ss ls v g
    using that ok(2) by (intro skip_sim(2) [of st outer own' r ss ls v g H "c \<and> cc"]) auto
  have endif: "reaches H g (at st outer own r rest v)" if "at st outer (own @ [x]) r (e # rest) v g" for x r v g
    using that kinds(2,3) by (auto intro!: reaches_line do_line_EndIf)
  have else_line: "reaches H g (at st outer ?own2 r ls v)"
    if "at st outer ?own r (m # ls) v g" "els = Some (m, d)" for m d r ls v g
    using that kinds(6) by (auto intro!: reaches_line do_line_Else)
  show ?thesis
  proof (cases t)
    case True
    then have yes: "yes = b" "no = (case els of None \<Rightarrow> [] | Some (_, d) \<Rightarrow> d)"
      using cond(2) by (auto simp: branches_def Let_def)
    have after: "reaches H g (at st outer own r rest (skip_block H (c \<and> cc) no v))"
      if "at st outer ?own r tail v g" for r v g
    proof (cases els)
      case None
      then show ?thesis using that yes endif by (simp add: tail_def)
    next
      case (Some md)
      obtain m d where md: "md = (m, d)" by (cases md)
      have "reaches H g (at st outer ?own2 r (block_lines d @ e # rest) v)"
        using that else_line [of r m "block_lines d @ e # rest" v g d] by (simp add: tail_def Some md)
      then show ?thesis
      proof (rule reaches_trans)
        fix g2
        assume "at st outer ?own2 r (block_lines d @ e # rest) v g2"
        then have "reaches H g2 (at st outer ?own2 r (e # rest) (skip_block H (c \<and> cc) d v))"
          using kinds(6) [of m d] Some md True ign const len by (intro skip) auto
        then show "reaches H g2 (at st outer own r rest (skip_block H (c \<and> cc) no v))"
          by (rule reaches_trans) (use yes Some md endif in auto)
      qed
    qed
    from start show ?thesis
    proof (rule reaches_trans)
      fix f1
      assume "at st outer ?own False (block_lines b @ tail) w1 f1"
      then have "reaches H f1 (result_at st outer ?own tail (w3, out))"
        using exec [of ?own tail f1] True yes w2 ign const len by simp
      then show "reaches H f1 (result_at st outer own rest (w', out))"
      proof (rule reaches_trans)
        fix f2
        assume "result_at st outer ?own tail (w3, out) f2"
        then show "reaches H f2 (result_at st outer own rest (w', out))"
          using after [of _ w3 f2] w' True by (cases out) (auto intro: reaches_now)
      qed
    qed
  next
    case False
    then have no: "no = b" "yes = (case els of None \<Rightarrow> [] | Some (_, d) \<Rightarrow> d)" "w' = w3"
      using cond(2) w' by (auto simp: branches_def Let_def)
    have finish: "reaches H g (result_at st outer own rest (w3, out))"
      if "result_at st outer own' (e # rest) (w3, out) g" "own' = ?own \<or> own' = ?own2" for own' g
      using that endif by (cases out) (auto intro: reaches_now)
    from start show ?thesis
    proof (rule reaches_trans)
      fix f1
      assume "at st outer ?own False (block_lines b @ tail) w1 f1"
      then have "reaches H f1 (at st outer ?own False tail w2)"
        using kinds(4,5) False ign const len skip [of ?own False b tail w1 f1] no w2 by simp
      then show "reaches H f1 (result_at st outer own rest (w', out))"
      proof (rule reaches_trans)
        fix f2
        assume f2: "at st outer ?own False tail w2 f2"
        show "reaches H f2 (result_at st outer own rest (w', out))"
        proof (cases els)
          case None
          then show ?thesis using f2 none False no endif by (simp add: tail_def)
        next
          case (Some md)
          obtain m d where md: "md = (m, d)" by (cases md)
          have "reaches H f2 (at st outer ?own2 False (block_lines d @ e # rest) w2)"
            using f2 else_line [of False m "block_lines d @ e # rest" w2 f2 d] by (simp add: tail_def Some md)
          then show ?thesis
          proof (rule reaches_trans)
            fix f3
            assume "at st outer ?own2 False (block_lines d @ e # rest) w2 f3"
            then have "reaches H f3 (result_at st outer ?own2 (e # rest) (w3, out))"
              using exec [of ?own2 "e # rest" f3] no Some md False ign const len by simp
            then show "reaches H f3 (result_at st outer own rest (w', out))"
              by (rule reaches_trans) (use finish no in auto)
          qed
        qed
      qed
    qed
  qed
qed

lemma exec_block_Nil: "exec_block H d k c [] w out \<Longrightarrow> out = (w, Normal)"
  by (cases rule: exec_block.cases) auto

lemma include_sim:
  assumes at: "at st outer own False (l # rest) w f" "\<not> ignoring own False"
    and l: "kind H l \<in> {T_Include, T_IncludeR, T_IncludeSys, T_IncludeCmd}"
      "h_name H (kind H l) (args H l) w = (Inr s, w1)" "length st < INCLUDE_NEST" "st \<noteq> []"
      "h_open H (kind H l) s w1 = (Opened ls later, w2)" "ls # later = map block_lines ps"
    and files: "\<And>i f' own' r. at (i\<lparr>chain := map block_lines ps\<rparr> # st) (outer @ own) own' r [] w2 f' \<Longrightarrow>
      base_if_pointer i = length outer \<Longrightarrow> is_CLine i = rest \<Longrightarrow>
      reaches H f' (result_at st outer own rest res)"
  shows "reaches H f (result_at st outer own rest res)"
proof (rule reaches_trans)
  let ?i = "\<lparr>base_if_pointer = length outer, is_CLine = rest, chain = later\<rparr>"
  show "reaches H f (at (?i # st) (outer @ own) [] False ls w2)"
  proof (rule reaches_line [OF at(1)])
    fix f1
    assume f1: "at st outer own False rest w f1"
    obtain f2 where f2: "DoInclude H (kind H l) (args H l) f1 = (None, f2)" "at (?i # st) (outer @ own) [] False ls w2 f2"
      by (rule DoInclude_at [OF f1 l(2,3,5)])
    then show "at (?i # st) (outer @ own) [] False ls w2 (do_line H l f1)"
      using do_line_include [OF f1 at(2) l(1)] by (simp add: report_def)
  qed
  fix f2
  assume f2: "at (?i # st) (outer @ own) [] False ls w2 f2"
  then have f2': "at (?i\<lparr>chain := later\<rparr> # st) (outer @ own) [] False ls w2 f2" by simp
  show "reaches H f2 (result_at st outer own rest res)"
  proof (rule reaches_trans)
    show "reaches H f2 (at (?i\<lparr>chain := map block_lines ps\<rparr> # st) (outer @ own) [] False [] w2)"
      by (rule reachesI, rule leads_before_include [OF f2']) (use f2 l(6) in \<open>simp add: at_def\<close>)
    fix f3
    assume "at (?i\<lparr>chain := map block_lines ps\<rparr> # st) (outer @ own) [] False [] w2 f3"
    then show "reaches H f3 (result_at st outer own rest res)" by (rule files) simp_all
  qed
qed

lemma exec_sim:
  fixes H :: "'w hooks"
  shows "exec_stmt H d k c s w res \<Longrightarrow>
      (\<And>st outer own rest f. at st outer own False (stmt_lines s @ rest) w f \<Longrightarrow> \<not> ignoring own False \<Longrightarrow>
        stmt_ok H s \<Longrightarrow> stmt_nest s \<le> k \<Longrightarrow> length outer + length own + k \<le> IF_NEST \<Longrightarrow>
        c = list_all was_constant (outer @ own) \<Longrightarrow> d = length st \<Longrightarrow> st \<noteq> [] \<Longrightarrow>
        reaches H f (result_at st outer own rest res))"
    and "exec_block H d k c ss w res \<Longrightarrow>
      (\<And>st outer own rest f. at st outer own False (block_lines ss @ rest) w f \<Longrightarrow> \<not> ignoring own False \<Longrightarrow>
        block_ok H ss \<Longrightarrow> block_nest ss \<le> k \<Longrightarrow> length outer + length own + k \<le> IF_NEST \<Longrightarrow>
        c = list_all was_constant (outer @ own) \<Longrightarrow> d = length st \<Longrightarrow> st \<noteq> [] \<Longrightarrow>
        reaches H f (result_at st outer own rest res))"
    and "exec_files H d k c ps w res \<Longrightarrow>
      (\<And>st i outer own own' r f. at (i\<lparr>chain := map block_lines ps\<rparr> # st) (outer @ own) own' r [] w f \<Longrightarrow>
        base_if_pointer i = length outer \<Longrightarrow> list_all (\<lambda>p. block_ok H p \<and> block_nest p \<le> k) ps \<Longrightarrow>
        length outer + length own + k \<le> IF_NEST \<Longrightarrow> c = list_all was_constant (outer @ own) \<Longrightarrow>
        d = Suc (length st) \<Longrightarrow> st \<noteq> [] \<Longrightarrow>
        reaches H f (result_at st outer own (is_CLine i) res))"
proof (induction rule: exec_stmt_exec_block_exec_files.inducts)
  case (command l c w r w' d k)
  then show ?case by (auto intro!: reaches_line do_line_command simp del: list_all_append)
next
  case (return_file l w r w' d k c)
  then show ?case by (auto intro!: reaches_line do_line_return)
next
  case (no_exit l d k c w)
  then show ?case by (auto intro!: reaches_line simp: do_line_exit(1))
next
  case (exit_script l w r p w' d k c)
  then show ?case by (auto intro!: reaches_line simp: do_line_exit(2))
next
  case (include_bad_name l w e w' d k c)
  then show ?case by (auto intro!: reaches_line include_error DoInclude_fails(1))
next
  case (include_too_deep l w s w' d k c)
  then show ?case by (auto intro!: reaches_line include_error DoInclude_fails(2))
next
  case (include_not_open l w s w1 d e w' k c)
  then show ?case by (auto intro!: reaches_line include_error DoInclude_fails(3))
next
  case (include_files l w s w1 d ls later w2 ps k c out)
  note hyps = include_files(1-4) include_files.hyps and prems = include_files.prems
  have nest: "length st < INCLUDE_NEST" using hyps(5) prems(7) by simp
  show ?case
  proof (rule include_sim [OF _ prems(2) hyps(1,2) nest prems(8) hyps(3,6)])
    show "at st outer own False (l # rest) w f" using prems(1) by simp
    fix i f' own' r
    assume "at (i\<lparr>chain := map block_lines ps\<rparr> # st) (outer @ own) own' r [] w2 f'"
      "base_if_pointer i = length outer" "is_CLine i = rest"
    then show "reaches H f' (result_at st outer own rest out)"
      using include_files(6) [of i st outer own own' r f'] hyps(4) prems(5-8) by simp
  qed
next
  case (if_then_else l w t cc w1 b els yes no w2 c d k w3 out w' e)
  show ?case
  proof (rule if_sim [OF if_then_else.prems(1,2,3,5,4) if_then_else(1) if_then_else.hyps if_then_else.prems(6)
        if_then_else(2,5)])
    fix own' rest' f'
    assume own': "at st outer own' False (block_lines yes @ rest') w2 f'" "\<not> ignoring own' False"
      "length own' = Suc (length own)" "list_all was_constant (outer @ own') = (c \<and> cc)"
    have "block_ok H yes \<and> block_nest yes \<le> k"
      using if_then_else.prems(3,4) if_then_else.hyps
      by (cases els) (auto simp: branches_def Let_def split: if_splits)
    then show "reaches H f' (result_at st outer own' rest' (w3, out))"
      using if_then_else(4) [OF own'(1,2)] own'(3,4) if_then_else.prems by simp
  next
    assume "els = None" "\<not> t"
    then have "yes = []" using if_then_else.hyps by (simp add: branches_def Let_def)
    then show "w3 = w2 \<and> out = Normal" using exec_block_Nil if_then_else(3) by fastforce
  qed
next
  case (block_end d k c w)
  then show ?case by (simp add: reaches_now)
next
  case (block_next d k c s w w1 ss out)
  have "reaches H f (at st outer own False (block_lines ss @ rest) w1)"
    using block_next(2) [of st outer own "block_lines ss @ rest" f] block_next.prems by simp
  then show ?case
    by (rule reaches_trans) (use block_next(4) block_next.prems in auto)
next
  case (block_return d k c s w w1 ss)
  have "reaches H f (at st outer own True (block_lines ss @ rest) w1)"
    using block_return(2) [of st outer own "block_lines ss @ rest" f] block_return.prems by simp
  then show ?case
    by (rule reaches_trans)
      (use block_return.prems in \<open>auto intro!: skip_sim(2) simp: ignoring_def simp del: list_all_append\<close>)
next
  case (block_exit d k c s w w1 n ss)
  then show ?case
    using block_exit(2) [of st outer own "block_lines ss @ rest" f] by simp
next
  case (files_end d k c w)
  obtain f' where "PopFile f = (None, f')" "at st outer own False (is_CLine i) w f'"
    by (rule PopFile_return [OF files_end.prems(1)]) (use files_end.prems in auto)
  then show ?case using reaches_pop [OF files_end.prems(1)] by simp
next
  case (files_next d k c p w w1 out1 ps out)
  obtain f' where f': "PopFile f = (None, f')"
      "at (i\<lparr>chain := map block_lines ps\<rparr> # st) (outer @ own) [] False (block_lines p) w f'"
    by (rule PopFile_next [OF files_next.prems(1), of "block_lines p" "map block_lines ps"]) auto
  let ?st = "i\<lparr>chain := map block_lines ps\<rparr> # st"
  have "reaches H f' (result_at ?st (outer @ own) [] [] (w1, out1))"
    using files_next(2) [of ?st "outer @ own" "[]" "[]" f'] f'(2) files_next.prems by (simp add: ignoring_def)
  then have "reaches H f' (\<lambda>g. \<exists>r. at ?st (outer @ own) [] r [] w1 g)"
    by (rule reaches_trans) (use files_next.hyps in \<open>cases out1; auto intro!: reaches_now\<close>)
  then have "reaches H f' (result_at st outer own (is_CLine i) out)"
    by (rule reaches_trans) (use files_next(4) files_next.prems in auto)
  then show ?case by (rule reaches_after_pop [OF files_next.prems(1) f'(1)])
next
  case (files_exit d k c p w w1 n ps)
  obtain f' where f': "PopFile f = (None, f')"
      "at (i\<lparr>chain := map block_lines ps\<rparr> # st) (outer @ own) [] False (block_lines p) w f'"
    by (rule PopFile_next [OF files_exit.prems(1), of "block_lines p" "map block_lines ps"]) auto
  have "reaches H f' (\<lambda>g. exit_status g = Some n \<and> world g = w1)"
    using files_exit(2) [of "i\<lparr>chain := map block_lines ps\<rparr> # st" "outer @ own" "[]" "[]" f'] f'(2) files_exit.prems
    by (simp add: ignoring_def)
  then have "reaches H f' (result_at st outer own (is_CLine i) (w1, Exited n))" by simp
  then show ?case by (rule reaches_after_pop [OF files_exit.prems(1) f'(1)])
qed

section \<open>Every run ends, and with one result\<close>

lemma DoReminders_unique: "DoReminders H f g \<Longrightarrow> DoReminders H f g' \<Longrightarrow> g = g'"
proof (induction arbitrary: g' rule: DoReminders.induct)
  case (exited f)
  from exited(2) show ?case using exited(1) by (cases rule: DoReminders.cases) auto
next
  case (eof f e f')
  from eof(3) show ?case using eof(1,2) by (cases rule: DoReminders.cases) auto
next
  case (line f l f1 f')
  from line(5) show ?case
  proof (cases rule: DoReminders.cases)
    case (line l' f1')
    then show ?thesis using line.IH \<open>ReadLine f = (Inr l, f1)\<close> by auto
  qed (use line(1,2) in auto)
qed

text \<open>What a line does to the files being read: nothing, or one more is opened.\<close>

lemma Eprint_files [simp]:
  "IStack (Eprint H e f) = IStack f" "CLine (Eprint H e f) = CLine f" "exit_status (Eprint H e f) = exit_status f"
  "ifs (Eprint H e f) = ifs f"
  by (simp_all add: Eprint_def)

lemma report_files [simp]:
  "IStack (report H r) = IStack (snd r)" "CLine (report H r) = CLine (snd r)"
  "exit_status (report H r) = exit_status (snd r)" "ifs (report H r) = ifs (snd r)"
  by (cases r; cases "fst r"; simp add: report_def)+

lemma verify_eoln_files [simp]:
  "IStack (snd (verify_eoln H p f)) = IStack f" "CLine (snd (verify_eoln H p f)) = CLine f"
  "exit_status (snd (verify_eoln H p f)) = exit_status f" "ifs (snd (verify_eoln H p f)) = ifs f"
  by (simp_all add: verify_eoln_def split: prod.splits)

lemma push_files [simp]:
  "IStack (push n b c f) = IStack f" "CLine (push n b c f) = CLine f" "exit_status (push n b c f) = exit_status f"
  "ifs (push n b c f) = snd (push_if n b c (ifs f))"
  by (simp_all add: push_def)

lemma IncludeFile_files:
  assumes "IncludeFile H ty s f = (r, f')"
  shows "exit_status f' = exit_status f"
    "IStack f' = IStack f \<and> CLine f' = CLine f \<and>
       (ifs f' = ifs f \<or> ifs f' = (ifs f)\<lparr>return_encountered := False\<rparr>) \<or>
     length (IStack f) < INCLUDE_NEST \<and> ifs f' = set_base_if_pointer (get_if_pointer (ifs f)) (ifs f) \<and>
       (\<exists>i. IStack f' = i # IStack f \<and> is_CLine i = CLine f \<and> base_if_pointer i = base_pointer (ifs f))"
  using assms by (auto simp: IncludeFile_def get_base_if_pointer_def split: if_splits prod.splits open_result.splits)

definition same_files :: "'w script \<Rightarrow> 'w script \<Rightarrow> bool" where
  "same_files f' f \<longleftrightarrow> IStack f' = IStack f \<and> CLine f' = CLine f"

definition if_step :: "if_state \<Rightarrow> if_state \<Rightarrow> bool" where
  "if_step s s' \<longleftrightarrow> s' = s \<or> (\<exists>n b c. s' = snd (push_if n b c s)) \<or> s' = snd (encounter_else s) \<or>
     s' = snd (encounter_endif s) \<or> (\<exists>b. s' = s\<lparr>return_encountered := b\<rparr>)"

lemma if_stepI:
  "if_step s s" "if_step s (snd (push_if n b c s))" "if_step s (snd (encounter_else s))"
  "if_step s (snd (encounter_endif s))" "if_step s (s\<lparr>return_encountered := b1\<rparr>)"
  unfolding if_step_def by blast+

definition files_step :: "'w script \<Rightarrow> 'w script \<Rightarrow> bool" where
  "files_step f f' \<longleftrightarrow>
    same_files f' f \<and> if_step (ifs f) (ifs f') \<or>
    length (IStack f) < INCLUDE_NEST \<and> ifs f' = set_base_if_pointer (get_if_pointer (ifs f)) (ifs f) \<and>
    (\<exists>i. IStack f' = i # IStack f \<and> is_CLine i = CLine f \<and> base_if_pointer i = base_pointer (ifs f))"

lemma files_stepI: "same_files f' f \<Longrightarrow> if_step (ifs f) (ifs f') \<Longrightarrow> files_step f f'"
  by (simp add: files_step_def)

lemma files_step_if:
  "files_step f (snd x) \<Longrightarrow> files_step f (snd y) \<Longrightarrow> files_step f (snd (if b then x else y))"
  by simp

lemma DoIf_files: "files_step f (snd (DoIf H n p f))"
  by (rule files_stepI) (auto simp: DoIf_def same_files_def if_stepI split: prod.splits sum.splits)

lemma DoIfTrig_files: "files_step f (snd (DoIfTrig H n p f))"
  by (rule files_stepI) (auto simp: DoIfTrig_def same_files_def if_stepI split: prod.splits sum.splits)

lemma DoElse_files: "files_step f (snd (DoElse H p f))"
  using if_stepI(3) [of "ifs f"]
  by (intro files_stepI) (auto simp: DoElse_def same_files_def split: prod.splits option.splits)

lemma DoEndif_files: "files_step f (snd (DoEndif H p f))"
  using if_stepI(4) [of "ifs f"]
  by (intro files_stepI) (auto simp: DoEndif_def same_files_def split: prod.splits option.splits)

lemma DoReturn_files: "files_step f (snd (DoReturn H p f))"
  by (rule files_stepI) (auto simp: DoReturn_def verify_eoln_def same_files_def if_stepI split: prod.splits)

lemma other_files: "files_step f (snd (other_command H tok l p f))"
  by (rule files_stepI) (auto simp: other_command_def same_files_def if_stepI(1) split: prod.splits)

lemma DoExit_files: "files_step f (snd (None, DoExit H p f))"
  by (rule files_stepI) (auto simp: DoExit_def same_files_def if_stepI(1) split: prod.splits)

lemma DoInclude_files: "files_step f (snd (DoInclude H ty p f))"
proof (cases "h_name H ty p (world f)")
  case (Pair r w)
  show ?thesis
  proof (cases r)
    case (Inl e)
    then show ?thesis using Pair by (intro files_stepI) (simp_all add: DoInclude_def same_files_def if_stepI)
  next
    case (Inr s)
    obtain r f' where "IncludeFile H ty s (f\<lparr>world := w\<rparr>) = (r, f')" by (cases "IncludeFile H ty s (f\<lparr>world := w\<rparr>)")
    from IncludeFile_files(2) [OF this] this show ?thesis
      using Pair Inr by (auto simp: DoInclude_def files_step_def same_files_def if_stepI)
  qed
qed

lemma do_line_files: "files_step f (do_line H l f)"
proof -
  define r where "r =
    (if kind H l = T_If then DoIf H (LineNo l) (args H l) f
     else if kind H l = T_Return then DoReturn H (args H l) f
     else if kind H l = T_IfTrig then DoIfTrig H (LineNo l) (args H l) f
     else if kind H l = T_Else then DoElse H (args H l) f
     else if kind H l = T_EndIf then DoEndif H (args H l) f
     else if kind H l \<in> {T_Include, T_IncludeR, T_IncludeSys, T_IncludeCmd} then DoInclude H (kind H l) (args H l) f
     else if kind H l = T_Exit then (None, DoExit H (args H l) f)
     else other_command H (fst (FindInitialToken (h_seps H) (cl_text l))) (cl_text l) (args H l) f)"
  have line: "do_line H l f = (if \<not> reads_when_ignored (kind H l) \<and> should_ignore_line (ifs f) then f else report H r)"
    by (simp only: do_line_kind Let_def r_def)
  have "files_step f (snd r)"
    unfolding r_def by (intro files_step_if DoIf_files DoIfTrig_files DoElse_files DoEndif_files DoReturn_files
      DoInclude_files DoExit_files other_files)
  then show ?thesis by (auto simp: line files_step_def same_files_def if_stepI(1))
qed

definition ends :: "'w hooks \<Rightarrow> 'w script \<Rightarrow> bool" where
  "ends H f \<longleftrightarrow> (\<exists>g. DoReminders H f g)"

lemma ends_leads: "leads H f f' \<Longrightarrow> ends H f' \<Longrightarrow> ends H f"
  by (auto simp: leads_def ends_def)

lemma ends_exited: "exit_status f \<noteq> None \<Longrightarrow> ends H f"
  by (auto simp: ends_def intro: DoReminders.exited)

lemma ends_line:
  assumes "CLine f = l # ls" "ends H (do_line H l (f\<lparr>CLine := ls\<rparr>))"
  shows "ends H f"
  using assms by (cases "exit_status f") (auto intro: ends_exited ends_leads leads_line)

lemma ends_pop:
  assumes "CLine f = []" "\<And>f'. PopFile f = (None, f') \<Longrightarrow> ends H f'"
  shows "ends H f"
proof (cases "exit_status f")
  case None
  show ?thesis
  proof (cases "PopFile f")
    case (Pair r f')
    show ?thesis
    proof (cases r)
      case (Some e)
      then show ?thesis using assms(1) None Pair
        by (auto simp: ends_def ReadLine.simps [of f] intro!: exI DoReminders.eof)
    qed (use assms None Pair in \<open>auto intro: ends_leads leads_pop\<close>)
  qed
qed (simp add: ends_exited)

text \<open>
  While the lines and files of one level are read, files of the levels above may be, of which
  there are \<open>n\<close> more.
\<close>

lemma level_ends:
  assumes "INCLUDE_NEST \<le> n + Suc (length st)"
    "\<And>f. st \<noteq> [] \<Longrightarrow> IStack f = st \<Longrightarrow> CLine f = is_CLine i \<Longrightarrow> ends H f"
    "IStack f = i # st"
  shows "ends H f"
  using assms
proof (induction n arbitrary: st i f rule: less_induct)
  case (less n)
  note level = less.IH
  from less.prems show ?case
  proof (induction "(length (chain i), length (CLine f))" arbitrary: i f
      rule: wf_induct_rule [OF wf_lex_prod [OF wf_less_than wf_less_than]])
    case (1 i f)
    show ?case
    proof (cases "CLine f")
      case Nil
      show ?thesis
      proof (rule ends_pop [OF Nil])
        fix f'
        assume "PopFile f = (None, f')"
        then consider (again) l later where "chain i = l # later" "IStack f' = i\<lparr>chain := later\<rparr> # st"
          | (return) "st \<noteq> []" "IStack f' = st" "CLine f' = is_CLine i"
          using 1(4) by (auto simp: PopFile_def TopLevel_def Let_def split: list.splits if_splits)
        then show "ends H f'"
        proof cases
          case again
          then show ?thesis using 1(1) [of "i\<lparr>chain := later\<rparr>" f'] 1(2,3) by simp
        qed (use 1(3) in blast)
      qed
    next
      case (Cons l ls)
      let ?f = "f\<lparr>CLine := ls\<rparr>"
      have rest: "ends H g" if "IStack g = i # st" "CLine g = ls" for g
        using that 1(1) [of i g] 1(2,3) Cons by simp
      show ?thesis
      proof (rule ends_line [OF Cons])
        consider (same) "same_files (do_line H l ?f) ?f"
          | (deeper) j where "IStack (do_line H l ?f) = j # i # st" "is_CLine j = ls" "Suc (length st) < INCLUDE_NEST"
          using do_line_files [of ?f H l] 1(4) by (auto simp: files_step_def)
        then show "ends H (do_line H l ?f)"
        proof cases
          case same
          then show ?thesis using rest 1(4) by (simp add: same_files_def)
        next
          case deeper
          then have "n - 1 < n" "INCLUDE_NEST \<le> n - 1 + Suc (length (i # st))" using 1(2) by auto
          from level [OF this, of j] show ?thesis using deeper rest by simp
        qed
      qed
    qed
  qed
qed

lemma all_end: "ends H f"
proof (induction "IStack f" arbitrary: f)
  case Nil
  then show ?case
  proof (induction "CLine f" arbitrary: f)
    case Nil
    then have "CLine f = []" "IStack f = []" by simp_all
    then show ?case using ends_pop [of f H] by (simp add: PopFile_def)
  next
    case (Cons l ls)
    show ?case
    proof (rule ends_line [OF Cons(2) [symmetric]])
      consider (same) "same_files (do_line H l (f\<lparr>CLine := ls\<rparr>)) (f\<lparr>CLine := ls\<rparr>)"
        | (deeper) j where "IStack (do_line H l (f\<lparr>CLine := ls\<rparr>)) = [j]"
        using do_line_files [of "f\<lparr>CLine := ls\<rparr>" H l] Cons(3) by (auto simp: files_step_def)
      then show "ends H (do_line H l (f\<lparr>CLine := ls\<rparr>))"
      proof cases
        case same
        then show ?thesis using Cons(1,3) by (simp add: same_files_def)
      next
        case deeper
        show ?thesis by (rule level_ends [of INCLUDE_NEST "[]" j]) (use deeper in simp_all)
      qed
    qed
  qed
next
  case (Cons i st)
  show ?case by (rule level_ends [of INCLUDE_NEST st i]) (use Cons in auto)
qed

section \<open>The state of a script\<close>

text \<open>
  The array and the stack are never read or written beyond their ends, and the files that wait
  keep the IFs they had.
\<close>

definition script_ok :: "'w script \<Rightarrow> bool" where
  "script_ok f \<longleftrightarrow> if_ok (ifs f) \<and> length (IStack f) \<le> INCLUDE_NEST \<and>
    sorted_wrt (\<ge>) (base_pointer (ifs f) # map base_if_pointer (IStack f))"

lemma if_step_ok:
  assumes "if_step s s'" "if_ok s"
  shows "if_ok s' \<and> base_pointer s' = base_pointer s \<and> outer_ifs s' = outer_ifs s"
  using assms
  by (auto simp: if_step_def if_ok_def push_if_def encounter_else_def encounter_endif_def outer_ifs_def
      list_update_beyond take_update_swap split: if_splits)

lemma files_step_ok: "files_step f f' \<Longrightarrow> script_ok f \<Longrightarrow> script_ok f'"
  using if_step_ok [of "ifs f" "ifs f'"]
  by (auto simp: files_step_def same_files_def script_ok_def if_ok_def set_base_if_pointer_def get_if_pointer_def)
    (meson order_trans)

lemma PopFile_ok: "script_ok f \<Longrightarrow> script_ok (snd (PopFile f))"
  by (auto simp: PopFile_def script_ok_def if_ok_def pop_excess_ifs_def set_base_if_pointer_def Let_def
      split: list.splits)

lemma ReadLine_ok: "script_ok f \<Longrightarrow> script_ok (snd (ReadLine f))"
proof (induction f rule: ReadLine.induct)
  case (1 f)
  show ?case
  proof (cases "CLine f")
    case Nil
    obtain r f' where pop: "PopFile f = (r, f')" by (cases "PopFile f")
    then have "script_ok f'" using PopFile_ok [OF "1.prems"] by simp
    then show ?thesis
      using 1 Nil pop by (cases r) (auto simp: ReadLine.simps [of f])
  next
    case (Cons l ls)
    then show ?thesis using "1.prems" by (simp add: ReadLine.simps [of f] script_ok_def)
  qed
qed

definition start :: "CachedLine list \<Rightarrow> 'w \<Rightarrow> 'w script" where
  "start ls w =
    \<lparr>ifs = if_init, IStack = [\<lparr>base_if_pointer = 0, is_CLine = [], chain = []\<rparr>], CLine = ls,
     exit_status = None, world = w\<rparr>"

lemma start_ok: "script_ok (start ls w)"
  by (simp add: start_def script_ok_def if_ok_init INCLUDE_NEST_def if_init_def [THEN arg_cong [of _ _ base_pointer]])

lemma start_at: "at [\<lparr>base_if_pointer = 0, is_CLine = [], chain = []\<rparr>] [] [] False ls w (start ls w)"
  using if_ok_init by (simp add: at_def start_def if_view_def outer_ifs_def own_ifs_def) (simp add: if_init_def)

text \<open>
  C3. A script whose IFs are properly nested, with its files, to at most 64 levels (and whose
  ELSE and ENDIF lines have nothing behind the command) is run as the program it is: commands in
  the branches that are taken are carried out in their order, and the loop over the lines ends
  with the result of the program.
\<close>

theorem script_runs_program:
  assumes "exec_block H 1 IF_NEST True p w (w', out)" "block_ok H p" "block_nest p \<le> IF_NEST"
  shows "\<exists>g. (\<forall>g'. DoReminders H (start (block_lines p) w) g' \<longleftrightarrow> g' = g) \<and> world g = w' \<and>
    exit_status g = (case out of Exited n \<Rightarrow> Some n | _ \<Rightarrow> None)"
proof -
  let ?st = "[\<lparr>base_if_pointer = 0, is_CLine = [], chain = []\<rparr>]"
  have "reaches H (start (block_lines p) w) (result_at ?st [] [] [] (w', out))"
    by (rule exec_sim(2) [OF assms(1)]) (use assms start_at in \<open>auto simp: ignoring_def\<close>)
  then obtain f where f: "leads H (start (block_lines p) w) f" "result_at ?st [] [] [] (w', out) f"
    by (auto simp: reaches_def)
  obtain g where g: "DoReminders H f g" "world g = w'" "exit_status g = (case out of Exited n \<Rightarrow> Some n | _ \<Rightarrow> None)"
  proof (cases "\<exists>n. out = Exited n")
    case True
    then have "exit_status f = (case out of Exited n \<Rightarrow> Some n | _ \<Rightarrow> None)" "world f = w'" "exit_status f \<noteq> None"
      using f(2) by auto
    then show ?thesis using that DoReminders.exited [of f H] by blast
  next
    case False
    then obtain r where at: "at ?st [] [] r [] w' f" using f(2) by (cases out) auto
    then have "ReadLine f = (Inl E_EOF, snd (PopFile f))" "world (snd (PopFile f)) = w'"
        "exit_status (snd (PopFile f)) = None"
      by (auto simp: ReadLine.simps [of f] at_def PopFile_def TopLevel_def Let_def)
    then show ?thesis using that DoReminders.eof [of f E_EOF] at False by (cases out) (auto simp: at_def)
  qed
  then show ?thesis using f(1) DoReminders_unique [of H "start (block_lines p) w"] unfolding leads_def by blast
qed

definition sample_hooks :: "string list hooks" where
  "sample_hooks =
    \<lparr>h_seps = default_seps,
     EvaluateExpr = \<lambda>p w. (Inr (IntV (if pos p = '' 1'' then 1 else 0)), p, w),
     h_eoln = \<lambda>p w. (None, w), h_iftrig = \<lambda>p w. (Inr False, w),
     h_name = \<lambda>ty p w. (Inl E_EOLN, w), h_open = \<lambda>ty s w. (NotOpened E_NO_MATCHING_REMS, w),
     h_command = \<lambda>tok ignore const line p w. (None, w @ [line]), h_print = \<lambda>e w. w, PurgeMode = False, Hush = False\<rparr>"

definition text_line :: "nat \<Rightarrow> string \<Rightarrow> CachedLine" where
  "text_line n s = \<lparr>cl_text = s, LineNo = n\<rparr>"

definition sample_program :: "stmt list" where
  "sample_program =
    [If (text_line 1 ''IF 0'') [Cmd (text_line 2 ''MSG a'')]
       (Some (text_line 3 ''ELSE'', [Cmd (text_line 4 ''MSG b'')])) (text_line 5 ''ENDIF''),
     Cmd (text_line 6 ''MSG c'')]"

lemma words: "FindToken default_seps ''IF'' = (T_If, 0)" "FindToken default_seps ''ELSE'' = (T_Else, 0)"
  "FindToken default_seps ''ENDIF'' = (T_EndIf, 0)" "FindToken default_seps ''MSG'' = (T_RemType, MSG_TYPE)"
  by (subst FindToken_lookup; simp add: lookup_token_def TokArray_def qualifies_def canon_def
      ctype_defs cstring_def tok_entry_def char_of_eq_iff)+

lemma sample_kinds:
  "kind sample_hooks (text_line n ''IF 0'') = T_If" "kind sample_hooks (text_line n ''ELSE'') = T_Else"
  "kind sample_hooks (text_line n ''ENDIF'') = T_EndIf"
  "kind sample_hooks (text_line n ''MSG a'') = T_RemType" "kind sample_hooks (text_line n ''MSG b'') = T_RemType"
  "kind sample_hooks (text_line n ''MSG c'') = T_RemType"
  by (simp_all add: kind_def sample_hooks_def text_line_def FindInitialToken_def isempty_def isspace_def words)

lemma sample_condition: "condition sample_hooks (text_line n ''IF 0'') w = Some ((False, True), w)"
  by (simp add: condition_def sample_kinds)
    (simp add: sample_hooks_def text_line_def args_def FindInitialToken_def isempty_def isspace_def
      CreateParser_def truthy_def)

lemma sample_command:
  "h_command sample_hooks tok ign const line p w = (None, w @ [line])"
  by (simp add: sample_hooks_def)

lemma sample_msg:
  assumes "kind sample_hooks (text_line n s) = T_RemType"
  shows "exec_stmt sample_hooks d k c (Cmd (text_line n s)) w (w @ [s], Normal)"
proof -
  have "exec_stmt sample_hooks d k c (Cmd (text_line n s)) w (print sample_hooks None (w @ [s]), Normal)"
    by (rule exec_stmt_exec_block_exec_files.command)
      (use assms in \<open>simp_all add: sample_command\<close>, simp add: text_line_def)
  then show ?thesis by (simp add: print_def)
qed

lemma sample_exec: "exec_block sample_hooks 1 IF_NEST True sample_program [] ([''MSG b'', ''MSG c''], Normal)"
proof -
  have "exec_block sample_hooks 1 63 True [Cmd (text_line 4 ''MSG b'')] [] ([] @ [''MSG b''], Normal)"
    by (rule block_next [OF sample_msg block_end]) (simp add: sample_kinds)
  then have "exec_stmt sample_hooks 1 (Suc 63) True (hd sample_program) [] ([''MSG b''], Normal)"
    unfolding sample_program_def list.sel
    by (intro if_then_else [OF sample_condition, where yes = "[Cmd (text_line 4 ''MSG b'')]"
          and no = "[Cmd (text_line 2 ''MSG a'')]" and out = Normal])
      (simp_all add: branches_def sample_kinds)
  from block_next [OF this block_next [OF sample_msg [where n = 6 and s = "''MSG c''"] block_end]]
  show ?thesis by (simp add: sample_program_def sample_kinds IF_NEST_def)
qed

theorem script_runs_program_witness:
  "\<exists>g. (\<forall>g'. DoReminders sample_hooks (start (block_lines sample_program) []) g' \<longleftrightarrow> g' = g) \<and>
    world g = [''MSG b'', ''MSG c''] \<and> exit_status g = None"
proof -
  have "block_ok sample_hooks sample_program" "block_nest sample_program \<le> IF_NEST"
    by (simp_all add: sample_program_def sample_kinds bare_def IF_NEST_def) (simp add: sample_hooks_def)
  from script_runs_program [OF sample_exec this] show ?thesis by simp
qed

text \<open>
  C4. Every script ends, however its IFs are nested and whatever files its INCLUDE commands open,
  also files that include themselves, and with one result.
\<close>

theorem DoReminders_ends: "\<exists>!g. DoReminders H f g"
  using all_end [of H f] DoReminders_unique unfolding ends_def by blast

text \<open>
  C8. The array of open IFs and the stack of files are never exceeded while a script is read, and
  what a line does to the IFs of a file leaves those of the files that include it alone.
\<close>

theorem script_state_safe:
  assumes "script_ok f"
  shows "script_ok (do_line H l f) \<and> script_ok (snd (ReadLine f)) \<and>
    if_pointer (ifs f) \<le> length (IfArray (ifs f)) \<and>
    (length (IStack (do_line H l f)) = length (IStack f) \<longrightarrow> outer_ifs (ifs (do_line H l f)) = outer_ifs (ifs f))"
proof (intro conjI impI)
  show "script_ok (do_line H l f)" by (rule files_step_ok [OF do_line_files assms])
  show "script_ok (snd (ReadLine f))" by (rule ReadLine_ok [OF assms])
  show "if_pointer (ifs f) \<le> length (IfArray (ifs f))" using assms by (simp add: script_ok_def if_ok_def)
  assume "length (IStack (do_line H l f)) = length (IStack f)"
  then have "if_step (ifs f) (ifs (do_line H l f))"
    using do_line_files [of f H l] by (auto simp: files_step_def)
  from if_step_ok [OF this] assms show "outer_ifs (ifs (do_line H l f)) = outer_ifs (ifs f)"
    by (simp add: script_ok_def)
qed

theorem script_state_safe_witness:
  "script_ok (do_line sample_hooks (text_line 1 ''IF 0'') (start [] []))"
  using script_state_safe [OF start_ok, of sample_hooks "text_line 1 ''IF 0''"] by blast

end
