(* ===== verification/HashTab.thy ===== *)
theory HashTab
  imports Prelude "HOL-Library.Multiset" "HOL-Library.Word"
begin

text \<open>
  The hash tables of \<^verbatim>\<open>src/src/hashtab.c\<close>: an array of buckets, each the head of a list that is
  linked through the items.  Items are addresses, of any type \<open>'p\<close>; the null pointer is \<open>None\<close>.
  The links are in a memory of their own, as the offset of the link in an item is the same
  throughout.  Whether \<open>malloc\<close> succeeds is an argument.
\<close>

section \<open>Tables\<close>

record 'p hash_link =
  link_next :: "'p option"
  hashval :: "32 word"

type_synonym 'p links = "'p \<Rightarrow> 'p hash_link"

record 'p hash_table =
  bucket_choice_index :: nat
  num_growths :: "64 word"
  num_shrinks :: "64 word"
  num_entries :: "64 word"
  buckets :: "'p option list"

definition bucket_choices :: "nat list" where
  "bucket_choices =
    [7, 17, 37, 79, 163, 331, 673, 1361, 2729, 5471, 10949, 21911, 43853, 87719,
     175447, 350899, 701819, 1403641, 2807303, 5614657, 11229331, 22458671,
     44917381, 89834777, 179669557, 359339171, 718678369, 1437356741]"

definition NUM_BUCKET_CHOICES :: nat where
  "NUM_BUCKET_CHOICES = length bucket_choices"

definition NUM_BUCKETS :: "'p hash_table \<Rightarrow> nat" where
  "NUM_BUCKETS t = bucket_choices ! bucket_choice_index t"

definition hash_table_init :: "bool \<Rightarrow> int \<times> 'p hash_table" where
  "hash_table_init mem =
    (if mem then 0 else -1,
     \<lparr>bucket_choice_index = 0, num_growths = 0, num_shrinks = 0, num_entries = 0,
      buckets = if mem then replicate (bucket_choices ! 0) None else []\<rparr>)"

text \<open>The index is an \<open>unsigned int\<close>: \<open>-1\<close> is its largest value.\<close>

definition hash_table_free :: "'p hash_table \<Rightarrow> 'p hash_table" where
  "hash_table_free t = t\<lparr>buckets := [], bucket_choice_index := 2 ^ 32 - 1, num_entries := 0\<rparr>"

definition hash_table_num_entries :: "'p hash_table \<Rightarrow> 64 word" where
  "hash_table_num_entries t = num_entries t"

definition hash_table_num_buckets :: "'p hash_table \<Rightarrow> nat" where
  "hash_table_num_buckets t = (if bucket_choice_index t \<ge> NUM_BUCKET_CHOICES then 0 else NUM_BUCKETS t)"

text \<open>The loops follow the links; on a list that is a cycle they would not end.\<close>

partial_function (option) chain_len_loop :: "'p links \<Rightarrow> 'p option \<Rightarrow> 64 word \<Rightarrow> 64 word option" where
  "chain_len_loop h ptr len =
    (case ptr of
       None \<Rightarrow> Some len
     | Some p \<Rightarrow> chain_len_loop h (link_next (h p)) (len + 1))"

definition hash_table_chain_len :: "'p hash_table \<Rightarrow> 'p links \<Rightarrow> nat \<Rightarrow> 64 word option" where
  "hash_table_chain_len t h i =
    (if i \<ge> hash_table_num_buckets t then Some (-1) else chain_len_loop h (buckets t ! i) 0)"

partial_function (option) move_chain ::
    "nat \<Rightarrow> 'p option \<Rightarrow> 'p links \<Rightarrow> 'p option list \<Rightarrow> ('p links \<times> 'p option list) option" where
  "move_chain n p h new =
    (case p of
       None \<Rightarrow> Some (h, new)
     | Some q \<Rightarrow>
         let l = h q; nxt = link_next l; j = unat (hashval l) mod n in
         move_chain n nxt (h(q := l\<lparr>link_next := new ! j\<rparr>)) (new[j := p]))"

fun move_chains :: "nat \<Rightarrow> 'p option list \<Rightarrow> 'p links \<Rightarrow> 'p option list \<Rightarrow> ('p links \<times> 'p option list) option" where
  "move_chains n [] h new = Some (h, new)"
| "move_chains n (b # bs) h new =
    (case move_chain n b h new of None \<Rightarrow> None | Some (h, new) \<Rightarrow> move_chains n bs h new)"

definition hash_table_resize ::
    "bool \<Rightarrow> int \<Rightarrow> 'p hash_table \<Rightarrow> 'p links \<Rightarrow> ('p hash_table \<times> 'p links) option" where
  "hash_table_resize mem dir t h =
    (if dir \<noteq> 1 \<and> dir \<noteq> -1 then Some (t, h)
     else if dir = -1 \<and> bucket_choice_index t = 0
           \<or> dir = 1 \<and> bucket_choice_index t = NUM_BUCKET_CHOICES - 1 then Some (t, h)
     else if \<not> mem then Some (t, h)
     else
       let i = nat (int (bucket_choice_index t) + dir); n = bucket_choices ! i;
           t = (if dir = 1 then t\<lparr>num_growths := num_growths t + 1\<rparr> else t\<lparr>num_shrinks := num_shrinks t + 1\<rparr>) in
       (case move_chains n (buckets t) h (replicate n None) of
          None \<Rightarrow> None
        | Some (h, new) \<Rightarrow> Some (t\<lparr>buckets := new, bucket_choice_index := i\<rparr>, h)))"

text \<open>The result is the code's return value and the new state; a resize always returns 0.\<close>

definition hash_table_insert ::
    "('p \<Rightarrow> 32 word) \<Rightarrow> bool \<Rightarrow> 'p option \<Rightarrow> 'p hash_table \<Rightarrow> 'p links \<Rightarrow> (int \<times> 'p hash_table \<times> 'p links) option" where
  "hash_table_insert hashfunc mem item t h =
    (case item of
       None \<Rightarrow> Some (-1, t, h)
     | Some x \<Rightarrow>
         let v = hashfunc x; j = unat v mod NUM_BUCKETS t;
             h = h(x := \<lparr>link_next = buckets t ! j, hashval = v\<rparr>);
             t = t\<lparr>buckets := (buckets t)[j := item], num_entries := num_entries t + 1\<rparr> in
         if bucket_choice_index t < NUM_BUCKET_CHOICES - 1 \<and> num_entries t > 2 * of_nat (NUM_BUCKETS t)
         then map_option (\<lambda>(t, h). (0, t, h)) (hash_table_resize mem 1 t h)
         else Some (0, t, h))"

partial_function (option) find_loop :: "('p \<Rightarrow> 'p \<Rightarrow> int) \<Rightarrow> 'p links \<Rightarrow> 'p \<Rightarrow> 'p option \<Rightarrow> 'p option option" where
  "find_loop compare h c ptr =
    (case ptr of
       None \<Rightarrow> Some None
     | Some p \<Rightarrow> if compare c p = 0 then Some ptr else find_loop compare h c (link_next (h p)))"

definition hash_table_find ::
    "('p \<Rightarrow> 32 word) \<Rightarrow> ('p \<Rightarrow> 'p \<Rightarrow> int) \<Rightarrow> 'p option \<Rightarrow> 'p hash_table \<Rightarrow> 'p links \<Rightarrow> 'p option option" where
  "hash_table_find hashfunc compare candidate t h =
    (case candidate of
       None \<Rightarrow> Some None
     | Some c \<Rightarrow> find_loop compare h c (buckets t ! (unat (hashfunc c) mod NUM_BUCKETS t)))"

text \<open>The item before \<open>x\<close> in its chain.\<close>

partial_function (option) before_loop :: "'p links \<Rightarrow> 'p \<Rightarrow> 'p option \<Rightarrow> 'p option option" where
  "before_loop h x ptr =
    (case ptr of
       None \<Rightarrow> Some None
     | Some p \<Rightarrow> if link_next (h p) = Some x then Some ptr else before_loop h x (link_next (h p)))"

definition shrink ::
    "bool \<Rightarrow> bool \<Rightarrow> 'p hash_table \<Rightarrow> 'p links \<Rightarrow> (int \<times> 'p hash_table \<times> 'p links) option" where
  "shrink resize_ok mem t h =
    (if resize_ok \<and> bucket_choice_index t > 0 \<and> num_entries t < of_nat (NUM_BUCKETS t div 2)
     then map_option (\<lambda>(t, h). (0, t, h)) (hash_table_resize mem (-1) t h)
     else Some (0, t, h))"

definition hash_table_delete_helper ::
    "bool \<Rightarrow> bool \<Rightarrow> 'p option \<Rightarrow> 'p hash_table \<Rightarrow> 'p links \<Rightarrow> (int \<times> 'p hash_table \<times> 'p links) option" where
  "hash_table_delete_helper resize_ok mem item t h =
    (case item of
       None \<Rightarrow> Some (-1, t, h)
     | Some x \<Rightarrow>
         let l = h x; j = unat (hashval l) mod NUM_BUCKETS t in
         if buckets t ! j = item then
           shrink resize_ok mem (t\<lparr>buckets := (buckets t)[j := link_next l], num_entries := num_entries t - 1\<rparr>) h
         else
           (case before_loop h x (buckets t ! j) of
              None \<Rightarrow> None
            | Some None \<Rightarrow> Some (-1, t, h)
            | Some (Some p) \<Rightarrow>
                shrink resize_ok mem (t\<lparr>num_entries := num_entries t - 1\<rparr>) (h(p := (h p)\<lparr>link_next := link_next l\<rparr>))))"

definition hash_table_delete ::
    "bool \<Rightarrow> 'p option \<Rightarrow> 'p hash_table \<Rightarrow> 'p links \<Rightarrow> (int \<times> 'p hash_table \<times> 'p links) option" where
  "hash_table_delete mem item t h = hash_table_delete_helper True mem item t h"

definition hash_table_delete_no_resize ::
    "bool \<Rightarrow> 'p option \<Rightarrow> 'p hash_table \<Rightarrow> 'p links \<Rightarrow> (int \<times> 'p hash_table \<times> 'p links) option" where
  "hash_table_delete_no_resize mem item t h = hash_table_delete_helper False mem item t h"

definition hash_table_next :: "'p hash_table \<Rightarrow> 'p links \<Rightarrow> 'p option \<Rightarrow> 'p option" where
  "hash_table_next t h cur =
    (let n = NUM_BUCKETS t;
         from = (\<lambda>i. case List.find (\<lambda>b. b \<noteq> None) (drop i (take n (buckets t))) of None \<Rightarrow> None | Some b \<Rightarrow> b) in
     case cur of
       None \<Rightarrow> from 0
     | Some p \<Rightarrow>
         let l = h p in
         if link_next l \<noteq> None then link_next l else from (unat (hashval l) mod n + 1))"

text \<open>The items \<open>hash_table_for_each\<close> visits, in order.\<close>

partial_function (option) hash_table_for_each :: "'p hash_table \<Rightarrow> 'p links \<Rightarrow> 'p option \<Rightarrow> 'p list option" where
  "hash_table_for_each t h cur =
    (case hash_table_next t h cur of
       None \<Rightarrow> Some []
     | Some p \<Rightarrow> Option.bind (hash_table_for_each t h (Some p)) (\<lambda>ps. Some (p # ps)))"

section \<open>Chains\<close>

fun chain :: "'p links \<Rightarrow> 'p option \<Rightarrow> 'p list \<Rightarrow> bool" where
  "chain h p [] \<longleftrightarrow> p = None"
| "chain h p (x # xs) \<longleftrightarrow> p = Some x \<and> chain h (link_next (h x)) xs"

lemma chain_cong: "(\<And>x. x \<in> set xs \<Longrightarrow> link_next (h' x) = link_next (h x)) \<Longrightarrow> chain h' p xs = chain h p xs"
  by (induction xs arbitrary: p) auto

lemma chain_update [simp]: "x \<notin> set xs \<Longrightarrow> chain (h(x := l)) p xs = chain h p xs"
  by (rule chain_cong) auto

lemma chain_unique: "chain h p xs \<Longrightarrow> chain h p ys \<Longrightarrow> xs = ys"
proof (induction xs arbitrary: p ys)
  case Nil
  then show ?case by (cases ys) auto
next
  case (Cons x xs)
  then show ?case by (cases ys) auto
qed

lemma chain_Some: "chain h (Some x) xs \<Longrightarrow> \<exists>ys. xs = x # ys \<and> chain h (link_next (h x)) ys"
  by (cases xs) auto

text \<open>The chains of a table.  An update of one chain, and of one item's link, leaves the others alone.\<close>

definition chains :: "'p links \<Rightarrow> 'p option list \<Rightarrow> 'p list list \<Rightarrow> bool" where
  "chains h bs cs \<longleftrightarrow> list_all2 (chain h) bs cs"

lemma chains_length: "chains h bs cs \<Longrightarrow> length bs = length cs"
  by (simp add: chains_def list_all2_lengthD)

lemma chains_nth: "chains h bs cs \<Longrightarrow> j < length cs \<Longrightarrow> chain h (bs ! j) (cs ! j)"
  by (simp add: chains_def list_all2_conv_all_nth)

lemma chains_unique:
  assumes "chains h bs cs" "chains h bs ds"
  shows "cs = ds"
proof (rule nth_equalityI)
  show "length cs = length ds" using assms [THEN chains_length] by simp
  then show "\<And>i. i < length cs \<Longrightarrow> cs ! i = ds ! i"
    using chains_nth [OF assms(1)] chains_nth [OF assms(2)] by (metis chain_unique)
qed

lemma chains_None: "chains h (replicate n None) (replicate n [])"
  by (simp add: chains_def list_all2_conv_all_nth)

lemma chains_cong:
  assumes "chains h bs cs" "\<And>x. x \<in> set (concat cs) \<Longrightarrow> link_next (h' x) = link_next (h x)"
  shows "chains h' bs cs"
  unfolding chains_def list_all2_conv_all_nth
proof (intro conjI allI impI)
  fix j
  assume "j < length bs"
  then have j: "j < length cs" using chains_length [OF assms(1)] by simp
  then have "chain h' (bs ! j) (cs ! j) = chain h (bs ! j) (cs ! j)"
    by (intro chain_cong assms(2)) (auto intro: bexI [OF _ nth_mem [OF j]])
  then show "chain h' (bs ! j) (cs ! j)" using chains_nth [OF assms(1) j] by simp
qed (rule chains_length [OF assms(1)])

lemma chains_update:
  "chains h bs cs \<Longrightarrow> chain h p ys \<Longrightarrow> chains h (bs[j := p]) (cs[j := ys])"
  by (simp add: chains_def list_all2_conv_all_nth) (metis nth_list_update_eq nth_list_update_neq)

lemma distinct_concat_nth:
  "distinct (concat cs) \<Longrightarrow> k < length cs \<Longrightarrow> j < length cs \<Longrightarrow> k \<noteq> j \<Longrightarrow> set (cs ! k) \<inter> set (cs ! j) = {}"
proof (induction cs arbitrary: k j)
  case (Cons c cs)
  have "set c \<inter> set (cs ! i) = {}" if "i < length cs" for i
    using Cons.prems(1) nth_mem [OF that] by auto
  with Cons show ?case by (cases k; cases j) auto
qed simp

lemma chains_update_in:
  assumes "j < length cs" "chains h bs cs" "chain h' p ys" "\<And>y. y \<notin> set (cs ! j) \<Longrightarrow> h' y = h y" "distinct (concat cs)"
  shows "chains h' (bs[j := p]) (cs[j := ys])"
  unfolding chains_def list_all2_conv_all_nth
proof (intro conjI allI impI)
  show len: "length (bs[j := p]) = length (cs[j := ys])" using chains_length [OF assms(2)] by simp
  fix k
  assume k: "k < length (bs[j := p])"
  show "chain h' (bs[j := p] ! k) (cs[j := ys] ! k)"
  proof (cases "k = j")
    case True
    then show ?thesis using assms(3) k len by simp
  next
    case False
    have k': "k < length cs" using k len by simp
    have "x \<in> set (cs ! k) \<Longrightarrow> h' x = h x" for x
      using distinct_concat_nth [OF assms(5) k' assms(1) False] assms(4) by auto
    then have "chain h' (bs ! k) (cs ! k) = chain h (bs ! k) (cs ! k)" by (intro chain_cong) simp
    then show ?thesis using False chains_nth [OF assms(2) k'] by simp
  qed
qed

lemma mset_concat_update:
  "j < length cs \<Longrightarrow> mset (concat (cs[j := ys])) + mset (cs ! j) = mset (concat cs) + mset ys"
proof (induction cs arbitrary: j)
  case (Cons c cs)
  then show ?case by (cases j) (simp_all add: add_ac)
qed simp

lemma distinct_mset: "mset xs = mset ys \<Longrightarrow> distinct xs = distinct ys"
  by (rule mset_eq_imp_distinct_iff)

section \<open>Moving to new buckets\<close>

definition place :: "nat \<Rightarrow> ('p \<Rightarrow> 32 word) \<Rightarrow> 'p \<Rightarrow> 'p list list \<Rightarrow> 'p list list" where
  "place n hv x ds = (let j = unat (hv x) mod n in ds[j := x # ds ! j])"

definition sorted_in :: "nat \<Rightarrow> ('p \<Rightarrow> 32 word) \<Rightarrow> 'p list list \<Rightarrow> bool" where
  "sorted_in n hv cs \<longleftrightarrow> (\<forall>j<length cs. \<forall>x\<in>set (cs ! j). unat (hv x) mod n = j)"

lemma length_place [simp]: "length (place n hv x ds) = length ds"
  by (simp add: place_def Let_def)

lemma mset_place: "0 < n \<Longrightarrow> length ds = n \<Longrightarrow> mset (concat (place n hv x ds)) = add_mset x (mset (concat ds))"
  using mset_concat_update [of "unat (hv x) mod n" ds "x # ds ! (unat (hv x) mod n)"]
  by (simp add: place_def Let_def)

lemma sorted_place:
  assumes "sorted_in n hv ds"
  shows "sorted_in n hv (place n hv x ds)"
  unfolding sorted_in_def
proof (intro allI impI ballI)
  fix j y
  assume j: "j < length (place n hv x ds)" and y: "y \<in> set (place n hv x ds ! j)"
  show "unat (hv y) mod n = j"
    using assms j y by (cases "unat (hv x) mod n = j") (auto simp: sorted_in_def place_def Let_def)
qed

lemma fold_place:
  assumes "0 < n" "length ds = n"
  shows "length (fold (place n hv) xs ds) = n" "mset (concat (fold (place n hv) xs ds)) = mset xs + mset (concat ds)"
    "sorted_in n hv ds \<Longrightarrow> sorted_in n hv (fold (place n hv) xs ds)"
  using assms by (induction xs arbitrary: ds) (simp_all add: mset_place sorted_place)

lemma move_chain_spec:
  assumes "chain h p xs" "distinct xs" "chains h new ds" "set xs \<inter> set (concat ds) = {}" "length ds = n" "0 < n"
    "\<And>q. hashval (h q) = hv q"
  shows "\<exists>h' new'. move_chain n p h new = Some (h', new') \<and> chains h' new' (fold (place n hv) xs ds) \<and>
    (\<forall>q. hashval (h' q) = hv q) \<and> (\<forall>q. q \<notin> set xs \<longrightarrow> h' q = h q)"
  using assms
proof (induction xs arbitrary: p h new ds)
  case Nil
  then show ?case by (simp add: move_chain.simps)
next
  case (Cons x xs)
  let ?j = "unat (hv x) mod n"
  let ?h = "h(x := (h x)\<lparr>link_next := new ! ?j\<rparr>)" and ?new = "new[?j := Some x]"
  have j: "?j < n" "length new = n" using Cons.prems chains_length by fastforce+
  have x: "x \<notin> set xs" "x \<notin> set (concat ds)" using Cons.prems by auto
  have p: "p = Some x" "chain h (link_next (h x)) xs" using Cons.prems(1) by auto
  have "chains ?h new ds" using Cons.prems(3) by (rule chains_cong) (use x in auto)
  moreover have "chain ?h (Some x) (x # ds ! ?j)"
    using chains_nth [OF \<open>chains ?h new ds\<close>, of ?j] j Cons.prems(5) by simp
  ultimately have "chains ?h ?new (place n hv x ds)"
    unfolding place_def Let_def by (rule chains_update)
  moreover have "set xs \<inter> set (concat (place n hv x ds)) = {}"
    using Cons.prems(2,4) mset_place [OF Cons.prems(6,5), of hv x]
    by (metis disjoint_iff distinct.simps(2) insert_iff list.set_intros(2) set_mset_add_mset_insert set_mset_mset)
  ultimately have "\<exists>h' new'. move_chain n (link_next (h x)) ?h ?new = Some (h', new') \<and>
      chains h' new' (fold (place n hv) xs (place n hv x ds)) \<and> (\<forall>q. hashval (h' q) = hv q) \<and>
      (\<forall>q. q \<notin> set xs \<longrightarrow> h' q = ?h q)"
    by (intro Cons.IH) (use Cons.prems p x in \<open>simp_all del: fun_upd_apply\<close>, simp)
  then show ?case
    using p(1) Cons.prems(7) by (subst move_chain.simps) (auto simp: Let_def)
qed

lemma move_chains_spec:
  assumes "chains h bs cs" "distinct (concat cs)" "chains h new ds" "set (concat cs) \<inter> set (concat ds) = {}"
    "length ds = n" "0 < n" "\<And>q. hashval (h q) = hv q"
  shows "\<exists>h' new'. move_chains n bs h new = Some (h', new') \<and> chains h' new' (fold (place n hv) (concat cs) ds) \<and>
    (\<forall>q. hashval (h' q) = hv q)"
  using assms
proof (induction bs arbitrary: cs h new ds)
  case Nil
  then show ?case by (auto simp: chains_def)
next
  case (Cons b bs)
  obtain c cs' where cs: "cs = c # cs'" "chain h b c" "chains h bs cs'"
    using Cons.prems(1) by (auto simp: chains_def list_all2_Cons1)
  obtain h1 new1 where 1: "move_chain n b h new = Some (h1, new1)" "chains h1 new1 (fold (place n hv) c ds)"
      "\<forall>q. hashval (h1 q) = hv q" "\<forall>q. q \<notin> set c \<longrightarrow> h1 q = h q"
    using move_chain_spec [OF cs(2) _ Cons.prems(3) _ Cons.prems(5-7)] Cons.prems(2,4) cs(1) by auto
  have "chains h1 bs cs'"
  proof (rule chains_cong [OF cs(3)])
    fix x
    assume "x \<in> set (concat cs')"
    then have "x \<notin> set c" using Cons.prems(2) cs(1) by auto
    then show "link_next (h1 x) = link_next (h x)" using 1(4) by simp
  qed
  moreover have "set (concat cs') \<inter> set (concat (fold (place n hv) c ds)) = {}"
  proof -
    have "set (concat (fold (place n hv) c ds)) = set c \<union> set (concat ds)"
      using arg_cong [OF fold_place(2) [OF Cons.prems(6,5), of hv c], of set_mset] by simp
    then show ?thesis using Cons.prems(2,4) cs(1) by auto
  qed
  ultimately have "\<exists>h' new'. move_chains n bs h1 new1 = Some (h', new') \<and>
      chains h' new' (fold (place n hv) (concat cs') (fold (place n hv) c ds)) \<and> (\<forall>q. hashval (h' q) = hv q)"
    using Cons.prems(2) cs(1) 1 fold_place(1) [OF Cons.prems(6,5), of hv c] Cons.prems(6)
    by (intro Cons.IH) auto
  then show ?case using 1(1) cs(1) by simp
qed

section \<open>What a table holds\<close>

definition table_rep :: "('p \<Rightarrow> 32 word) \<Rightarrow> 'p hash_table \<Rightarrow> 'p links \<Rightarrow> 'p list list \<Rightarrow> bool" where
  "table_rep hf t h cs \<longleftrightarrow>
    bucket_choice_index t < NUM_BUCKET_CHOICES \<and> length cs = NUM_BUCKETS t \<and> chains h (buckets t) cs \<and>
    distinct (concat cs) \<and> num_entries t = of_nat (length (concat cs)) \<and>
    (\<forall>x\<in>set (concat cs). hashval (h x) = hf x) \<and> sorted_in (NUM_BUCKETS t) hf cs"

lemma bucket_choices_pos: "i < NUM_BUCKET_CHOICES \<Longrightarrow> 0 < bucket_choices ! i"
proof -
  have "list_all (\<lambda>n. 0 < n) bucket_choices" by (simp add: bucket_choices_def)
  then show "i < NUM_BUCKET_CHOICES \<Longrightarrow> 0 < bucket_choices ! i"
    by (simp add: NUM_BUCKET_CHOICES_def list_all_length)
qed

lemma sorted_in_cong:
  assumes "\<And>x. x \<in> set (concat cs) \<Longrightarrow> hv x = hv' x"
  shows "sorted_in n hv cs = sorted_in n hv' cs"
proof -
  have "hv x = hv' x" if "j < length cs" "x \<in> set (cs ! j)" for j x
    using that by (intro assms) (auto intro: bexI [OF _ nth_mem])
  then show ?thesis by (simp add: sorted_in_def)
qed

lemma table_chain:
  assumes "table_rep hf t h cs"
  shows "chain h (buckets t ! (unat v mod NUM_BUCKETS t)) (cs ! (unat v mod NUM_BUCKETS t))"
    "unat v mod NUM_BUCKETS t < length cs" "unat v mod NUM_BUCKETS t < length (buckets t)"
proof -
  show l: "unat v mod NUM_BUCKETS t < length cs"
    using assms bucket_choices_pos [of "bucket_choice_index t"] by (simp add: table_rep_def NUM_BUCKETS_def)
  show "unat v mod NUM_BUCKETS t < length (buckets t)"
    using assms l by (auto simp: table_rep_def dest: chains_length)
  show "chain h (buckets t ! (unat v mod NUM_BUCKETS t)) (cs ! (unat v mod NUM_BUCKETS t))"
    using assms l by (auto simp: table_rep_def intro: chains_nth)
qed

lemma hash_table_resize_rep:
  assumes rep: "table_rep hf t h cs"
  obtains t' h' cs' where "hash_table_resize mem dir t h = Some (t', h')" "table_rep hf t' h' cs'"
    "mset (concat cs') = mset (concat cs)"
proof (cases "dir \<noteq> 1 \<and> dir \<noteq> -1 \<or> dir = -1 \<and> bucket_choice_index t = 0
    \<or> dir = 1 \<and> bucket_choice_index t = NUM_BUCKET_CHOICES - 1 \<or> \<not> mem")
  case True
  then have "hash_table_resize mem dir t h = Some (t, h)" by (auto simp: hash_table_resize_def)
  then show ?thesis using that rep by blast
next
  case False
  let ?i = "nat (int (bucket_choice_index t) + dir)"
  let ?n = "bucket_choices ! ?i"
  let ?t = "if dir = 1 then t\<lparr>num_growths := num_growths t + 1\<rparr> else t\<lparr>num_shrinks := num_shrinks t + 1\<rparr>"
  have i: "?i < NUM_BUCKET_CHOICES" using False rep by (auto simp: table_rep_def)
  note n = bucket_choices_pos [OF i]
  have "chains h (replicate ?n None) (replicate ?n [])" by (rule chains_None)
  from move_chains_spec [OF _ _ this _ _ n refl, of "buckets t" cs] rep obtain h' new where
    new: "move_chains ?n (buckets t) h (replicate ?n None) = Some (h', new)"
      "chains h' new (fold (place ?n (\<lambda>q. hashval (h q))) (concat cs) (replicate ?n []))"
      "\<forall>q. hashval (h' q) = hashval (h q)"
    by (auto simp: table_rep_def)
  let ?cs = "fold (place ?n (\<lambda>q. hashval (h q))) (concat cs) (replicate ?n [])"
  note place = fold_place [OF n length_replicate, of "\<lambda>q. hashval (h q)" "concat cs" "[]"]
  have m: "mset (concat ?cs) = mset (concat cs)" using place(2) by simp
  from arg_cong [OF m, of set_mset] have set: "set (concat ?cs) = set (concat cs)" by (simp only: set_mset_mset)
  have "sorted_in ?n (\<lambda>q. hashval (h q)) ?cs" using fold_place(3) [OF n, of "replicate ?n []"] by (simp add: sorted_in_def)
  then have "sorted_in ?n hf ?cs"
    using rep set sorted_in_cong [of ?cs "\<lambda>q. hashval (h q)" hf ?n] unfolding table_rep_def by blast
  moreover have "length (concat ?cs) = length (concat cs)" using arg_cong [OF m, of size] by (simp only: size_mset)
  ultimately have "table_rep hf (?t\<lparr>buckets := new, bucket_choice_index := ?i\<rparr>) h' ?cs"
    using rep i new place(1) set distinct_mset [OF m]
    by (auto simp: table_rep_def NUM_BUCKETS_def simp del: set_concat)
  moreover have "hash_table_resize mem dir t h = Some (?t\<lparr>buckets := new, bucket_choice_index := ?i\<rparr>, h')"
    using False new(1) by (auto simp: hash_table_resize_def Let_def)
  ultimately show ?thesis using that m by blast
qed

lemma table_repI:
  assumes "table_rep hf t h cs" "j < length cs" "chains h' bs (cs[j := ys])" "\<And>y. y \<in> set ys \<Longrightarrow> unat (hf y) mod NUM_BUCKETS t = j"
    "mset (cs ! j) + mset xs = mset ys + mset zs" "distinct (xs @ concat cs)"
    "\<And>x. x \<in> set xs \<union> set (concat cs) \<Longrightarrow> hashval (h' x) = hf x"
    "bucket_choice_index t' = bucket_choice_index t" "buckets t' = bs"
    "num_entries t' + of_nat (length zs) = num_entries t + of_nat (length xs)"
  shows "table_rep hf t' h' (cs[j := ys])" "mset (concat (cs[j := ys])) + mset zs = mset (concat cs) + mset xs"
proof -
  show m: "mset (concat (cs[j := ys])) + mset zs = mset (concat cs) + mset xs"
  proof -
    have "mset (concat (cs[j := ys])) + mset zs + mset (cs ! j) = mset (concat cs) + (mset ys + mset zs)"
      using mset_concat_update [OF assms(2), of ys] by (simp add: add_ac)
    also have "\<dots> = mset (concat cs) + mset xs + mset (cs ! j)"
      unfolding assms(5) [symmetric] by (simp add: add_ac)
    finally show ?thesis by simp
  qed
  then have eq: "mset (concat (cs[j := ys]) @ zs) = mset (concat cs @ xs)" by simp
  have "distinct (concat (cs[j := ys]))"
    using distinct_mset [OF eq] assms(6) by auto
  moreover have "set (concat (cs[j := ys])) \<subseteq> set xs \<union> set (concat cs)"
    using mset_eq_setD [OF eq] by auto
  moreover have "num_entries t' = of_nat (length (concat (cs[j := ys])))"
  proof -
    have "length (concat (cs[j := ys])) + length zs = length (concat cs) + length xs"
      using arg_cong [OF m, of size] by (simp only: size_mset size_union)
    then have "(of_nat (length (concat (cs[j := ys]))) :: 64 word) + of_nat (length zs) =
        of_nat (length (concat cs)) + of_nat (length xs)"
      by (metis of_nat_add)
    moreover have "num_entries t = of_nat (length (concat cs))" using assms(1) by (simp add: table_rep_def)
    ultimately show ?thesis using assms(10) by (metis add_right_cancel)
  qed
  moreover have "sorted_in (NUM_BUCKETS t) hf (cs[j := ys])"
    unfolding sorted_in_def
  proof (intro allI impI ballI)
    fix k y
    assume "k < length (cs[j := ys])" "y \<in> set (cs[j := ys] ! k)"
    then show "unat (hf y) mod NUM_BUCKETS t = k"
      using assms(1,4) by (cases "k = j") (auto simp: table_rep_def sorted_in_def)
  qed
  moreover have "NUM_BUCKETS t' = NUM_BUCKETS t" by (simp add: NUM_BUCKETS_def assms(8))
  ultimately show "table_rep hf t' h' (cs[j := ys])"
    using assms(1,3,7,8,9) unfolding table_rep_def by (metis length_list_update subsetD)
qed

lemma hash_table_insert_rep:
  assumes rep: "table_rep hf t h cs" and x: "x \<notin> set (concat cs)"
  obtains t' h' cs' where "hash_table_insert hf mem (Some x) t h = Some (0, t', h')" "table_rep hf t' h' cs'"
    "mset (concat cs') = add_mset x (mset (concat cs))"
proof -
  let ?j = "unat (hf x) mod NUM_BUCKETS t"
  let ?h = "h(x := \<lparr>link_next = buckets t ! ?j, hashval = hf x\<rparr>)"
  let ?t = "t\<lparr>buckets := (buckets t)[?j := Some x], num_entries := num_entries t + 1\<rparr>"
  let ?cs = "cs[?j := x # cs ! ?j]"
  note j = table_chain [OF rep, of "hf x"]
  have "chains ?h (buckets t) cs"
    by (rule chains_cong [of h]) (use rep x in \<open>auto simp: table_rep_def\<close>)
  moreover have "chain ?h (Some x) (x # cs ! ?j)"
    using j x nth_mem [OF j(2)] by auto
  ultimately have c: "chains ?h ((buckets t)[?j := Some x]) ?cs" by (rule chains_update)
  have 2: "y \<in> set (x # cs ! ?j) \<Longrightarrow> unat (hf y) mod NUM_BUCKETS t = ?j" for y
    using rep j(2) by (auto simp: table_rep_def sorted_in_def)
  have 3: "y \<in> set [x] \<union> set (concat cs) \<Longrightarrow> hashval (?h y) = hf y" for y
    using rep by (auto simp: table_rep_def)
  have 4: "distinct ([x] @ concat cs)" using rep x by (simp add: table_rep_def)
  have m: "mset (cs ! ?j) + mset [x] = mset (x # cs ! ?j) + mset []" by simp
  note insert = table_repI [OF rep j(2) c 2 m 4 3, of ?t]
  have 1: "table_rep hf ?t ?h ?cs" by (rule insert(1)) simp_all
  have m1: "mset (concat ?cs) = add_mset x (mset (concat cs))" using insert(2) by simp
  obtain t' h' cs' where "hash_table_resize mem 1 ?t ?h = Some (t', h')" "table_rep hf t' h' cs'"
      "mset (concat cs') = mset (concat ?cs)"
    using 1 by (rule hash_table_resize_rep)
  then show ?thesis
    using that 1 m1 by (cases "bucket_choice_index ?t < NUM_BUCKET_CHOICES - 1 \<and> num_entries ?t > 2 * of_nat (NUM_BUCKETS ?t)")
      (auto simp: hash_table_insert_def Let_def)
qed

lemma find_SomeD: "List.find P xs = Some x \<Longrightarrow> x \<in> set xs \<and> P x"
  by (induction xs) (auto split: if_splits)

lemma find_loop_chain: "chain h p xs \<Longrightarrow> find_loop cmp h c p = Some (List.find (\<lambda>x. cmp c x = 0) xs)"
  by (induction xs arbitrary: p) (auto simp: find_loop.simps)

lemma chain_len_loop_chain: "chain h p xs \<Longrightarrow> chain_len_loop h p n = Some (n + of_nat (length xs))"
  by (induction xs arbitrary: p n) (auto simp: chain_len_loop.simps add_ac)

lemma before_loop_found:
  "chain h p (as @ a # x # bs) \<Longrightarrow> distinct (as @ a # x # bs) \<Longrightarrow> before_loop h x p = Some (Some a)"
proof (induction as arbitrary: p)
  case Nil
  then show ?case by (simp add: before_loop.simps)
next
  case (Cons b as)
  then have "link_next (h b) \<noteq> Some x" by (cases as) auto
  with Cons show ?case by (subst before_loop.simps) simp
qed

lemma before_loop_absent: "chain h p xs \<Longrightarrow> x \<notin> set xs \<Longrightarrow> before_loop h x p = Some None"
proof (induction xs arbitrary: p)
  case Nil
  then show ?case by (simp add: before_loop.simps)
next
  case (Cons b xs)
  then have "link_next (h b) \<noteq> Some x" by (cases xs) auto
  with Cons show ?case by (subst before_loop.simps) simp
qed

lemma chain_remove:
  "chain h p (as @ a # x # bs) \<Longrightarrow> distinct (as @ a # x # bs) \<Longrightarrow>
    chain (h(a := (h a)\<lparr>link_next := link_next (h x)\<rparr>)) p (as @ a # bs)"
  by (induction as arbitrary: p) auto

lemma split_before:
  assumes "x \<in> set xs" "hd xs \<noteq> x"
  obtains as a bs where "xs = as @ a # x # bs"
proof -
  obtain ys bs where xs: "xs = ys @ x # bs" using assms(1) by (auto dest: split_list)
  then have "ys \<noteq> []" using assms(2) by auto
  then have "xs = butlast ys @ last ys # x # bs" using xs by simp
  then show ?thesis using that by blast
qed

lemma shrink_rep:
  assumes "table_rep hf t h cs"
  obtains t' h' cs' where "shrink resize_ok mem t h = Some (0, t', h')" "table_rep hf t' h' cs'"
    "mset (concat cs') = mset (concat cs)" "\<not> resize_ok \<Longrightarrow> cs' = cs"
proof -
  obtain t' h' cs' where "hash_table_resize mem (-1) t h = Some (t', h')" "table_rep hf t' h' cs'"
      "mset (concat cs') = mset (concat cs)"
    using assms by (rule hash_table_resize_rep)
  then show ?thesis using that assms
    by (cases "resize_ok \<and> bucket_choice_index t > 0 \<and> num_entries t < of_nat (NUM_BUCKETS t div 2)")
      (auto simp: shrink_def)
qed

lemma concat_remove1:
  "j < length cs \<Longrightarrow> x \<in> set (cs ! j) \<Longrightarrow> distinct (concat cs) \<Longrightarrow>
    concat (cs[j := remove1 x (cs ! j)]) = remove1 x (concat cs)"
proof (induction cs arbitrary: j)
  case (Cons c cs)
  show ?case
  proof (cases j)
    case 0
    then show ?thesis using Cons.prems(2) by (simp add: remove1_append)
  next
    case (Suc i)
    then have "x \<in> \<Union> (set ` set cs)" using Cons.prems nth_mem [of i cs] by auto
    then have "x \<notin> set c" using Cons.prems(3) by auto
    then show ?thesis using Cons Suc by (simp add: remove1_append)
  qed
qed simp

lemma hash_table_delete_rep:
  assumes rep: "table_rep hf t h cs" and x: "x \<in> set (concat cs)"
  obtains t' h' cs' where "hash_table_delete_helper resize_ok mem (Some x) t h = Some (0, t', h')"
    "table_rep hf t' h' cs'" "mset (concat cs) = add_mset x (mset (concat cs'))"
    "\<not> resize_ok \<Longrightarrow> concat cs' = remove1 x (concat cs)"
proof -
  let ?j = "unat (hf x) mod NUM_BUCKETS t"
  let ?t = "t\<lparr>num_entries := num_entries t - 1\<rparr>"
  note j = table_chain [OF rep, of "hf x"]
  have hx: "hashval (h x) = hf x" using rep x unfolding table_rep_def by blast
  have in_chain: "x \<in> set (cs ! ?j)"
  proof -
    obtain k where "k < length cs" "x \<in> set (cs ! k)" using x by (auto simp: in_set_conv_nth [of _ cs])
    then show ?thesis using rep by (auto simp: table_rep_def sorted_in_def)
  qed
  have dist: "distinct (concat cs)" "distinct (cs ! ?j)" using rep j(2) by (auto simp: table_rep_def distinct_concat_iff)
  define step where "step = (\<lambda>(t' :: 'a hash_table) h' ys. chain h' (buckets t' ! ?j) ys \<and> mset (cs ! ?j) = add_mset x (mset ys) \<and>
    ys = remove1 x (cs ! ?j) \<and> buckets t' = (buckets t)[?j := buckets t' ! ?j] \<and> (\<forall>y. y \<notin> set (cs ! ?j) \<longrightarrow> h' y = h y) \<and>
    (\<forall>y. hashval (h' y) = hashval (h y)) \<and> bucket_choice_index t' = bucket_choice_index t \<and>
    num_entries t' = num_entries t - 1)"
  obtain t1 h1 ys where 1: "step t1 h1 ys"
    "hash_table_delete_helper resize_ok mem (Some x) t h = shrink resize_ok mem t1 h1"
  proof (cases "buckets t ! ?j = Some x")
    case True
    then have "step (t\<lparr>buckets := (buckets t)[?j := link_next (h x)], num_entries := num_entries t - 1\<rparr>) h (tl (cs ! ?j))"
      using j by (cases "cs ! ?j") (auto simp: step_def)
    then show ?thesis using that True hx by (fastforce simp: hash_table_delete_helper_def Let_def)
  next
    case False
    then have "hd (cs ! ?j) \<noteq> x" using j(1) in_chain by (cases "cs ! ?j") auto
    then obtain as a bs where c: "cs ! ?j = as @ a # x # bs" using in_chain by (auto elim: split_before)
    then have "step ?t (h(a := (h a)\<lparr>link_next := link_next (h x)\<rparr>)) (as @ a # bs)"
      using j(1) dist(2) chain_remove [of h "buckets t ! ?j" as a x bs]
      by (auto simp: step_def remove1_append)
    moreover have "before_loop h x (buckets t ! ?j) = Some (Some a)"
      using j(1) dist(2) c by (auto intro: before_loop_found)
    ultimately show ?thesis using that False hx by (fastforce simp: hash_table_delete_helper_def Let_def)
  qed
  let ?cs = "cs[?j := ys]"
  have st: "chain h1 (buckets t1 ! ?j) ys" "mset (cs ! ?j) = add_mset x (mset ys)" "ys = remove1 x (cs ! ?j)"
      "buckets t1 = (buckets t)[?j := buckets t1 ! ?j]" "\<And>y. y \<notin> set (cs ! ?j) \<Longrightarrow> h1 y = h y"
      "\<And>y. hashval (h1 y) = hashval (h y)" "bucket_choice_index t1 = bucket_choice_index t"
      "num_entries t1 = num_entries t - 1"
    using 1(1) unfolding step_def by blast+
  have c: "chains h1 (buckets t1) ?cs"
    using rep st(4) chains_update_in [OF j(2) _ st(1,5) dist(1), of "buckets t"] unfolding table_rep_def by metis
  have 2: "y \<in> set ys \<Longrightarrow> unat (hf y) mod NUM_BUCKETS t = ?j" for y
  proof -
    have "set ys \<subseteq> set (cs ! ?j)" unfolding st(3) by (rule set_remove1_subset)
    then show "y \<in> set ys \<Longrightarrow> unat (hf y) mod NUM_BUCKETS t = ?j"
      using rep j(2) by (auto simp: table_rep_def sorted_in_def)
  qed
  have m: "mset (cs ! ?j) + mset [] = mset ys + mset [x]" using st(2) by simp
  have 3: "y \<in> set [] \<union> set (concat cs) \<Longrightarrow> hashval (h1 y) = hf y" for y
    using rep st(6) by (auto simp: table_rep_def)
  note delete = table_repI [OF rep j(2) c 2 m _ 3, of t1]
  have "table_rep hf t1 h1 ?cs" by (rule delete(1)) (use st(7,8) dist(1) in simp_all)
  then obtain t' h' cs' where "shrink resize_ok mem t1 h1 = Some (0, t', h')" "table_rep hf t' h' cs'"
      "mset (concat cs') = mset (concat ?cs)" "\<not> resize_ok \<Longrightarrow> cs' = ?cs"
    by (rule shrink_rep [of _ _ _ _ resize_ok mem]) blast
  moreover have "concat ?cs = remove1 x (concat cs)"
    using concat_remove1 [OF j(2) in_chain dist(1)] unfolding st(3) .
  moreover have "mset (concat ?cs) + mset [x] = mset (concat cs) + mset []"
    by (rule delete(2)) (use st(7,8) dist(1) in simp_all)
  ultimately show ?thesis using that 1(2) by simp
qed

lemma table_rep_cong:
  assumes "table_rep hf t h cs" "\<And>x. x \<in> set (concat cs) \<Longrightarrow> hf x = hf' x"
  shows "table_rep hf' t h cs"
  using assms(1) sorted_in_cong [of cs hf hf' "NUM_BUCKETS t"] assms(2) unfolding table_rep_def by auto

lemma before_loop_table:
  assumes "table_rep hf t h cs" "x \<notin> set (concat cs)"
  shows "hash_table_delete_helper resize_ok mem (Some x) t h = Some (-1, t, h)"
proof -
  let ?j = "unat (hashval (h x)) mod NUM_BUCKETS t"
  note j = table_chain [OF assms(1), of "hashval (h x)"]
  have x: "x \<notin> set (cs ! ?j)" using assms(2) nth_mem [OF j(2)] by auto
  then have "buckets t ! ?j \<noteq> Some x" using j(1) by (cases "cs ! ?j") auto
  with before_loop_absent [OF j(1) x] show ?thesis by (simp add: hash_table_delete_helper_def Let_def)
qed

lemma hash_table_chain_len_rep:
  assumes "table_rep hf t h cs"
  shows "hash_table_chain_len t h i = Some (if i < length cs then of_nat (length (cs ! i)) else -1)"
proof (cases "i < length cs")
  case True
  then have "chain h (buckets t ! i) (cs ! i)" using assms by (auto simp: table_rep_def intro: chains_nth)
  from chain_len_loop_chain [OF this, of 0] True assms show ?thesis
    by (simp add: hash_table_chain_len_def hash_table_num_buckets_def table_rep_def)
next
  case False
  with assms show ?thesis by (auto simp: hash_table_chain_len_def hash_table_num_buckets_def table_rep_def)
qed

text \<open>
  The iterator follows the chains in order: from an item it goes to the one after it in the concatenation of
  the chains, from the last it ends.
\<close>

lemma find_head:
  assumes "list_all2 (chain h) bs cs"
  shows "(case List.find (\<lambda>b. b \<noteq> None) bs of None \<Rightarrow> None | Some b \<Rightarrow> b) =
    (case concat cs of [] \<Rightarrow> None | x # _ \<Rightarrow> Some x)"
  using assms
proof (induction bs cs rule: list_all2_induct)
  case (Cons b bs c cs)
  then show ?case by (cases c) auto
qed simp

lemma hash_table_next_first:
  assumes "table_rep hf t h cs"
  shows "hash_table_next t h None = (case concat cs of [] \<Rightarrow> None | x # _ \<Rightarrow> Some x)"
proof -
  have "length (buckets t) = NUM_BUCKETS t" using assms by (auto simp: table_rep_def dest: chains_length)
  moreover have "list_all2 (chain h) (buckets t) cs" using assms by (simp add: table_rep_def chains_def)
  ultimately show ?thesis using find_head by (simp add: hash_table_next_def Let_def)
qed

lemma chain_next: "chain h p (as @ x # bs) \<Longrightarrow> link_next (h x) = (case bs of [] \<Rightarrow> None | y # _ \<Rightarrow> Some y)"
  by (induction as arbitrary: p) (auto split: list.split)

lemma concat_split:
  assumes "concat cs = xs @ x # ys"
  obtains j as bs where "j < length cs" "cs ! j = as @ x # bs" "ys = bs @ concat (drop (Suc j) cs)"
  using assms
proof (induction cs arbitrary: xs thesis)
  case (Cons c cs)
  from Cons.prems(2) have "c @ concat cs = xs @ x # ys" by simp
  then consider us where "c = xs @ us" "us @ concat cs = x # ys" | us where "c @ us = xs" "concat cs = us @ x # ys"
    by (auto simp: append_eq_append_conv2)
  then show ?case
  proof cases
    case 1
    show ?thesis
    proof (cases us)
      case Nil
      then have "concat cs = [] @ x # ys" using 1 by simp
      then obtain j as bs where "j < length cs" "cs ! j = as @ x # bs" "ys = bs @ concat (drop (Suc j) cs)"
        using Cons.IH by blast
      then show ?thesis using Cons.prems(1) [of "Suc j"] by simp
    next
      case (Cons u vs)
      then show ?thesis using Cons.prems(1) [of 0 xs vs] 1 by simp
    qed
  next
    case 2
    then obtain j as bs where "j < length cs" "cs ! j = as @ x # bs" "ys = bs @ concat (drop (Suc j) cs)"
      using Cons.IH by blast
    then show ?thesis using Cons.prems(1) [of "Suc j"] by simp
  qed
qed simp

lemma hash_table_next_next:
  assumes rep: "table_rep hf t h cs" and x: "concat cs = xs @ x # ys"
  shows "hash_table_next t h (Some x) = (case ys of [] \<Rightarrow> None | y # _ \<Rightarrow> Some y)"
proof -
  obtain j as bs where j: "j < length cs" "cs ! j = as @ x # bs" "ys = bs @ concat (drop (Suc j) cs)"
    using x by (rule concat_split)
  have "chain h (buckets t ! j) (as @ x # bs)" using rep j by (metis chains_nth table_rep_def)
  then have n: "link_next (h x) = (case bs of [] \<Rightarrow> None | y # _ \<Rightarrow> Some y)" by (rule chain_next)
  show ?thesis
  proof (cases bs)
    case (Cons b bs')
    then show ?thesis using n j(3) by (simp add: hash_table_next_def Let_def)
  next
    case Nil
    have "hashval (h x) = hf x" "unat (hf x) mod NUM_BUCKETS t = j"
      using rep j x by (auto simp: table_rep_def sorted_in_def)
    moreover have "list_all2 (chain h) (drop (Suc j) (buckets t)) (drop (Suc j) cs)"
      using rep by (simp add: table_rep_def chains_def list_all2_dropI)
    moreover have "length (buckets t) = NUM_BUCKETS t" using rep by (auto simp: table_rep_def dest: chains_length)
    ultimately show ?thesis using n j(3) Nil by (simp add: hash_table_next_def Let_def find_head del: not_None_eq)
  qed
qed

lemma hash_table_for_each_after:
  "table_rep hf t h cs \<Longrightarrow> concat cs = xs @ x # ys \<Longrightarrow> hash_table_for_each t h (Some x) = Some ys"
proof (induction ys arbitrary: xs x)
  case Nil
  then show ?case by (simp add: hash_table_for_each.simps hash_table_next_next)
next
  case (Cons y ys)
  then have "hash_table_for_each t h (Some y) = Some ys" using Cons.IH [of "xs @ [x]" y] by simp
  with Cons.prems show ?case by (simp add: hash_table_for_each.simps [of _ _ "Some x"] hash_table_next_next)
qed

lemma hash_table_for_each_rep: "table_rep hf t h cs \<Longrightarrow> hash_table_for_each t h None = Some (concat cs)"
proof (cases "concat cs")
  case Nil
  assume rep: "table_rep hf t h cs"
  with Nil show ?thesis
    by (simp add: hash_table_for_each.simps [of _ _ None] hash_table_next_first del: concat_eq_Nil_conv)
next
  case (Cons x xs)
  assume rep: "table_rep hf t h cs"
  with Cons have "hash_table_for_each t h (Some x) = Some xs"
    using hash_table_for_each_after [OF rep, of "[]"] by simp
  with Cons rep show ?thesis by (simp add: hash_table_for_each.simps [of _ _ None] hash_table_next_first)
qed

lemma hash_table_init_rep: "table_rep hf (snd (hash_table_init True)) h (replicate (bucket_choices ! 0) [])"
  by (simp add: table_rep_def hash_table_init_def NUM_BUCKETS_def NUM_BUCKET_CHOICES_def bucket_choices_def
      chains_None sorted_in_def)

section \<open>The functions a table is given\<close>

text \<open>What the code relies on: items that compare as equal hash to the same value.\<close>

locale hash_functions =
  fixes hf :: "'p \<Rightarrow> 32 word" and cmp :: "'p \<Rightarrow> 'p \<Rightarrow> int"
  assumes cmp_hash: "cmp a b = 0 \<Longrightarrow> hf a = hf b"
begin

lemma find_rep:
  assumes rep: "table_rep hf t h cs"
  obtains r where "hash_table_find hf cmp (Some c) t h = Some r"
    "\<And>x. r = Some x \<Longrightarrow> x \<in> set (concat cs) \<and> cmp c x = 0"
    "r = None \<Longrightarrow> \<forall>x\<in>set (concat cs). cmp c x \<noteq> 0"
proof -
  let ?j = "unat (hf c) mod NUM_BUCKETS t"
  let ?r = "List.find (\<lambda>x. cmp c x = 0) (cs ! ?j)"
  note j = table_chain [OF rep, of "hf c"]
  have "hash_table_find hf cmp (Some c) t h = Some ?r"
    using j(1) by (simp add: hash_table_find_def find_loop_chain)
  moreover have "x \<in> set (concat cs) \<and> cmp c x = 0" if "?r = Some x" for x
  proof -
    have "x \<in> set (cs ! ?j)" "cmp c x = 0" using find_SomeD [OF that] by simp_all
    then show ?thesis using nth_mem [OF j(2)] by auto
  qed
  moreover have "\<forall>x\<in>set (concat cs). cmp c x \<noteq> 0" if "?r = None"
  proof
    fix x
    assume "x \<in> set (concat cs)"
    then obtain k where k: "k < length cs" "x \<in> set (cs ! k)" by (auto simp: in_set_conv_nth [of _ cs])
    then have "k = unat (hf x) mod NUM_BUCKETS t" using rep by (auto simp: table_rep_def sorted_in_def)
    show "cmp c x \<noteq> 0"
    proof
      assume 0: "cmp c x = 0"
      then have "hf c = hf x" by (rule cmp_hash)
      then show False using \<open>k = _\<close> 0 k(2) that by (auto simp: find_None_iff)
    qed
  qed
  ultimately show ?thesis by (rule that)
qed

end

section \<open>Sequences of operations\<close>

datatype 'p table_op = Insert 'p | Delete 'p

fun run_op :: "('p \<Rightarrow> 32 word) \<Rightarrow> bool \<Rightarrow> 'p table_op \<Rightarrow> 'p hash_table \<Rightarrow> 'p links \<Rightarrow>
    (int \<times> 'p hash_table \<times> 'p links) option" where
  "run_op hf mem (Insert x) t h = hash_table_insert hf mem (Some x) t h"
| "run_op hf mem (Delete x) t h = hash_table_delete mem (Some x) t h"

text \<open>Every operation has its own answer to whether there was memory for a resize.\<close>

fun table_ops :: "('p \<Rightarrow> 32 word) \<Rightarrow> (bool \<times> 'p table_op) list \<Rightarrow> 'p hash_table \<Rightarrow> 'p links \<Rightarrow>
    ('p hash_table \<times> 'p links) option" where
  "table_ops hf [] t h = Some (t, h)"
| "table_ops hf ((mem, a) # as) t h =
    (case run_op hf mem a t h of None \<Rightarrow> None | Some (_, t, h) \<Rightarrow> table_ops hf as t h)"

fun set_op :: "'p table_op \<Rightarrow> 'p set \<Rightarrow> 'p set" where
  "set_op (Insert x) S = insert x S"
| "set_op (Delete x) S = S - {x}"

text \<open>An item is not inserted twice; deleting one that is not there is allowed and does nothing.\<close>

fun set_ops :: "(bool \<times> 'p table_op) list \<Rightarrow> 'p set \<Rightarrow> 'p set" where
  "set_ops as S = fold (\<lambda>(_, a). set_op a) as S"

fun insert_once :: "(bool \<times> 'p table_op) list \<Rightarrow> 'p set \<Rightarrow> bool" where
  "insert_once [] S \<longleftrightarrow> True"
| "insert_once ((_, a) # as) S \<longleftrightarrow> (\<forall>x. a = Insert x \<longrightarrow> x \<notin> S) \<and> insert_once as (set_op a S)"

lemma table_op_rep:
  assumes rep: "table_rep hf t h cs" and a: "\<forall>x. a = Insert x \<longrightarrow> x \<notin> set (concat cs)"
  obtains r t' h' cs' where "run_op hf mem a t h = Some (r, t', h')" "table_rep hf t' h' cs'"
    "set (concat cs') = set_op a (set (concat cs))"
proof (cases a)
  case (Insert x)
  then have "x \<notin> set (concat cs)" using a by simp
  with rep obtain t' h' cs' where "hash_table_insert hf mem (Some x) t h = Some (0, t', h')"
      "table_rep hf t' h' cs'" "mset (concat cs') = add_mset x (mset (concat cs))"
    by (rule hash_table_insert_rep)
  moreover from arg_cong [OF this(3), of set_mset] have "set (concat cs') = set_op a (set (concat cs))"
    by (simp only: set_mset_mset set_mset_add_mset_insert Insert set_op.simps)
  ultimately show ?thesis using that Insert by simp
next
  case (Delete x)
  show ?thesis
  proof (cases "x \<in> set (concat cs)")
    case True
    with rep obtain t' h' cs' where 1: "hash_table_delete_helper True mem (Some x) t h = Some (0, t', h')"
        "table_rep hf t' h' cs'" "mset (concat cs) = add_mset x (mset (concat cs'))"
      by (rule hash_table_delete_rep)
    moreover have "set (concat cs) = insert x (set (concat cs'))"
      using arg_cong [OF 1(3), of set_mset] by (simp only: set_mset_mset set_mset_add_mset_insert)
    moreover have "x \<notin> set (concat cs')"
    proof -
      have "distinct (x # concat cs')" using rep distinct_mset [of "concat cs" "x # concat cs'"] 1(3) by (simp add: table_rep_def)
      then show ?thesis by simp
    qed
    ultimately have "set (concat cs') = set_op a (set (concat cs))" unfolding Delete by auto
    with 1 show ?thesis using that Delete by (simp add: hash_table_delete_def)
  next
    case False
    then show ?thesis using that [of "-1" t h cs] rep Delete before_loop_table [OF rep False]
      by (auto simp: hash_table_delete_def)
  qed
qed

lemma table_ops_rep:
  "table_rep hf t h cs \<Longrightarrow> insert_once as (set (concat cs)) \<Longrightarrow>
    \<exists>t' h' cs'. table_ops hf as t h = Some (t', h') \<and> table_rep hf t' h' cs' \<and>
      set (concat cs') = set_ops as (set (concat cs))"
proof (induction as arbitrary: t h cs)
  case (Cons b as)
  obtain mem a where b: "b = (mem, a)" by fastforce
  have "\<forall>x. a = Insert x \<longrightarrow> x \<notin> set (concat cs)" using Cons.prems(2) unfolding b insert_once.simps by blast
  with Cons.prems(1) obtain r t' h' cs' where 1: "run_op hf mem a t h = Some (r, t', h')" "table_rep hf t' h' cs'"
      "set (concat cs') = set_op a (set (concat cs))"
    by (rule table_op_rep)
  then show ?case using Cons.IH [OF 1(2)] Cons.prems(2) unfolding b by (simp del: set_concat)
qed auto

context hash_functions
begin

lemma table_ops_find:
  assumes "insert_once as {}"
  shows "\<exists>t h r. table_ops hf as (snd (hash_table_init True)) h0 = Some (t, h) \<and>
    hash_table_find hf cmp (Some c) t h = Some r \<and>
    (case r of Some x \<Rightarrow> x \<in> set_ops as {} \<and> cmp c x = 0 | None \<Rightarrow> \<forall>x\<in>set_ops as {}. cmp c x \<noteq> 0)"
proof -
  have "insert_once as (set (concat (replicate (bucket_choices ! 0) [])))" using assms by simp
  from table_ops_rep [OF hash_table_init_rep [of hf h0] this] obtain t h cs where
    1: "table_ops hf as (snd (hash_table_init True)) h0 = Some (t, h)" "table_rep hf t h cs"
      "set (concat cs) = set_ops as {}"
    by (auto simp del: set_concat set_ops.simps)
  obtain r where "hash_table_find hf cmp (Some c) t h = Some r"
      "\<And>x. r = Some x \<Longrightarrow> x \<in> set (concat cs) \<and> cmp c x = 0"
      "r = None \<Longrightarrow> \<forall>x\<in>set (concat cs). cmp c x \<noteq> 0"
    using 1(2) by (rule find_rep) blast
  then show ?thesis using 1 by (cases r) (auto simp del: set_concat set_ops.simps)
qed

end

lemma table_ops_for_each:
  assumes "insert_once as {}"
  shows "\<exists>t h xs. table_ops hf as (snd (hash_table_init True)) h0 = Some (t, h) \<and>
    hash_table_for_each t h None = Some xs \<and> distinct xs \<and> set xs = set_ops as {} \<and>
    hash_table_num_entries t = of_nat (card (set_ops as {}))"
proof -
  have "insert_once as (set (concat (replicate (bucket_choices ! 0) [])))" using assms by simp
  from table_ops_rep [OF hash_table_init_rep [of hf h0] this] obtain t h cs where
    1: "table_ops hf as (snd (hash_table_init True)) h0 = Some (t, h)" "table_rep hf t h cs"
      "set (concat cs) = set_ops as {}"
    by (auto simp del: set_concat set_ops.simps)
  have "distinct (concat cs)" "num_entries t = of_nat (length (concat cs))"
    using 1(2) unfolding table_rep_def by blast+
  then show ?thesis
    using 1 hash_table_for_each_rep [OF 1(2)] distinct_card [of "concat cs"]
    by (auto simp: hash_table_num_entries_def simp del: set_concat set_ops.simps)
qed

text \<open>
  C31.  A hash table is a set of items.  After any sequence of insertions of new items and of
  deletions, from an initialised table, whatever memory there was for each resize, iterating
  visits every item that was inserted and not deleted once, the entry count is their number
  (in a \<open>size_t\<close>), and a search ends: it finds an item that is there and compares equal,
  when there is one, and nothing otherwise.
\<close>

theorem hash_table_is_set:
  assumes "insert_once as {}" "\<forall>a b. cmp a b = 0 \<longrightarrow> hf a = hf b"
  shows "\<exists>t h. table_ops hf as (snd (hash_table_init True)) h0 = Some (t, h) \<and>
    (\<exists>xs. hash_table_for_each t h None = Some xs \<and> distinct xs \<and> set xs = set_ops as {}) \<and>
    hash_table_num_entries t = of_nat (card (set_ops as {})) \<and>
    (\<exists>r. hash_table_find hf cmp (Some c) t h = Some r \<and>
      (case r of Some x \<Rightarrow> x \<in> set_ops as {} \<and> cmp c x = 0 | None \<Rightarrow> \<forall>x\<in>set_ops as {}. cmp c x \<noteq> 0))"
proof -
  have "hash_functions hf cmp" using assms(2) by (simp add: hash_functions_def)
  then show ?thesis
    using hash_functions.table_ops_find [of hf cmp as h0 c] table_ops_for_each [OF assms(1), of hf h0] assms(1)
    by (auto simp del: set_ops.simps)
qed

theorem hash_table_is_set_witness:
  "\<exists>t h. table_ops of_nat [(True, Insert 1), (True, Insert 8), (False, Delete (1::nat))]
      (snd (hash_table_init True)) (\<lambda>_. \<lparr>link_next = None, hashval = 0\<rparr>) = Some (t, h) \<and>
    hash_table_find of_nat (\<lambda>a b. if a = b then 0 else 1) (Some 8) t h = Some (Some 8)"
proof -
  let ?as = "[(True, Insert 1), (True, Insert 8), (False, Delete (1::nat))]"
  have 1: "insert_once ?as {}" "set_ops ?as {} = {8}" by auto
  let ?cmp = "\<lambda>a b. if a = b then 0 else (1::int)" and ?h = "\<lambda>_. \<lparr>link_next = None, hashval = 0\<rparr>"
  have 2: "\<forall>a b. ?cmp a b = 0 \<longrightarrow> of_nat a = of_nat b" by simp
  obtain t h r where "table_ops of_nat ?as (snd (hash_table_init True)) ?h = Some (t, h)"
      "hash_table_find of_nat ?cmp (Some 8) t h = Some r"
      "case r of Some x \<Rightarrow> x \<in> {8::nat} \<and> ?cmp 8 x = 0 | None \<Rightarrow> \<forall>x\<in>{8::nat}. ?cmp 8 x \<noteq> 0"
    using hash_table_is_set [of ?as ?cmp of_nat ?h 8, OF 1(1) 2] unfolding 1(2) by blast
  then show ?thesis by (cases r) auto
qed

end
