(* ===== verification/Vars.thy ===== *)
theory Vars
  imports HashTab ExprVal
begin

unbundle bit_operations_syntax

text \<open>
  The global variables of \<^verbatim>\<open>src/src/var.c\<close>, kept in a hash table whose functions ignore the
  case of names.  A variable is an address; the memory holds the \<open>Var\<close> structures.  The local
  candidate that \<open>FindVar\<close> searches for has an address of its own.
\<close>

section \<open>Hash functions\<close>

definition UPPER :: "char \<Rightarrow> char" where
  "UPPER c = (if islower c then char_of (of_char c - 32 :: int) else c)"

text \<open>One round of the loop; a \<open>char\<close> is signed when it becomes an \<open>unsigned int\<close>.\<close>

definition hash_char :: "32 word \<Rightarrow> char \<Rightarrow> 32 word" where
  "hash_char h c =
    (let h = push_bit 4 h + of_int (ch c);
         high = h AND 0xF0000000;
         h = (if high \<noteq> 0 then h XOR drop_bit 24 high else h)
     in h AND NOT high)"

definition HashVal_ignorecase :: "string \<Rightarrow> 32 word" where
  "HashVal_ignorecase str = foldl (\<lambda>h c. hash_char h (UPPER c)) 0 str"

definition HashVal_preservecase :: "string \<Rightarrow> 32 word" where
  "HashVal_preservecase str = foldl hash_char 0 str"

definition strcasecmp :: "string \<Rightarrow> string \<Rightarrow> int" where
  "strcasecmp s t = strcmp (strtolower s) (strtolower t)"

lemma strcmp_eq_0 [simp]: "strcmp s t = 0 \<longleftrightarrow> s = t"
  by (induction s t rule: strcmp.induct) (auto split: if_splits)

lemma strcasecmp_eq_0: "strcasecmp s t = 0 \<longleftrightarrow> strtolower s = strtolower t"
  by (simp add: strcasecmp_def)

lemma UPPER_tolower [simp]: "UPPER (tolower c) = UPPER c"
proof (cases "isupper c")
  case True
  then have "(of_char (tolower c) :: int) = of_char c + 32"
    by (simp add: tolower_def isupper_def take_bit_eq_mod)
  with True show ?thesis
    by (simp add: UPPER_def islower_def isupper_def)
qed (simp add: tolower_def)

lemma HashVal_tolower: "HashVal_ignorecase (strtolower s) = HashVal_ignorecase s"
  by (simp add: HashVal_ignorecase_def strtolower_def foldl_map)

section \<open>Variables\<close>

record Var =
  var_name :: string
  preserve :: bool
  is_constant :: bool
  used_since_set :: bool
  filename :: string
  lineno :: nat
  var_v :: Value

datatype var_ptr = Candidate | Heap nat

definition VarHashFunc :: "(var_ptr \<Rightarrow> Var) \<Rightarrow> var_ptr \<Rightarrow> 32 word" where
  "VarHashFunc m x = HashVal_ignorecase (var_name (m x))"

definition VarCompareFunc :: "(var_ptr \<Rightarrow> Var) \<Rightarrow> var_ptr \<Rightarrow> var_ptr \<Rightarrow> int" where
  "VarCompareFunc m a b = strcasecmp (var_name (m a)) (var_name (m b))"

interpretation var_table: hash_functions "VarHashFunc m" "VarCompareFunc m" for m
  by unfold_locales (metis VarHashFunc_def VarCompareFunc_def strcasecmp_eq_0 HashVal_tolower)

text \<open>The messages of the checks for unused variables.\<close>

datatype var_msg = Unset_unused string string nat | Reset_unused string string nat

record var_state =
  VHashTbl :: "var_ptr hash_table"
  var_links :: "var_ptr links"
  vars :: "var_ptr \<Rightarrow> Var"
  var_msgs :: "var_msg list"

text \<open>
  Where the program is, whether it looks for unused variables, and what the next allocations
  return: the new structure, if any, and whether there is memory to resize the table.
\<close>

record var_env =
  unused_vars :: bool
  cur_file :: string
  cur_line :: nat
  new_var :: "var_ptr option"
  table_mem :: bool

definition InitVars :: "(var_ptr \<Rightarrow> Var) \<Rightarrow> var_ptr links \<Rightarrow> var_state" where
  "InitVars m l = \<lparr>VHashTbl = snd (hash_table_init True), var_links = l, vars = m, var_msgs = []\<rparr>"

definition FindVar :: "var_env \<Rightarrow> string \<Rightarrow> bool \<Rightarrow> var_state \<Rightarrow> (var_ptr option \<times> var_state) option" where
  "FindVar E str create s =
    (let m = (vars s)(Candidate := (vars s Candidate)\<lparr>var_name := StrnCpy str VAR_NAME_LEN\<rparr>);
         s = s\<lparr>vars := m\<rparr> in
     case hash_table_find (VarHashFunc m) (VarCompareFunc m) (Some Candidate) (VHashTbl s) (var_links s) of
       None \<Rightarrow> None
     | Some v \<Rightarrow>
         if v \<noteq> None \<or> \<not> create then Some (v, s)
         else (case new_var E of
             None \<Rightarrow> Some (None, s)
           | Some p \<Rightarrow>
               let m = m(p := (m p)\<lparr>var_v := IntV 0, preserve := False, is_constant := True, filename := [],
                               lineno := 0, var_name := StrnCpy str VAR_NAME_LEN\<rparr>) in
               (case hash_table_insert (VarHashFunc m) (table_mem E) (Some p) (VHashTbl s) (var_links s) of
                  None \<Rightarrow> None
                | Some (_, t, l) \<Rightarrow> Some (Some p, s\<lparr>vars := m, VHashTbl := t, var_links := l\<rparr>))))"

definition var_print :: "var_msg \<Rightarrow> var_state \<Rightarrow> var_state" where
  "var_print msg s = s\<lparr>var_msgs := var_msgs s @ [msg]\<rparr>"

definition set_var :: "var_ptr \<Rightarrow> (Var \<Rightarrow> Var) \<Rightarrow> var_state \<Rightarrow> var_state" where
  "set_var p f s = s\<lparr>vars := (vars s)(p := f (vars s p))\<rparr>"

text \<open>The structure of a deleted variable is not freed.\<close>

definition DeleteVar :: "var_env \<Rightarrow> string \<Rightarrow> var_state \<Rightarrow> (errcode option \<times> var_state) option" where
  "DeleteVar E str s =
    (case FindVar E str False s of
       None \<Rightarrow> None
     | Some (None, s) \<Rightarrow> Some (Some E_NOSUCH_VAR, s)
     | Some (Some v, s) \<Rightarrow>
         let s = (if unused_vars E \<and> \<not> used_since_set (vars s v)
                  then var_print (Unset_unused str (filename (vars s v)) (lineno (vars s v))) s else s) in
         (case hash_table_delete (table_mem E) (Some v) (VHashTbl s) (var_links s) of
            None \<Rightarrow> None
          | Some (_, t, l) \<Rightarrow> Some (None, s\<lparr>VHashTbl := t, var_links := l\<rparr>)))"

definition SetVar :: "var_env \<Rightarrow> string \<Rightarrow> Value \<Rightarrow> bool \<Rightarrow> var_state \<Rightarrow> (errcode option \<times> var_state) option" where
  "SetVar E str val nonconst s =
    (case (if unused_vars E then
             map_option (\<lambda>(v, s).
               case v of
                 None \<Rightarrow> (v, s)
               | Some p \<Rightarrow>
                   (v, if used_since_set (vars s p) then s
                       else var_print (Reset_unused str (filename (vars s p)) (lineno (vars s p))) s))
               (FindVar E str False s)
           else Some (None, s)) of
       None \<Rightarrow> None
     | Some (v, s) \<Rightarrow>
         (case (if v = None then FindVar E str True s else Some (v, s)) of
            None \<Rightarrow> None
          | Some (None, s) \<Rightarrow> Some (Some E_NO_MEM, s)
          | Some (Some p, s) \<Rightarrow>
              Some (None, set_var p (\<lambda>x. x\<lparr>var_v := val, is_constant := \<not> nonconst,
                used_since_set := False, filename := cur_file E, lineno := cur_line E\<rparr>) s)))"

definition PreserveVar :: "var_env \<Rightarrow> string \<Rightarrow> var_state \<Rightarrow> (errcode option \<times> var_state) option" where
  "PreserveVar E name s =
    (case FindVar E name True s of
       None \<Rightarrow> None
     | Some (None, s) \<Rightarrow> Some (Some E_NO_MEM, s)
     | Some (Some v, s) \<Rightarrow> Some (None, set_var v (\<lambda>x. x\<lparr>preserve := True, used_since_set := True\<rparr>) s))"

text \<open>The loop reads the next variable before it deletes one, and so the table must not be resized.\<close>

partial_function (option) destroy_loop :: "bool \<Rightarrow> var_ptr option \<Rightarrow> var_state \<Rightarrow> var_state option" where
  "destroy_loop all v s =
    (case v of
       None \<Rightarrow> Some s
     | Some p \<Rightarrow>
         let nxt = hash_table_next (VHashTbl s) (var_links s) v in
         if all \<or> \<not> preserve (vars s p)
         then (case hash_table_delete_no_resize True v (VHashTbl s) (var_links s) of
                 None \<Rightarrow> None
               | Some (_, t, l) \<Rightarrow> destroy_loop all nxt (s\<lparr>VHashTbl := t, var_links := l\<rparr>))
         else destroy_loop all nxt s)"

definition DestroyVars :: "bool \<Rightarrow> var_state \<Rightarrow> var_state option" where
  "DestroyVars all s =
    (case destroy_loop all (hash_table_next (VHashTbl s) (var_links s) None) s of
       None \<Rightarrow> None
     | Some s \<Rightarrow>
         Some (if all then s\<lparr>VHashTbl := snd (hash_table_init True)\<rparr> else s))"

text \<open>The value of a variable in an expression, with whether it makes the expression non-constant.\<close>

definition get_var :: "var_env \<Rightarrow> string \<Rightarrow> bool \<Rightarrow> var_state \<Rightarrow> ((errcode + Value \<times> bool) \<times> var_state) option" where
  "get_var E str nonconst s =
    (case FindVar E str False s of
       None \<Rightarrow> None
     | Some (None, s) \<Rightarrow> Some (Inl E_NOSUCH_VAR, s)
     | Some (Some v, s) \<Rightarrow>
         let s = set_var v (\<lambda>x. x\<lparr>used_since_set := True\<rparr>) s in
         Some (Inr (var_v (vars s v), nonconst \<or> \<not> is_constant (vars s v)), s))"

section \<open>The table as a map\<close>

definition items :: "var_state \<Rightarrow> var_ptr list" where
  "items s = the (hash_table_for_each (VHashTbl s) (var_links s) None)"

definition var_key :: "string \<Rightarrow> string" where
  "var_key str = strtolower (StrnCpy str VAR_NAME_LEN)"

definition key_of :: "var_state \<Rightarrow> var_ptr \<Rightarrow> string" where
  "key_of s p = strtolower (var_name (vars s p))"

definition vmap :: "var_state \<Rightarrow> string \<Rightarrow> Var option" where
  "vmap s = map_of (map (\<lambda>p. (key_of s p, vars s p)) (items s))"

definition vars_ok :: "var_state \<Rightarrow> bool" where
  "vars_ok s \<longleftrightarrow>
    (\<exists>cs. table_rep (VarHashFunc (vars s)) (VHashTbl s) (var_links s) cs) \<and>
    Candidate \<notin> set (items s) \<and> distinct (map (key_of s) (items s)) \<and>
    (\<forall>p\<in>set (items s). length (var_name (vars s p)) \<le> VAR_NAME_LEN)"

definition fresh_var :: "var_state \<Rightarrow> var_env \<Rightarrow> bool" where
  "fresh_var s E \<longleftrightarrow> new_var E \<noteq> None \<and> the (new_var E) \<notin> insert Candidate (set (items s))"


lemma vars_okE:
  assumes "vars_ok s"
  obtains cs where "table_rep (VarHashFunc (vars s)) (VHashTbl s) (var_links s) cs" "items s = concat cs"
    "distinct (items s)"
proof -
  obtain cs where rep: "table_rep (VarHashFunc (vars s)) (VHashTbl s) (var_links s) cs"
    using assms by (auto simp: vars_ok_def)
  then have "items s = concat cs" by (simp add: items_def hash_table_for_each_rep)
  moreover have "distinct (concat cs)" using rep unfolding table_rep_def by blast
  ultimately show ?thesis using that rep by metis
qed

lemma vmap_iff:
  assumes "vars_ok s"
  shows "vmap s k = Some v \<longleftrightarrow> (\<exists>p\<in>set (items s). key_of s p = k \<and> vars s p = v)"
proof -
  have "distinct (map fst (map (\<lambda>p. (key_of s p, vars s p)) (items s)))"
    using assms by (simp add: vars_ok_def comp_def)
  then have "vmap s k = Some v \<longleftrightarrow> (k, v) \<in> set (map (\<lambda>p. (key_of s p, vars s p)) (items s))"
    unfolding vmap_def by (rule map_of_eq_Some_iff)
  then show ?thesis unfolding set_map by blast
qed

lemma vmap_eqI:
  assumes "vars_ok s'"
    "\<And>k v. (\<exists>p\<in>set (items s'). key_of s' p = k \<and> vars s' p = v) \<longleftrightarrow> m k = Some v"
  shows "vmap s' = m"
proof
  fix k
  have "\<And>v. vmap s' k = Some v \<longleftrightarrow> m k = Some v" unfolding vmap_iff [OF assms(1)] assms(2) by simp
  then show "vmap s' k = m k" by (metis not_Some_eq)
qed

lemma same_key: "vars_ok s \<Longrightarrow> p \<in> set (items s) \<Longrightarrow> q \<in> set (items s) \<Longrightarrow> key_of s p = key_of s q \<Longrightarrow> p = q"
  by (auto simp: vars_ok_def distinct_map dest: inj_onD)

text \<open>Changing the memory: the names in the table are kept.\<close>

lemma same_names:
  assumes ok: "vars_ok s" and s': "VHashTbl s' = VHashTbl s" "var_links s' = var_links s"
    "\<And>p. p \<in> set (items s) \<Longrightarrow> var_name (vars s' p) = var_name (vars s p)"
  shows "items s' = items s" "vars_ok s'"
proof -
  show it: "items s' = items s" by (simp add: items_def s')
  obtain cs where cs: "table_rep (VarHashFunc (vars s)) (VHashTbl s) (var_links s) cs" "items s = concat cs"
    using ok by (rule vars_okE)
  have "table_rep (VarHashFunc (vars s')) (VHashTbl s) (var_links s) cs"
    by (rule table_rep_cong [OF cs(1)]) (metis VarHashFunc_def cs(2) s'(3))
  then show "vars_ok s'"
    using ok s' by (auto simp: vars_ok_def it key_of_def cong: map_cong)
qed

lemma set_var_map:
  assumes ok: "vars_ok s" and p: "p \<in> set (items s)" and name: "\<And>x. var_name (f x) = var_name x"
  shows "vars_ok (set_var p f s)" "items (set_var p f s) = items s"
    "vmap (set_var p f s) = (vmap s)(key_of s p \<mapsto> f (vars s p))"
proof -
  show ok': "vars_ok (set_var p f s)" and it: "items (set_var p f s) = items s"
    using same_names [OF ok, of "set_var p f s"] by (simp_all add: set_var_def name)
  have names: "key_of (set_var p f s) q = key_of s q"
    and mem: "vars (set_var p f s) q = (if q = p then f (vars s q) else vars s q)" for q
    by (simp_all add: set_var_def key_of_def name)
  show "vmap (set_var p f s) = (vmap s)(key_of s p \<mapsto> f (vars s p))"
  proof (rule vmap_eqI [OF ok'])
    fix k v
    show "(\<exists>q\<in>set (items (set_var p f s)). key_of (set_var p f s) q = k \<and> vars (set_var p f s) q = v) \<longleftrightarrow>
      ((vmap s)(key_of s p \<mapsto> f (vars s p))) k = Some v"
    proof (cases "k = key_of s p")
      case True
      then show ?thesis unfolding it names mem using same_key [OF ok _ p] p by auto
    next
      case False
      then show ?thesis unfolding it names mem using vmap_iff [OF ok, of k v] by auto
    qed
  qed
qed

text \<open>The search.\<close>

definition candidate :: "string \<Rightarrow> var_state \<Rightarrow> var_state" where
  "candidate str s = s\<lparr>vars := (vars s)(Candidate := (vars s Candidate)\<lparr>var_name := StrnCpy str VAR_NAME_LEN\<rparr>)\<rparr>"

definition lookup_var :: "var_state \<Rightarrow> string \<Rightarrow> var_ptr option" where
  "lookup_var s k = List.find (\<lambda>p. key_of s p = k) (items s)"

lemma candidate_simps [simp]:
  "VHashTbl (candidate str s) = VHashTbl s" "var_links (candidate str s) = var_links s"
  "var_msgs (candidate str s) = var_msgs s" "p \<noteq> Candidate \<Longrightarrow> vars (candidate str s) p = vars s p"
  "var_name (vars (candidate str s) Candidate) = StrnCpy str VAR_NAME_LEN"
  by (simp_all add: candidate_def)

lemma Candidate_not_item: "vars_ok s \<Longrightarrow> p \<in> set (items s) \<Longrightarrow> p \<noteq> Candidate"
  by (auto simp: vars_ok_def)

lemma candidate_ok:
  assumes "vars_ok s"
  shows "vars_ok (candidate str s)" "items (candidate str s) = items s" "vmap (candidate str s) = vmap s"
proof -
  show "items (candidate str s) = items s" "vars_ok (candidate str s)"
    using Candidate_not_item [OF assms] by (intro same_names [OF assms]; simp)+
  then show "vmap (candidate str s) = vmap s"
    using Candidate_not_item [OF assms] by (auto simp: vmap_def key_of_def cong: map_cong)
qed

lemma lookup_var_SomeD:
  assumes "vars_ok s" "lookup_var s k = Some p"
  shows "p \<in> set (items s)" "key_of s p = k" "vmap s k = Some (vars s p)"
  using find_SomeD [of "\<lambda>p. key_of s p = k" "items s" p] assms vmap_iff [OF assms(1)]
  by (auto simp: lookup_var_def)

lemma lookup_var_NoneD: "vars_ok s \<Longrightarrow> lookup_var s k = None \<Longrightarrow> vmap s k = None"
  by (auto simp: lookup_var_def find_None_iff vmap_iff intro: ccontr)

lemma FindVar_lookup:
  assumes ok: "vars_ok s"
  shows "FindVar E str False s = Some (lookup_var s (var_key str), candidate str s)"
proof -
  let ?s = "candidate str s" and ?m = "vars (candidate str s)"
  note ok' = candidate_ok [OF ok, of str]
  obtain cs where cs: "table_rep (VarHashFunc ?m) (VHashTbl ?s) (var_links ?s) cs" "items ?s = concat cs"
    using ok'(1) by (rule vars_okE)
  obtain r where r: "hash_table_find (VarHashFunc ?m) (VarCompareFunc ?m) (Some Candidate) (VHashTbl ?s) (var_links ?s) = Some r"
      "\<And>x. r = Some x \<Longrightarrow> x \<in> set (concat cs) \<and> VarCompareFunc ?m Candidate x = 0"
      "r = None \<Longrightarrow> \<forall>x\<in>set (concat cs). VarCompareFunc ?m Candidate x \<noteq> 0"
    using cs(1) by (rule var_table.find_rep) blast
  have cmp: "VarCompareFunc ?m Candidate x = 0 \<longleftrightarrow> key_of s x = var_key str" if "x \<in> set (items s)" for x
    using Candidate_not_item [OF ok that]
    by (auto simp: VarCompareFunc_def strcasecmp_eq_0 key_of_def var_key_def)
  have "r = lookup_var s (var_key str)"
  proof (cases r)
    case None
    have "\<forall>x\<in>set (items s). key_of s x \<noteq> var_key str" using r(3) [OF None] cmp ok'(2) cs(2) by metis
    then have "lookup_var s (var_key str) = None" by (auto simp: lookup_var_def find_None_iff)
    with None show ?thesis by simp
  next
    case (Some x)
    then have x: "x \<in> set (items s)" "key_of s x = var_key str" using r(2) cmp ok'(2) cs(2) by metis+
    show ?thesis
    proof (cases "lookup_var s (var_key str)")
      case None
      then show ?thesis using x by (auto simp: lookup_var_def find_None_iff)
    next
      case (Some y)
      with lookup_var_SomeD [OF ok Some] same_key [OF ok] x \<open>r = Some x\<close> show ?thesis by auto
    qed
  qed
  with r(1) show ?thesis by (simp add: FindVar_def Let_def candidate_def)
qed

text \<open>A new variable.\<close>

definition new_Var :: "string \<Rightarrow> Var \<Rightarrow> Var" where
  "new_Var str x = x\<lparr>var_v := IntV 0, preserve := False, is_constant := True, filename := [],
    lineno := 0, var_name := StrnCpy str VAR_NAME_LEN\<rparr>"

lemma FindVar_create:
  assumes ok: "vars_ok s" and fresh: "new_var E = Some p" "p \<notin> insert Candidate (set (items s))"
  obtains q s' where "FindVar E str True s = Some (Some q, s')" "vars_ok s'" "q \<in> set (items s')"
    "key_of s' q = var_key str" "var_msgs s' = var_msgs s"
    "vmap s' = (vmap s)(var_key str \<mapsto> (case vmap s (var_key str) of Some x \<Rightarrow> x | None \<Rightarrow> new_Var str (vars s p)))"
    "vars s' q = the (vmap s' (var_key str))"
proof (cases "lookup_var s (var_key str)")
  case (Some q)
  note ok' = candidate_ok [OF ok, of str]
  note q = lookup_var_SomeD [OF ok Some]
  have "FindVar E str True s = Some (Some q, candidate str s)"
    using FindVar_lookup [OF ok, of E str] Some
    by (auto simp: FindVar_def Let_def candidate_def split: option.splits)
  moreover have "vmap (candidate str s) = (vmap s)(var_key str \<mapsto> (case vmap s (var_key str) of Some x \<Rightarrow> x | None \<Rightarrow> new_Var str (vars s p)))"
    using q(3) ok'(3) by (auto simp: fun_upd_idem)
  ultimately show ?thesis
    using that ok' q Candidate_not_item [OF ok q(1)] by (simp add: key_of_def)
next
  case None
  let ?s = "candidate str s"
  let ?m = "(vars ?s)(p := new_Var str (vars ?s p))"
  note ok' = candidate_ok [OF ok, of str]
  obtain cs where cs: "table_rep (VarHashFunc (vars ?s)) (VHashTbl ?s) (var_links ?s) cs" "items ?s = concat cs"
    using ok'(1) by (rule vars_okE)
  have p: "p \<notin> set (concat cs)" "p \<noteq> Candidate" using fresh(2) cs(2) ok'(2) by auto
  have "table_rep (VarHashFunc ?m) (VHashTbl ?s) (var_links ?s) cs"
    by (rule table_rep_cong [OF cs(1)]) (use p in \<open>auto simp: VarHashFunc_def\<close>)
  then obtain t l cs' where ins: "hash_table_insert (VarHashFunc ?m) (table_mem E) (Some p) (VHashTbl ?s) (var_links ?s) = Some (0, t, l)"
      "table_rep (VarHashFunc ?m) t l cs'" "mset (concat cs') = add_mset p (mset (concat cs))"
    using p(1) by (rule hash_table_insert_rep)
  define s' where "s' = ?s\<lparr>vars := ?m, VHashTbl := t, var_links := l\<rparr>"
  have it: "items s' = concat cs'" using hash_table_for_each_rep [OF ins(2)] by (simp add: items_def s'_def)
  have ms: "mset (items s') = add_mset p (mset (items s))" using ins(3) it cs(2) ok'(2) by simp
  have set: "set (items s') = insert p (set (items s))" using arg_cong [OF ms, of set_mset] by simp
  have keys: "key_of s' q = (if q = p then var_key str else key_of s q)" if "q \<in> set (items s')" for q
    using that Candidate_not_item [OF ok, of q] p(2) unfolding set
    by (auto simp: s'_def key_of_def var_key_def new_Var_def)
  have mem: "vars s' q = (if q = p then new_Var str (vars s p) else vars s q)" if "q \<in> set (items s')" for q
    using that Candidate_not_item [OF ok, of q] p(2) unfolding set by (auto simp: s'_def)
  have absent: "key_of s q \<noteq> var_key str" if "q \<in> set (items s)" for q
    using None that by (auto simp: lookup_var_def find_None_iff)
  have at_p: "key_of s' p = var_key str" "vars s' p = new_Var str (vars s p)"
    using keys mem set by auto
  have at_q: "q \<in> set (items s) \<Longrightarrow> key_of s' q = key_of s q" "q \<in> set (items s) \<Longrightarrow> vars s' q = vars s q" for q
    using keys mem set fresh(2) by auto
  have "distinct (map (key_of s') (items s'))"
  proof -
    have "mset (map (key_of s') (items s')) = mset (map (key_of s') (p # items s))"
      using arg_cong [OF ms, of "image_mset (key_of s')"] by simp
    moreover have "map (key_of s') (p # items s) = var_key str # map (key_of s) (items s)"
      using keys set p(1) cs(2) ok'(2) by (auto simp: map_eq_conv)
    ultimately show ?thesis
      using ok absent by (metis (no_types, lifting) distinct.simps(2) distinct_mset imageE set_map vars_ok_def)
  qed
  then have ok2: "vars_ok s'"
    using ins(2) it set fresh(2) ok mem by (auto simp: vars_ok_def s'_def new_Var_def StrnCpy_def Candidate_not_item)
  have "FindVar E str True s = Some (Some p, s')"
    using FindVar_lookup [OF ok, of E str] None fresh(1) ins(1) p(2)
    by (auto simp: FindVar_def Let_def candidate_def s'_def new_Var_def split: option.splits)
  moreover have "vmap s' = (vmap s)(var_key str \<mapsto> (case vmap s (var_key str) of Some x \<Rightarrow> x | None \<Rightarrow> new_Var str (vars s p)))"
  proof (rule vmap_eqI [OF ok2])
    fix k v
    show "(\<exists>q\<in>set (items s'). key_of s' q = k \<and> vars s' q = v) \<longleftrightarrow>
      ((vmap s)(var_key str \<mapsto> (case vmap s (var_key str) of Some x \<Rightarrow> x | None \<Rightarrow> new_Var str (vars s p)))) k = Some v"
      using lookup_var_NoneD [OF ok None] vmap_iff [OF ok, of k v] absent at_p at_q
      by (auto simp: set cong: bex_cong)
  qed
  moreover have "var_msgs s' = var_msgs s" by (simp add: s'_def)
  ultimately show ?thesis
    using that [of p s'] ok2 set at_p lookup_var_NoneD [OF ok None] by simp
qed

section \<open>The operations on the map\<close>

text \<open>What the operations do to a map from names, without regard to their case, to variables.\<close>

definition map_set :: "var_env \<Rightarrow> string \<Rightarrow> Value \<Rightarrow> bool \<Rightarrow> (string \<Rightarrow> Var option) \<Rightarrow> string \<Rightarrow> Var option" where
  "map_set E str val nonconst m = m(var_key str \<mapsto>
    \<lparr>var_name = (case m (var_key str) of Some x \<Rightarrow> var_name x | None \<Rightarrow> StrnCpy str VAR_NAME_LEN),
     preserve = (case m (var_key str) of Some x \<Rightarrow> preserve x | None \<Rightarrow> False),
     is_constant = \<not> nonconst, used_since_set = False, filename = cur_file E, lineno = cur_line E, var_v = val\<rparr>)"

definition map_preserve :: "string \<Rightarrow> (string \<Rightarrow> Var option) \<Rightarrow> string \<Rightarrow> Var option" where
  "map_preserve str m = m(var_key str \<mapsto>
    (case m (var_key str) of
       Some x \<Rightarrow> x\<lparr>preserve := True, used_since_set := True\<rparr>
     | None \<Rightarrow> \<lparr>var_name = StrnCpy str VAR_NAME_LEN, preserve = True, is_constant = True, used_since_set = True,
                filename = [], lineno = 0, var_v = IntV 0\<rparr>))"

lemma fresh_varE:
  assumes "fresh_var s E"
  obtains p where "new_var E = Some p" "p \<notin> insert Candidate (set (items s))"
  using assms by (auto simp: fresh_var_def)

lemma PreserveVar_map:
  assumes "vars_ok s" "fresh_var s E"
  obtains s' where "PreserveVar E str s = Some (None, s')" "vars_ok s'" "vmap s' = map_preserve str (vmap s)"
proof -
  obtain p where "new_var E = Some p" "p \<notin> insert Candidate (set (items s))" using assms(2) by (rule fresh_varE)
  with assms(1) obtain q s1 where 1: "FindVar E str True s = Some (Some q, s1)" "vars_ok s1" "q \<in> set (items s1)"
      "key_of s1 q = var_key str"
      "vmap s1 = (vmap s)(var_key str \<mapsto> (case vmap s (var_key str) of Some x \<Rightarrow> x | None \<Rightarrow> new_Var str (vars s p)))"
      "vars s1 q = the (vmap s1 (var_key str))"
    by (rule FindVar_create)
  have "(new_Var str y)\<lparr>preserve := True, used_since_set := True\<rparr> =
      \<lparr>var_name = StrnCpy str VAR_NAME_LEN, preserve = True, is_constant = True, used_since_set = True,
       filename = [], lineno = 0, var_v = IntV 0\<rparr>" for y
    by (rule Var.equality) (simp_all add: new_Var_def)
  then show ?thesis
    using that set_var_map [OF 1(2,3), of "\<lambda>x. x\<lparr>preserve := True, used_since_set := True\<rparr>"] 1
    by (simp add: PreserveVar_def map_preserve_def split: option.splits)
qed

lemma key_of_print [simp]: "key_of (var_print m s) = key_of s"
  by (simp add: key_of_def var_print_def fun_eq_iff)

lemma var_print_ok [simp]:
  "vars_ok (var_print m s) = vars_ok s" "items (var_print m s) = items s" "vmap (var_print m s) = vmap s"
  "lookup_var (var_print m s) = lookup_var s" "vars (var_print m s) = vars s"
  "VHashTbl (var_print m s) = VHashTbl s" "var_links (var_print m s) = var_links s"
proof -
  have st: "VHashTbl (var_print m s) = VHashTbl s" "var_links (var_print m s) = var_links s" "vars (var_print m s) = vars s"
    by (simp_all add: var_print_def)
  then show it: "items (var_print m s) = items s" by (simp add: items_def)
  show "vars_ok (var_print m s) = vars_ok s" "vmap (var_print m s) = vmap s"
    "lookup_var (var_print m s) = lookup_var s"
    by (simp_all add: vars_ok_def vmap_def lookup_var_def it st fun_eq_iff)
  show "vars (var_print m s) = vars s" "VHashTbl (var_print m s) = VHashTbl s" "var_links (var_print m s) = var_links s"
    by (fact st)+
qed

lemma SetVar_map:
  assumes ok: "vars_ok s" and fresh: "fresh_var s E"
  obtains s' where "SetVar E str val nonconst s = Some (None, s')" "vars_ok s'"
    "vmap s' = map_set E str val nonconst (vmap s)"
proof -
  let ?f = "\<lambda>x. x\<lparr>var_v := val, is_constant := \<not> nonconst, used_since_set := False, filename := cur_file E, lineno := cur_line E\<rparr>"
  have step: "vars_ok (set_var q ?f s1)" "vmap (set_var q ?f s1) = map_set E str val nonconst (vmap s)"
    if "vars_ok s1" "q \<in> set (items s1)" "key_of s1 q = var_key str" "vars s1 q = the (vmap s1 (var_key str))"
      "vmap s1 = (vmap s)(var_key str \<mapsto> (case vmap s (var_key str) of Some x \<Rightarrow> x | None \<Rightarrow> new_Var str y))" for q s1 y
  proof -
    have "?f (case vmap s (var_key str) of Some x \<Rightarrow> x | None \<Rightarrow> new_Var str y) =
        \<lparr>var_name = (case vmap s (var_key str) of Some x \<Rightarrow> var_name x | None \<Rightarrow> StrnCpy str VAR_NAME_LEN),
         preserve = (case vmap s (var_key str) of Some x \<Rightarrow> preserve x | None \<Rightarrow> False),
         is_constant = \<not> nonconst, used_since_set = False, filename = cur_file E, lineno = cur_line E, var_v = val\<rparr>"
      by (rule Var.equality) (simp_all add: new_Var_def split: option.splits)
    then show "vars_ok (set_var q ?f s1)" "vmap (set_var q ?f s1) = map_set E str val nonconst (vmap s)"
      using set_var_map [OF that(1,2), of ?f] that(3-5) by (simp_all add: map_set_def)
  qed
  obtain p where p: "new_var E = Some p" "p \<notin> insert Candidate (set (items s))" using fresh by (rule fresh_varE)
  note ok' = candidate_ok [OF ok, of str]
  show ?thesis
  proof (cases "unused_vars E")
    case False
    from ok p obtain q s1 where "FindVar E str True s = Some (Some q, s1)" "vars_ok s1" "q \<in> set (items s1)"
        "key_of s1 q = var_key str"
        "vmap s1 = (vmap s)(var_key str \<mapsto> (case vmap s (var_key str) of Some x \<Rightarrow> x | None \<Rightarrow> new_Var str (vars s p)))"
        "vars s1 q = the (vmap s1 (var_key str))"
      by (rule FindVar_create)
    then show ?thesis using that step False by (simp add: SetVar_def)
  next
    case True
    show ?thesis
    proof (cases "lookup_var s (var_key str)")
      case None
      have "p \<notin> insert Candidate (set (items (candidate str s)))" using p(2) ok'(2) by simp
      with ok'(1) p(1) obtain q s1 where "FindVar E str True (candidate str s) = Some (Some q, s1)" "vars_ok s1"
          "q \<in> set (items s1)" "key_of s1 q = var_key str"
          "vmap s1 = (vmap (candidate str s))(var_key str \<mapsto>
            (case vmap (candidate str s) (var_key str) of Some x \<Rightarrow> x | None \<Rightarrow> new_Var str (vars (candidate str s) p)))"
          "vars s1 q = the (vmap s1 (var_key str))"
        by (rule FindVar_create)
      then show ?thesis using that step True FindVar_lookup [OF ok, of E str] None ok'(3) by (simp add: SetVar_def)
    next
      case (Some q)
      note q = lookup_var_SomeD [OF ok Some]
      define s1 where "s1 = (if used_since_set (vars s q) then candidate str s
        else var_print (Reset_unused str (filename (vars s q)) (lineno (vars s q))) (candidate str s))"
      have c: "vars (candidate str s) q = vars s q" using Candidate_not_item [OF ok q(1)] by simp
      have "SetVar E str val nonconst s = Some (None, set_var q ?f s1)"
        using True FindVar_lookup [OF ok, of E str] Some c by (simp add: SetVar_def s1_def)
      moreover have "vars_ok s1" "q \<in> set (items s1)" "key_of s1 q = var_key str" "vars s1 q = the (vmap s1 (var_key str))"
          "vmap s1 = (vmap s)(var_key str \<mapsto> (case vmap s (var_key str) of Some x \<Rightarrow> x | None \<Rightarrow> new_Var str undefined))"
        using ok' q c by (auto simp: s1_def key_of_def fun_upd_idem)
      ultimately show ?thesis using that step by blast
    qed
  qed
qed

lemma DeleteVar_map:
  assumes ok: "vars_ok s"
  obtains s' where "DeleteVar E str s = Some (if vmap s (var_key str) = None then Some E_NOSUCH_VAR else None, s')"
    "vars_ok s'" "vmap s' = (vmap s)(var_key str := None)"
proof (cases "lookup_var s (var_key str)")
  case None
  note ok' = candidate_ok [OF ok, of str]
  have "DeleteVar E str s = Some (Some E_NOSUCH_VAR, candidate str s)"
    using FindVar_lookup [OF ok, of E str] None by (simp add: DeleteVar_def)
  then show ?thesis using that ok' lookup_var_NoneD [OF ok None] by (simp add: fun_upd_idem)
next
  case (Some q)
  note q = lookup_var_SomeD [OF ok Some]
  note ok' = candidate_ok [OF ok, of str]
  define s1 where "s1 = (if unused_vars E \<and> \<not> used_since_set (vars s q)
    then var_print (Unset_unused str (filename (vars s q)) (lineno (vars s q))) (candidate str s) else candidate str s)"
  have s1: "vars_ok s1" "items s1 = items s" "vmap s1 = vmap s" using ok' by (simp_all add: s1_def)
  obtain cs where cs: "table_rep (VarHashFunc (vars s1)) (VHashTbl s1) (var_links s1) cs" "items s1 = concat cs"
    using s1(1) by (rule vars_okE)
  have "q \<in> set (concat cs)" using q(1) s1(2) cs(2) by metis
  with cs(1) obtain t l cs' where del: "hash_table_delete_helper True (table_mem E) (Some q) (VHashTbl s1) (var_links s1) = Some (0, t, l)"
      "table_rep (VarHashFunc (vars s1)) t l cs'" "mset (concat cs) = add_mset q (mset (concat cs'))"
    by (rule hash_table_delete_rep)
  define s' where "s' = s1\<lparr>VHashTbl := t, var_links := l\<rparr>"
  have it: "items s' = concat cs'" using hash_table_for_each_rep [OF del(2)] by (simp add: items_def s'_def)
  have ms: "mset (items s1) = add_mset q (mset (items s'))" using del(3) it cs(2) by simp
  have set: "set (items s1) = insert q (set (items s'))" using arg_cong [OF ms, of set_mset] by simp
  have keys: "key_of s' = key_of s1" "vars s' = vars s1" by (simp_all add: s'_def key_of_def fun_eq_iff)
  have dist: "distinct (map (key_of s1) (q # items s'))"
  proof -
    have "mset (map (key_of s1) (items s1)) = mset (map (key_of s1) (q # items s'))"
      using arg_cong [OF ms, of "image_mset (key_of s1)"] by simp
    then show ?thesis using s1(1) by (metis distinct_mset vars_ok_def)
  qed
  have ok2: "vars_ok s'"
  proof -
    have "VHashTbl s' = t" "var_links s' = l" by (simp_all add: s'_def)
    then show ?thesis using del(2) s1(1) set dist unfolding vars_ok_def keys by auto
  qed
  have "vmap s' = (vmap s)(var_key str := None)"
  proof (rule vmap_eqI [OF ok2])
    fix k v
    have "key_of s1 q = var_key str" using q(2) Candidate_not_item [OF ok q(1)] by (simp add: s1_def key_of_def)
    moreover have "key_of s1 p \<noteq> key_of s1 q" if "p \<in> set (items s')" for p
      using dist that by (auto simp: image_iff)
    ultimately show "(\<exists>p\<in>set (items s'). key_of s' p = k \<and> vars s' p = v) \<longleftrightarrow> ((vmap s)(var_key str := None)) k = Some v"
      using vmap_iff [OF s1(1), of k v] s1(3) set unfolding keys by (cases "k = var_key str") auto
  qed
  moreover have "DeleteVar E str s = Some (None, s')"
  proof -
    have "vars (candidate str s) q = vars s q" using Candidate_not_item [OF ok q(1)] by simp
    then have "DeleteVar E str s =
        (case hash_table_delete (table_mem E) (Some q) (VHashTbl s1) (var_links s1) of
           None \<Rightarrow> None
         | Some (_, t, l) \<Rightarrow> Some (None, s1\<lparr>VHashTbl := t, var_links := l\<rparr>))"
      using FindVar_lookup [OF ok, of E str] Some unfolding DeleteVar_def s1_def Let_def
      by (cases "unused_vars E \<and> \<not> used_since_set (vars s q)") (auto cong: option.case_cong)
    then show ?thesis using del(1) by (simp add: hash_table_delete_def s'_def)
  qed
  ultimately show ?thesis using that ok2 q(3) by simp
qed

lemma destroy_loop_items:
  assumes "table_rep (VarHashFunc (vars s)) (VHashTbl s) (var_links s) cs" "concat cs = kept @ rest"
  shows "\<exists>s' cs'. destroy_loop all (case rest of [] \<Rightarrow> None | x # _ \<Rightarrow> Some x) s = Some s' \<and>
    table_rep (VarHashFunc (vars s')) (VHashTbl s') (var_links s') cs' \<and> vars s' = vars s \<and>
    concat cs' = kept @ filter (\<lambda>p. \<not> all \<and> preserve (vars s p)) rest"
  using assms
proof (induction rest arbitrary: s cs kept)
  case Nil
  then show ?case by (auto simp: destroy_loop.simps)
next
  case (Cons x xs)
  have nxt: "hash_table_next (VHashTbl s) (var_links s) (Some x) = (case xs of [] \<Rightarrow> None | y # _ \<Rightarrow> Some y)"
    by (rule hash_table_next_next [OF Cons.prems])
  show ?case
  proof (cases "all \<or> \<not> preserve (vars s x)")
    case True
    have "x \<in> set (concat cs)" using Cons.prems(2) by simp
    with Cons.prems(1) obtain t l cs' where del:
        "hash_table_delete_helper False True (Some x) (VHashTbl s) (var_links s) = Some (0, t, l)"
        "table_rep (VarHashFunc (vars s)) t l cs'" "concat cs' = remove1 x (concat cs)"
      by (rule hash_table_delete_rep [where resize_ok = False and mem = True]) blast
    let ?s = "s\<lparr>VHashTbl := t, var_links := l\<rparr>"
    have "distinct (concat cs)" using Cons.prems(1) unfolding table_rep_def by blast
    then have "concat cs' = kept @ xs" using del(3) Cons.prems(2) by (simp add: remove1_append)
    moreover have "table_rep (VarHashFunc (vars ?s)) (VHashTbl ?s) (var_links ?s) cs'" using del(2) by simp
    ultimately obtain s' cs'' where "destroy_loop all (case xs of [] \<Rightarrow> None | y # _ \<Rightarrow> Some y) ?s = Some s'"
        "table_rep (VarHashFunc (vars s')) (VHashTbl s') (var_links s') cs''" "vars s' = vars ?s"
        "concat cs'' = kept @ filter (\<lambda>p. \<not> all \<and> preserve (vars ?s p)) xs"
      using Cons.IH by blast
    then show ?thesis
      using True nxt del(1) by (simp add: destroy_loop.simps [of _ "Some x"] hash_table_delete_no_resize_def) blast
  next
    case False
    have "concat cs = (kept @ [x]) @ xs" using Cons.prems(2) by simp
    then obtain s' cs'' where "destroy_loop all (case xs of [] \<Rightarrow> None | y # _ \<Rightarrow> Some y) s = Some s'"
        "table_rep (VarHashFunc (vars s')) (VHashTbl s') (var_links s') cs''" "vars s' = vars s"
        "concat cs'' = (kept @ [x]) @ filter (\<lambda>p. \<not> all \<and> preserve (vars s p)) xs"
      using Cons.IH [OF Cons.prems(1)] by blast
    then show ?thesis using False nxt by (simp add: destroy_loop.simps [of _ "Some x"]) blast
  qed
qed

lemma DestroyVars_map:
  assumes ok: "vars_ok s"
  obtains s' where "DestroyVars all s = Some s'" "vars_ok s'"
    "vmap s' = (\<lambda>k. if \<not> all \<and> (\<exists>x. vmap s k = Some x \<and> preserve x) then vmap s k else None)"
proof -
  obtain cs where cs: "table_rep (VarHashFunc (vars s)) (VHashTbl s) (var_links s) cs" "items s = concat cs"
    using ok by (rule vars_okE)
  have "concat cs = [] @ concat cs" by simp
  from destroy_loop_items [OF cs(1) this, of all] obtain s1 cs1 where
    1: "destroy_loop all (hash_table_next (VHashTbl s) (var_links s) None) s = Some s1"
      "table_rep (VarHashFunc (vars s1)) (VHashTbl s1) (var_links s1) cs1" "vars s1 = vars s"
      "concat cs1 = filter (\<lambda>p. \<not> all \<and> preserve (vars s p)) (items s)"
    unfolding hash_table_next_first [OF cs(1)] cs(2) by auto
  define s' where "s' = (if all then s1\<lparr>VHashTbl := snd (hash_table_init True)\<rparr> else s1)"
  have s': "DestroyVars all s = Some s'" using 1(1) by (simp add: DestroyVars_def s'_def)
  have rep: "\<exists>cs'. table_rep (VarHashFunc (vars s')) (VHashTbl s') (var_links s') cs' \<and>
      concat cs' = filter (\<lambda>p. \<not> all \<and> preserve (vars s p)) (items s)"
  proof (cases all)
    case True
    then show ?thesis using hash_table_init_rep [of "VarHashFunc (vars s')" "var_links s'"]
      by (intro exI [of _ "replicate (bucket_choices ! 0) []"]) (simp add: s'_def)
  next
    case False
    then show ?thesis using 1(2,4) by (auto simp: s'_def)
  qed
  then have it: "items s' = filter (\<lambda>p. \<not> all \<and> preserve (vars s p)) (items s)"
    by (auto simp: items_def hash_table_for_each_rep)
  have mem: "vars s' = vars s" "key_of s' = key_of s" using 1(3) by (simp_all add: s'_def key_of_def fun_eq_iff)
  have ok': "vars_ok s'"
    using ok rep unfolding vars_ok_def it mem by (auto simp: distinct_map inj_on_def)
  have "vmap s' = (\<lambda>k. if \<not> all \<and> (\<exists>x. vmap s k = Some x \<and> preserve x) then vmap s k else None)"
  proof (rule vmap_eqI [OF ok'])
    fix k v
    show "(\<exists>p\<in>set (items s'). key_of s' p = k \<and> vars s' p = v) \<longleftrightarrow>
      (if \<not> all \<and> (\<exists>x. vmap s k = Some x \<and> preserve x) then vmap s k else None) = Some v"
      using vmap_iff [OF ok, of k v] unfolding it mem by auto
  qed
  with s' ok' show ?thesis using that by blast
qed

text \<open>
  What the operations promise.  A step is the result and what becomes of the map; the only
  thing a new allocation has to be is new.
\<close>

datatype var_op = Set_op string Value bool | Unset_op string | Preserve_op string | Destroy_op bool | Get_op string bool

fun run_var_op :: "var_env \<Rightarrow> var_op \<Rightarrow> var_state \<Rightarrow> ((errcode + (Value \<times> bool) option) \<times> var_state) option" where
  "run_var_op E (Set_op str val nonconst) s =
    map_option (\<lambda>(r, s). (case r of None \<Rightarrow> Inr None | Some e \<Rightarrow> Inl e, s)) (SetVar E str val nonconst s)"
| "run_var_op E (Unset_op str) s =
    map_option (\<lambda>(r, s). (case r of None \<Rightarrow> Inr None | Some e \<Rightarrow> Inl e, s)) (DeleteVar E str s)"
| "run_var_op E (Preserve_op str) s =
    map_option (\<lambda>(r, s). (case r of None \<Rightarrow> Inr None | Some e \<Rightarrow> Inl e, s)) (PreserveVar E str s)"
| "run_var_op E (Destroy_op all) s = map_option (\<lambda>s. (Inr None, s)) (DestroyVars all s)"
| "run_var_op E (Get_op str nonconst) s =
    map_option (\<lambda>(r, s). (case r of Inl e \<Rightarrow> Inl e | Inr v \<Rightarrow> Inr (Some v), s)) (get_var E str nonconst s)"

fun map_var_op :: "var_env \<Rightarrow> var_op \<Rightarrow> (string \<Rightarrow> Var option) \<Rightarrow>
    (errcode + (Value \<times> bool) option) \<times> (string \<Rightarrow> Var option)" where
  "map_var_op E (Set_op str val nonconst) m = (Inr None, map_set E str val nonconst m)"
| "map_var_op E (Unset_op str) m =
    (if m (var_key str) = None then Inl E_NOSUCH_VAR else Inr None, m(var_key str := None))"
| "map_var_op E (Preserve_op str) m = (Inr None, map_preserve str m)"
| "map_var_op E (Destroy_op all) m =
    (Inr None, \<lambda>k. if \<not> all \<and> (\<exists>x. m k = Some x \<and> preserve x) then m k else None)"
| "map_var_op E (Get_op str nonconst) m =
    (case m (var_key str) of
       None \<Rightarrow> (Inl E_NOSUCH_VAR, m)
     | Some x \<Rightarrow> (Inr (Some (var_v x, nonconst \<or> \<not> is_constant x)), m(var_key str \<mapsto> x\<lparr>used_since_set := True\<rparr>)))"

lemma get_var_map:
  assumes ok: "vars_ok s"
  shows "\<exists>s'. run_var_op E (Get_op str nonconst) s = Some (fst (map_var_op E (Get_op str nonconst) (vmap s)), s') \<and>
    vars_ok s' \<and> vmap s' = snd (map_var_op E (Get_op str nonconst) (vmap s))"
proof (cases "lookup_var s (var_key str)")
  case None
  with FindVar_lookup [OF ok, of E str] lookup_var_NoneD [OF ok None] candidate_ok [OF ok, of str]
  show ?thesis by (simp add: get_var_def)
next
  case (Some p)
  note p = lookup_var_SomeD [OF ok Some]
  note ok' = candidate_ok [OF ok, of str]
  have "p \<in> set (items (candidate str s))" "vars (candidate str s) p = vars s p" "key_of (candidate str s) p = var_key str"
    using p Candidate_not_item [OF ok p(1)] ok'(2) by (simp_all add: key_of_def)
  with set_var_map [OF ok'(1), of p "\<lambda>x. x\<lparr>used_since_set := True\<rparr>"] ok'(3)
    FindVar_lookup [OF ok, of E str] Some p(3)
  show ?thesis by (simp add: get_var_def set_var_def)
qed

text \<open>
  C32.  The table of variables is a map from names, without regard to their case and cut to 64
  characters, to variables: setting, unsetting, preserving, clearing and reading variables
  return what they would on the map, change the map as they should and keep the table sound,
  however the table grows and shrinks.
\<close>

theorem variables_are_map:
  assumes "vars_ok s" "fresh_var s E"
  shows "\<exists>s'. run_var_op E a s = Some (fst (map_var_op E a (vmap s)), s') \<and> vars_ok s' \<and>
    vmap s' = snd (map_var_op E a (vmap s))"
proof (cases a)
  case (Set_op str val nonconst)
  obtain s' where "SetVar E str val nonconst s = Some (None, s')" "vars_ok s'"
      "vmap s' = map_set E str val nonconst (vmap s)"
    using assms by (rule SetVar_map)
  then show ?thesis by (simp add: Set_op)
next
  case (Unset_op str)
  obtain s' where "DeleteVar E str s = Some (if vmap s (var_key str) = None then Some E_NOSUCH_VAR else None, s')"
      "vars_ok s'" "vmap s' = (vmap s)(var_key str := None)"
    using assms(1) by (rule DeleteVar_map)
  then show ?thesis by (simp add: Unset_op)
next
  case (Preserve_op str)
  obtain s' where "PreserveVar E str s = Some (None, s')" "vars_ok s'" "vmap s' = map_preserve str (vmap s)"
    using assms by (rule PreserveVar_map)
  then show ?thesis by (simp add: Preserve_op)
next
  case (Destroy_op all)
  obtain s' where "DestroyVars all s = Some s'" "vars_ok s'"
      "vmap s' = (\<lambda>k. if \<not> all \<and> (\<exists>x. vmap s k = Some x \<and> preserve x) then vmap s k else None)"
    using assms(1) by (rule DestroyVars_map)
  then show ?thesis by (simp add: Destroy_op)
next
  case (Get_op str nonconst)
  then show ?thesis using get_var_map [OF assms(1)] by simp
qed

definition sample_Var :: Var where
  "sample_Var = \<lparr>var_name = [], preserve = False, is_constant = False, used_since_set = True, filename = [],
     lineno = 0, var_v = IntV 0\<rparr>"

definition sample_var_env :: var_env where
  "sample_var_env = \<lparr>unused_vars = True, cur_file = ''a.rem'', cur_line = 3, new_var = Some (Heap 0), table_mem = True\<rparr>"

lemma InitVars_ok: "items (InitVars m l) = []" "vars_ok (InitVars m l)" "vmap (InitVars m l) = Map.empty"
proof -
  have rep: "table_rep hf (VHashTbl (InitVars m l)) (var_links (InitVars m l)) (replicate (bucket_choices ! 0) [])" for hf
    using hash_table_init_rep by (simp add: InitVars_def)
  then show it: "items (InitVars m l) = []" by (simp add: items_def hash_table_for_each_rep [OF rep])
  show "vars_ok (InitVars m l)" using rep by (auto simp: vars_ok_def it)
  show "vmap (InitVars m l) = Map.empty" by (simp add: vmap_def it)
qed

theorem variables_are_map_witness:
  "\<exists>s'. run_var_op sample_var_env (Set_op ''year'' (IntV 2026) False)
      (InitVars (\<lambda>_. sample_Var) (\<lambda>_. \<lparr>link_next = None, hashval = 0\<rparr>)) = Some (Inr None, s') \<and>
    map_option var_v (vmap s' ''year'') = Some (IntV 2026)"
proof -
  let ?s = "InitVars (\<lambda>_. sample_Var) (\<lambda>_. \<lparr>link_next = None, hashval = 0\<rparr>)"
  have "fresh_var ?s sample_var_env" by (simp add: fresh_var_def InitVars_ok sample_var_env_def)
  from variables_are_map [OF InitVars_ok(2) this, of "Set_op ''year'' (IntV 2026) False"]
  show ?thesis
    by (auto simp: map_set_def var_key_def strtolower_def StrnCpy_def VAR_NAME_LEN_def tolower_def isupper_def)
qed

end
