(* ===== verification/ExprParse.thy ===== *)
theory ExprParse
  imports ExprVal Parser
begin

text \<open>
  The parser of expressions, of \<^verbatim>\<open>src/src/expr.c\<close>: the tokens, the trees and the functions for
  the rules of the grammar.  Nodes are values here: the free list they come from, and running
  out of memory, are not modelled.  The tables of built-in functions and system variables are
  parameters.
\<close>

section \<open>Trees\<close>

record BuiltinFunc =
  bf_name :: string
  minargs :: int
  maxargs :: int
  bf_is_constant :: bool

record SysVar =
  sv_name :: string
  sv_const_int :: bool

datatype oper = logical_not | unary_minus | multiply | divide_op | do_mod | add_op | subtract
  | compare_op how | logical_or | logical_and

text \<open>
  The constructors with \<open>SHORT\<close> in their names behave as the ones without, as a comment of the
  source says: they only store a short name in the node.  The model has one of each.
\<close>

datatype expr_node =
    N_CONSTANT Value
  | N_LOCAL_VAR nat
  | N_VARIABLE string
  | N_SYSVAR SysVar
  | N_BUILTIN_FUNC BuiltinFunc "expr_node list"
  | N_USER_FUNC string "expr_node list"
  | N_OPERATOR oper "expr_node list"

definition NO_MAX_ARGS :: int where "NO_MAX_ARGS = 127"
definition MAX_PARSE_LEVEL :: nat where "MAX_PARSE_LEVEL = 2000"

definition LEGAL_CHARS :: string where "LEGAL_CHARS = ''+-*/%&|=<>!)''"

text \<open>What the parser looks up: built-in functions, system variables, and the names of the
  arguments of the function that is being defined.\<close>

record parse_env =
  pe_seps :: seps
  FindBuiltinFunc :: "string \<Rightarrow> BuiltinFunc option"
  FindSysVar :: "string \<Rightarrow> SysVar option"
  pe_locals :: "string list"

section \<open>Tokens\<close>

definition ISID :: "char \<Rightarrow> bool" where
  "ISID c \<longleftrightarrow> isalpha c \<or> isdigit c \<or> c = CHR ''_''"

text \<open>
  After a backslash in a string; the number zero is an error, which the code returns as
  \<open>E_NO_MEM\<close>.
\<close>

definition expr_escape :: "string \<Rightarrow> (errcode + char) \<times> string" where
  "expr_escape s =
    (let c = hd s; r = tl s in
     if c = CHR ''a'' then (Inr (CHR 0x07), r)
     else if c = CHR ''b'' then (Inr (CHR 0x08), r)
     else if c = CHR ''f'' then (Inr (CHR 0x0C), r)
     else if c = CHR ''n'' then (Inr (CHR 0x0A), r)
     else if c = CHR ''r'' then (Inr (CHR 0x0D), r)
     else if c = CHR ''t'' then (Inr (CHR 0x09), r)
     else if c = CHR ''v'' then (Inr (CHR 0x0B), r)
     else if c = CHR ''x'' \<and> starts isxdigit r then
       (let (n, r) = (if starts isxdigit (tl r) then (hexval (hd r) * 16 + hexval (hd (tl r)), tl (tl r))
                      else (hexval (hd r), tl r))
        in (if n = 0 then Inl E_NO_MEM else Inr (char_of n), r))
     else (Inr c, r))"

text \<open>\<open>c\<close> is the character last read outside an escape; at first it is the opening quote.\<close>

function string_token :: "string \<Rightarrow> char \<Rightarrow> string \<Rightarrow> (errcode + string) \<times> string" where
  "string_token w c s =
    (case s of
       [] \<Rightarrow> (if c = CHR 0x22 then Inr w else Inl E_MISS_QUOTE, [])
     | x # r \<Rightarrow>
         if x = CHR 0x5C then
           if r = [] then (Inl E_MISS_QUOTE, [])
           else (case expr_escape r of
                   (Inl e, r) \<Rightarrow> (Inl e, r)
                 | (Inr y, r) \<Rightarrow> string_token (w @ [y]) c r)
         else if x = CHR 0x22 then (Inr (w @ [x]), r)
         else string_token (w @ [x]) x r)"
  by pat_completeness auto
termination
  by (relation "measure (\<lambda>(w, c, s). length s)")
    (auto simp: expr_escape_def Let_def neq_Nil_conv split: if_splits)

declare string_token.simps [simp del]

definition date_quote_token :: "string \<Rightarrow> (errcode + string) \<times> string" where
  "date_quote_token s =
    (let w = takeWhile (\<lambda>c. c \<noteq> CHR 0x27) s; r = dropWhile (\<lambda>c. c \<noteq> CHR 0x27) s in
     if r = [] then (Inl E_MISS_QUOTE, []) else (Inr (CHR 0x27 # w @ [CHR 0x27]), tl r))"

definition is_word_char :: "seps \<Rightarrow> char \<Rightarrow> bool" where
  "is_word_char sp c \<longleftrightarrow> ISID c \<or> c = CHR '':'' \<or> c = CHR ''.'' \<or> c = TimeSep sp"

text \<open>A constant, a variable, or a function with its opening parenthesis.\<close>

definition word_token :: "seps \<Rightarrow> char \<Rightarrow> string \<Rightarrow> (errcode + string) \<times> string" where
  "word_token sp c s =
    (let w = c # takeWhile (is_word_char sp) s; r = dropWhile isempty (dropWhile (is_word_char sp) s) in
     if (isalpha c \<or> c = CHR ''_'') \<and> starts (\<lambda>d. d = CHR ''('') r then (Inr (w @ ''(''), tl r) else (Inr w, r))"

text \<open>Characters that are a token, characters that must come twice, and those \<open>=\<close> may follow.\<close>

definition single_char :: "char \<Rightarrow> bool" where "single_char c \<longleftrightarrow> c \<in> set '',]+-*/()%''"
definition double_char :: "char \<Rightarrow> bool" where "double_char c \<longleftrightarrow> c \<in> set ''&|=''"
definition compare_char :: "char \<Rightarrow> bool" where "compare_char c \<longleftrightarrow> c \<in> set ''!><''"

definition parse_expr_token :: "seps \<Rightarrow> string \<Rightarrow> (errcode + string) \<times> string" where
  "parse_expr_token sp s =
    (case dropWhile isempty s of
       [] \<Rightarrow> (Inr [], [])
     | c # r \<Rightarrow>
         if single_char c then (Inr [c], r)
         else if double_char c then
           if starts (\<lambda>d. d = c) r then (Inr [c, c], tl r) else (Inl E_PARSE_ERR, r)
         else if compare_char c then
           if starts (\<lambda>d. d = CHR ''='') r then (Inr [c, CHR ''=''], tl r) else (Inr [c], r)
         else if c = CHR 0x22 then if r = [] then (Inl E_MISS_QUOTE, []) else string_token [c] c r
         else if c = CHR 0x27 then date_quote_token r
         else if \<not> ISID c \<and> c \<noteq> CHR ''$'' then (Inl E_ILLEGAL_CHAR, r)
         else if c = CHR ''$'' \<and> starts isalpha r then (Inr (c # takeWhile ISID r), dropWhile ISID r)
         else word_token sp c r)"

section \<open>Atoms\<close>

text \<open>
  Numbers in base \<open>b\<close>; \<open>None\<close> when the value has become smaller than the one before, which the
  code takes for an overflow.
\<close>

fun read_number :: "int \<Rightarrow> (char \<Rightarrow> bool) \<Rightarrow> int \<Rightarrow> string \<Rightarrow> (int \<times> string) option" where
  "read_number b P v [] = Some (v, [])"
| "read_number b P v (c # s) =
    (if P c then
       (let w = cint (cint (v * b) + hexval c) in if w < v then None else read_number b P w s)
     else Some (v, c # s))"

definition string_constant :: "string \<Rightarrow> errcode + Value" where
  "string_constant s = Inr (StrV (take (length s - 2) (tl s)))"

definition date_constant :: "seps \<Rightarrow> string \<Rightarrow> errcode + Value" where
  "date_constant sp s =
    (case ParseLiteralDateOrTime sp (tl s) of
       Inl e \<Rightarrow> Inl e
     | Inr (dse, tim, r) \<Rightarrow>
         if \<not> starts (\<lambda>c. c = CHR 0x27) r then Inl (if dse \<noteq> NO_DATE then E_BAD_DATE else E_BAD_TIME)
         else if tim = NO_TIME then Inr (DateV dse)
         else if dse = NO_DATE then Inr (TimeV tim)
         else Inr (DateTimeV (cint (cint (dse * MINUTES_PER_DAY) + tim))))"

definition hex_constant :: "string \<Rightarrow> errcode + Value" where
  "hex_constant s =
    (if \<not> starts isxdigit s then Inl E_BAD_NUMBER
     else case read_number 16 isxdigit 0 s of
       None \<Rightarrow> Inl E_2HIGH
     | Some (v, r) \<Rightarrow> if r \<noteq> [] then Inl E_BAD_NUMBER else Inr (IntV v))"

definition time_constant :: "int \<Rightarrow> string \<Rightarrow> errcode + Value" where
  "time_constant h s =
    (if \<not> starts isdigit s then Inl E_BAD_TIME
     else let (m, s) = parse_digits 0 s; (ampm, s) = parse_ampm s in
       if s \<noteq> [] \<or> h > 23 \<or> m > 59 then Inl E_BAD_TIME
       else case ampm_hour ampm h of
         None \<Rightarrow> Inl E_BAD_TIME
       | Some h \<Rightarrow> Inr (TimeV (cint (cint (h * 60) + m))))"

definition number_constant :: "seps \<Rightarrow> string \<Rightarrow> errcode + Value" where
  "number_constant sp s =
    (if hd s = CHR ''0'' \<and> starts (\<lambda>c. c = CHR ''x'' \<or> c = CHR ''X'') (tl s) then hex_constant (drop 2 s)
     else case read_number 10 isdigit 0 s of
       None \<Rightarrow> Inl E_2HIGH
     | Some (v, r) \<Rightarrow>
         if starts (is_timesep sp) r then time_constant v (tl r)
         else if r \<noteq> [] then Inl E_BAD_NUMBER
         else Inr (IntV v))"

definition set_constant_value :: "seps \<Rightarrow> string \<Rightarrow> errcode + Value" where
  "set_constant_value sp s =
    (if s = [] then Inl E_EOLN
     else if hd s = CHR 0x22 then string_constant s
     else if hd s = CHR 0x27 then date_constant sp s
     else if isdigit (hd s) then number_constant sp s
     else if hd s \<in> set LEGAL_CHARS then Inl E_EXPECTING_ATOM
     else Inl E_ILLEGAL_CHAR)"

text \<open>\<open>strncasecmp\<close> of the first \<open>VAR_NAME_LEN\<close> characters, as a test for equality.\<close>

definition same_name :: "string \<Rightarrow> string \<Rightarrow> bool" where
  "same_name s t \<longleftrightarrow> map tolower (take VAR_NAME_LEN s) = map tolower (take VAR_NAME_LEN t)"

fun find_local :: "string \<Rightarrow> nat \<Rightarrow> string list \<Rightarrow> nat option" where
  "find_local s i [] = None"
| "find_local s i (v # vs) = (if same_name s v then Some i else find_local s (i + 1) vs)"

definition make_atom :: "parse_env \<Rightarrow> string \<Rightarrow> errcode + expr_node" where
  "make_atom E s =
    (if starts (\<lambda>c. isalpha c \<or> c = CHR ''_'') s then
       (case find_local s 0 (pe_locals E) of
          Some i \<Rightarrow> Inr (N_LOCAL_VAR i)
        | None \<Rightarrow> Inr (N_VARIABLE (StrnCpy s VAR_NAME_LEN)))
     else if starts (\<lambda>c. c = CHR ''$'') s \<and> starts isalpha (tl s) then
       (case FindSysVar E (tl s) of None \<Rightarrow> Inl E_NOSUCH_VAR | Some v \<Rightarrow> Inr (N_SYSVAR v))
     else (case set_constant_value (pe_seps E) s of Inl e \<Rightarrow> Inl e | Inr v \<Rightarrow> Inr (N_CONSTANT v)))"

section \<open>The grammar\<close>

text \<open>
  The state of a parse: the text that is left and \<open>ExprBuf\<close>, the token last read or peeked at.
\<close>

type_synonym pst = "string \<times> string"
type_synonym 'a parsing = "(errcode + 'a) \<times> pst"

definition pbind :: "'a parsing \<Rightarrow> ('a \<Rightarrow> pst \<Rightarrow> 'b parsing) \<Rightarrow> 'b parsing" where
  "pbind r f = (case r of (Inl e, st) \<Rightarrow> (Inl e, st) | (Inr x, st) \<Rightarrow> f x st)"

lemma pbind_cong [fundef_cong]:
  "r = r' \<Longrightarrow> (\<And>x st. r' = (Inr x, st) \<Longrightarrow> f x st = g x st) \<Longrightarrow> pbind r f = pbind r' g"
  by (auto simp: pbind_def split: prod.splits sum.splits)

lemma pbind_simps [simp]: "pbind (Inl e, st) f = (Inl e, st)" "pbind (Inr x, st) f = f x st"
  by (simp_all add: pbind_def)

definition PEEK_TOKEN :: "parse_env \<Rightarrow> pst \<Rightarrow> unit parsing" where
  "PEEK_TOKEN E st =
    (case parse_expr_token (pe_seps E) (fst st) of
       (Inl e, _) \<Rightarrow> (Inl e, st)
     | (Inr tok, _) \<Rightarrow> (Inr (), fst st, tok))"

definition GET_TOKEN :: "parse_env \<Rightarrow> pst \<Rightarrow> unit parsing" where
  "GET_TOKEN E st =
    (case parse_expr_token (pe_seps E) (fst st) of
       (Inl e, t) \<Rightarrow> (Inl e, t, snd st)
     | (Inr tok, t) \<Rightarrow> (Inr (), t, tok))"

text \<open>
  The loop of the rules for binary operators.  Each round reads an operator and an operand, so
  the text gets shorter; \<open>E_SWERR\<close> stands for a round that does not, which does not happen
  (\<open>binary_loop_rounds\<close> below).
\<close>

function binary_loop ::
    "(string \<Rightarrow> oper option) \<Rightarrow> parse_env \<Rightarrow> (pst \<Rightarrow> expr_node parsing) \<Rightarrow> expr_node \<Rightarrow> pst \<Rightarrow> expr_node parsing" where
  "binary_loop ops E operand node st =
    (case ops (snd st) of
       None \<Rightarrow> (Inr node, st)
     | Some op \<Rightarrow>
         pbind (GET_TOKEN E st) (\<lambda>_ st1.
         pbind (operand st1) (\<lambda>node2 st2.
           if length (fst st2) < length (fst st)
           then binary_loop ops E operand (N_OPERATOR op [node, node2]) st2
           else (Inl E_SWERR, st2))))"
  by pat_completeness auto
termination
  by (relation "measure (\<lambda>(ops, E, operand, node, st). length (fst st))") auto

declare binary_loop.simps [simp del]

definition binary_rule ::
    "(string \<Rightarrow> oper option) \<Rightarrow> parse_env \<Rightarrow> (pst \<Rightarrow> expr_node parsing) \<Rightarrow> pst \<Rightarrow> expr_node parsing" where
  "binary_rule ops E operand st = pbind (operand st) (\<lambda>node st. binary_loop ops E operand node st)"

text \<open>The rules of the grammar that the functions call each other for.\<close>

datatype rule = EXPR | OR_EXP | AND_EXP | EQ_EXP | CMP_EXP | TERM_EXP | FACTOR_EXP | ATOM | FUNCTION_CALL

type_synonym rules = "rule \<Rightarrow> pst \<Rightarrow> expr_node parsing"

definition parse_expression_aux :: "parse_env \<Rightarrow> rules \<Rightarrow> pst \<Rightarrow> expr_node parsing" where
  "parse_expression_aux E rec =
    binary_rule (\<lambda>t. if t = ''||'' then Some logical_or else None) E (rec OR_EXP)"

definition parse_or_expr :: "parse_env \<Rightarrow> rules \<Rightarrow> pst \<Rightarrow> expr_node parsing" where
  "parse_or_expr E rec =
    binary_rule (\<lambda>t. if t = ''&&'' then Some logical_and else None) E (rec AND_EXP)"

definition parse_and_expr :: "parse_env \<Rightarrow> rules \<Rightarrow> pst \<Rightarrow> expr_node parsing" where
  "parse_and_expr E rec =
    binary_rule (\<lambda>t. if t = ''=='' then Some (compare_op EQ)
                     else if t = ''!='' then Some (compare_op NE) else None) E (rec EQ_EXP)"

definition parse_eq_expr :: "parse_env \<Rightarrow> rules \<Rightarrow> pst \<Rightarrow> expr_node parsing" where
  "parse_eq_expr E rec =
    binary_rule (\<lambda>t. if t = ''<='' then Some (compare_op LE)
                     else if t = ''>='' then Some (compare_op GE)
                     else if t = ''<'' then Some (compare_op LT)
                     else if t = ''>'' then Some (compare_op GT) else None) E (rec CMP_EXP)"

definition parse_cmp_expr :: "parse_env \<Rightarrow> rules \<Rightarrow> pst \<Rightarrow> expr_node parsing" where
  "parse_cmp_expr E rec =
    binary_rule (\<lambda>t. if t = ''+'' then Some add_op
                     else if t = ''-'' then Some subtract else None) E (rec TERM_EXP)"

text \<open>Only here is the token after the operand peeked at; the other rules find it in \<open>ExprBuf\<close>.\<close>

definition parse_term_expr :: "parse_env \<Rightarrow> rules \<Rightarrow> pst \<Rightarrow> expr_node parsing" where
  "parse_term_expr E rec =
    binary_rule (\<lambda>t. if t = ''*'' then Some multiply
                     else if t = ''/'' then Some divide_op
                     else if t = ''%'' then Some do_mod else None) E
      (\<lambda>st. pbind (rec FACTOR_EXP st) (\<lambda>node st. pbind (PEEK_TOKEN E st) (\<lambda>_ st. (Inr node, st))))"

text \<open>Minus and not of an integer constant are computed at once.\<close>

definition unary_node :: "char \<Rightarrow> expr_node \<Rightarrow> expr_node" where
  "unary_node op node =
    (if op = CHR ''+'' then node
     else case node of
       N_CONSTANT (IntV n) \<Rightarrow>
         N_CONSTANT (IntV (if op = CHR ''-'' then cint (- n) else of_bool (n = 0)))
     | _ \<Rightarrow> N_OPERATOR (if op = CHR ''!'' then logical_not else unary_minus) [node])"

definition parse_factor :: "parse_env \<Rightarrow> rules \<Rightarrow> pst \<Rightarrow> expr_node parsing" where
  "parse_factor E rec st =
    pbind (PEEK_TOKEN E st) (\<lambda>_ st.
      if snd st \<in> {''!'', ''-'', ''+''} then
        (let op = hd (snd st); (_, st) = GET_TOKEN E st in
         pbind (rec FACTOR_EXP st) (\<lambda>node st. (Inr (unary_node op node), st)))
      else rec ATOM st)"

definition parse_atom :: "parse_env \<Rightarrow> rules \<Rightarrow> pst \<Rightarrow> expr_node parsing" where
  "parse_atom E rec st =
    pbind (PEEK_TOKEN E st) (\<lambda>_ st.
      if snd st = ''('' then
        pbind (GET_TOKEN E st) (\<lambda>_ st.
        pbind (rec EXPR st) (\<lambda>node st.
          if snd st \<noteq> '')'' then (Inl E_MISS_RIGHT_PAREN, st)
          else pbind (GET_TOKEN E st) (\<lambda>_ st. (Inr node, st))))
      else if snd st = [] then (Inl E_EOLN, st)
      else if \<not> ISID (hd (snd st)) \<and> hd (snd st) \<notin> {CHR ''$'', CHR 0x22, CHR 0x27} then
        (Inl (if hd (snd st) \<in> set LEGAL_CHARS then E_EXPECTING_ATOM else E_ILLEGAL_CHAR), st)
      else if last (snd st) = CHR ''('' then rec FUNCTION_CALL st
      else
        (let olds = fst st in
         pbind (GET_TOKEN E st) (\<lambda>_ st.
           (case make_atom E (snd st) of
              Inl e \<Rightarrow> (Inl e, olds, snd st)
            | Inr node \<Rightarrow> (Inr node, st)))))"

text \<open>Function calls: \<open>f\<close> is the built-in function, if there is one of that name.\<close>

definition too_many_args :: "BuiltinFunc option \<Rightarrow> nat \<Rightarrow> bool" where
  "too_many_args f n \<longleftrightarrow>
    (case f of None \<Rightarrow> False | Some b \<Rightarrow> int n > maxargs b \<and> maxargs b \<noteq> NO_MAX_ARGS)"

definition too_few_args :: "BuiltinFunc option \<Rightarrow> nat \<Rightarrow> bool" where
  "too_few_args f n \<longleftrightarrow> (case f of None \<Rightarrow> False | Some b \<Rightarrow> int n < minargs b)"

text \<open>After an argument: a comma that another one must follow, or the end.\<close>

definition parse_comma :: "parse_env \<Rightarrow> pst \<Rightarrow> unit parsing" where
  "parse_comma E st =
    pbind (PEEK_TOKEN E st) (\<lambda>_ st.
      if snd st \<noteq> '')'' \<and> snd st \<noteq> '','' then (Inl E_EXPECT_COMMA, st)
      else if snd st = '','' then
        pbind (GET_TOKEN E st) (\<lambda>_ st.
        pbind (PEEK_TOKEN E st) (\<lambda>_ st. if snd st = '')'' then (Inl E_PARSE_ERR, st) else (Inr (), st)))
      else (Inr (), st))"

function parse_args ::
    "parse_env \<Rightarrow> BuiltinFunc option \<Rightarrow> (pst \<Rightarrow> expr_node parsing) \<Rightarrow> expr_node list \<Rightarrow> pst \<Rightarrow> expr_node list parsing" where
  "parse_args E f expr args st =
    (if snd st = '')'' then (Inr args, st)
     else
       pbind (PEEK_TOKEN E st) (\<lambda>_ st.
         if snd st = '')'' then (Inr args, st)
         else
           pbind (expr st) (\<lambda>arg st1.
             if too_many_args f (length args + 1) then (Inl E_2MANY_ARGS, fst st, snd st1)
             else
               pbind (parse_comma E st1) (\<lambda>_ st2.
                 if length (fst st2) < length (fst st) then parse_args E f expr (args @ [arg]) st2
                 else (Inl E_SWERR, st2)))))"
  by pat_completeness auto
termination
  by (relation "measure (\<lambda>(E, f, expr, args, st). length (fst st))")
    (auto simp: PEEK_TOKEN_def split: prod.splits sum.splits)

declare parse_args.simps [simp del]

definition parse_function_call :: "parse_env \<Rightarrow> rules \<Rightarrow> pst \<Rightarrow> expr_node parsing" where
  "parse_function_call E rec st =
    (let s = butlast (snd st); f = FindBuiltinFunc E s in
     pbind (GET_TOKEN E st) (\<lambda>_ st.
     pbind (parse_args E f (rec EXPR) [] st) (\<lambda>args st.
       let ptr = fst st in
       pbind (GET_TOKEN E st) (\<lambda>_ st.
         if too_few_args f (length args) then (Inl E_2FEW_ARGS, ptr, snd st)
         else (Inr (case f of
                      Some b \<Rightarrow> N_BUILTIN_FUNC b args
                    | None \<Rightarrow> N_USER_FUNC (strtolower (StrnCpy s VAR_NAME_LEN)) args), st)))))"

text \<open>
  The functions call each other with the level one higher; \<open>k\<close> is the number of levels left.
\<close>

fun parse :: "nat \<Rightarrow> rule \<Rightarrow> parse_env \<Rightarrow> pst \<Rightarrow> expr_node parsing" where
  "parse 0 rl E st = (Inl E_OP_STK_OVER, st)"
| "parse (Suc k) rl E st =
    (let rec = (\<lambda>rl. parse k rl E) in
     case rl of
       EXPR \<Rightarrow> parse_expression_aux E rec st
     | OR_EXP \<Rightarrow> parse_or_expr E rec st
     | AND_EXP \<Rightarrow> parse_and_expr E rec st
     | EQ_EXP \<Rightarrow> parse_eq_expr E rec st
     | CMP_EXP \<Rightarrow> parse_cmp_expr E rec st
     | TERM_EXP \<Rightarrow> parse_term_expr E rec st
     | FACTOR_EXP \<Rightarrow> parse_factor E rec st
     | ATOM \<Rightarrow> parse_atom E rec st
     | FUNCTION_CALL \<Rightarrow> parse_function_call E rec st)"

text \<open>
  The level is tested only when it exceeds the highest level ever reached, which is kept between
  expressions: the limit of a parse is the larger of \<open>MAX_PARSE_LEVEL\<close> and that level \<open>high\<close>, and
  a parse that is stopped has raised it by one.  Below \<open>MAX_PARSE_LEVEL\<close> the highest level has no
  effect, and is not kept up to date here.  The result is the tree or error, the text left and
  the highest level.
\<close>

definition parse_expression ::
    "parse_env \<Rightarrow> bool \<Rightarrow> nat \<Rightarrow> string \<Rightarrow> (errcode + expr_node) \<times> string \<times> nat" where
  "parse_expression E disabled high s =
    (if disabled then (Inl E_EXPR_DISABLED, s, high)
     else
       let limit = max MAX_PARSE_LEVEL high; (r, t, _) = parse (limit + 1) EXPR E (s, []);
           t = dropWhile isempty t
       in (if t \<noteq> [] \<and> hd t \<noteq> CHR '']'' then case r of Inr _ \<Rightarrow> Inl E_EXPECTING_EOXPR | Inl e \<Rightarrow> Inl e
           else r,
           t, if r = Inl E_OP_STK_OVER then limit + 1 else high))"

section \<open>Parsing reads\<close>

lemma expr_escape_shorter: "s \<noteq> [] \<Longrightarrow> expr_escape s = (r, t) \<Longrightarrow> length t < length s"
  by (auto simp: expr_escape_def Let_def neq_Nil_conv split: if_splits)

lemma string_token_le: "string_token w c s = (Inr tok, t) \<Longrightarrow> length t \<le> length s"
proof (induction w c s rule: string_token.induct)
  case (1 w c s)
  show ?case
  proof (cases s)
    case Nil
    then show ?thesis using "1.prems" by (simp add: string_token.simps [of w c "[]"])
  next
    case (Cons x r)
    show ?thesis
    proof (cases "x = CHR 0x5C \<and> r \<noteq> []")
      case True
      obtain e u where e: "expr_escape r = (e, u)" by (cases "expr_escape r")
      then obtain y where "e = Inr y" "string_token (w @ [y]) c u = (Inr tok, t)"
        using "1.prems" Cons True
        by (auto simp: string_token.simps [of w c "CHR 0x5C # r"] split: sum.splits)
      then show ?thesis
        using "1.IH"(1) [OF Cons _ _ e [symmetric]] Cons True expr_escape_shorter [OF _ e] by force
    next
      case False
      then show ?thesis
        using "1.prems" "1.IH"(2) [OF Cons] Cons
        by (auto simp: string_token.simps [of w c "x # r"] split: if_splits intro: le_SucI)
    qed
  qed
qed

lemma dropWhile_le: "length (dropWhile P (s :: string)) \<le> length s"
  by (rule length_dropWhile_le)

lemma word_token_le: "word_token sp c s = (Inr tok, t) \<Longrightarrow> length t \<le> length s"
proof -
  assume *: "word_token sp c s = (Inr tok, t)"
  let ?r = "dropWhile isempty (dropWhile (is_word_char sp) s)"
  have "t = ?r \<or> t = tl ?r" using * by (auto simp: word_token_def Let_def split: if_splits)
  then have "length t \<le> length ?r" by auto
  then show ?thesis using dropWhile_le [of isempty "dropWhile (is_word_char sp) s"] dropWhile_le [of "is_word_char sp" s]
    by linarith
qed

lemma date_quote_token_le: "date_quote_token s = (Inr tok, t) \<Longrightarrow> length t \<le> length s"
proof -
  assume *: "date_quote_token s = (Inr tok, t)"
  have "t = tl (dropWhile (\<lambda>c. c \<noteq> CHR 0x27) s)"
    using * by (auto simp: date_quote_token_def Let_def split: if_splits)
  then show ?thesis using dropWhile_le [of "\<lambda>c. c \<noteq> CHR 0x27" s] by simp
qed

lemma parse_expr_token_le: "parse_expr_token sp s = (Inr tok, t) \<Longrightarrow> length t \<le> length s"
  and parse_expr_token_less: "parse_expr_token sp s = (Inr tok, t) \<Longrightarrow> tok \<noteq> [] \<Longrightarrow> length t < length s"
proof -
  assume *: "parse_expr_token sp s = (Inr tok, t)"
  have s: "length (dropWhile isempty s) \<le> length s" by (rule dropWhile_le)
  consider (Nil) "tok = []" "t = []" | (Cons) c r where "dropWhile isempty s = c # r"
    using * by (cases "dropWhile isempty s") (auto simp: parse_expr_token_def)
  then have "length t \<le> length s \<and> (tok \<noteq> [] \<longrightarrow> length t < length s)"
  proof cases
    case Cons
    have "length t \<le> length r"
      using * Cons dropWhile_le [of ISID r]
      by (auto simp: parse_expr_token_def dest: string_token_le word_token_le date_quote_token_le split: if_splits)
    then show ?thesis using s Cons by simp
  qed simp
  then show "length t \<le> length s" "tok \<noteq> [] \<Longrightarrow> length t < length s" by simp_all
qed

text \<open>What \<open>PEEK_TOKEN\<close> leaves in \<open>ExprBuf\<close> is the first token of the text.\<close>

definition peeked :: "parse_env \<Rightarrow> pst \<Rightarrow> bool" where
  "peeked E st \<longleftrightarrow> (\<exists>t. parse_expr_token (pe_seps E) (fst st) = (Inr (snd st), t))"

lemma PEEK_TOKEN_OK: "PEEK_TOKEN E st = (Inr u, st') \<Longrightarrow> fst st' = fst st \<and> peeked E st'"
  by (auto simp: PEEK_TOKEN_def peeked_def split: prod.splits sum.splits)

lemma GET_TOKEN_le: "GET_TOKEN E st = (Inr u, st') \<Longrightarrow> length (fst st') \<le> length (fst st)"
  by (auto simp: GET_TOKEN_def parse_expr_token_le split: prod.splits sum.splits)

lemma GET_TOKEN_less:
  "GET_TOKEN E st = (Inr u, st') \<Longrightarrow> peeked E st \<Longrightarrow> snd st \<noteq> [] \<Longrightarrow> length (fst st') < length (fst st)"
  by (auto simp: GET_TOKEN_def peeked_def parse_expr_token_less)

lemma pbind_OK: "pbind r f = (Inr y, st') \<Longrightarrow> (\<And>x st. r = (Inr x, st) \<Longrightarrow> f x st = (Inr y, st') \<Longrightarrow> P) \<Longrightarrow> P"
  by (cases r; cases "fst r") auto

definition shortens :: "(pst \<Rightarrow> 'a parsing) \<Rightarrow> bool" where
  "shortens f \<longleftrightarrow> (\<forall>st x st'. f st = (Inr x, st') \<longrightarrow> length (fst st') < length (fst st))"

lemma shortensD: "shortens f \<Longrightarrow> f st = (Inr x, st') \<Longrightarrow> length (fst st') < length (fst st)"
  unfolding shortens_def by blast

text \<open>The loop is the one of the code: the test of the length never fails.\<close>

lemma binary_loop_rounds:
  assumes "shortens operand"
  shows "binary_loop ops E operand node st =
    (case ops (snd st) of
       None \<Rightarrow> (Inr node, st)
     | Some op \<Rightarrow>
         pbind (GET_TOKEN E st) (\<lambda>_ st1.
         pbind (operand st1) (\<lambda>node2 st2. binary_loop ops E operand (N_OPERATOR op [node, node2]) st2)))"
proof -
  have "length (fst st2) < length (fst st)"
    if "GET_TOKEN E st = (Inr u, st1)" "operand st1 = (Inr n, st2)" for u st1 n st2
    using GET_TOKEN_le [OF that(1)] shortensD [OF assms that(2)] by simp
  then show ?thesis
    by (subst binary_loop.simps)
      (auto split: option.splits intro!: pbind_cong)
qed

lemma binary_loop_le:
  "binary_loop ops E operand node st = (Inr n, st') \<Longrightarrow> length (fst st') \<le> length (fst st)"
proof (induction ops E operand node st rule: binary_loop.induct)
  case (1 ops E operand node st)
  show ?case
  proof (cases "ops (snd st)")
    case None
    then show ?thesis using "1.prems" by (simp add: binary_loop.simps [of ops E operand node st])
  next
    case (Some op)
    from "1.prems" obtain u st1 node2 st2 where
      *: "GET_TOKEN E st = (Inr u, st1)" "operand st1 = (Inr node2, st2)"
        "length (fst st2) < length (fst st)"
        "binary_loop ops E operand (N_OPERATOR op [node, node2]) st2 = (Inr n, st')"
      by (auto simp: binary_loop.simps [of ops E operand node st] Some elim!: pbind_OK split: if_splits)
    from "1.IH" [OF Some this(1-4)] *(3) show ?thesis by simp
  qed
qed

lemma binary_rule_shortens:
  assumes "shortens operand"
  shows "shortens (binary_rule ops E operand)"
  unfolding shortens_def
proof (intro allI impI)
  fix st x st'
  assume "binary_rule ops E operand st = (Inr x, st')"
  then obtain node st1 where "operand st = (Inr node, st1)" "binary_loop ops E operand node st1 = (Inr x, st')"
    unfolding binary_rule_def by (rule pbind_OK)
  from shortensD [OF assms this(1)] binary_loop_le [OF this(2)]
  show "length (fst st') < length (fst st)" by simp
qed

lemma parse_comma_le: "parse_comma E st = (Inr u, st') \<Longrightarrow> length (fst st') \<le> length (fst st)"
  by (auto simp: parse_comma_def elim!: pbind_OK dest!: PEEK_TOKEN_OK GET_TOKEN_le split: if_splits)

lemma parse_args_rounds:
  assumes "shortens expr"
  shows "parse_args E f expr args st =
    (if snd st = '')'' then (Inr args, st)
     else
       pbind (PEEK_TOKEN E st) (\<lambda>_ st.
         if snd st = '')'' then (Inr args, st)
         else
           pbind (expr st) (\<lambda>arg st1.
             if too_many_args f (length args + 1) then (Inl E_2MANY_ARGS, fst st, snd st1)
             else pbind (parse_comma E st1) (\<lambda>_ st2. parse_args E f expr (args @ [arg]) st2))))"
proof -
  have "length (fst st2) < length (fst st)"
    if "expr st = (Inr a, st1)" "parse_comma E st1 = (Inr u, st2)" for st a st1 u st2
    using shortensD [OF assms that(1)] parse_comma_le [OF that(2)] by simp
  then show ?thesis
    by (subst parse_args.simps) (auto intro!: pbind_cong)
qed

lemma parse_args_le: "parse_args E f expr args st = (Inr xs, st') \<Longrightarrow> length (fst st') \<le> length (fst st)"
proof (induction E f expr args st rule: parse_args.induct)
  case (1 E f expr args st)
  show ?case
  proof (cases "snd st = '')''")
    case False
    from "1.prems" False obtain u st1 where st1: "PEEK_TOKEN E st = (Inr u, st1)"
      by (auto simp: parse_args.simps [of E f expr args st] elim!: pbind_OK)
    then have fst: "fst st1 = fst st" by (simp add: PEEK_TOKEN_OK)
    show ?thesis
    proof (cases "snd st1 = '')''")
      case True
      then show ?thesis using "1.prems" False st1 fst by (simp add: parse_args.simps [of E f expr args st])
    next
      case nend: False
      with "1.prems" False st1 fst obtain arg st2 v st3 where
        *: "expr st1 = (Inr arg, st2)" "\<not> too_many_args f (length args + 1)"
          "parse_comma E st2 = (Inr v, st3)" "length (fst st3) < length (fst st1)"
          "parse_args E f expr (args @ [arg]) st3 = (Inr xs, st')"
        by (auto simp: parse_args.simps [of E f expr args st] elim!: pbind_OK split: if_splits)
      from "1.IH" [OF False st1 nend this] *(4) fst show ?thesis by simp
    qed
  qed (use "1.prems" in \<open>simp add: parse_args.simps [of E f expr args st]\<close>)
qed

lemma parse_function_call_less:
  assumes "parse_function_call E rec st = (Inr n, st')" "peeked E st" "snd st \<noteq> []"
  shows "length (fst st') < length (fst st)"
proof -
  obtain u st1 args st2 v where *:
    "GET_TOKEN E st = (Inr u, st1)"
    "parse_args E (FindBuiltinFunc E (butlast (snd st))) (rec EXPR) [] st1 = (Inr args, st2)"
    "GET_TOKEN E st2 = (Inr v, st')"
    using assms(1) unfolding parse_function_call_def Let_def
    by (elim pbind_OK) (simp split: if_splits)
  from GET_TOKEN_less [OF *(1) assms(2,3)] parse_args_le [OF *(2)] GET_TOKEN_le [OF *(3)]
  show ?thesis by linarith
qed

lemma parse_atom_cases:
  assumes "parse_atom E rec st = (Inr n, st')"
  obtains (paren) u st1 v st2 st3 w where "PEEK_TOKEN E st = (Inr u, st1)" "snd st1 = ''(''"
      "GET_TOKEN E st1 = (Inr v, st2)" "rec EXPR st2 = (Inr n, st3)" "snd st3 = '')''"
      "GET_TOKEN E st3 = (Inr w, st')"
  | (call) u st1 where "PEEK_TOKEN E st = (Inr u, st1)" "snd st1 \<noteq> []" "last (snd st1) = CHR ''(''"
      "rec FUNCTION_CALL st1 = (Inr n, st')"
  | (atom) u st1 v where "PEEK_TOKEN E st = (Inr u, st1)" "snd st1 \<noteq> []"
      "GET_TOKEN E st1 = (Inr v, st')" "make_atom E (snd st') = Inr n"
proof -
  obtain u st1 where *: "PEEK_TOKEN E st = (Inr u, st1)"
    using assms unfolding parse_atom_def by (elim pbind_OK) simp
  note atom = assms [unfolded parse_atom_def * pbind_simps]
  show thesis
  proof (cases "snd st1 = ''(''")
    case True
    with atom have "pbind (GET_TOKEN E st1) (\<lambda>_ st.
        pbind (rec EXPR st) (\<lambda>node st.
          if snd st \<noteq> '')'' then (Inl E_MISS_RIGHT_PAREN, st)
          else pbind (GET_TOKEN E st) (\<lambda>_ st. (Inr node, st)))) = (Inr n, st')" by simp
    then show ?thesis by (elim pbind_OK) (auto elim!: pbind_OK split: if_splits intro: paren [OF * True])
  next
    case False
    note rest = atom [unfolded if_not_P [OF False]]
    then have ne: "snd st1 \<noteq> []" by auto
    show ?thesis
    proof (cases "last (snd st1) = CHR ''(''")
      case True
      then show ?thesis using rest ne call [OF * ne] by (simp split: if_splits)
    next
      case last: False
      have "pbind (GET_TOKEN E st1) (\<lambda>_ st.
           (case make_atom E (snd st) of
              Inl e \<Rightarrow> (Inl e, fst st1, snd st)
            | Inr node \<Rightarrow> (Inr node, st))) = (Inr n, st')"
        using rest ne last by (simp add: Let_def split: if_splits)
      then show ?thesis by (elim pbind_OK) (simp split: sum.splits, metis that(3) [OF * ne])
    qed
  qed
qed

lemma parse_atom_shortens:
  assumes "shortens (rec EXPR)"
    and call: "\<And>st n st'. rec FUNCTION_CALL st = (Inr n, st') \<Longrightarrow> peeked E st \<Longrightarrow> snd st \<noteq> [] \<Longrightarrow>
      length (fst st') < length (fst st)"
  shows "shortens (parse_atom E rec)"
  unfolding shortens_def
proof (intro allI impI)
  fix st n st'
  assume "parse_atom E rec st = (Inr n, st')"
  then show "length (fst st') < length (fst st)"
  proof (cases rule: parse_atom_cases)
    case (paren u st1 v st2 st3 w)
    from PEEK_TOKEN_OK [OF paren(1)] GET_TOKEN_le [OF paren(3)] shortensD [OF assms(1) paren(4)]
      GET_TOKEN_le [OF paren(6)]
    show ?thesis by simp
  next
    case (call u st1)
    from PEEK_TOKEN_OK [OF call(1)] assms(2) [OF call(4) _ call(2)] show ?thesis by simp
  next
    case (atom u st1 v)
    from PEEK_TOKEN_OK [OF atom(1)] GET_TOKEN_less [OF atom(3) _ atom(2)] show ?thesis by simp
  qed
qed

lemma GET_TOKEN_text: "length (fst (snd (GET_TOKEN E st))) \<le> length (fst st) \<or> fst (GET_TOKEN E st) \<noteq> Inr ()"
  using GET_TOKEN_le [of E st "()" "snd (GET_TOKEN E st)"] by (cases "GET_TOKEN E st") auto

lemma parse_factor_shortens:
  assumes "shortens (rec FACTOR_EXP)" "shortens (rec ATOM)"
  shows "shortens (parse_factor E rec)"
  unfolding shortens_def
proof (intro allI impI)
  fix st n st'
  assume parse: "parse_factor E rec st = (Inr n, st')"
  then obtain u st1 where *: "PEEK_TOKEN E st = (Inr u, st1)"
    unfolding parse_factor_def by (elim pbind_OK) simp
  note st1 = PEEK_TOKEN_OK [OF *]
  show "length (fst st') < length (fst st)"
  proof (cases "snd st1 \<in> {''!'', ''-'', ''+''}")
    case False
    then have "rec ATOM st1 = (Inr n, st')" using parse * by (simp add: parse_factor_def)
    from shortensD [OF assms(2) this] st1 show ?thesis by simp
  next
    case True
    obtain v st2 where get: "GET_TOKEN E st1 = (v, st2)" by (cases "GET_TOKEN E st1")
    then have "v = Inr ()" using st1 by (auto simp: peeked_def GET_TOKEN_def split: sum.splits)
    from GET_TOKEN_le [OF get [unfolded this]] have le: "length (fst st2) \<le> length (fst st1)" .
    obtain node where "rec FACTOR_EXP st2 = (Inr node, st')"
      using parse True * get by (auto simp: parse_factor_def Let_def elim!: pbind_OK)
    from shortensD [OF assms(1) this] le st1 show ?thesis by simp
  qed
qed

lemma peek_after_shortens:
  assumes "shortens f"
  shows "shortens (\<lambda>st. pbind (f st) (\<lambda>n st. pbind (PEEK_TOKEN E st) (\<lambda>_ st. (Inr n, st))))"
  unfolding shortens_def
proof (intro allI impI)
  fix st n st'
  assume "pbind (f st) (\<lambda>n st. pbind (PEEK_TOKEN E st) (\<lambda>_ st. (Inr n, st))) = (Inr n, st')"
  then obtain m st1 u where "f st = (Inr m, st1)" "PEEK_TOKEN E st1 = (Inr u, st')"
    by (auto elim!: pbind_OK)
  from shortensD [OF assms this(1)] PEEK_TOKEN_OK [OF this(2)]
  show "length (fst st') < length (fst st)" by simp
qed

lemmas rule_defs = parse_expression_aux_def parse_or_expr_def parse_and_expr_def parse_eq_expr_def
  parse_cmp_expr_def parse_term_expr_def

lemma parse_shortens:
  "rl \<noteq> FUNCTION_CALL \<Longrightarrow> shortens (parse k rl E)"
  "parse k FUNCTION_CALL E st = (Inr n, st') \<Longrightarrow> peeked E st \<Longrightarrow> snd st \<noteq> [] \<Longrightarrow>
    length (fst st') < length (fst st)"
proof (induction k arbitrary: rl st n st')
  case 0
  { case 1 then show ?case by (simp add: shortens_def) }
  { case 2 then show ?case by simp }
next
  case (Suc k)
  { case 1
    have "parse (Suc k) rl E = (let rec = (\<lambda>rl. parse k rl E) in
      case rl of
        EXPR \<Rightarrow> parse_expression_aux E rec
      | OR_EXP \<Rightarrow> parse_or_expr E rec
      | AND_EXP \<Rightarrow> parse_and_expr E rec
      | EQ_EXP \<Rightarrow> parse_eq_expr E rec
      | CMP_EXP \<Rightarrow> parse_cmp_expr E rec
      | TERM_EXP \<Rightarrow> parse_term_expr E rec
      | FACTOR_EXP \<Rightarrow> parse_factor E rec
      | ATOM \<Rightarrow> parse_atom E rec
      | FUNCTION_CALL \<Rightarrow> parse_function_call E rec)"
      by (rule ext) (cases rl; simp add: Let_def)
    then show ?case
      using 1 Suc.IH(1) Suc.IH(2)
      by (cases rl) (auto simp: Let_def rule_defs intro!: binary_rule_shortens peek_after_shortens
          parse_factor_shortens parse_atom_shortens) }
  { case 2 then show ?case using parse_function_call_less by simp }
qed

end
