(* ===== verification/Funcs.thy ===== *)
theory Funcs
  imports Vars ExprParse
begin

text \<open>
  Built-in functions of expressions, \<^verbatim>\<open>src/src/funcs.c\<close>: the ones that compute a value from
  values.  A function gets the list of its arguments and returns a value or an error; \<open>ARG(i)\<close> of
  the source is \<open>args ! i\<close>, and the evaluator has checked the number of arguments.  Functions that
  read a date share a cache.  Memory is unlimited.
\<close>

section \<open>Arguments\<close>

definition HASDATE :: "Value \<Rightarrow> bool" where
  "HASDATE v \<longleftrightarrow> vtype_of v = DATE_TYPE \<or> vtype_of v = DATETIME_TYPE"

definition HASTIME :: "Value \<Rightarrow> bool" where
  "HASTIME v \<longleftrightarrow> vtype_of v = TIME_TYPE \<or> vtype_of v = DATETIME_TYPE"

definition DATEPART :: "Value \<Rightarrow> int" where
  "DATEPART v = (if vtype_of v = DATE_TYPE then val_of v else val_of v sdiv MINUTES_PER_DAY)"

definition TIMEPART :: "Value \<Rightarrow> int" where
  "TIMEPART v = (if vtype_of v = TIME_TYPE then val_of v else val_of v smod MINUTES_PER_DAY)"

type_synonym 'a result = "errcode + 'a"

definition and_then :: "'a result \<Rightarrow> ('a \<Rightarrow> 'b result) \<Rightarrow> 'b result" where
  "and_then r f = (case r of Inl e \<Rightarrow> Inl e | Inr x \<Rightarrow> f x)"

definition check :: "bool \<Rightarrow> errcode \<Rightarrow> 'b result \<Rightarrow> 'b result" where
  "check ok e r = (if ok then r else Inl e)"

text \<open>\<open>ASSERT_TYPE\<close> followed by the use of the value.\<close>

definition int_arg :: "Value \<Rightarrow> int result" where
  "int_arg v = (case v of IntV n \<Rightarrow> Inr n | _ \<Rightarrow> Inl E_BAD_TYPE)"

definition str_arg :: "Value \<Rightarrow> string result" where
  "str_arg v = (case v of StrV s \<Rightarrow> Inr s | _ \<Rightarrow> Inl E_BAD_TYPE)"

definition get_month :: "seps \<Rightarrow> Value \<Rightarrow> int result" where
  "get_month sp v =
    (case v of
       IntV n \<Rightarrow> check (n \<ge> 1) E_2LOW (check (n \<le> 12) E_2HIGH (Inr (n - 1)))
     | StrV s \<Rightarrow> (case FindToken sp s of (ty, m) \<Rightarrow> check (ty = T_Month) E_CANT_PARSE_MONTH (Inr m))
     | _ \<Rightarrow> Inl E_BAD_TYPE)"

section \<open>Dates and times\<close>

definition make_date :: "int \<Rightarrow> int \<Rightarrow> int \<Rightarrow> int result" where
  "make_date y m d = check (DateOK y m d) E_BAD_DATE (Inr (DSE y m d))"

definition FDate :: "seps \<Rightarrow> Value list \<Rightarrow> Value result" where
  "FDate sp args =
    and_then (if HASDATE (args ! 0) then Inr (case FromDSE (DATEPART (args ! 0)) of (y, m, d) \<Rightarrow> y)
              else int_arg (args ! 0)) (\<lambda>y.
    and_then (if HASDATE (args ! 1) then Inr (case FromDSE (DATEPART (args ! 1)) of (y, m, d) \<Rightarrow> m)
              else get_month sp (args ! 1)) (\<lambda>m.
    and_then (if HASDATE (args ! 2) then Inr (case FromDSE (DATEPART (args ! 2)) of (y, m, d) \<Rightarrow> d)
              else int_arg (args ! 2)) (\<lambda>d.
    and_then (make_date y m d) (\<lambda>dse. Inr (DateV dse)))))"

definition clock :: "int \<Rightarrow> int \<Rightarrow> int result" where
  "clock h m = check (\<not> (h < 0 \<or> m < 0)) E_2LOW (check (\<not> (h > 23 \<or> m > 59)) E_2HIGH (Inr (60 * h + m)))"

definition date_minutes :: "int \<Rightarrow> int \<Rightarrow> int" where
  "date_minutes dse tim = cint (cint (MINUTES_PER_DAY * dse) + tim)"

definition FDateTime :: "seps \<Rightarrow> Value list \<Rightarrow> Value result" where
  "FDateTime sp args =
    (case args of
       [DateV dse, TimeV tim] \<Rightarrow> Inr (DateTimeV (date_minutes dse tim))
     | [DateV dse, IntV h, IntV mi] \<Rightarrow> and_then (clock h mi) (\<lambda>tim. Inr (DateTimeV (date_minutes dse tim)))
     | [IntV y, mon, IntV d, TimeV tim] \<Rightarrow>
         and_then (get_month sp mon) (\<lambda>m.
         and_then (make_date y m d) (\<lambda>dse. Inr (DateTimeV (date_minutes dse tim))))
     | [IntV y, mon, IntV d, IntV h, IntV mi] \<Rightarrow>
         and_then (get_month sp mon) (\<lambda>m.
         and_then (make_date y m d) (\<lambda>dse.
         and_then (clock h mi) (\<lambda>tim. Inr (DateTimeV (date_minutes dse tim)))))
     | _ \<Rightarrow> Inl (if 2 \<le> length args \<and> length args \<le> 5 then E_BAD_TYPE else E_2MANY_ARGS))"

definition FTime :: "Value list \<Rightarrow> Value result" where
  "FTime args =
    (case (args ! 0, args ! 1) of
       (IntV h, IntV m) \<Rightarrow> and_then (clock h m) (\<lambda>t. Inr (TimeV t))
     | _ \<Rightarrow> Inl E_BAD_TYPE)"

definition FHour :: "Value list \<Rightarrow> Value result" where
  "FHour args = check (HASTIME (args ! 0)) E_BAD_TYPE (Inr (IntV (TIMEPART (args ! 0) sdiv 60)))"

definition FMinute :: "Value list \<Rightarrow> Value result" where
  "FMinute args = check (HASTIME (args ! 0)) E_BAD_TYPE (Inr (IntV (TIMEPART (args ! 0) smod 60)))"

definition FTimepart :: "Value list \<Rightarrow> Value result" where
  "FTimepart args = check (HASTIME (args ! 0)) E_BAD_TYPE (Inr (TimeV (TIMEPART (args ! 0))))"

definition FDatepart :: "Value list \<Rightarrow> Value result" where
  "FDatepart args = check (HASDATE (args ! 0)) E_BAD_TYPE (Inr (DateV (DATEPART (args ! 0))))"

definition FDaysinmon :: "seps \<Rightarrow> Value list \<Rightarrow> Value result" where
  "FDaysinmon sp args =
    (if length args = 1
     then check (HASDATE (args ! 0)) E_BAD_TYPE
            (case FromDSE (DATEPART (args ! 0)) of (y, m, d) \<Rightarrow> Inr (IntV (DaysInMonth m y)))
     else
       and_then (int_arg (args ! 1)) (\<lambda>y.
       and_then (get_month sp (args ! 0)) (\<lambda>m.
       check (y \<ge> BASE) E_2LOW (check (y \<le> BASE + YR_RANGE) E_2HIGH (Inr (IntV (DaysInMonth m y)))))))"

definition FIsleap :: "Value list \<Rightarrow> Value result" where
  "FIsleap args =
    (if HASDATE (args ! 0) then (case FromDSE (DATEPART (args ! 0)) of (y, m, d) \<Rightarrow> Inr (IntV (IsLeapYear y)))
     else and_then (int_arg (args ! 0)) (\<lambda>y. Inr (IntV (IsLeapYear y))))"

subsection \<open>The cache\<close>

text \<open>The date that \<open>FromDSE\<close> was last asked for, and its parts.\<close>

record date_cache =
  CacheDse :: int
  CacheYear :: int
  CacheMon :: int
  CacheDay :: int

definition cache_init :: date_cache where
  "cache_init = \<lparr>CacheDse = -1, CacheYear = 0, CacheMon = 0, CacheDay = 0\<rparr>"

definition cached :: "int \<Rightarrow> date_cache \<Rightarrow> date_cache" where
  "cached v c =
    (if v = CacheDse c then c
     else case FromDSE v of (y, m, d) \<Rightarrow> \<lparr>CacheDse = v, CacheYear = y, CacheMon = m, CacheDay = d\<rparr>)"

definition FDay :: "Value list \<Rightarrow> date_cache \<Rightarrow> Value result \<times> date_cache" where
  "FDay args c =
    (if \<not> HASDATE (args ! 0) then (Inl E_BAD_TYPE, c)
     else let c = cached (DATEPART (args ! 0)) c in (Inr (IntV (CacheDay c)), c))"

definition FMonnum :: "seps \<Rightarrow> Value list \<Rightarrow> date_cache \<Rightarrow> Value result \<times> date_cache" where
  "FMonnum sp args c =
    (case args ! 0 of
       StrV s \<Rightarrow> (case FindToken sp s of (ty, m) \<Rightarrow> check (ty = T_Month) E_CANT_PARSE_MONTH (Inr (IntV (m + 1))), c)
     | v \<Rightarrow>
         if \<not> HASDATE v then (Inl E_BAD_TYPE, c)
         else let c = cached (DATEPART v) c in (Inr (IntV (CacheMon c + 1)), c))"

definition FYear :: "Value list \<Rightarrow> date_cache \<Rightarrow> Value result \<times> date_cache" where
  "FYear args c =
    (if \<not> HASDATE (args ! 0) then (Inl E_BAD_TYPE, c)
     else let c = cached (DATEPART (args ! 0)) c in (Inr (IntV (CacheYear c)), c))"

text \<open>The names of months and days in the user's language are a parameter.\<close>

definition FMon :: "seps \<Rightarrow> (int \<Rightarrow> string) \<Rightarrow> Value list \<Rightarrow> date_cache \<Rightarrow> Value result \<times> date_cache" where
  "FMon sp get_month_name args c =
    (case vtype_of (args ! 0) of
       TIME_TYPE \<Rightarrow> (Inl E_BAD_TYPE, c)
     | INT_TYPE \<Rightarrow> (and_then (get_month sp (args ! 0)) (\<lambda>m. Inr (StrV (get_month_name m))), c)
     | STR_TYPE \<Rightarrow> (and_then (get_month sp (args ! 0)) (\<lambda>m. Inr (StrV (get_month_name m))), c)
     | _ \<Rightarrow> let c = cached (DATEPART (args ! 0)) c in (Inr (StrV (get_month_name (CacheMon c))), c))"

definition FWkdaynum :: "seps \<Rightarrow> Value list \<Rightarrow> Value result" where
  "FWkdaynum sp args =
    (case args ! 0 of
       StrV s \<Rightarrow> (case FindToken sp s of (ty, d) \<Rightarrow> check (ty = T_WkDay) E_CANT_PARSE_WKDAY (Inr (IntV ((d + 1) smod 7))))
     | v \<Rightarrow> check (HASDATE v) E_BAD_TYPE (Inr (IntV ((DATEPART v + 1) smod 7))))"

definition FWkday :: "(int \<Rightarrow> string) \<Rightarrow> Value list \<Rightarrow> Value result" where
  "FWkday get_day_name args =
    (case args ! 0 of
       IntV n \<Rightarrow> check (n \<ge> 0) E_2LOW (check (n \<le> 6) E_2HIGH (Inr (StrV (get_day_name (if n - 1 < 0 then 6 else n - 1)))))
     | v \<Rightarrow> check (HASDATE v) E_BAD_TYPE (Inr (StrV (get_day_name (DATEPART v smod 7)))))"

section \<open>Easter\<close>

definition easter_date :: "int \<Rightarrow> int" where
  "easter_date y =
    (let g = y smod 19 + 1;
         c = y sdiv 100 + 1;
         x = (3 * c) sdiv 4 - 12;
         z = (8 * c + 5) sdiv 25 - 5;
         d = (5 * y) sdiv 4 - x - 10;
         e = (11 * g + 20 + z - x) smod 30;
         e = (if e < 0 then e + 30 else e);
         e = (if e = 24 \<or> e = 25 \<and> g > 11 then e + 1 else e);
         n = 44 - e;
         n = (if n < 21 then n + 30 else n);
         d = n + 7 - (d + n) smod 7
     in if d \<le> 31 then DSE y 2 d else DSE y 3 (d - 31))"

definition orthodox_date :: "int \<Rightarrow> int" where
  "orthodox_date y =
    (let a = y smod 4;
         b = y smod 7;
         c = y smod 19;
         dd = (19 * c + 15) smod 30;
         e = (2 * a + 4 * b - dd + 34) smod 7;
         f = dd + e + 114;
         m = f sdiv 31 - 1;
         d = f smod 31 + 1
     in DSE y m d + JulianToGregorianOffset y m)"

text \<open>The year to start with, and the date that must not be passed, \<open>-1\<close> if there is none.\<close>

definition easter_arg :: "int \<Rightarrow> Value list \<Rightarrow> (int \<times> int) result" where
  "easter_arg DSEToday args =
    (if args = [] then (case FromDSE DSEToday of (y, m, d) \<Rightarrow> Inr (y, DSEToday))
     else case args ! 0 of
       IntV y \<Rightarrow> check (y \<ge> BASE) E_2LOW (check (y \<le> BASE + YR_RANGE) E_2HIGH (Inr (y, -1)))
     | v \<Rightarrow>
         check (HASDATE v) E_BAD_TYPE (case FromDSE (DATEPART v) of (y, m, d) \<Rightarrow> Inr (y, DATEPART v)))"

partial_function (option) easter_loop :: "(int \<Rightarrow> int) \<Rightarrow> int \<Rightarrow> int \<Rightarrow> int option" where
  "easter_loop easter y base =
    (if base > -1 \<and> easter y < base then easter_loop easter (y + 1) base else Some (easter y))"

definition easter_func :: "(int \<Rightarrow> int) \<Rightarrow> int \<Rightarrow> Value list \<Rightarrow> Value result option" where
  "easter_func easter DSEToday args =
    (case easter_arg DSEToday args of
       Inl e \<Rightarrow> Some (Inl e)
     | Inr (y, base) \<Rightarrow>
         (case easter_loop easter y base of None \<Rightarrow> None | Some dse \<Rightarrow> Some (Inr (DateV dse))))"

definition FEasterdate :: "int \<Rightarrow> Value list \<Rightarrow> Value result option" where
  "FEasterdate = easter_func easter_date"

definition FOrthodoxeaster :: "int \<Rightarrow> Value list \<Rightarrow> Value result option" where
  "FOrthodoxeaster = easter_func orthodox_date"

section \<open>Weeks\<close>

lemma week_pred:
  assumes "(n::int) mod k \<noteq> 0" "0 < k" "m = n - 1"
  shows "m mod k = n mod k - 1"
proof -
  have "m = k * (n div k) + (n mod k - 1)" using assms by simp
  moreover have "0 \<le> n mod k - 1" "n mod k - 1 < k"
    using assms pos_mod_sign [of k n] pos_mod_bound [of k n] by linarith+
  ultimately show ?thesis by (simp add: int_mod_pos_eq)
qed

text \<open>The loops go on to the next day that is \<open>wkstart\<close>, a number from 0 to 6.\<close>

function to_weekday :: "int \<Rightarrow> int \<Rightarrow> int" where
  "to_weekday wkstart cand =
    (if 0 \<le> wkstart \<and> wkstart \<le> 6 \<and> cand smod 7 \<noteq> wkstart then to_weekday wkstart (cand + 1) else cand)"
  by pat_completeness auto
termination
proof (relation "measure (\<lambda>(w, c). if c < 0 then nat (7 - c) else nat ((w - c) mod 7))", goal_cases)
  case (2 w c)
  show ?case
  proof (cases "c < 0")
    case True
    have "nat ((w - (c + 1)) mod 7) < 7" by (simp add: nat_less_iff)
    then show ?thesis using True by auto
  next
    case False
    then have "c mod 7 \<noteq> w" using 2 by (simp add: smod_nonneg)
    then have "\<not> 7 dvd w - c" using 2 by (auto simp: mod_eq_dvd_iff [symmetric] mod_pos_pos_trivial)
    then have "(w - c) mod 7 \<noteq> 0" by (simp add: dvd_eq_mod_eq_0)
    then have "(w - (c + 1)) mod 7 = (w - c) mod 7 - 1" by (intro week_pred) simp_all
    then show ?thesis using False \<open>(w - c) mod 7 \<noteq> 0\<close> by (simp add: nat_less_iff)
  qed
qed simp

declare to_weekday.simps [simp del]

definition week_args :: "int \<Rightarrow> Value list \<Rightarrow> (int \<times> int \<times> int) result" where
  "week_args DSEToday args =
    and_then (if length args \<ge> 1
              then check (HASDATE (args ! 0)) E_BAD_TYPE (Inr (DATEPART (args ! 0))) else Inr DSEToday) (\<lambda>dse.
    and_then (if length args \<ge> 2
              then and_then (int_arg (args ! 1)) (\<lambda>n. check (n \<ge> 0) E_2LOW (check (n \<le> 6) E_2HIGH
                     (Inr (if n - 1 < 0 then 6 else n - 1))))
              else Inr 0) (\<lambda>wkstart.
    and_then (if length args \<ge> 3
              then and_then (int_arg (args ! 2)) (\<lambda>n. check (n \<ge> 1) E_2LOW (check (n \<le> 31) E_2HIGH (Inr n)))
              else Inr 29) (\<lambda>daystart. Inr (dse, wkstart, daystart))))"

definition week_start :: "int \<Rightarrow> int \<Rightarrow> int \<Rightarrow> int" where
  "week_start wkstart daystart y = to_weekday wkstart (DSE y (if daystart \<le> 7 then 0 else 11) daystart)"

definition FWeekno :: "int \<Rightarrow> Value list \<Rightarrow> Value result" where
  "FWeekno DSEToday args =
    and_then (week_args DSEToday args) (\<lambda>(dse, wkstart, daystart).
      case FromDSE dse of (y, m, d) \<Rightarrow>
        let candidate = week_start wkstart daystart y in
        if candidate \<le> dse then Inr (IntV ((dse - candidate) sdiv 7 + 1))
        else if y - 1 < BASE then Inl E_DATE_OVER
        else let candidate = week_start wkstart daystart (y - 1) in
          if candidate \<le> dse then Inr (IntV ((dse - candidate) sdiv 7 + 1))
          else if y - 2 < BASE then Inl E_DATE_OVER
          else let candidate = week_start wkstart daystart (y - 2) in
            Inr (IntV ((dse - candidate) sdiv 7 + 1)))"

section \<open>Numbers and lists of values\<close>

definition FAbs :: "Value list \<Rightarrow> Value result" where
  "FAbs args = and_then (int_arg (args ! 0)) (\<lambda>v. check (v \<noteq> INT_MIN) E_2HIGH (Inr (IntV (if v < 0 then - v else v))))"

definition FSgn :: "Value list \<Rightarrow> Value result" where
  "FSgn args = and_then (int_arg (args ! 0)) (\<lambda>v. Inr (IntV (if v > 0 then 1 else if v < 0 then -1 else 0)))"

text \<open>Whether the first value beats the second: \<open>strcmp\<close> or the difference has the sign.\<close>

definition beats :: "int \<Rightarrow> Value \<Rightarrow> Value \<Rightarrow> bool" where
  "beats sign v w =
    (case (v, w) of
       (StrV s, StrV t) \<Rightarrow> sign * strcmp s t > 0
     | _ \<Rightarrow> sign * val_of v > sign * val_of w)"

fun best_loop :: "int \<Rightarrow> Value \<Rightarrow> Value list \<Rightarrow> Value result" where
  "best_loop sign best [] = Inr best"
| "best_loop sign best (v # vs) =
    check (vtype_of v = vtype_of best) E_BAD_TYPE (best_loop sign (if beats sign v best then v else best) vs)"

definition FMax :: "Value list \<Rightarrow> Value result" where
  "FMax args = best_loop 1 (args ! 0) (tl args)"

definition FMin :: "Value list \<Rightarrow> Value result" where
  "FMin args = best_loop (-1) (args ! 0) (tl args)"

section \<open>Strings\<close>

definition FStrlen :: "Value list \<Rightarrow> Value result" where
  "FStrlen args =
    and_then (str_arg (args ! 0)) (\<lambda>s. check (int (length s) \<le> INT_MAX) E_2HIGH (Inr (IntV (int (length s)))))"

definition FAsc :: "Value list \<Rightarrow> Value result" where
  "FAsc args = and_then (str_arg (args ! 0)) (\<lambda>s. Inr (IntV (case s of [] \<Rightarrow> 0 | c # _ \<Rightarrow> of_char c)))"

definition hex_char :: "bool \<Rightarrow> nat \<Rightarrow> char" where
  "hex_char upper d = (if d < 10 then digit_char d else char_of ((if upper then 55 else 87) + d))"

fun hex_digits :: "bool \<Rightarrow> nat \<Rightarrow> string" where
  "hex_digits upper n = (if n < 16 then [hex_char upper n] else hex_digits upper (n div 16) @ [hex_char upper (n mod 16)])"

declare hex_digits.simps [simp del]

definition FHex :: "Value list \<Rightarrow> Value result" where
  "FHex args = and_then (int_arg (args ! 0)) (\<lambda>n. Inr (StrV (hex_digits True (nat (n mod 2 ^ 32)))))"

text \<open>A character with the code \<open>n\<close>, which may be negative.\<close>

definition char_value :: "int \<Rightarrow> char" where
  "char_value n = char_of (nat (n mod 256))"

fun chars_loop :: "Value list \<Rightarrow> string result" where
  "chars_loop [] = Inr []"
| "chars_loop (v # vs) =
    and_then (int_arg v) (\<lambda>n.
    check (\<not> (n < -128 \<or> n = 0)) E_2LOW (check (n \<le> 255) E_2HIGH
    (and_then (chars_loop vs) (\<lambda>s. Inr (char_value n # s)))))"

definition FChar :: "Value list \<Rightarrow> Value result" where
  "FChar args =
    (if length args = 1 then
       and_then (int_arg (args ! 0)) (\<lambda>n.
       check (n \<ge> -128) E_2LOW (check (n \<le> 255) E_2HIGH (Inr (StrV (if n \<noteq> 0 then [char_value n] else [])))))
     else and_then (chars_loop args) (\<lambda>s. Inr (StrV s)))"

definition FUpper :: "Value list \<Rightarrow> Value result" where
  "FUpper args = and_then (str_arg (args ! 0)) (\<lambda>s. Inr (StrV (map UPPER s)))"

definition FLower :: "Value list \<Rightarrow> Value result" where
  "FLower args = and_then (str_arg (args ! 0)) (\<lambda>s. Inr (StrV (map tolower s)))"

definition FAmpm :: "value_config \<Rightarrow> Value list \<Rightarrow> Value result" where
  "FAmpm vc args =
    check (HASTIME (args ! 0)) E_BAD_TYPE
    (and_then (if length args \<ge> 2 then str_arg (args ! 1) else Inr ''AM'') (\<lambda>am.
     and_then (if length args \<ge> 3 then str_arg (args ! 2) else Inr ''PM'') (\<lambda>pm.
     and_then (if length args \<ge> 4 then int_arg (args ! 3) else Inr 0) (\<lambda>include_leading_zero.
       let date = (if HASDATE (args ! 0) then fmt_date vc (DATEPART (args ! 0)) @ [DateTimeSep vc] else []);
           h = TIMEPART (args ! 0) sdiv 60;
           m = TIMEPART (args ! 0) smod 60;
           hour = (if h = 0 then 12 else if h > 12 then h - 12 else h);
           width = (if h \<noteq> 0 \<and> include_leading_zero \<noteq> 0 then 2 else 0)
       in Inr (StrV (date @ fmt_int width hour @ [TimeSep (vc_seps vc)] @ fmt_int 2 m @ (if h \<le> 11 then am else pm)))))))"

text \<open>
  \<open>ordx\<close> is what the evaluation of the user's function \<open>ordx\<close> gives, if there is one with one
  argument and it is not the one that is running.
\<close>

definition FOrd :: "value_config \<Rightarrow> (int \<Rightarrow> Value result) option \<Rightarrow> Value list \<Rightarrow> Value result" where
  "FOrd vc ordx args =
    and_then (int_arg (args ! 0)) (\<lambda>v.
      case ordx of
        Some f \<Rightarrow> and_then (f v) (DoCoerce vc STR_TYPE)
      | None \<Rightarrow>
          let t = (if v < 0 then cint (- v) smod 100 else v smod 100);
              u = t smod 10;
              s = (if u = 3 \<and> t \<noteq> 13 then ''rd'' else if u = 2 \<and> t \<noteq> 12 then ''nd''
                   else if u = 1 \<and> t \<noteq> 11 then ''st'' else ''th'')
          in Inr (StrV (fmt_int 0 v @ s)))"

fun pad_chars :: "nat \<Rightarrow> string \<Rightarrow> string \<Rightarrow> string" where
  "pad_chars (Suc k) full (c # s) = c # pad_chars k full (if s = [] then full else s)"
| "pad_chars _ full _ = []"

text \<open>A negative width becomes a \<open>size_t\<close>.\<close>

definition FPad :: "value_config \<Rightarrow> Value list \<Rightarrow> Value result" where
  "FPad vc args =
    and_then (str_arg (args ! 1)) (\<lambda>p.
    and_then (int_arg (args ! 2)) (\<lambda>n.
    and_then (if length args = 4 then int_arg (args ! 3) else Inr 0) (\<lambda>right.
    and_then (DoCoerce vc STR_TYPE (args ! 0)) (\<lambda>v.
    and_then (str_arg v) (\<lambda>s.
      let wantlen = ulong n; len = int (length s) in
      if len \<ge> wantlen then Inr (StrV s)
      else check (p \<noteq> []) E_BAD_TYPE
        (check (\<not> (MaxStringLen vc > 0 \<and> wantlen > MaxStringLen vc)) E_STRING_TOO_LONG
          (let pad = pad_chars (nat (wantlen - len)) p p
           in Inr (StrV (if right = 0 then pad @ s else s @ pad)))))))))"

definition FPlural :: "Value list \<Rightarrow> Value result" where
  "FPlural args =
    and_then (int_arg (args ! 0)) (\<lambda>n.
      if length args = 1 then Inr (StrV (if n = 1 then [] else ''s''))
      else if length args = 2
      then and_then (str_arg (args ! 1)) (\<lambda>s. Inr (StrV (if n = 1 then s else s @ ''s'')))
      else and_then (str_arg (args ! 1)) (\<lambda>s. and_then (str_arg (args ! 2)) (\<lambda>t. Inr (StrV (if n = 1 then s else t)))))"

text \<open>The loops of \<open>substr\<close> and \<open>index\<close>: to the character with the number \<open>n\<close>.\<close>

fun skip_chars :: "int \<Rightarrow> int \<Rightarrow> string \<Rightarrow> int \<times> string" where
  "skip_chars n start [] = (start, [])"
| "skip_chars n start (c # s) = (if start < n then skip_chars n (start + 1) s else (start, c # s))"

fun take_chars :: "int \<Rightarrow> int \<Rightarrow> string \<Rightarrow> string" where
  "take_chars n end_char [] = []"
| "take_chars n end_char (c # s) = (if end_char \<le> n then c # take_chars n (end_char + 1) s else [])"

definition FSubstr :: "Value list \<Rightarrow> Value result" where
  "FSubstr args =
    and_then (str_arg (args ! 0)) (\<lambda>s.
    and_then (int_arg (args ! 1)) (\<lambda>from_char.
    and_then (if length args = 3 then int_arg (args ! 2) else Inr 0) (\<lambda>to_char.
      case skip_chars from_char 1 s of (start, s) \<Rightarrow>
        if length args = 2 \<or> s = [] then Inr (StrV s) else Inr (StrV (take_chars to_char start s)))))"

fun strstr :: "string \<Rightarrow> string \<Rightarrow> string option" where
  "strstr [] t = (if t = [] then Some [] else None)"
| "strstr (c # s) t = (if prefix t (c # s) then Some (c # s) else strstr s t)"

definition FIndex :: "Value list \<Rightarrow> Value result" where
  "FIndex args =
    and_then (str_arg (args ! 0)) (\<lambda>whole.
    and_then (str_arg (args ! 1)) (\<lambda>t.
    and_then (if length args = 3 then int_arg (args ! 2) else Inr 0) (\<lambda>from_char.
      case strstr (if length args = 3 then snd (skip_chars from_char 1 whole) else whole) t of
        None \<Rightarrow> Inr (IntV 0)
      | Some s \<Rightarrow> Inr (IntV (int (length whole) - int (length s) + 1)))))"

definition FTypeof :: "Value list \<Rightarrow> Value result" where
  "FTypeof args =
    Inr (StrV (case vtype_of (args ! 0) of
      INT_TYPE \<Rightarrow> ''INT'' | DATE_TYPE \<Rightarrow> ''DATE'' | TIME_TYPE \<Rightarrow> ''TIME'' | STR_TYPE \<Rightarrow> ''STRING''
    | DATETIME_TYPE \<Rightarrow> ''DATETIME''))"

definition FCoerce :: "value_config \<Rightarrow> Value list \<Rightarrow> Value result" where
  "FCoerce vc args =
    and_then (str_arg (args ! 0)) (\<lambda>s.
      if strcasecmp s ''int'' = 0 then DoCoerce vc INT_TYPE (args ! 1)
      else if strcasecmp s ''date'' = 0 then DoCoerce vc DATE_TYPE (args ! 1)
      else if strcasecmp s ''time'' = 0 then DoCoerce vc TIME_TYPE (args ! 1)
      else if strcasecmp s ''string'' = 0 then DoCoerce vc STR_TYPE (args ! 1)
      else if strcasecmp s ''datetime'' = 0 then DoCoerce vc DATETIME_TYPE (args ! 1)
      else Inl E_CANT_COERCE)"

subsection \<open>Quoting\<close>

definition escaped_char :: "char \<Rightarrow> string" where
  "escaped_char c =
    (if c = CHR 0x07 then [CHR 0x5C, CHR ''a''] else if c = CHR 0x08 then [CHR 0x5C, CHR ''b'']
     else if c = CHR 0x0C then [CHR 0x5C, CHR ''f''] else if c = CHR 0x0A then [CHR 0x5C, CHR ''n'']
     else if c = CHR 0x0D then [CHR 0x5C, CHR ''r''] else if c = CHR 0x09 then [CHR 0x5C, CHR ''t'']
     else if c = CHR 0x0B then [CHR 0x5C, CHR ''v''] else if c = CHR 0x5C then [CHR 0x5C, CHR 0x5C]
     else if c = CHR 0x22 then [CHR 0x5C, CHR 0x22]
     else if ch c > 0 \<and> ch c < 32 \<or> ch c = 127
     then [CHR 0x5C, CHR ''x'', hex_char False (of_char c div 16), hex_char False (of_char c mod 16)]
     else [c])"

definition FEscape :: "Value list \<Rightarrow> Value result" where
  "FEscape args =
    and_then (str_arg (args ! 0)) (\<lambda>s.
    and_then (if length args \<ge> 2 then int_arg (args ! 1) else Inr 0) (\<lambda>include_quotes.
      let quote = (if include_quotes \<noteq> 0 then [CHR 0x22] else [])
      in Inr (StrV (quote @ concat (map escaped_char s) @ quote))))"

definition html_char :: "char \<Rightarrow> string" where
  "html_char c = (if c = CHR ''<'' then ''&lt;'' else if c = CHR ''>'' then ''&gt;'' else if c = CHR ''&'' then ''&amp;'' else [c])"

definition FHtmlEscape :: "Value list \<Rightarrow> Value result" where
  "FHtmlEscape args = and_then (str_arg (args ! 0)) (\<lambda>s. Inr (StrV (concat (map html_char s))))"

fun strip_tags :: "bool \<Rightarrow> string \<Rightarrow> string" where
  "strip_tags in_tag [] = []"
| "strip_tags False (c # s) = (if c = CHR ''<'' then strip_tags True s else c # strip_tags False s)"
| "strip_tags True (c # s) = strip_tags (c \<noteq> CHR ''>'') s"

definition FHtmlStriptags :: "Value list \<Rightarrow> Value result" where
  "FHtmlStriptags args = and_then (str_arg (args ! 0)) (\<lambda>s. Inr (StrV (strip_tags False s)))"

definition DontEscapeMe :: string where
  "DontEscapeMe = ''1234567890_-=+abcdefghijklmnopqrstuvwxyzABCDEFGHIJKLMNOPQRSTUVWXYZ@.,/''"

definition ShellEscape :: "string \<Rightarrow> string" where
  "ShellEscape s =
    concat (map (\<lambda>c. if (of_char c :: int) < 128 \<and> c \<notin> set DontEscapeMe then [CHR 0x5C, c] else [c]) s)"

definition FShellescape :: "Value list \<Rightarrow> Value result" where
  "FShellescape args = and_then (str_arg (args ! 0)) (\<lambda>s. Inr (StrV (ShellEscape s)))"

subsection \<open>Triggers\<close>

definition MonthName :: "string list" where
  "MonthName = [''January'', ''February'', ''March'', ''April'', ''May'', ''June'', ''July'', ''August'',
    ''September'', ''October'', ''November'', ''December'']"

definition clamp_date :: "int \<times> int \<Rightarrow> int \<times> int" where
  "clamp_date dt = (if fst dt < 0 then (0, 0) else dt)"

text \<open>\<open>UTCToLocal\<close> is a parameter: it rests on the time zones of the C library.\<close>

definition trigger_time :: "(int \<Rightarrow> int \<Rightarrow> int \<times> int) \<Rightarrow> Value list \<Rightarrow> (int \<times> int) result" where
  "trigger_time UTCToLocal args =
    (case args ! 0 of
       DateV date \<Rightarrow>
         if length args > 2 then
           (case (args ! 2, args ! 1) of
              (IntV utc, TimeV tim) \<Rightarrow> Inr (if utc \<noteq> 0 then clamp_date (UTCToLocal date tim) else (date, tim))
            | _ \<Rightarrow> Inl E_BAD_TYPE)
         else if length args > 1 then (case args ! 1 of TimeV tim \<Rightarrow> Inr (date, tim) | _ \<Rightarrow> Inl E_BAD_TYPE)
         else Inr (date, NO_TIME)
     | DateTimeV dt \<Rightarrow>
         let date = dt sdiv MINUTES_PER_DAY; tim = dt smod MINUTES_PER_DAY in
         if length args > 2 then Inl E_2MANY_ARGS
         else if length args > 1
         then and_then (int_arg (args ! 1)) (\<lambda>utc. Inr (if utc \<noteq> 0 then clamp_date (UTCToLocal date tim) else (date, tim)))
         else Inr (date, tim)
     | _ \<Rightarrow> Inl E_BAD_TYPE)"

definition FTrigger :: "(int \<Rightarrow> int \<Rightarrow> int \<times> int) \<Rightarrow> Value list \<Rightarrow> Value result" where
  "FTrigger UTCToLocal args =
    and_then (trigger_time UTCToLocal args) (\<lambda>(date, tim).
      case FromDSE date of (y, m, d) \<Rightarrow>
        let day = fmt_int 0 d @ '' '' @ MonthName ! nat m @ '' '' @ fmt_int 0 y in
        Inr (StrV (if tim \<noteq> NO_TIME
                   then day @ '' AT '' @ fmt_int 2 (tim sdiv 60) @ '':'' @ fmt_int 2 (tim smod 60)
                   else day)))"

end
