(* ===== verification/Easter.thy ===== *)
theory Easter
  imports Funcs
begin

text \<open>
  The two computations of Easter, \<open>FEasterdate\<close> and \<open>FOrthodoxeaster\<close>: both give a Sunday of spring,
  and of all years' the first that is not before the date they are asked for.
\<close>

section \<open>The weekday of the first of March\<close>

text \<open>Day 0 is a Monday, so that the days with remainder 6 are Sundays.\<close>

text \<open>The linear steps, with the quotients as variables.\<close>

lemma March_linear:
  fixes y :: int
  shows "f = 365 * (y - 1990) + (b4 - 497) - (b100 - 19) + (b400 - 4) + ms - 1 \<Longrightarrow> ms = 59 + l \<Longrightarrow>
      a4 - b4 = c4 \<Longrightarrow> a100 - b100 = c100 \<Longrightarrow> a400 - b400 = c400 \<Longrightarrow> l = c4 - c100 + c400 \<Longrightarrow>
      f = y + a4 - a100 + a400 - 2414 + 364 * (y - 1990)"
  by (simp add: algebra_simps)

lemma easter_linear:
  fixes y :: int
  shows "f = y + a4 - k + a400 - 2414 + 364 * (y - 1990) \<Longrightarrow> a400 = k4 \<Longrightarrow> D = y + a4 - k + k4 + 2 \<Longrightarrow>
      e = f + d \<Longrightarrow> D + d = 7 * w \<Longrightarrow> e = 6 + 7 * (w - 1 + 52 * (y - 1990) - 345)"
  by (simp add: algebra_simps)

lemma orthodox_linear:
  fixes y :: int
  shows "f = y + a4 - k + a400 - 2414 + 364 * (y - 1990) \<Longrightarrow> a400 = k4 \<Longrightarrow> off = k - k4 - 2 \<Longrightarrow>
      e = f + (dd + ee + 114 - 92) + off \<Longrightarrow> 2 * a + 4 * b - dd + 34 = 7 * w + ee \<Longrightarrow> y = 4 * a4 + a \<Longrightarrow>
      y = 7 * a7 + b \<Longrightarrow> e = 6 + 7 * (3 * a4 + a - 4 * a7 - w - 338 + 52 * (y - 1990))"
  by (simp add: algebra_simps)

lemma easter_linear_nonneg:
  fixes y :: int
  shows "D = y + a4 - k + k4 + 2 \<Longrightarrow> k \<le> y \<Longrightarrow> 0 \<le> a4 \<Longrightarrow> 0 \<le> k4 \<Longrightarrow> 0 \<le> n \<Longrightarrow> 0 \<le> D + n"
  by linarith

lemma offset_linear:
  fixes k :: int
  shows "off = 13 + (k - 20 - (q - 5)) \<Longrightarrow> q = k4 \<Longrightarrow> off = k - k4 - 2"
  by linarith

lemma March_weekday:
  assumes "1990 \<le> y"
  shows "DSE y 2 0 = y + y div 4 - y div 100 + y div 400 - 2414 + 364 * (y - 1990)"
proof -
  have "month_start y 2 = 59 + of_bool (leap y)"
    by (auto simp: month_start_def MonthIndex_def IsLeapYear_leap)
  moreover have "y div 4 - (y - 1) div 4 = of_bool (4 dvd y)" "y div 100 - (y - 1) div 100 = of_bool (100 dvd y)"
    "y div 400 - (y - 1) div 400 = of_bool (400 dvd y)" by (simp_all only: div_pred zero_less_numeral)
  moreover have "(of_bool (leap y) :: int) = of_bool (4 dvd y) - of_bool (100 dvd y) + of_bool (400 dvd y)"
  proof -
    have "400 dvd y \<Longrightarrow> 100 dvd y" "100 dvd y \<Longrightarrow> 4 dvd y" by (auto elim: dvd_trans [rotated])
    then show ?thesis by (cases "4 dvd y"; cases "100 dvd y"; cases "400 dvd y") (simp_all add: leap_def)
  qed
  moreover have "DSE y 2 0 = 365 * (y - 1990) + ((y - 1) div 4 - 497) - ((y - 1) div 100 - 19)
      + ((y - 1) div 400 - 4) + month_start y 2 - 1"
    using assms by (simp add: DSE_start year_start_def)
  ultimately show ?thesis by (intro March_linear)
qed

lemma DSE_day: "1990 \<le> y \<Longrightarrow> DSE y 2 d = DSE y 2 0 + d" "1990 \<le> y \<Longrightarrow> DSE y 3 d = DSE y 2 0 + 31 + d"
  using month_start_Suc [of 2 y] by (simp_all add: DSE_start month_length_def)

lemma centuries: "(y::int) div 400 = y div 100 div 4"
  by (simp add: zdiv_zmult2_eq [of 4 y 100, simplified])

lemma Sunday: "e = 6 + 7 * z \<Longrightarrow> e mod 7 = (6::int)"
  by simp

section \<open>Western Easter\<close>

lemma week_after:
  assumes "0 \<le> (d::int) + n"
  shows "(d + (n + 7 - (d + n) smod 7)) mod 7 = 0" "n < n + 7 - (d + n) smod 7" "n + 7 - (d + n) smod 7 \<le> n + 7"
proof -
  have m: "(d + n) smod 7 = (d + n) mod 7" using assms by (simp add: smod_nonneg)
  have "d + (n + 7 - (d + n) mod 7) = 7 * ((d + n) div 7 + 1)"
    using mult_div_mod_eq [of 7 "d + n"] unfolding distrib_left by linarith
  then show "(d + (n + 7 - (d + n) smod 7)) mod 7 = 0" unfolding m by (simp only: mod_mult_self1_is_0)
  show "n < n + 7 - (d + n) smod 7" "n + 7 - (d + n) smod 7 \<le> n + 7" unfolding m by simp_all
qed

lemma easter_Sunday:
  assumes y: "1990 \<le> y"
  shows "easter_date y mod 7 = 6" "DSE y 2 22 \<le> easter_date y" "easter_date y \<le> DSE y 3 25"
proof -
  define g where "g = y smod 19 + 1"
  define k where "k = y sdiv 100"
  define x where "x = (3 * (k + 1)) sdiv 4 - 12"
  define z where "z = (8 * (k + 1) + 5) sdiv 25 - 5"
  define D where "D = (5 * y) sdiv 4 - x - 10"
  define e0 where "e0 = (11 * g + 20 + z - x) smod 30"
  define e1 where "e1 = (if e0 < 0 then e0 + 30 else e0)"
  define e where "e = (if e1 = 24 \<or> e1 = 25 \<and> g > 11 then e1 + 1 else e1)"
  define n where "n = (if 44 - e < 21 then 44 - e + 30 else 44 - e)"
  define d where "d = n + 7 - (D + n) smod 7"
  have kd: "k = y div 100" using y by (simp add: k_def sdiv_nonneg)
  have k: "0 \<le> k" using y unfolding kd by presburger
  have x: "x = k - k div 4 - 12" using k by (simp add: x_def sdiv_nonneg)
  have D: "D = y + y div 4 - k + k div 4 + 2" using y by (simp add: D_def x sdiv_nonneg)
  have "k \<le> y" using y unfolding kd by presburger
  have "\<bar>e0\<bar> < 30"
    using abs_mod_less [of 30 "11 * g + 20 + z - x"] by (simp add: e0_def signed_modulo_int_def abs_mult)
  then have "0 \<le> e1" "e1 \<le> 29" by (auto simp: e1_def)
  then have "0 \<le> e" "e \<le> 29" "e \<noteq> 24" by (auto simp: e_def)
  then have n: "21 \<le> n" "n \<le> 49" by (auto simp: n_def)
  have "0 \<le> y div 4" "0 \<le> k div 4" using y k by simp_all
  then have dn: "0 \<le> D + n" using n by (intro easter_linear_nonneg [OF D \<open>k \<le> y\<close>]) simp_all
  note after = week_after [OF dn, folded d_def]
  have d: "22 \<le> d" "d \<le> 56" using after(2,3) n by auto
  have "easter_date y = (if d \<le> 31 then DSE y 2 d else DSE y 3 (d - 31))"
    by (simp only: easter_date_def Let_def d_def D_def n_def e_def e1_def e0_def z_def x_def k_def g_def)
  then have E: "easter_date y = DSE y 2 0 + d" using DSE_day(1) [OF y, of d] DSE_day(2) [OF y, of "d - 31"] by simp
  have "D + d = 7 * ((D + d) div 7)" using after(1) mult_div_mod_eq [of 7 "D + d"] by simp
  from easter_linear [OF March_weekday [OF y, folded kd] centuries [of y, folded kd] D E this]
  show "easter_date y mod 7 = 6" by (rule Sunday)
  show "DSE y 2 22 \<le> easter_date y" "easter_date y \<le> DSE y 3 25" using E d DSE_day(1) [OF y, of 22] DSE_day(2) [OF y, of 25] by simp_all
qed

section \<open>Eastern Easter\<close>

lemma offset_eq:
  assumes "1990 \<le> y" "2 \<le> m" "y \<ge> 2100 \<or> y div 100 \<in> {19, 20}"
  shows "JulianToGregorianOffset y m = y div 100 - y div 100 div 4 - 2"
proof (cases "y \<ge> 2100")
  case True
  have "(y - 2000) div 100 = y div 100 - 20" "(y - 2000) div 400 = y div 400 - 5"
    using div_mult_self1 [of 100 y "-20"] div_mult_self1 [of 400 y "-5"] by simp_all
  moreover have "JulianToGregorianOffset y m = 13 + ((y - 2000) div 100 - (y - 2000) div 400)"
    using True assms by (simp add: JulianToGregorianOffset_def sdiv_nonneg)
  ultimately have "JulianToGregorianOffset y m = 13 + (y div 100 - 20 - (y div 400 - 5))" by (simp only:)
  then show ?thesis by (rule offset_linear [OF _ centuries])
next
  case False
  then show ?thesis using assms by (auto simp: JulianToGregorianOffset_def)
qed

lemma century_cases:
  assumes "1990 \<le> (y::int)"
  shows "y \<ge> 2100 \<or> y div 100 \<in> {19, 20}"
proof -
  have "2100 \<le> y \<or> 19 \<le> y div 100 \<and> y div 100 < 21" using assms by presburger
  then show ?thesis by auto
qed

lemma epact: "0 \<le> (c::int) \<Longrightarrow> c < 19 \<Longrightarrow> (19 * c + 15) mod 30 \<le> 28"
proof -
  assume "0 \<le> c" "c < 19"
  then have "c \<in> set [0..18]" by simp
  moreover have "\<forall>c\<in>set [0..18]. (19 * c + 15) mod 30 \<le> (28::int)" by (simp add: upto.simps)
  ultimately show ?thesis by blast
qed

lemma offset_bounds: "19 \<le> (k::int) \<Longrightarrow> k \<le> 59 \<Longrightarrow> 0 \<le> k - k div 4 - 2 \<and> k - k div 4 - 2 \<le> 55"
  by presburger

lemma orthodox_Sunday:
  assumes y: "1990 \<le> y"
  shows "orthodox_date y mod 7 = 6"
    "DSE y 2 22 + (y div 100 - y div 100 div 4 - 2) \<le> orthodox_date y"
    "orthodox_date y \<le> DSE y 3 25 + (y div 100 - y div 100 div 4 - 2)"
proof -
  define a where "a = y smod 4"
  define b where "b = y smod 7"
  define dd where "dd = (19 * (y smod 19) + 15) smod 30"
  define e where "e = (2 * a + 4 * b - dd + 34) smod 7"
  define f where "f = dd + e + 114"
  define off where "off = y div 100 - y div 100 div 4 - 2"
  have ab: "a = y mod 4" "b = y mod 7" using y by (simp_all add: a_def b_def smod_nonneg)
  then have "0 \<le> a" "0 \<le> b" by simp_all
  have dd: "0 \<le> dd" "dd \<le> 28" using y epact [of "y mod 19"] by (simp_all add: dd_def smod_nonneg)
  then have e': "e = (2 * a + 4 * b - dd + 34) mod 7" using \<open>0 \<le> a\<close> \<open>0 \<le> b\<close> by (simp add: e_def smod_nonneg)
  then have e: "0 \<le> e" "e < 7" by simp_all
  have f: "114 \<le> f" "f \<le> 148" using dd e by (simp_all add: f_def)
  have m: "2 \<le> f sdiv 31 - 1" using f by (simp add: sdiv_nonneg)
  have "y \<ge> 2100 \<or> y div 100 \<in> {19, 20}" using y by (rule century_cases)
  then have "orthodox_date y = DSE y (f sdiv 31 - 1) (f smod 31 + 1) + off"
    using offset_eq [OF y m]
    by (simp only: orthodox_date_def Let_def off_def f_def e_def dd_def a_def b_def)
  moreover have "f sdiv 31 - 1 = 2 \<and> f smod 31 + 1 = f - 92 \<or> f sdiv 31 - 1 = 3 \<and> f smod 31 + 1 = f - 123"
    using f by (simp add: sdiv_nonneg smod_nonneg) presburger
  ultimately have E: "orthodox_date y = DSE y 2 0 + (f - 92) + off"
  proof -
    have "DSE y 2 (f - 92) = DSE y 2 0 + (f - 92)" "DSE y 3 (f - 123) = DSE y 2 0 + (f - 92)"
      using DSE_day(1) [OF y, of "f - 92"] DSE_day(2) [OF y, of "f - 123"] by simp_all
    then show "orthodox_date y = DSE y (f sdiv 31 - 1) (f smod 31 + 1) + off \<Longrightarrow>
        f sdiv 31 - 1 = 2 \<and> f smod 31 + 1 = f - 92 \<or> f sdiv 31 - 1 = 3 \<and> f smod 31 + 1 = f - 123 \<Longrightarrow>
        orthodox_date y = DSE y 2 0 + (f - 92) + off"
      by (elim disjE conjE) (simp_all only:)
  qed
  have w: "2 * a + 4 * b - dd + 34 = 7 * ((2 * a + 4 * b - dd + 34) div 7) + e" by (simp add: e')
  have "y = 4 * (y div 4) + a" "y = 7 * (y div 7) + b" using ab by simp_all
  from orthodox_linear [OF March_weekday [OF y] centuries off_def E [unfolded f_def] w this]
  show "orthodox_date y mod 7 = 6" by (rule Sunday)
  show "DSE y 2 22 + (y div 100 - y div 100 div 4 - 2) \<le> orthodox_date y"
    "orthodox_date y \<le> DSE y 3 25 + (y div 100 - y div 100 div 4 - 2)"
    using E f DSE_day(1) [OF y, of 22] DSE_day(2) [OF y, of 25] by (simp_all add: off_def)
qed

section \<open>The next Easter\<close>

text \<open>What the loop relies on: a feast that falls into each year that is asked for.\<close>

locale yearly_feast =
  fixes feast :: "int \<Rightarrow> int" and last_year :: int
  assumes in_year: "1990 \<le> y \<Longrightarrow> y \<le> last_year + 1 \<Longrightarrow> year_start y \<le> feast y \<and> feast y < year_start (y + 1)"
begin

definition next_feast :: "int \<Rightarrow> int \<Rightarrow> bool" where
  "next_feast base y \<longleftrightarrow> 1990 \<le> y \<and> base \<le> feast y \<and> (\<forall>y'. 1990 \<le> y' \<and> y' < y \<longrightarrow> feast y' < base)"

lemma feast_before:
  assumes "1990 \<le> y'" "y' < y" "y \<le> last_year + 1"
  shows "feast y' < year_start y"
  using in_year [of y'] year_start_mono [of "y' + 1" y] assms by simp

lemma loop_finds_next:
  assumes "0 \<le> base" "FromDSE base = (y, m, d)" "y \<le> last_year"
  shows "\<exists>y'. y' \<le> y + 1 \<and> next_feast base y' \<and> easter_loop feast y base = Some (feast y')"
proof -
  have date: "is_date (y, m, d)" "DSE y m d = base" using FromDSE_spec [OF assms(1,2)] by simp_all
  then have y: "1990 \<le> y" "year_start y \<le> base" "base < year_start (y + 1)"
    using DSE_bounds [OF date(1)] by simp_all
  have before: "\<forall>y'. 1990 \<le> y' \<and> y' < y \<longrightarrow> feast y' < base" using feast_before [of _ y] y assms(3) by fastforce
  show ?thesis
  proof (cases "base \<le> feast y")
    case True
    then show ?thesis using y before by (intro exI [of _ y]) (simp add: next_feast_def easter_loop.simps)
  next
    case False
    have "base \<le> feast (y + 1)" using in_year [of "y + 1"] y assms(3) by simp
    moreover have "\<forall>y'. 1990 \<le> y' \<and> y' < y + 1 \<longrightarrow> feast y' < base"
      using before False by (metis linorder_not_le zle_add1_eq_le order_le_less)
    ultimately show ?thesis using y False assms(1)
      by (intro exI [of _ "y + 1"]) (simp add: next_feast_def easter_loop.simps [of feast y] easter_loop.simps [of feast "y + 1"])
  qed
qed

end

lemma easter_in_year:
  assumes "1990 \<le> y"
  shows "year_start y \<le> easter_date y \<and> easter_date y < year_start (y + 1)"
proof -
  have "is_date (y, 2, 22)" "is_date (y, 3, 25)" using assms by (simp_all add: month_length_def)
  then show ?thesis using DSE_bounds(1) [of y 2 22] DSE_bounds(2) [of y 3 25] easter_Sunday [OF assms] by simp
qed

lemma orthodox_in_year:
  assumes "1990 \<le> y" "y \<le> 5991"
  shows "year_start y \<le> orthodox_date y \<and> orthodox_date y < year_start (y + 1)"
proof -
  have date: "is_date (y, 2, 22)" "is_date (y, 11, 31)" using assms by (simp_all add: month_length_def)
  have "19 \<le> y div 100" "y div 100 \<le> 59" using assms by presburger+
  then have off: "0 \<le> y div 100 - y div 100 div 4 - 2" "y div 100 - y div 100 div 4 - 2 \<le> 55"
    using offset_bounds [of "y div 100"] by simp_all
  have "DSE y 3 25 + 55 < DSE y 11 31"
    using month_start_mono [of 3 11 y] month_start_mono [of 4 6 y] month_start_mono [of 6 11 y] assms
    by (simp add: DSE_start month_start_def MonthIndex_def IsLeapYear_leap)
  then show ?thesis
    using DSE_bounds(1) [OF date(1)] DSE_bounds(2) [OF date(2)] orthodox_Sunday [OF assms(1)] off by simp
qed

interpretation western: yearly_feast easter_date last_year for last_year
  by unfold_locales (rule easter_in_year)

interpretation eastern: yearly_feast orthodox_date 5990
  by unfold_locales (auto dest: orthodox_in_year)

section \<open>Properties\<close>

text \<open>
  C33.  \<open>easterdate\<close> of a date that can be written (to the end of the year 5990) returns the first
  Easter that is not before it, and that is a Sunday from March 22 to April 25.
\<close>

theorem FEasterdate_next_Sunday:
  assumes "0 \<le> base" "base \<le> DSE 5990 11 31"
  shows "\<exists>y. FEasterdate today [DateV base] = Some (Inr (DateV (easter_date y))) \<and>
    1990 \<le> y \<and> base \<le> easter_date y \<and> (\<forall>y'. 1990 \<le> y' \<and> y' < y \<longrightarrow> easter_date y' < base) \<and>
    easter_date y mod 7 = 6 \<and> DSE y 2 22 \<le> easter_date y \<and> easter_date y \<le> DSE y 3 25"
proof -
  obtain y m d where F: "FromDSE base = (y, m, d)" by (metis surj_pair)
  obtain y' where "western.next_feast base y'" "easter_loop easter_date y base = Some (easter_date y')"
    using western.loop_finds_next [OF assms(1) F, of y] by blast
  then show ?thesis using F easter_Sunday [of y']
    by (intro exI [of _ y'])
      (simp add: western.next_feast_def FEasterdate_def easter_func_def easter_arg_def check_def HASDATE_def DATEPART_def)
qed

theorem FEasterdate_next_Sunday_witness:
  "\<exists>y. FEasterdate 0 [DateV 13200] = Some (Inr (DateV (easter_date y))) \<and>
    1990 \<le> y \<and> 13200 \<le> easter_date y \<and> (\<forall>y'. 1990 \<le> y' \<and> y' < y \<longrightarrow> easter_date y' < 13200) \<and>
    easter_date y mod 7 = 6 \<and> DSE y 2 22 \<le> easter_date y \<and> easter_date y \<le> DSE y 3 25"
  using FEasterdate_next_Sunday [of 13200 0]
  by (simp add: DSE_start year_start_def month_start_def MonthIndex_def IsLeapYear_def)

text \<open>
  C34.  \<open>orthodoxeaster\<close> of a date that can be written (to the end of the year 5990) returns the first
  Orthodox Easter that is not before it; it is a Sunday, and from March 22 to April 25 of the Julian
  calendar, which the offset of the year converts.
\<close>

theorem FOrthodoxeaster_next_Sunday:
  assumes "0 \<le> base" "base \<le> DSE 5990 11 31"
  shows "\<exists>y. FOrthodoxeaster today [DateV base] = Some (Inr (DateV (orthodox_date y))) \<and>
    1990 \<le> y \<and> base \<le> orthodox_date y \<and> (\<forall>y'. 1990 \<le> y' \<and> y' < y \<longrightarrow> orthodox_date y' < base) \<and>
    orthodox_date y mod 7 = 6 \<and> DSE y 2 22 + JulianToGregorianOffset y 2 \<le> orthodox_date y \<and>
    orthodox_date y \<le> DSE y 3 25 + JulianToGregorianOffset y 3"
proof -
  obtain y m d where F: "FromDSE base = (y, m, d)" by (metis surj_pair)
  have "y \<le> 5990" using FromDSE_DateOK(1) [OF assms F] by (simp add: DateOK_is_date)
  then obtain y' where y': "eastern.next_feast base y'" "easter_loop orthodox_date y base = Some (orthodox_date y')"
    using eastern.loop_finds_next [OF assms(1) F] by blast
  then have "1990 \<le> y'" by (simp add: eastern.next_feast_def)
  then have "y' \<ge> 2100 \<or> y' div 100 \<in> {19, 20}" by (rule century_cases)
  then show ?thesis using y' F orthodox_Sunday [of y'] offset_eq [of y' 2] offset_eq [of y' 3]
    by (intro exI [of _ y'])
      (simp add: eastern.next_feast_def FOrthodoxeaster_def easter_func_def easter_arg_def check_def HASDATE_def DATEPART_def)
qed

theorem FOrthodoxeaster_next_Sunday_witness:
  "\<exists>y. FOrthodoxeaster 0 [DateV 13200] = Some (Inr (DateV (orthodox_date y))) \<and>
    1990 \<le> y \<and> 13200 \<le> orthodox_date y \<and> (\<forall>y'. 1990 \<le> y' \<and> y' < y \<longrightarrow> orthodox_date y' < 13200) \<and>
    orthodox_date y mod 7 = 6 \<and> DSE y 2 22 + JulianToGregorianOffset y 2 \<le> orthodox_date y \<and>
    orthodox_date y \<le> DSE y 3 25 + JulianToGregorianOffset y 3"
  using FOrthodoxeaster_next_Sunday [of 13200 0] by (simp add: DSE_start year_start_def month_start_def MonthIndex_def IsLeapYear_def)

end
