(* ===== verification/ExprEval.thy ===== *)
theory ExprEval
  imports Vars ExprParse
begin

text \<open>
  The evaluation of expression trees (\<^verbatim>\<open>src/src/expr.c\<close>), with the built-in functions that evaluate
  their own arguments and \<open>eval\<close> (\<^verbatim>\<open>src/src/funcs.c\<close>).  The global variables are the map that their
  table implements.  The other built-in functions are the parameter \<open>call_func\<close>; they may change
  a state of any type.
\<close>

section \<open>The state of an evaluation\<close>

definition MAX_RECURSION_LEVEL :: nat where "MAX_RECURSION_LEVEL = 1000"
definition RUN_IN_EVAL :: int where "RUN_IN_EVAL = 8"
definition RUN_UF :: int where "RUN_UF = 16"

record UserFunc =
  uf_name :: string
  uf_is_constant :: bool
  uf_node :: expr_node
  uf_nargs :: nat
  uf_run_disabled :: bool

text \<open>
  \<open>time_left\<close> is the number of nodes that will be evaluated before the alarm sets
  \<open>ExpressionTimeLimitExceeded\<close>; the flag is set at \<open>Some 0\<close>, and \<open>None\<close> is no alarm.
  The number of nodes is that of the line being run.
\<close>

record 'w estate =
  globals :: "string \<Rightarrow> Var option"
  nodes :: nat
  time_left :: "nat option"
  LastCatchError :: "errcode option"
  RunDisabled :: int
  parse_high :: nat
  eworld :: 'w

text \<open>
  \<open>alarm_ticks\<close>: how many nodes are evaluated before an alarm that is set after \<open>n\<close> nodes, if it
  goes off.  \<open>GetSysVar\<close> reads a system variable.
\<close>

record 'w eval_env =
  ev_config :: value_config
  ev_parse :: parse_env
  EvaluationDisabled :: bool
  NodeLimit :: nat
  TimeLimit :: bool
  alarm_ticks :: "nat \<Rightarrow> nat option"
  FindUserFunc :: "string \<Rightarrow> UserFunc option"
  GetSysVar :: "SysVar \<Rightarrow> 'w \<Rightarrow> errcode + Value"
  call_func :: "string \<Rightarrow> Value list \<Rightarrow> 'w estate \<Rightarrow> ((errcode + Value) \<times> bool) \<times> 'w estate"

text \<open>The result, whether the expression is non-constant so far, and the state.\<close>

type_synonym ('w, 'a) evaluated = "(errcode + 'a) \<times> bool \<times> 'w estate"

definition count_node :: "'w estate \<Rightarrow> 'w estate" where
  "count_node s = s\<lparr>nodes := nodes s + 1, time_left := map_option (\<lambda>n. n - 1) (time_left s)\<rparr>"

text \<open>The tests at the start of \<open>evaluate_expr_node\<close>.\<close>

definition start_node :: "'w eval_env \<Rightarrow> 'w estate \<Rightarrow> errcode option \<times> 'w estate" where
  "start_node E s =
    (if EvaluationDisabled E then (Some E_EXPR_DISABLED, s)
     else if time_left s = Some 0 then (Some E_TIME_EXCEEDED, s\<lparr>time_left := None\<rparr>)
     else if NodeLimit E > 0 \<and> nodes s \<ge> NodeLimit E then (Some E_EXPR_NODES_EXCEEDED, s)
     else (None, count_node s))"

definition eval_global :: "string \<Rightarrow> bool \<Rightarrow> 'w estate \<Rightarrow> ('w, Value) evaluated" where
  "eval_global str nc s =
    (case globals s (var_key str) of
       None \<Rightarrow> (Inl E_NOSUCH_VAR, nc, s)
     | Some v \<Rightarrow>
         (Inr (var_v v), nc \<or> \<not> is_constant v, s\<lparr>globals := (globals s)(var_key str \<mapsto> v\<lparr>used_since_set := True\<rparr>)\<rparr>))"

definition unary_value :: "oper \<Rightarrow> Value \<Rightarrow> errcode + Value" where
  "unary_value opr v = (if opr = logical_not then Inr (logical_not_value v) else unary_minus_value v)"

definition binary_value :: "value_config \<Rightarrow> oper \<Rightarrow> Value \<Rightarrow> Value \<Rightarrow> errcode + Value" where
  "binary_value vc opr v1 v2 =
    (case opr of
       multiply \<Rightarrow> multiply_values vc v1 v2
     | divide_op \<Rightarrow> divide_or_mod_values True v1 v2
     | do_mod \<Rightarrow> divide_or_mod_values False v1 v2
     | add_op \<Rightarrow> add_values vc v1 v2
     | subtract \<Rightarrow> subtract_values v1 v2
     | compare_op how \<Rightarrow> compare_values how v1 v2
     | _ \<Rightarrow> Inl E_SWERR)"

text \<open>\<open>choose\<close>: the index of the argument among those after the first.\<close>

definition choice :: "int \<Rightarrow> nat \<Rightarrow> nat" where
  "choice n nargs = (let n = (if n < 1 then 1 else n); n = (if n > int nargs - 1 then int nargs - 1 else n) in nat n - 1)"

lemma size_nth: "i < length xs \<Longrightarrow> size (xs ! i) \<le> size_list size xs"
  by (rule size_list_estimation' [OF nth_mem order_refl])

lemma choice_less: "2 \<le> k \<Longrightarrow> choice n k < k - 1"
  by (auto simp: choice_def Let_def)

text \<open>
  The functions that evaluate themselves, and the level of calls \<open>lvl\<close>, \<open>FuncRecursionLevel\<close>.  The
  parser builds operators with the operands they need and local variables of the function only;
  elsewhere the model has \<open>E_SWERR\<close>, the code's answer to a missing node.
\<close>

function (sequential)
  evaluate_expr_node :: "'w eval_env \<Rightarrow> nat \<Rightarrow> expr_node \<Rightarrow> Value list \<Rightarrow> bool \<Rightarrow> 'w estate \<Rightarrow> ('w, Value) evaluated"
  and eval_builtin :: "'w eval_env \<Rightarrow> nat \<Rightarrow> BuiltinFunc \<Rightarrow> expr_node list \<Rightarrow> Value list \<Rightarrow> bool \<Rightarrow> 'w estate \<Rightarrow> ('w, Value) evaluated"
  and eval_new :: "'w eval_env \<Rightarrow> nat \<Rightarrow> string \<Rightarrow> expr_node list \<Rightarrow> Value list \<Rightarrow> bool \<Rightarrow> 'w estate \<Rightarrow> ('w, Value) evaluated"
  and eval_userfunc :: "'w eval_env \<Rightarrow> nat \<Rightarrow> string \<Rightarrow> expr_node list \<Rightarrow> Value list \<Rightarrow> bool \<Rightarrow> 'w estate \<Rightarrow> ('w, Value) evaluated"
  and eval_operator :: "'w eval_env \<Rightarrow> nat \<Rightarrow> oper \<Rightarrow> expr_node list \<Rightarrow> Value list \<Rightarrow> bool \<Rightarrow> 'w estate \<Rightarrow> ('w, Value) evaluated"
  and eval_args :: "'w eval_env \<Rightarrow> nat \<Rightarrow> expr_node list \<Rightarrow> Value list \<Rightarrow> bool \<Rightarrow> 'w estate \<Rightarrow> ('w, Value list) evaluated"
  and FIif :: "'w eval_env \<Rightarrow> nat \<Rightarrow> expr_node list \<Rightarrow> Value list \<Rightarrow> bool \<Rightarrow> 'w estate \<Rightarrow> ('w, Value) evaluated"
  and isany_loop :: "'w eval_env \<Rightarrow> nat \<Rightarrow> Value \<Rightarrow> expr_node list \<Rightarrow> Value list \<Rightarrow> bool \<Rightarrow> 'w estate \<Rightarrow> ('w, Value) evaluated"
where
  "evaluate_expr_node E lvl node locals nc s =
    (case start_node E s of
       (Some e, s) \<Rightarrow> (Inl e, nc, s)
     | (None, s) \<Rightarrow>
         (case node of
            N_CONSTANT v \<Rightarrow> (Inr v, nc, s)
          | N_VARIABLE str \<Rightarrow> eval_global str nc s
          | N_LOCAL_VAR i \<Rightarrow> (if i < length locals then Inr (locals ! i) else Inl E_SWERR, nc, s)
          | N_SYSVAR v \<Rightarrow> (GetSysVar E v (eworld s), nc \<or> \<not> sv_const_int v, s)
          | N_BUILTIN_FUNC f args \<Rightarrow> eval_builtin E lvl f args locals (nc \<or> \<not> bf_is_constant f) s
          | N_USER_FUNC fname args \<Rightarrow> eval_userfunc E lvl fname args locals nc s
          | N_OPERATOR opr args \<Rightarrow> eval_operator E lvl opr args locals nc s))"
| "eval_builtin E lvl f args locals nc s =
    (if int (length args) < minargs f then (Inl E_2FEW_ARGS, nc, s)
     else if int (length args) > maxargs f \<and> maxargs f \<noteq> NO_MAX_ARGS then (Inl E_2MANY_ARGS, nc, s)
     else if lvl \<ge> MAX_RECURSION_LEVEL then (Inl E_RECURSIVE, nc, s)
     else if bf_name f \<in> {''catch'', ''choose'', ''iif'', ''isany'', ''isconst'', ''value''}
     then eval_new E (lvl + 1) (bf_name f) args locals nc s
     else
       (case eval_args E lvl args locals nc s of
          (Inl e, nc, s) \<Rightarrow> (Inl e, nc, s)
        | (Inr vs, nc, s) \<Rightarrow>
            (case
               (if bf_name f = ''eval'' then
                  (case vs of
                     StrV e # _ \<Rightarrow>
                       (case parse_expression (ev_parse E) (EvaluationDisabled E) (parse_high s) e of
                          (Inl r, _, high) \<Rightarrow> (Inl r, True, s\<lparr>parse_high := high\<rparr>)
                        | (Inr node, _, high) \<Rightarrow>
                            (case evaluate_expr_node E (lvl + 1) node [] False
                                    (s\<lparr>parse_high := high, RunDisabled := RunDisabled s OR RUN_IN_EVAL\<rparr>) of
                               (r, nc', s') \<Rightarrow> (r, nc', s'\<lparr>RunDisabled := RunDisabled s\<rparr>)))
                   | _ \<Rightarrow> (Inl E_BAD_TYPE, False, s))
                else (case call_func E (bf_name f) vs s of ((r, nc'), s') \<Rightarrow> (r, nc', s'))) of
               (Inl e, nc', s) \<Rightarrow> (Inl e, nc \<or> nc', s)
             | (Inr v, nc', s) \<Rightarrow> (Inr v, (nc \<or> nc') \<and> bf_name f \<noteq> ''const'', s))))"
| "eval_new E lvl name args locals nc s =
    (case args of
       [] \<Rightarrow> (Inl E_SWERR, nc, s)
     | a # rest \<Rightarrow>
         if name = ''iif'' then
           (if even (length args) then (Inl E_IIF_ODD, nc, s) else FIif E lvl args locals nc s)
         else if name = ''isconst'' then
           (case evaluate_expr_node E lvl a locals False s of
              (Inl e, _, s) \<Rightarrow> (Inl e, nc, s)
            | (Inr _, my_nonconst, s) \<Rightarrow> (Inr (IntV (if my_nonconst then 0 else 1)), nc, s))
         else
           (case evaluate_expr_node E lvl a locals nc s of
              (Inl e, nc, s) \<Rightarrow>
                (if name = ''catch'' then
                   (case rest of
                      [] \<Rightarrow> (Inl E_SWERR, nc, s\<lparr>LastCatchError := Some e\<rparr>)
                    | b # _ \<Rightarrow> evaluate_expr_node E lvl b locals nc (s\<lparr>LastCatchError := Some e\<rparr>))
                 else (Inl e, nc, s))
            | (Inr v, nc, s) \<Rightarrow>
                if name = ''catch'' then (Inr v, nc, s)
                else if name = ''isany'' then isany_loop E lvl v rest locals nc s
                else if name = ''choose'' then
                  (case v of
                     IntV n \<Rightarrow>
                       (if choice n (length args) < length rest
                        then evaluate_expr_node E lvl (rest ! choice n (length args)) locals nc s
                        else (Inl E_SWERR, nc, s))
                   | _ \<Rightarrow> (Inl E_BAD_TYPE, nc, s))
                else
                  (case v of
                     StrV str \<Rightarrow>
                       (case eval_global str nc s of
                          (Inl e, nc, s) \<Rightarrow>
                            (case rest of
                               [] \<Rightarrow> (Inl e, nc, s)
                             | b # _ \<Rightarrow> evaluate_expr_node E lvl b locals True s)
                        | r \<Rightarrow> r)
                   | _ \<Rightarrow> (Inl E_BAD_TYPE, nc, s))))"
| "eval_userfunc E lvl fname args locals nc s =
    (case FindUserFunc E fname of
       None \<Rightarrow> (Inl E_UNDEF_FUNC, nc, s)
     | Some f \<Rightarrow>
         if length args < uf_nargs f then (Inl E_2FEW_ARGS, nc, s)
         else if length args > uf_nargs f then (Inl E_2MANY_ARGS, nc, s)
         else
           (case eval_args E lvl args locals nc s of
              (Inl e, nc, s) \<Rightarrow> (Inl e, nc, s)
            | (Inr new_locals, nc, s) \<Rightarrow>
                if lvl \<ge> MAX_RECURSION_LEVEL then (Inl E_RECURSIVE, nc, s)
                else
                  (case evaluate_expr_node E (lvl + 1) (uf_node f) new_locals (nc \<or> \<not> uf_is_constant f)
                          (if uf_run_disabled f then s\<lparr>RunDisabled := RunDisabled s OR RUN_UF\<rparr> else s) of
                     (r, nc, s') \<Rightarrow> (r, nc, s'\<lparr>RunDisabled := RunDisabled s\<rparr>))))"
| "eval_operator E lvl opr args locals nc s =
    (case args of
       [] \<Rightarrow> (Inl E_SWERR, nc, s)
     | a # rest \<Rightarrow>
         (case evaluate_expr_node E lvl a locals nc s of
            (Inl e, nc, s) \<Rightarrow> (Inl e, nc, s)
          | (Inr v1, nc, s) \<Rightarrow>
              if opr \<in> {logical_not, unary_minus} then (unary_value opr v1, nc, s)
              else if opr = logical_and \<and> \<not> truthy v1 \<or> opr = logical_or \<and> truthy v1 then (Inr v1, nc, s)
              else
                (case rest of
                   [] \<Rightarrow> (Inl E_SWERR, nc, s)
                 | b # _ \<Rightarrow>
                     (case evaluate_expr_node E lvl b locals nc s of
                        (Inl e, nc, s) \<Rightarrow> (Inl e, nc, s)
                      | (Inr v2, nc, s) \<Rightarrow>
                          if opr \<in> {logical_and, logical_or} then (Inr v2, nc, s)
                          else (binary_value (ev_config E) opr v1 v2, nc, s)))))"
| "eval_args E lvl [] locals nc s = (Inr [], nc, s)"
| "eval_args E lvl (a # args) locals nc s =
    (case evaluate_expr_node E lvl a locals nc s of
       (Inl e, nc, s) \<Rightarrow> (Inl e, nc, s)
     | (Inr v, nc, s) \<Rightarrow>
         (case eval_args E lvl args locals nc s of
            (Inl e, nc, s) \<Rightarrow> (Inl e, nc, s)
          | (Inr vs, nc, s) \<Rightarrow> (Inr (v # vs), nc, s)))"
| "FIif E lvl [] locals nc s = (Inl E_SWERR, nc, s)"
| "FIif E lvl [a] locals nc s = evaluate_expr_node E lvl a locals nc s"
| "FIif E lvl (a # b # rest) locals nc s =
    (case evaluate_expr_node E lvl a locals nc s of
       (Inl e, nc, s) \<Rightarrow> (Inl e, nc, s)
     | (Inr v, nc, s) \<Rightarrow>
         if truthy v then evaluate_expr_node E lvl b locals nc s
         else FIif E lvl rest locals nc s)"
| "isany_loop E lvl v [] locals nc s = (Inr (IntV 0), nc, s)"
| "isany_loop E lvl v (a # rest) locals nc s =
    (case evaluate_expr_node E lvl a locals nc s of
       (Inl e, nc, s) \<Rightarrow> (Inl e, nc, s)
     | (Inr w, nc, s) \<Rightarrow> if w = v then (Inr (IntV 1), nc, s) else isany_loop E lvl v rest locals nc s)"
  by pat_completeness auto

termination
  by (relation "inv_image (less_than <*lex*> less_than)
      (case_sum (case_sum
         (case_sum (\<lambda>(E, lvl, node, locals, nc, s). (MAX_RECURSION_LEVEL - lvl, 3 * size node))
                   (\<lambda>(E, lvl, f, args, locals, nc, s). (MAX_RECURSION_LEVEL - lvl, 3 * size_list size args + 2)))
         (case_sum (\<lambda>(E, lvl, name, args, locals, nc, s). (MAX_RECURSION_LEVEL - lvl, 3 * size_list size args + 1))
                   (\<lambda>(E, lvl, fname, args, locals, nc, s). (MAX_RECURSION_LEVEL - lvl, 3 * size_list size args + 1))))
       (case_sum
         (case_sum (\<lambda>(E, lvl, opr, args, locals, nc, s). (MAX_RECURSION_LEVEL - lvl, 3 * size_list size args + 1))
                   (\<lambda>(E, lvl, args, locals, nc, s). (MAX_RECURSION_LEVEL - lvl, 3 * size_list size args)))
         (case_sum (\<lambda>(E, lvl, args, locals, nc, s). (MAX_RECURSION_LEVEL - lvl, 3 * size_list size args))
                   (\<lambda>(E, lvl, v, args, locals, nc, s). (MAX_RECURSION_LEVEL - lvl, 3 * size_list size args)))))")
    (auto dest!: size_nth)

declare evaluate_expr_node.simps [simp del] eval_builtin.simps [simp del] eval_new.simps [simp del]
  eval_userfunc.simps [simp del] eval_operator.simps [simp del]

definition evaluate_expression ::
    "'w eval_env \<Rightarrow> nat \<Rightarrow> expr_node \<Rightarrow> Value list \<Rightarrow> bool \<Rightarrow> 'w estate \<Rightarrow> ('w, Value) evaluated" where
  "evaluate_expression E lvl node locals nc s =
    (case evaluate_expr_node E lvl node locals nc
            (if TimeLimit E then s\<lparr>time_left := alarm_ticks E (nodes s)\<rparr> else s) of
       (r, nc, s) \<Rightarrow> (r, nc, if TimeLimit E then s\<lparr>time_left := None\<rparr> else s))"

text \<open>
  An expression in a line, in brackets or not, read from the parse pointer's text; the text that is
  left and, as part of the state, the highest level of the parser.
\<close>

definition ParseExpr :: "parse_env \<Rightarrow> bool \<Rightarrow> bool \<Rightarrow> nat \<Rightarrow> string \<Rightarrow> (errcode + expr_node) \<times> string \<times> nat" where
  "ParseExpr E disabled nested high line =
    (if nested then (Inl E_PARSE_ERR, line, high)
     else let line = dropWhile isempty line in
       if line = [] then (Inl E_EOLN, line, high)
       else let bracketed = (hd line = CHR ''[''); line = (if bracketed then tl line else line) in
         (case parse_expression E disabled high line of
            (Inl e, r) \<Rightarrow> (Inl e, r)
          | (Inr node, line, high) \<Rightarrow>
              if bracketed
              then if starts (\<lambda>c. c = CHR '']'') line then (Inr node, tl line, high)
                   else (Inl (if line \<noteq> [] then E_PARSE_ERR else E_MISS_END), line, high)
              else (Inr node, line, high)))"

definition EvaluateExpr ::
    "'w eval_env \<Rightarrow> bool \<Rightarrow> string \<Rightarrow> bool \<Rightarrow> 'w estate \<Rightarrow> (errcode + Value) \<times> bool \<times> string \<times> 'w estate" where
  "EvaluateExpr E nested line nc0 s =
    (case ParseExpr (ev_parse E) (EvaluationDisabled E) nested (parse_high s) line of
       (Inl e, line, high) \<Rightarrow> (Inl e, nc0, line, s\<lparr>parse_high := high\<rparr>)
     | (Inr node, line, high) \<Rightarrow>
         (case evaluate_expression E 0 node [] False (s\<lparr>parse_high := high\<rparr>) of
            (Inl e, _, s) \<Rightarrow> (Inl e, nc0, line, s)
          | (Inr v, nonconst, s) \<Rightarrow> (Inr v, nc0 \<or> nonconst, line, s)))"

section \<open>What evaluation keeps\<close>

text \<open>
  The trees the parser makes: operators have their operands, local variables are among the \<open>n\<close>
  arguments, the functions that evaluate themselves have the arguments they look for, and the
  constants are values that satisfy \<open>V\<close>.
\<close>

fun arity :: "oper \<Rightarrow> nat" where
  "arity opr = (if opr \<in> {logical_not, unary_minus} then 1 else 2)"

definition new_args_ok :: "string \<Rightarrow> nat \<Rightarrow> bool" where
  "new_args_ok name k \<longleftrightarrow>
    (name \<in> {''catch'', ''choose''} \<longrightarrow> 2 \<le> k) \<and> (name \<in> {''iif'', ''isany'', ''isconst'', ''value'', ''eval''} \<longrightarrow> 1 \<le> k)"

fun tree_ok :: "(Value \<Rightarrow> bool) \<Rightarrow> nat \<Rightarrow> expr_node \<Rightarrow> bool" where
  "tree_ok V n (N_CONSTANT v) \<longleftrightarrow> V v"
| "tree_ok V n (N_LOCAL_VAR i) \<longleftrightarrow> i < n"
| "tree_ok V n (N_VARIABLE x) \<longleftrightarrow> True"
| "tree_ok V n (N_SYSVAR x) \<longleftrightarrow> True"
| "tree_ok V n (N_BUILTIN_FUNC f args) \<longleftrightarrow> new_args_ok (bf_name f) (length args) \<and> list_all (tree_ok V n) args"
| "tree_ok V n (N_USER_FUNC f args) \<longleftrightarrow> list_all (tree_ok V n) args"
| "tree_ok V n (N_OPERATOR opr args) \<longleftrightarrow> length args = arity opr \<and> list_all (tree_ok V n) args"

lemma DoCoerce_string: "\<exists>s. DoCoerce vc STR_TYPE v = Inr (StrV s)"
  by (cases v) (auto simp: DoCoerce_def coerce_str_def)

lemma add_strings_error: "add_strings vc v1 v2 \<noteq> Inl E_SWERR"
  using DoCoerce_string [of vc v1] DoCoerce_string [of vc v2] by (auto simp: add_strings_def split: if_splits)

lemma add_values_error: "add_values vc v1 v2 \<noteq> Inl E_SWERR"
  by (simp add: add_values_def Let_def add_strings_error)

lemma subtract_values_error: "subtract_values v1 v2 \<noteq> Inl E_SWERR"
  by (simp add: subtract_values_def Let_def)

lemma repeat_string_error: "repeat_string vc n s \<noteq> Inl E_SWERR"
  by (simp add: repeat_string_def Let_def)

lemma multiply_values_error: "multiply_values vc v1 v2 \<noteq> Inl E_SWERR"
  using repeat_string_error by (simp add: multiply_values_def split: Value.split)

lemma divide_or_mod_values_error: "divide_or_mod_values b v1 v2 \<noteq> Inl E_SWERR"
  by (simp add: divide_or_mod_values_def split: Value.split)

lemma compare_values_error: "compare_values h v1 v2 \<noteq> Inl E_SWERR"
  by (auto simp: compare_values_def Let_def split: Value.split)

lemma binary_value_error:
  "arity opr = 2 \<Longrightarrow> opr \<notin> {logical_and, logical_or} \<Longrightarrow> binary_value vc opr v1 v2 \<noteq> Inl E_SWERR"
  by (cases opr) (simp_all add: binary_value_def multiply_values_error divide_or_mod_values_error
      add_values_error subtract_values_error compare_values_error)

lemma unary_value_error: "unary_value opr v \<noteq> Inl E_SWERR"
  by (auto simp: unary_value_def unary_minus_value_def split: Value.splits)

lemma start_node_error: "start_node E s = (Some x, s') \<Longrightarrow> x \<noteq> E_SWERR"
  by (auto simp: start_node_def split: if_splits)

lemma eval_global_error: "eval_global str nc s = (r, nc', s') \<Longrightarrow> r \<noteq> Inl E_SWERR"
  by (auto simp: eval_global_def split: option.splits)

text \<open>
  The interface between evaluation and what it is shown to keep: a property of values, and one of
  states, that the constants of trees have and every primitive step keeps.
\<close>

locale eval_keeps =
  fixes E :: "'w eval_env" and V :: "Value \<Rightarrow> bool" and I :: "'w estate \<Rightarrow> bool"
  assumes start: "I s \<Longrightarrow> I (snd (start_node E s))"
    and global: "I s \<Longrightarrow> eval_global str nc s = (r, nc', s') \<Longrightarrow> I s' \<and> (\<forall>v. r = Inr v \<longrightarrow> V v)"
    and sysvar: "I s \<Longrightarrow> GetSysVar E x (eworld s) \<noteq> Inl E_SWERR \<and> (\<forall>v. GetSysVar E x (eworld s) = Inr v \<longrightarrow> V v)"
    and bool_values: "V (IntV 0)" "V (IntV 1)"
    and unary: "V v \<Longrightarrow> unary_value opr v = Inr w \<Longrightarrow> V w"
    and binary: "V v1 \<Longrightarrow> V v2 \<Longrightarrow> binary_value (ev_config E) opr v1 v2 = Inr w \<Longrightarrow> V w"
    and call: "I s \<Longrightarrow> list_all V vs \<Longrightarrow> call_func E fn vs s = ((r, nc), s') \<Longrightarrow>
      I s' \<and> r \<noteq> Inl E_SWERR \<and> (\<forall>v. r = Inr v \<longrightarrow> V v)"
    and userfunc: "FindUserFunc E fname = Some f \<Longrightarrow> tree_ok V (uf_nargs f) (uf_node f)"
    and parsed: "V (StrV e) \<Longrightarrow> parse_expression (ev_parse E) b high e = (p, t, high') \<Longrightarrow>
      p \<noteq> Inl E_SWERR \<and> (\<forall>node. p = Inr node \<longrightarrow> tree_ok V 0 node)"
    and marks: "I s \<Longrightarrow> I (s\<lparr>LastCatchError := c\<rparr>)" "I s \<Longrightarrow> I (s\<lparr>RunDisabled := n\<rparr>)" "I s \<Longrightarrow> I (s\<lparr>parse_high := high\<rparr>)"
begin

abbreviation keeps :: "('w, Value) evaluated \<Rightarrow> bool" where
  "keeps x \<equiv> I (snd (snd x)) \<and> fst x \<noteq> Inl E_SWERR \<and> (\<forall>v. fst x = Inr v \<longrightarrow> V v)"

lemma evaluation_keeps:
  "tree_ok V (length locals) node \<Longrightarrow> list_all V locals \<Longrightarrow> I s \<Longrightarrow> E' = E \<Longrightarrow> keeps (evaluate_expr_node E' lvl node locals nc s)"
  "new_args_ok (bf_name f) (length args) \<Longrightarrow> list_all (tree_ok V (length locals)) args \<Longrightarrow> list_all V locals \<Longrightarrow> I s \<Longrightarrow> E' = E \<Longrightarrow>
    keeps (eval_builtin E' lvl f args locals nc s)"
  "new_args_ok name (length args) \<Longrightarrow> name \<in> {''catch'', ''choose'', ''iif'', ''isany'', ''isconst'', ''value''} \<Longrightarrow>
    list_all (tree_ok V (length locals)) args \<Longrightarrow> list_all V locals \<Longrightarrow> I s \<Longrightarrow> E' = E \<Longrightarrow>
    keeps (eval_new E' lvl name args locals nc s)"
  "list_all (tree_ok V (length locals)) args \<Longrightarrow> list_all V locals \<Longrightarrow> I s \<Longrightarrow> E' = E \<Longrightarrow> keeps (eval_userfunc E' lvl fname args locals nc s)"
  "length args = arity opr \<Longrightarrow> list_all (tree_ok V (length locals)) args \<Longrightarrow> list_all V locals \<Longrightarrow> I s \<Longrightarrow> E' = E \<Longrightarrow>
    keeps (eval_operator E' lvl opr args locals nc s)"
  "list_all (tree_ok V (length locals)) args \<Longrightarrow> list_all V locals \<Longrightarrow> I s \<Longrightarrow> E' = E \<Longrightarrow>
    I (snd (snd (eval_args E' lvl args locals nc s))) \<and> fst (eval_args E' lvl args locals nc s) \<noteq> Inl E_SWERR \<and>
    (\<forall>vs. fst (eval_args E' lvl args locals nc s) = Inr vs \<longrightarrow> length vs = length args \<and> list_all V vs)"
  "odd (length args) \<Longrightarrow> list_all (tree_ok V (length locals)) args \<Longrightarrow> list_all V locals \<Longrightarrow> I s \<Longrightarrow> E' = E \<Longrightarrow> keeps (FIif E' lvl args locals nc s)"
  "list_all (tree_ok V (length locals)) args \<Longrightarrow> list_all V locals \<Longrightarrow> I s \<Longrightarrow> E' = E \<Longrightarrow> keeps (isany_loop E' lvl v args locals nc s)"
proof (induction E' lvl node locals nc s and E' lvl f args locals nc s and E' lvl name args locals nc s
    and E' lvl fname args locals nc s and E' lvl opr args locals nc s and E' lvl args locals nc s
    and E' lvl args locals nc s and E' lvl v args locals nc s
    rule: evaluate_expr_node_eval_builtin_eval_new_eval_userfunc_eval_operator_eval_args_FIif_isany_loop.induct)
  case (1 E' lvl node locals nc s)
  note [simp] = "1.prems"(4)
  show ?case
  proof (cases "start_node E s")
    case (Pair e s1)
    have I: "I s1" using start [OF "1.prems"(3)] Pair by simp
    show ?thesis
    proof (cases e)
      case (Some x)
      then show ?thesis using Pair I start_node_error by (simp add: evaluate_expr_node.simps)
    next
      case None
      then have st: "start_node E s = (None, s1)" and st': "(None, s1) = start_node E' s" using Pair by simp_all
      show ?thesis
      proof (cases node)
        case (N_VARIABLE str)
        obtain r nc' s' where g: "eval_global str nc s1 = (r, nc', s')" by (metis surj_pair)
        show ?thesis using global [OF I g] eval_global_error [OF g] by (simp add: evaluate_expr_node.simps st N_VARIABLE g)
      next
        case (N_SYSVAR x)
        then show ?thesis using sysvar [OF I] I by (auto simp: evaluate_expr_node.simps st)
      next
        case (N_BUILTIN_FUNC f args)
        then show ?thesis using "1.IH"(1) [OF st' refl N_BUILTIN_FUNC] "1.prems" I st by (simp add: evaluate_expr_node.simps)
      next
        case (N_USER_FUNC f args)
        then show ?thesis using "1.IH"(2) [OF st' refl N_USER_FUNC] "1.prems" I st by (simp add: evaluate_expr_node.simps)
      next
        case (N_OPERATOR opr args)
        then show ?thesis using "1.IH"(3) [OF st' refl N_OPERATOR] "1.prems" I st by (simp add: evaluate_expr_node.simps)
      qed (use "1.prems" I in \<open>auto simp: evaluate_expr_node.simps st list_all_length\<close>)
    qed
  qed
next
  case (2 E' lvl f args locals nc s)
  note [simp] = "2.prems"(5)
  let ?new = "{''catch'', ''choose'', ''iif'', ''isany'', ''isconst'', ''value''}"
  show ?case
  proof (cases "int (length args) < minargs f \<or> int (length args) > maxargs f \<and> maxargs f \<noteq> NO_MAX_ARGS \<or>
      lvl \<ge> MAX_RECURSION_LEVEL")
    case True
    then show ?thesis using "2.prems"(4) by (auto simp: eval_builtin.simps)
  next
    case guards: False
    then have g: "\<not> int (length args) < minargs f" "\<not> (int (length args) > maxargs f \<and> maxargs f \<noteq> NO_MAX_ARGS)"
      "\<not> lvl \<ge> MAX_RECURSION_LEVEL" by auto
    show ?thesis
    proof (cases "bf_name f \<in> ?new")
      case True
      then show ?thesis using "2.IH"(1) [OF g True] "2.prems" g by (auto simp: eval_builtin.simps)
    next
      case old: False
      obtain r nc1 s1 where 1: "eval_args E lvl args locals nc s = (r, nc1, s1)" by (metis surj_pair)
      note args = "2.IH"(2) [OF g old "2.prems"(2-5)]
      show ?thesis
      proof (cases r)
        case (Inl e)
        then show ?thesis using args g old 1 "2.prems"(4) by (auto simp: eval_builtin.simps)
      next
        case (Inr vs)
        have I: "I s1" "list_all V vs" using args 1 Inr by simp_all
        show ?thesis
        proof (cases "bf_name f = ''eval''")
          case False
          obtain x nc2 s2 where c: "call_func E (bf_name f) vs s1 = ((x, nc2), s2)" by (metis surj_pair)
          show ?thesis using call [OF I c] g old 1 Inr False c "2.prems"(4) by (cases x) (auto simp: eval_builtin.simps)
        next
          case True
          show ?thesis
          proof (cases "\<exists>e ws. vs = StrV e # ws")
            case False
            then have "(case vs of StrV e # _ \<Rightarrow> F e | _ \<Rightarrow> x) = x" for F and x :: "('w, Value) evaluated"
              by (auto split: list.splits Value.splits)
            then show ?thesis using g old 1 Inr True I "2.prems"(4) by (auto simp: eval_builtin.simps)
          next
            case str: True
            then obtain e ws where vs: "vs = StrV e # ws" by blast
            obtain p t high where p: "parse_expression (ev_parse E) (EvaluationDisabled E) (parse_high s1) e = (p, t, high)"
              by (metis surj_pair)
            have "V (StrV e)" using I(2) vs by simp
            note pk = parsed [OF this p]
            show ?thesis
            proof (cases p)
              case (Inl x)
              then show ?thesis using pk g old 1 Inr True vs p marks(3) [OF I(1)] "2.prems"(4) by (auto simp: eval_builtin.simps)
            next
              case node: (Inr node)
              let ?s = "s1\<lparr>parse_high := high, RunDisabled := RunDisabled s1 OR RUN_IN_EVAL\<rparr>"
              obtain x nc2 s2 where ev: "evaluate_expr_node E (lvl + 1) node [] False ?s = (x, nc2, s2)" by (metis surj_pair)
              have t: "tree_ok V (length []) node" using pk node by simp
              have "I ?s" using marks(2) [OF marks(3) [OF I(1)]] by simp
              with "2.IH"(3) [OF g old 1 [symmetric, folded "2.prems"(5)] Inr refl True vs refl
                  p [symmetric, folded "2.prems"(5)] node refl t] ev
              have "I s2 \<and> x \<noteq> Inl E_SWERR \<and> (\<forall>v. x = Inr v \<longrightarrow> V v)" by simp
              then show ?thesis using g old 1 Inr True vs p node ev marks(2) "2.prems"(4)
                by (cases x) (auto simp: eval_builtin.simps)
            qed
          qed
        qed
      qed
    qed
  qed
next
  case (3 E' lvl name args locals nc s)
  note [simp] = "3.prems"(6)
  show ?case
  proof (cases args)
    case Nil
    then show ?thesis using "3.prems"(1,2,5) by (auto simp: eval_new.simps new_args_ok_def)
  next
    case (Cons a rest)
    have t: "tree_ok V (length locals) a" "list_all (tree_ok V (length locals)) rest" using "3.prems"(3) Cons by simp_all
    consider "name = ''iif''" | "name = ''isconst''" | (other) "name \<noteq> ''iif''" "name \<noteq> ''isconst''" by blast
    then show ?thesis
    proof cases
      case 1
      then show ?thesis using "3.IH"(1) [OF Cons 1] "3.prems" Cons
        by (cases "even (length args)") (auto simp: eval_new.simps)
    next
      case 2
      obtain r nc1 s1 where 1: "evaluate_expr_node E lvl a locals False s = (r, nc1, s1)" by (metis surj_pair)
      have "name \<noteq> ''iif''" using 2 by simp
      then show ?thesis using "3.IH"(2) [OF Cons _ 2] "3.prems" t Cons 1 2 bool_values
        by (cases r) (auto simp: eval_new.simps)
    next
      case other
      obtain r nc1 s1 where 1: "evaluate_expr_node E lvl a locals nc s = (r, nc1, s1)" by (metis surj_pair)
      note a = "3.IH"(3) [OF Cons other t(1) "3.prems"(4-6)]
      have I: "I s1" using a 1 by simp
      have second: "name = ''catch'' \<Longrightarrow> rest \<noteq> []"
        and index: "name = ''choose'' \<Longrightarrow> choice n (length args) < length rest" for n
        using "3.prems"(1) Cons choice_less [of "length args"] by (auto simp: new_args_ok_def)
      show ?thesis
      proof (cases r)
        case (Inl e)
        then show ?thesis
          using second a "3.IH"(4) [OF Cons other 1 [symmetric, folded "3.prems"(6)] Inl refl] "3.prems"(4) t(2) marks(1) [OF I] I 1 Cons other
          by (cases rest) (auto simp: eval_new.simps)
      next
        case (Inr v)
        note ev = 1 [symmetric, folded "3.prems"(6)]
        have V: "V v" using a 1 Inr by simp
        consider (catch) "name = ''catch''" | (isany) "name \<noteq> ''catch''" "name = ''isany''"
          | (choose) "name \<noteq> ''catch''" "name \<noteq> ''isany''" "name = ''choose''"
          | (val) "name \<noteq> ''catch''" "name \<noteq> ''isany''" "name \<noteq> ''choose''" by blast
        then show ?thesis
        proof cases
          case catch
          then show ?thesis using catch V I 1 Inr Cons other by (simp add: eval_new.simps)
        next
          case isany
          then show ?thesis using "3.IH"(5) [OF Cons other ev Inr refl isany t(2)] "3.prems"(4) I 1 Inr Cons other isany
            by (auto simp: eval_new.simps)
        next
          case choose
          show ?thesis
          proof (cases "\<exists>n. v = IntV n")
            case True
            then obtain n where n: "v = IntV n" "choice n (length args) < length rest"
              using index choose(3) by blast
            have "tree_ok V (length locals) (rest ! choice n (length args))" using t(2) n(2) by (simp add: list_all_length)
            then show ?thesis using "3.IH"(6) [OF Cons other ev Inr refl choose n] "3.prems"(4) I 1 Inr Cons other n choose
              by (auto simp: eval_new.simps)
          next
            case False
            then show ?thesis using I 1 Inr Cons other choose by (cases v) (auto simp: eval_new.simps)
          qed
        next
          case val
          show ?thesis
          proof (cases "\<exists>str. v = StrV str")
            case False
            then show ?thesis using I 1 Inr Cons other val by (cases v) (auto simp: eval_new.simps)
          next
            case True
            then obtain str where str: "v = StrV str" by blast
            obtain x nc2 s2 where g: "eval_global str nc1 s1 = (x, nc2, s2)" by (metis surj_pair)
            note k = global [OF I g] eval_global_error [OF g]
            show ?thesis
            proof (cases "\<exists>e b bs. x = Inl e \<and> rest = b # bs")
              case False
              then show ?thesis using k g I 1 Inr Cons other val str
                by (cases x; cases rest) (auto simp: eval_new.simps)
            next
              case True
              then obtain e b bs where e: "x = Inl e" "rest = b # bs" by blast
              then have "tree_ok V (length locals) b" using t(2) by simp
              then show ?thesis
                using "3.IH"(7) [OF Cons other ev Inr refl val str g [symmetric] e(1) refl e(2)] "3.prems"(4) k g I 1 Inr Cons other val str e
                by (auto simp: eval_new.simps)
            qed
          qed
        qed
      qed
    qed
  qed
next
  case (4 E' lvl fname args locals nc s)
  note [simp] = "4.prems"(4)
  show ?case
  proof (cases "FindUserFunc E fname")
    case None
    then show ?thesis using "4.prems" by (simp add: eval_userfunc.simps)
  next
    case (Some f)
    note some = Some [folded "4.prems"(4)]
    show ?thesis
    proof (cases "length args < uf_nargs f \<or> length args > uf_nargs f")
      case True
      then show ?thesis using "4.prems"(3) Some by (auto simp: eval_userfunc.simps)
    next
      case False
      then have n: "\<not> length args < uf_nargs f" "\<not> length args > uf_nargs f" by auto
      obtain r nc1 s1 where 1: "eval_args E lvl args locals nc s = (r, nc1, s1)" by (metis surj_pair)
      note args = "4.IH"(1) [OF some n "4.prems"]
      have I: "I s1" using args 1 by simp
      show ?thesis
      proof (cases "r = Inl (projl r) \<or> lvl \<ge> MAX_RECURSION_LEVEL")
        case True
        then show ?thesis using args I Some n 1 by (cases r) (auto simp: eval_userfunc.simps)
      next
        case go: False
        then obtain vs where r: "r = Inr vs" by (cases r) auto
        let ?s = "if uf_run_disabled f then s1\<lparr>RunDisabled := RunDisabled s1 OR RUN_UF\<rparr> else s1"
        obtain x nc2 s2 where ev: "evaluate_expr_node E (lvl + 1) (uf_node f) vs (nc1 \<or> \<not> uf_is_constant f) ?s = (x, nc2, s2)"
          by (metis surj_pair)
        have lvl: "\<not> lvl \<ge> MAX_RECURSION_LEVEL" using go by simp
        have vs: "list_all V vs" "length vs = uf_nargs f" using args 1 r n by simp_all
        moreover have "I ?s" using I marks(2) by simp
        ultimately have "I s2 \<and> x \<noteq> Inl E_SWERR \<and> (\<forall>v. x = Inr v \<longrightarrow> V v)"
          using "4.IH"(2) [OF some n 1 [symmetric, folded "4.prems"(4)] r refl lvl] userfunc [OF Some] ev by simp
        then show ?thesis using Some n 1 r lvl ev marks(2) by (auto simp: eval_userfunc.simps)
      qed
    qed
  qed
next
  case (5 E' lvl opr args locals nc s)
  note [simp] = "5.prems"(5)
  show ?case
  proof (cases args)
    case Nil
    then show ?thesis using "5.prems"(1) by (simp split: if_splits)
  next
    case (Cons a rest)
    have t: "tree_ok V (length locals) a" "list_all (tree_ok V (length locals)) rest" using "5.prems"(2) Cons by simp_all
    obtain r nc1 s1 where 1: "evaluate_expr_node E lvl a locals nc s = (r, nc1, s1)" by (metis surj_pair)
    note a = "5.IH"(1) [OF Cons t(1) "5.prems"(3-5)]
    show ?thesis
    proof (cases r)
      case (Inl e)
      then show ?thesis using a 1 Cons by (simp add: eval_operator.simps)
    next
      case (Inr v1)
      have I: "I s1" "V v1" using a 1 Inr by simp_all
      consider (one) "opr \<in> {logical_not, unary_minus}"
        | (short) "opr \<notin> {logical_not, unary_minus}" "opr = logical_and \<and> \<not> truthy v1 \<or> opr = logical_or \<and> truthy v1"
        | (both) "opr \<notin> {logical_not, unary_minus}" "\<not> (opr = logical_and \<and> \<not> truthy v1 \<or> opr = logical_or \<and> truthy v1)"
        by blast
      then show ?thesis
      proof cases
        case one
        then show ?thesis using unary [OF I(2)] unary_value_error [of opr v1] I 1 Inr Cons by (auto simp: eval_operator.simps)
      next
        case short
        then show ?thesis using I 1 Inr Cons by (auto simp: eval_operator.simps)
      next
        case both
        show ?thesis
        proof (cases rest)
          case Nil
          then show ?thesis using "5.prems"(1) both(1) Cons by (simp split: if_splits)
        next
          case r2: (Cons b more_args)
          obtain x nc2 s2 where 2: "evaluate_expr_node E lvl b locals nc1 s1 = (x, nc2, s2)" by (metis surj_pair)
          have "tree_ok V (length locals) b" using t(2) r2 by simp
          then have k: "I s2 \<and> x \<noteq> Inl E_SWERR \<and> (\<forall>v. x = Inr v \<longrightarrow> V v)"
            using "5.IH"(2) [OF Cons 1 [symmetric, folded "5.prems"(5)] Inr refl both r2] "5.prems"(3) I 2 by simp
          show ?thesis
          proof (cases x)
            case (Inl e)
            then show ?thesis using k both I 1 Inr Cons r2 2 \<open>r = Inr v1\<close> by (auto simp: eval_operator.simps)
          next
            case x: (Inr v2)
            then have "V v2" using k by simp
            show ?thesis
            proof (cases "opr \<in> {logical_and, logical_or}")
              case True
              then show ?thesis using k x both 1 Inr Cons r2 2 by (auto simp: eval_operator.simps)
            next
              case False
              then have "binary_value (ev_config E) opr v1 v2 \<noteq> Inl E_SWERR"
                using both(1) by (intro binary_value_error) auto
              then show ?thesis using False k x binary [OF I(2) \<open>V v2\<close>] both 1 Inr Cons r2 2 by (auto simp: eval_operator.simps)
            qed
          qed
        qed
      qed
    qed
  qed
next
  case (7 E' lvl a args locals nc s)
  note [simp] = "7.prems"(4)
  obtain r nc1 s1 where 1: "evaluate_expr_node E lvl a locals nc s = (r, nc1, s1)" by (metis surj_pair)
  obtain r2 nc2 s2 where 2: "eval_args E lvl args locals nc1 s1 = (r2, nc2, s2)" by (metis surj_pair)
  have t: "tree_ok V (length locals) a" "list_all (tree_ok V (length locals)) args" using "7.prems"(1) by simp_all
  note a = "7.IH"(1) [OF t(1) "7.prems"(2-4)]
  show ?case
  proof (cases r)
    case (Inl e)
    then show ?thesis using a 1 by simp
  next
    case (Inr v)
    have I: "I s1" using a 1 by simp
    note rest = "7.IH"(2) [OF 1 [symmetric, folded "7.prems"(4)] Inr refl t(2) "7.prems"(2) I "7.prems"(4)]
    show ?thesis using a rest 1 2 Inr by (cases r2) simp_all
  qed
next
  case (10 E' lvl a b rest locals nc s)
  note [simp] = "10.prems"(5)
  obtain r nc1 s1 where 1: "evaluate_expr_node E lvl a locals nc s = (r, nc1, s1)" by (metis surj_pair)
  have t: "tree_ok V (length locals) a" "tree_ok V (length locals) b" "list_all (tree_ok V (length locals)) rest"
    using "10.prems"(2) by simp_all
  have odd: "odd (length rest)" using "10.prems"(1) by simp
  note a = "10.IH"(1) [OF t(1) "10.prems"(3-5)]
  show ?case
  proof (cases r)
    case (Inl e)
    then show ?thesis using a 1 by simp
  next
    case (Inr v)
    note ev = 1 [symmetric, folded "10.prems"(5)]
    have I: "I s1" using a 1 by simp
    show ?thesis
    proof (cases "truthy v")
      case True
      then show ?thesis using "10.IH"(2) [OF ev Inr refl True t(2) "10.prems"(3) I "10.prems"(5)] 1 Inr by simp
    next
      case False
      then show ?thesis using "10.IH"(3) [OF ev Inr refl False odd t(3) "10.prems"(3) I "10.prems"(5)] 1 Inr by simp
    qed
  qed
next
  case (12 E' lvl v a rest locals nc s)
  note [simp] = "12.prems"(4)
  obtain r nc1 s1 where 1: "evaluate_expr_node E lvl a locals nc s = (r, nc1, s1)" by (metis surj_pair)
  have t: "tree_ok V (length locals) a" "list_all (tree_ok V (length locals)) rest" using "12.prems"(1) by simp_all
  note a = "12.IH"(1) [OF t(1) "12.prems"(2-4)]
  show ?case
  proof (cases r)
    case (Inl e)
    then show ?thesis using a 1 by simp
  next
    case (Inr w)
    have I: "I s1" using a 1 by simp
    note rest = "12.IH"(2) [OF 1 [symmetric, folded "12.prems"(4)] Inr refl _ t(2) "12.prems"(2) I "12.prems"(4)]
    show ?thesis using rest I bool_values 1 Inr by (cases "w = v") simp_all
  qed
qed (auto simp: bool_values)

end

end
