(* ===== verification/FuncTable.thy ===== *)
theory FuncTable
  imports Funcs
begin

text \<open>
  The table of built-in functions, \<open>Func\<close> of \<^verbatim>\<open>src/src/funcs.c\<close>, and the search for a name in it.
\<close>

section \<open>The table\<close>

definition entry :: "string \<Rightarrow> int \<Rightarrow> int \<Rightarrow> bool \<Rightarrow> BuiltinFunc" where
  "entry name lo hi const = \<lparr>bf_name = name, minargs = lo, maxargs = hi, bf_is_constant = const\<rparr>"

definition Func :: "BuiltinFunc list" where
  "Func =
   [entry ''_'' 1 1 False, entry ''abs'' 1 1 True, entry ''access'' 2 2 False, entry ''adawn'' 0 1 False,
    entry ''adusk'' 0 1 False, entry ''ampm'' 1 4 True, entry ''ansicolor'' 1 5 True,
    entry ''args'' 1 1 False, entry ''asc'' 1 1 True, entry ''baseyr'' 0 0 True, entry ''catch'' 2 2 True,
    entry ''catcherr'' 0 0 False, entry ''char'' 1 NO_MAX_ARGS True, entry ''choose'' 2 NO_MAX_ARGS True,
    entry ''codepoint'' 1 1 True, entry ''coerce'' 2 2 True, entry ''columns'' 0 1 False,
    entry ''const'' 1 1 True, entry ''current'' 0 0 False, entry ''date'' 3 3 True,
    entry ''datepart'' 1 1 True, entry ''datetime'' 2 5 True, entry ''dawn'' 0 1 False,
    entry ''day'' 1 1 True, entry ''daysinmon'' 1 2 True, entry ''defined'' 1 1 False,
    entry ''dosubst'' 1 3 False, entry ''dusk'' 0 1 False, entry ''easterdate'' 0 1 False,
    entry ''escape'' 1 2 True, entry ''eval'' 1 1 True, entry ''evaltrig'' 1 2 False,
    entry ''filedate'' 1 1 False, entry ''filedatetime'' 1 1 False, entry ''filedir'' 0 0 False,
    entry ''filename'' 0 0 False, entry ''getenv'' 1 1 False, entry ''hebdate'' 2 5 False,
    entry ''hebday'' 1 1 False, entry ''hebmon'' 1 1 False, entry ''hebyear'' 1 1 False,
    entry ''hex'' 1 1 True, entry ''hour'' 1 1 True, entry ''htmlescape'' 1 1 True,
    entry ''htmlstriptags'' 1 1 True, entry ''iif'' 1 NO_MAX_ARGS True, entry ''index'' 2 3 True,
    entry ''isany'' 1 NO_MAX_ARGS True, entry ''isconst'' 1 1 True, entry ''isdst'' 0 2 False,
    entry ''isleap'' 1 1 True, entry ''isomitted'' 1 1 False, entry ''ivritmon'' 1 1 False,
    entry ''language'' 0 0 True, entry ''localtoutc'' 1 1 True, entry ''lower'' 1 1 True,
    entry ''max'' 1 NO_MAX_ARGS True, entry ''mbchar'' 1 NO_MAX_ARGS True, entry ''mbindex'' 2 3 True,
    entry ''mblower'' 1 1 True, entry ''mbpad'' 3 4 True, entry ''mbstrlen'' 1 1 True,
    entry ''mbsubstr'' 2 3 True, entry ''mbupper'' 1 1 True, entry ''min'' 1 NO_MAX_ARGS True,
    entry ''minsfromutc'' 0 2 False, entry ''minute'' 1 1 True, entry ''mon'' 1 1 True,
    entry ''monnum'' 1 1 True, entry ''moondate'' 1 3 False, entry ''moondatetime'' 1 3 False,
    entry ''moonphase'' 0 2 False, entry ''moonrise'' 0 1 False, entry ''moonrisedir'' 0 1 False,
    entry ''moonset'' 0 1 False, entry ''moonsetdir'' 0 1 False, entry ''moontime'' 1 3 False,
    entry ''multitrig'' 1 NO_MAX_ARGS False, entry ''ndawn'' 0 1 False, entry ''ndusk'' 0 1 False,
    entry ''nonconst'' 1 1 False, entry ''nonomitted'' 2 NO_MAX_ARGS False, entry ''now'' 0 0 False,
    entry ''ord'' 1 1 True, entry ''orthodoxeaster'' 0 1 False, entry ''ostype'' 0 0 True,
    entry ''pad'' 3 4 True, entry ''plural'' 1 3 True, entry ''psmoon'' 1 4 True, entry ''psshade'' 1 3 True,
    entry ''realcurrent'' 0 0 False, entry ''realnow'' 0 0 False, entry ''realtoday'' 0 0 False,
    entry ''rows'' 0 0 False, entry ''sgn'' 1 1 True, entry ''shell'' 1 2 False,
    entry ''shellescape'' 1 1 True, entry ''slide'' 2 NO_MAX_ARGS False, entry ''soleq'' 1 2 False,
    entry ''stdout'' 0 0 False, entry ''strlen'' 1 1 True, entry ''substr'' 2 3 True,
    entry ''sunrise'' 0 1 False, entry ''sunset'' 0 1 False, entry ''time'' 2 2 True,
    entry ''timepart'' 1 1 True, entry ''timezone'' 0 1 False, entry ''today'' 0 0 False,
    entry ''trig'' 0 NO_MAX_ARGS False, entry ''trigback'' 0 0 False, entry ''trigbase'' 0 0 False,
    entry ''trigcompletethrough'' 0 0 False, entry ''trigdate'' 0 0 False, entry ''trigdatetime'' 0 0 False,
    entry ''trigdelta'' 0 0 False, entry ''trigduration'' 0 0 False, entry ''trigeventduration'' 0 0 False,
    entry ''trigeventstart'' 0 0 False, entry ''trigeventstarttz'' 0 0 False, entry ''trigfrom'' 0 0 False,
    entry ''trigger'' 1 3 False, entry ''triginfo'' 1 1 False, entry ''trigistodo'' 0 0 False,
    entry ''trigmaxoverdue'' 0 0 False, entry ''trigpriority'' 0 0 False, entry ''trigrep'' 0 0 False,
    entry ''trigscanfrom'' 0 0 False, entry ''trigtags'' 0 0 False, entry ''trigtime'' 0 0 False,
    entry ''trigtimedelta'' 0 0 False, entry ''trigtimerep'' 0 0 False, entry ''trigtimetz'' 0 0 False,
    entry ''trigtz'' 0 0 False, entry ''triguntil'' 0 0 False, entry ''trigvalid'' 0 0 False,
    entry ''typeof'' 1 1 True, entry ''tzconvert'' 2 3 False, entry ''upper'' 1 1 True,
    entry ''utctolocal'' 1 1 True, entry ''value'' 1 2 True, entry ''version'' 0 0 True,
    entry ''weekno'' 0 3 False, entry ''wkday'' 1 1 True, entry ''wkdaynum'' 1 1 True,
    entry ''year'' 1 1 True]"

section \<open>The search\<close>

text \<open>Compares a name with one in lower case.\<close>

fun strcmp_lcfirst :: "string \<Rightarrow> string \<Rightarrow> int" where
  "strcmp_lcfirst [] [] = 0"
| "strcmp_lcfirst [] (d # t) = - ch d"
| "strcmp_lcfirst (c # s) [] = ch (tolower c)"
| "strcmp_lcfirst (c # s) (d # t) =
    (let r = ch (tolower c) - ch d in if r \<noteq> 0 then r else strcmp_lcfirst s t)"

definition func_cmp :: "string \<Rightarrow> int \<Rightarrow> int" where
  "func_cmp name i = - strcmp_lcfirst name (bf_name (Func ! nat i))"

definition find_builtin_func :: "string \<Rightarrow> BuiltinFunc option" where
  "find_builtin_func name =
    map_option (\<lambda>i. Func ! nat i) (bsearch (func_cmp name) 0 (int (length Func) - 1))"

lemma strcmp_lcfirst_eq_0:
  "cstring s \<Longrightarrow> \<forall>c \<in> set t. 0 < ch c \<Longrightarrow> strcmp_lcfirst s t = 0 \<longleftrightarrow> strtolower s = t"
proof (induction s t rule: strcmp_lcfirst.induct)
  case (3 c s)
  then show ?case using tolower_nonzero [of c] by (auto simp: cstring_def strtolower_def)
next
  case (4 c s d t)
  then show ?case by (auto simp: cstring_def strtolower_def Let_def)
qed (auto simp: strtolower_def)

lemma strcmp_lcfirst_above:
  "name_less n m \<Longrightarrow> \<forall>c \<in> set m. 0 < ch c \<Longrightarrow> strcmp_lcfirst s n < 0 \<Longrightarrow> strcmp_lcfirst s m < 0"
proof (induction n m arbitrary: s rule: name_less.induct)
  case (2 y ys)
  then show ?case by (cases s) (auto simp: Let_def split: if_splits)
next
  case (3 x xs y ys)
  then show ?case by (cases s) (auto simp: Let_def split: if_splits)
qed simp

lemma strcmp_lcfirst_below:
  "name_less n m \<Longrightarrow> \<forall>c \<in> set m. 0 < ch c \<Longrightarrow> 0 < strcmp_lcfirst s m \<Longrightarrow> 0 < strcmp_lcfirst s n"
proof (induction n m arbitrary: s rule: name_less.induct)
  case (2 y ys)
  then show ?case by (cases s) (auto simp: Let_def split: if_splits)
next
  case (3 x xs y ys)
  then show ?case by (cases s) (auto simp: Let_def split: if_splits)
qed simp

lemma Func_sorted: "sorted_wrt name_less (map bf_name Func)"
proof -
  have "successively name_less (map bf_name Func)" by (simp add: Func_def entry_def ch_def)
  then show ?thesis
    using name_less_trans by (subst successively_conv_sorted_wrt [symmetric]) (auto intro: transpI)
qed

lemma Func_pos: "list_all (\<lambda>f. \<forall>c \<in> set (bf_name f). 0 < ch c) Func"
  by (simp add: Func_def entry_def ch_def)

lemma Func_nth_less:
  assumes "0 \<le> i" "i < j" "j < int (length Func)"
  shows "name_less (bf_name (Func ! nat i)) (bf_name (Func ! nat j))" "\<forall>c \<in> set (bf_name (Func ! nat j)). 0 < ch c"
proof -
  have "nat i < nat j" "nat j < length Func" using assms by auto
  then show "name_less (bf_name (Func ! nat i)) (bf_name (Func ! nat j))" "\<forall>c \<in> set (bf_name (Func ! nat j)). 0 < ch c"
    using sorted_wrt_nth_less [OF Func_sorted, of "nat i" "nat j"] Func_pos by (auto simp: list_all_length)
qed

interpretation funcs: search_table "func_cmp s" "int (length Func)" for s
proof unfold_locales
  fix i j :: int
  assume "0 \<le> i" "i < j" "j < int (length Func)"
  note less = Func_nth_less [OF this]
  show "0 < func_cmp s i \<Longrightarrow> 0 < func_cmp s j" "func_cmp s j < 0 \<Longrightarrow> func_cmp s i < 0"
    using strcmp_lcfirst_above [OF less] strcmp_lcfirst_below [OF less] by (simp_all add: func_cmp_def)
qed

lemma func_cmp_0:
  assumes "cstring name" "i < length Func"
  shows "func_cmp name (int i) = 0 \<longleftrightarrow> bf_name (Func ! i) = strtolower name"
proof -
  have "\<forall>c \<in> set (bf_name (Func ! i)). 0 < ch c" using Func_pos assms(2) by (simp add: list_all_length)
  then show ?thesis using strcmp_lcfirst_eq_0 [OF assms(1)] by (auto simp: func_cmp_def)
qed

lemma name_less_irrefl: "\<not> name_less s s"
  by (induction s) auto

lemma sorted_distinct: "sorted_wrt name_less xs \<Longrightarrow> distinct xs"
  using name_less_irrefl by (induction xs) auto

lemma Func_distinct: "distinct (map bf_name Func)"
  using sorted_distinct [OF Func_sorted] .

text \<open>
  C36.  The binary search in the table of built-in functions finds the function of the given name,
  in any case of its letters, and nothing for other names: it is the lookup in the table as a map.
\<close>

theorem find_builtin_func_lookup:
  assumes "cstring name"
  shows "find_builtin_func name = map_of (map (\<lambda>f. (bf_name f, f)) Func) (strtolower name)"
proof (cases "bsearch (func_cmp name) 0 (int (length Func) - 1)")
  case None
  then have "func_cmp name (int i) \<noteq> 0" if "i < length Func" for i
    using funcs.bsearch_iff [of name] that by fastforce
  then have "\<forall>f \<in> set Func. bf_name f \<noteq> strtolower name" using func_cmp_0 [OF assms] by (metis in_set_conv_nth)
  then have "map_of (map (\<lambda>f. (bf_name f, f)) Func) (strtolower name) = None"
    by (force simp: map_of_eq_None_iff)
  then show ?thesis using None by (simp add: find_builtin_func_def)
next
  case (Some i)
  from bsearch_sound [OF this] have i: "func_cmp name (int (nat i)) = 0" "nat i < length Func" by auto
  then have "bf_name (Func ! nat i) = strtolower name" using func_cmp_0 [OF assms i(2)] i(1) by (simp only:)
  then have "map_of (map (\<lambda>f. (bf_name f, f)) Func) (strtolower name) = Some (Func ! nat i)"
    using Func_distinct i(2) by (intro map_of_is_SomeI) (auto simp: o_def in_set_conv_nth image_iff)
  then show ?thesis using Some by (simp add: find_builtin_func_def)
qed

theorem find_builtin_func_lookup_witness:
  "find_builtin_func ''easterdate'' = Some (entry ''easterdate'' 0 1 False)"
  by (subst find_builtin_func_lookup) (simp_all add: cstring_def Func_def entry_def strtolower_def tolower_def isupper_def)

end
