(* ===== verification/Trans.thy ===== *)
theory Trans
  imports Parser Vars
begin

text \<open>
  The table of translations, \<^verbatim>\<open>src/src/trans.c\<close>.  The table is a hash table of strings, compared with
  their case; here it is the map it stands for.
\<close>

section \<open>Formatting sequences\<close>

text \<open>
  The characters of the sequences of \<open>printf\<close> in a string, without their percent signs.  The flags
  and the width of a sequence are followed by its letter.
\<close>

definition format_flags :: string where
  "format_flags = ''#0- +'' @ CHR 0x27 # ''I%123456789.hlqLjzZt''"

fun format_run :: "string \<Rightarrow> string \<times> string" where
  "format_run [] = ([], [])"
| "format_run [c] = ([], [])"
| "format_run (c # d # s) =
    (if c \<in> set format_flags then (case format_run (d # s) of (out, rest) \<Rightarrow> (d # out, rest)) else ([], d # s))"

lemma format_run_shorter: "length (snd (format_run s)) \<le> length s - 1"
  by (induction s rule: format_run.induct) (auto simp: split_beta)

lemma format_run_less: "(out, rest) = format_run (d # s) \<Longrightarrow> length rest < Suc (Suc (length s))"
  using format_run_shorter [of "d # s"] by (metis snd_conv diff_Suc_1 le_imp_less_Suc length_Cons less_Suc_eq)

function get_printf_escapes :: "string \<Rightarrow> string" where
  "get_printf_escapes [] = []"
| "get_printf_escapes [c] = []"
| "get_printf_escapes (c # d # s) =
    (if c = CHR ''%''
     then if d = CHR ''%'' then get_printf_escapes s
          else (case format_run (d # s) of (out, rest) \<Rightarrow> d # out @ get_printf_escapes rest)
     else get_printf_escapes (d # s))"
  by pat_completeness auto

termination
  by (relation "measure length") (auto dest: format_run_less)

definition printf_formatters_are_safe :: "string \<Rightarrow> string \<Rightarrow> bool" where
  "printf_formatters_are_safe orig translated \<longleftrightarrow> get_printf_escapes orig = get_printf_escapes translated"

section \<open>The table\<close>

type_synonym xlate_table = "string \<Rightarrow> string option"

definition LANGID :: string where "LANGID = ''LANGID''"

text \<open>\<open>mem\<close> is whether there is memory for a new item.\<close>

definition InsertTranslation :: "bool \<Rightarrow> string \<Rightarrow> string \<Rightarrow> xlate_table \<Rightarrow> errcode option \<times> xlate_table" where
  "InsertTranslation mem orig translated T =
    (if \<not> printf_formatters_are_safe orig translated then (Some E_PARSE_ERR, T)
     else if T orig = Some translated then (None, T)
     else
       let T = T(orig := None) in
       if orig \<noteq> LANGID \<and> orig = translated then (None, T)
       else if \<not> mem then (Some E_NO_MEM, T)
       else (None, T(orig \<mapsto> translated)))"

definition InitTranslationTable :: "bool \<Rightarrow> xlate_table" where
  "InitTranslationTable mem = snd (InsertTranslation mem LANGID ''en'' (\<lambda>_. None))"

definition ClearTranslationTable :: "bool \<Rightarrow> xlate_table \<Rightarrow> xlate_table" where
  "ClearTranslationTable mem T = InitTranslationTable mem"

definition tr :: "xlate_table \<Rightarrow> string \<Rightarrow> string" where
  "tr T orig = (case T orig of Some n \<Rightarrow> n | None \<Rightarrow> orig)"

text \<open>Words in another case than the table has them: the translation gets the case of the word.\<close>

definition ucfirst :: "string \<Rightarrow> string" where
  "ucfirst s = (case s of [] \<Rightarrow> [] | c # r \<Rightarrow> UPPER c # r)"

definition GetTranslatedStringTryingVariants :: "xlate_table \<Rightarrow> string \<Rightarrow> string option" where
  "GetTranslatedStringTryingVariants T orig =
    (case T orig of
       Some s \<Rightarrow> Some s
     | None \<Rightarrow>
         (case (if list_ex isupper orig then T (strtolower orig) else None) of
            Some s \<Rightarrow> Some (ucfirst (strtolower s))
          | None \<Rightarrow>
              if orig \<noteq> [] \<and> islower (hd orig)
              then map_option strtolower (T (ucfirst (strtolower orig)))
              else None))"

text \<open>The command TRANSLATE; its DUMP and GENERATE only print.\<close>

definition DoTranslate ::
    "evaluator \<Rightarrow> bool \<Rightarrow> Parser \<Rightarrow> xlate_table \<Rightarrow> errcode option \<times> Parser \<times> xlate_table" where
  "DoTranslate ev mem p T =
    (case ParseNonSpaceChar ev True p of
       (Inl e, p) \<Rightarrow> (Some e, p, T)
     | (Inr None, p) \<Rightarrow> (Some E_EOLN, p, T)
     | (Inr (Some c), p) \<Rightarrow>
         if c \<noteq> CHR 0x22 then
           (case ParseToken ev p of
              (Inl e, p) \<Rightarrow> (Some e, p, T)
            | (Inr w, p) \<Rightarrow>
                (case VerifyEoln ev p of (r, p) \<Rightarrow>
                   if strcasecmp w ''dump'' = 0 then (r, p, T)
                   else if strcasecmp w ''clear'' = 0
                   then (r, p, if r = None then ClearTranslationTable mem T else T)
                   else if strcasecmp w ''generate'' = 0 then (r, p, T)
                   else (Some E_PARSE_ERR, p, T)))
         else
           (case ParseQuotedString ev p of
              (Inl e, p) \<Rightarrow> (Some e, p, T)
            | (Inr orig, p) \<Rightarrow>
                (case ParseQuotedString ev p of
                   (Inl e, p) \<Rightarrow>
                     if e = E_EOLN
                     then (None, p,
                       if orig = LANGID then snd (InsertTranslation mem LANGID ''en'' (T(orig := None))) else T(orig := None))
                     else (Some e, p, T)
                 | (Inr translated, p) \<Rightarrow>
                     (case VerifyEoln ev p of
                        (Some e, p) \<Rightarrow> (Some e, p, T)
                      | (None, p) \<Rightarrow>
                          (case InsertTranslation mem orig translated T of (r, T) \<Rightarrow> (r, p, T))))))"

text \<open>What \<open>tr\<close> gives after a translation has been set.\<close>

lemma tr_InsertTranslation:
  "InsertTranslation mem orig translated T = (None, T') \<Longrightarrow> tr T' = (tr T)(orig := translated)"
proof (rule ext)
  fix x
  assume "InsertTranslation mem orig translated T = (None, T')"
  then have "T' = T \<and> T orig = Some translated \<or> T' = T(orig := None) \<and> orig = translated \<or> T' = T(orig \<mapsto> translated)"
    by (simp add: InsertTranslation_def Let_def split: if_splits)
  then show "tr T' x = ((tr T)(orig := translated)) x" by (elim disjE conjE) (simp_all add: tr_def)
qed

end
