(* ===== verification/SysVars.thy ===== *)
theory SysVars
  imports Trans Trigger
begin

text \<open>
  System variables, \<^verbatim>\<open>src/src/var.c\<close>: their sorted table, the search in it, how one is read and set,
  and the functions behind the special ones.
\<close>

section \<open>The table\<close>

text \<open>
  What a variable stands for: a C variable, an integer constant, a translated text, or a function
  that reads and sets it; each C variable and function goes by its name.
\<close>

datatype sv_kind = SV_INT string | SV_STR string | SV_TRANS string | SV_SPECIAL string | SV_CONST int

record sysvar =
  sy_name :: string
  modifiable :: bool
  sy_kind :: sv_kind
  sy_min :: int
  sy_max :: int

definition sv :: "string \<Rightarrow> bool \<Rightarrow> sv_kind \<Rightarrow> int \<Rightarrow> int \<Rightarrow> sysvar" where
  "sv name m k lo hi = \<lparr>sy_name = name, modifiable = m, sy_kind = k, sy_min = lo, sy_max = hi\<rparr>"

definition SysVarArr :: "sysvar list" where
  "SysVarArr =
   [sv ''AddBlankLines'' True (SV_INT ''AddBlankLines'') 0 1,
    sv ''Ago'' True (SV_TRANS ''ago'') 0 0,
    sv ''Am'' True (SV_TRANS ''am'') 0 0,
    sv ''And'' True (SV_TRANS ''and'') 0 0,
    sv ''April'' True (SV_TRANS ''April'') 0 0,
    sv ''At'' True (SV_TRANS ''at'') 0 0,
    sv ''August'' True (SV_TRANS ''August'') 0 0,
    sv ''CalcUTC'' True (SV_INT ''CalculateUTC'') 0 1,
    sv ''CalMode'' False (SV_INT ''DoCalendar'') 0 0,
    sv ''CalType'' False (SV_STR ''CalType'') 0 0,
    sv ''Daemon'' False (SV_INT ''Daemon'') 0 0,
    sv ''DateSep'' True (SV_SPECIAL ''date_sep_func'') 0 0,
    sv ''DateTimeSep'' True (SV_SPECIAL ''datetime_sep_func'') 0 0,
    sv ''December'' True (SV_TRANS ''December'') 0 0,
    sv ''DedupeReminders'' True (SV_INT ''DedupeReminders'') 0 1,
    sv ''DefaultColor'' True (SV_SPECIAL ''default_color_func'') 0 0,
    sv ''DefaultDelta'' True (SV_INT ''DefaultDelta'') 0 10000,
    sv ''DefaultPrio'' True (SV_INT ''DefaultPrio'') 0 9999,
    sv ''DefaultTDelta'' True (SV_INT ''DefaultTDelta'') 0 MINUTES_PER_DAY,
    sv ''DeltaOverride'' False (SV_INT ''DeltaOverride'') 0 0,
    sv ''DontFork'' False (SV_INT ''DontFork'') 0 0,
    sv ''DontQueue'' False (SV_INT ''DontQueue'') 0 0,
    sv ''DontTrigAts'' False (SV_INT ''DontIssueAts'') 0 0,
    sv ''EndSent'' True (SV_STR ''EndSent'') 0 0,
    sv ''EndSentIg'' True (SV_STR ''EndSentIg'') 0 0,
    sv ''ExpressionTimeLimit'' True (SV_SPECIAL ''expr_time_limit_func'') 0 0,
    sv ''February'' True (SV_TRANS ''February'') 0 0,
    sv ''FirstIndent'' True (SV_INT ''FirstIndent'') 0 132,
    sv ''FoldYear'' True (SV_INT ''FoldYear'') 0 1,
    sv ''FormWidth'' True (SV_INT ''FormWidth'') 20 500,
    sv ''Friday'' True (SV_TRANS ''Friday'') 0 0,
    sv ''Fromnow'' True (SV_TRANS ''from now'') 0 0,
    sv ''HideCompletedTodos'' False (SV_INT ''HideCompletedTodos'') 0 0,
    sv ''Hour'' True (SV_TRANS ''hour'') 0 0,
    sv ''Hplu'' True (SV_STR ''DynamicHplu'') 0 0,
    sv ''HushMode'' False (SV_INT ''Hush'') 0 0,
    sv ''IgnoreOnce'' False (SV_INT ''IgnoreOnce'') 0 0,
    sv ''InfDelta'' False (SV_INT ''InfiniteDelta'') 0 0,
    sv ''IntMax'' False (SV_CONST INT_MAX) 0 0,
    sv ''IntMin'' False (SV_CONST INT_MIN) 0 0,
    sv ''Is'' True (SV_TRANS ''is'') 0 0,
    sv ''January'' True (SV_TRANS ''January'') 0 0,
    sv ''JSONMode'' False (SV_INT ''JSONMode'') 0 0,
    sv ''July'' True (SV_TRANS ''July'') 0 0,
    sv ''June'' True (SV_TRANS ''June'') 0 0,
    sv ''LatDeg'' True (SV_SPECIAL ''latdeg_func'') 0 0,
    sv ''Latitude'' True (SV_SPECIAL ''latitude_func'') 0 0,
    sv ''LatMin'' True (SV_SPECIAL ''latmin_func'') 0 0,
    sv ''LatSec'' True (SV_SPECIAL ''latsec_func'') 0 0,
    sv ''Location'' True (SV_STR ''Location'') 0 0,
    sv ''LongDeg'' True (SV_SPECIAL ''longdeg_func'') 0 0,
    sv ''Longitude'' True (SV_SPECIAL ''longitude_func'') 0 0,
    sv ''LongMin'' True (SV_SPECIAL ''longmin_func'') 0 0,
    sv ''LongSec'' True (SV_SPECIAL ''longsec_func'') 0 0,
    sv ''March'' True (SV_TRANS ''March'') 0 0,
    sv ''MaxCachedLines'' True (SV_INT ''MaxCachedLines'') 0 INT_MAX,
    sv ''MaxFullOmits'' False (SV_CONST (int MAX_FULL_OMITS)) 0 0,
    sv ''MaxIncludeCmdLines'' True (SV_INT ''MaxIncludeCmdLines'') 0 INT_MAX,
    sv ''MaxLateMinutes'' True (SV_INT ''MaxLateMinutes'') 0 MINUTES_PER_DAY,
    sv ''MaxLineLength'' True (SV_INT ''MaxLineLength'') 0 INT_MAX,
    sv ''MaxPartialOmits'' False (SV_CONST (int MAX_PARTIAL_OMITS)) 0 0,
    sv ''MaxSatIter'' True (SV_INT ''MaxSatIter'') 10 INT_MAX,
    sv ''MaxStringLen'' True (SV_INT ''MaxStringLen'') (-1) INT_MAX,
    sv ''May'' True (SV_TRANS ''May'') 0 0,
    sv ''MinsFromUTC'' True (SV_INT ''MinsFromUTC'') (-780) 780,
    sv ''Minute'' True (SV_TRANS ''minute'') 0 0,
    sv ''Monday'' True (SV_TRANS ''Monday'') 0 0,
    sv ''Mplu'' True (SV_STR ''DynamicMplu'') 0 0,
    sv ''NextMode'' False (SV_INT ''NextMode'') 0 0,
    sv ''November'' True (SV_TRANS ''November'') 0 0,
    sv ''Now'' True (SV_TRANS ''now'') 0 0,
    sv ''NumFullOmits'' False (SV_INT ''NumFullOmits'') 0 0,
    sv ''NumPartialOmits'' False (SV_INT ''NumPartialOmits'') 0 0,
    sv ''NumQueued'' False (SV_INT ''NumQueued'') 0 0,
    sv ''NumTrig'' False (SV_INT ''NumTriggered'') 0 0,
    sv ''October'' True (SV_TRANS ''October'') 0 0,
    sv ''On'' True (SV_TRANS ''on'') 0 0,
    sv ''OnceFile'' True (SV_SPECIAL ''oncefile_func'') 0 0,
    sv ''ParseUntriggered'' True (SV_INT ''ParseUntriggered'') 0 1,
    sv ''Pm'' True (SV_TRANS ''pm'') 0 0,
    sv ''PrefixLineNo'' False (SV_INT ''DoPrefixLineNo'') 0 0,
    sv ''PSCal'' False (SV_INT ''PsCal'') 0 0,
    sv ''Repeat'' False (SV_INT ''OrigIterations'') 0 0,
    sv ''RunOff'' False (SV_INT ''RunDisabled'') 0 0,
    sv ''Saturday'' True (SV_TRANS ''Saturday'') 0 0,
    sv ''September'' True (SV_TRANS ''September'') 0 0,
    sv ''Shaded'' False (SV_INT ''Shaded'') 0 0,
    sv ''SimpleCal'' False (SV_INT ''DoSimpleCalendar'') 0 0,
    sv ''SortByDate'' False (SV_INT ''SortByDate'') 0 0,
    sv ''SortByPrio'' False (SV_INT ''SortByPrio'') 0 0,
    sv ''SortByTime'' False (SV_INT ''SortByTime'') 0 0,
    sv ''SubsIndent'' True (SV_INT ''SubsIndent'') 0 132,
    sv ''Sunday'' True (SV_TRANS ''Sunday'') 0 0,
    sv ''SuppressImplicitWarnings'' True (SV_INT ''SuppressImplicitRemWarnings'') 0 1,
    sv ''SuppressLRM'' True (SV_INT ''SuppressLRM'') 0 1,
    sv ''SysInclude'' False (SV_STR ''SysDir'') 0 0,
    sv ''T'' False (SV_SPECIAL ''trig_date_func'') 0 0,
    sv ''Tb'' False (SV_SPECIAL ''trig_base_func'') 0 0,
    sv ''Td'' False (SV_SPECIAL ''trig_day_func'') 0 0,
    sv ''TerminalBackground'' False (SV_SPECIAL ''terminal_bg_func'') 0 0,
    sv ''TerminalHyperlinks'' True (SV_INT ''TerminalHyperlinks'') 0 1,
    sv ''Thursday'' True (SV_TRANS ''Thursday'') 0 0,
    sv ''TimeSep'' True (SV_SPECIAL ''time_sep_func'') 0 0,
    sv ''TimetIs64bit'' False (SV_SPECIAL ''timet_is_64_func'') 0 0,
    sv ''Tm'' False (SV_SPECIAL ''trig_mon_func'') 0 0,
    sv ''Today'' True (SV_TRANS ''today'') 0 0,
    sv ''TodoFilter'' False (SV_INT ''TodoFilter'') 0 0,
    sv ''Tomorrow'' True (SV_TRANS ''tomorrow'') 0 0,
    sv ''Tt'' False (SV_SPECIAL ''trig_time_func'') 0 0,
    sv ''Tu'' False (SV_SPECIAL ''trig_until_func'') 0 0,
    sv ''Tuesday'' True (SV_TRANS ''Tuesday'') 0 0,
    sv ''Tw'' False (SV_SPECIAL ''trig_wday_func'') 0 0,
    sv ''Ty'' False (SV_SPECIAL ''trig_year_func'') 0 0,
    sv ''U'' False (SV_SPECIAL ''today_date_func'') 0 0,
    sv ''Ud'' False (SV_SPECIAL ''today_day_func'') 0 0,
    sv ''Um'' False (SV_SPECIAL ''today_mon_func'') 0 0,
    sv ''UntimedFirst'' False (SV_INT ''UntimedBeforeTimed'') 0 0,
    sv ''Use256Colors'' False (SV_INT ''Use256Colors'') 0 0,
    sv ''UseBGVTColors'' False (SV_INT ''UseBGVTColors'') 0 0,
    sv ''UseTrueColors'' False (SV_INT ''UseTrueColors'') 0 0,
    sv ''UseVTColors'' False (SV_INT ''UseVTColors'') 0 0,
    sv ''Uw'' False (SV_SPECIAL ''today_wday_func'') 0 0,
    sv ''Uy'' False (SV_SPECIAL ''today_year_func'') 0 0,
    sv ''WarningLevel'' True (SV_SPECIAL ''warning_level_func'') 0 0,
    sv ''Was'' True (SV_TRANS ''was'') 0 0,
    sv ''Wednesday'' True (SV_TRANS ''Wednesday'') 0 0]"

definition sysvar_cmp :: "string \<Rightarrow> int \<Rightarrow> int" where
  "sysvar_cmp name i = - strcasecmp name (sy_name (SysVarArr ! nat i))"

definition find_sysvar :: "string \<Rightarrow> sysvar option" where
  "find_sysvar name = map_option (\<lambda>i. SysVarArr ! nat i) (bsearch (sysvar_cmp name) 0 (int (length SysVarArr) - 1))"

section \<open>The state\<close>

text \<open>
  The C variables, by name; \<open>None\<close> is a null pointer.  Latitude and longitude are floating-point
  numbers, of the type \<open>'d\<close>; their degrees, minutes and seconds are C variables.
\<close>

record 'd sys_state =
  int_vars :: "string \<Rightarrow> int"
  str_vars :: "string \<Rightarrow> string option"
  TranslationTable :: xlate_table
  sy_DateSep :: char
  sy_TimeSep :: char
  sy_DateTimeSep :: char
  DefaultColor :: "int \<times> int \<times> int"
  ExpressionEvaluationTimeLimit :: int
  OnceFile :: "string option"
  ProcessedOnce :: bool
  WarningLevel :: "string option"
  Degrees :: 'd

text \<open>
  What is read: the last trigger, today, whether the current file is the first one, the version, the
  terminal, and the C library's conversions of floating-point numbers.
\<close>

record 'd sys_env =
  en_trig :: trig_globals
  en_today :: int
  en_top_level :: bool
  en_mem :: bool
  en_version :: string
  en_background :: int
  en_timet_64 :: bool
  show_degrees :: "bool \<Rightarrow> 'd \<Rightarrow> string"
  read_degrees :: "bool \<Rightarrow> Value \<Rightarrow> 'd \<Rightarrow> errcode + 'd"
  from_components :: "(string \<Rightarrow> int) \<Rightarrow> 'd"
  to_components :: "'d \<Rightarrow> string \<Rightarrow> int"

text \<open>A special variable's function reads it, or sets it to a value.\<close>

type_synonym 'd special = "Value option \<Rightarrow> 'd sys_state \<Rightarrow> (errcode + Value) \<times> 'd sys_state"

definition read_only :: "Value \<Rightarrow> 'd special" where
  "read_only v arg s = (Inr v, s)"

definition read_string :: "'d sys_env \<Rightarrow> string \<Rightarrow> errcode + Value" where
  "read_string E str = (if en_mem E then Inr (StrV str) else Inl E_NO_MEM)"

definition component_names :: "string list" where
  "component_names = [''LatDeg'', ''LatMin'', ''LatSec'', ''LongDeg'', ''LongMin'', ''LongSec'']"

definition latlong_component_func :: "'d sys_env \<Rightarrow> string \<Rightarrow> int \<Rightarrow> int \<Rightarrow> 'd special" where
  "latlong_component_func E var lo hi arg s =
    (case arg of
       None \<Rightarrow> (Inr (IntV (int_vars s var)), s)
     | Some (IntV n) \<Rightarrow>
         if n < lo then (Inl E_2LOW, s) else if n > hi then (Inl E_2HIGH, s)
         else let m = (int_vars s)(var := n)
              in (Inr (IntV n), s\<lparr>int_vars := m, Degrees := from_components E m\<rparr>)
     | Some _ \<Rightarrow> (Inl E_BAD_TYPE, s))"

definition latitude_longitude_func :: "'d sys_env \<Rightarrow> bool \<Rightarrow> 'd special" where
  "latitude_longitude_func E lat arg s =
    (case arg of
       None \<Rightarrow> (read_string E (show_degrees E lat (Degrees s)), s)
     | Some v \<Rightarrow>
         (case (case v of IntV n \<Rightarrow> None | StrV t \<Rightarrow> None | _ \<Rightarrow> Some E_BAD_TYPE) of
            Some e \<Rightarrow> (Inl e, s)
          | None \<Rightarrow>
              (case read_degrees E lat v (Degrees s) of
                 Inl e \<Rightarrow> (Inl e, s)
               | Inr d \<Rightarrow>
                   (Inr v, s\<lparr>Degrees := d,
                      int_vars := (\<lambda>k. if k \<in> set component_names then to_components E d k else int_vars s k)\<rparr>))))"

text \<open>A version: two digits, a dot, two digits, a dot and two digits.\<close>

definition is_version :: "string \<Rightarrow> bool" where
  "is_version w \<longleftrightarrow> length w = 8 \<and> isdigit (w ! 0) \<and> isdigit (w ! 1) \<and> w ! 2 = CHR ''.'' \<and> isdigit (w ! 3) \<and>
    isdigit (w ! 4) \<and> w ! 5 = CHR ''.'' \<and> isdigit (w ! 6) \<and> isdigit (w ! 7)"

definition warning_level_func :: "'d sys_env \<Rightarrow> 'd special" where
  "warning_level_func E arg s =
    (case arg of
       None \<Rightarrow> (read_string E (case WarningLevel s of None \<Rightarrow> en_version E | Some w \<Rightarrow> w), s)
     | Some (StrV w) \<Rightarrow>
         if w = [] then (Inr (StrV w), s\<lparr>WarningLevel := None\<rparr>)
         else if \<not> is_version w then (Inl E_BAD_NUMBER, s)
         else if w = en_version E then (Inr (StrV w), s\<lparr>WarningLevel := None\<rparr>)
         else if \<not> en_mem E then (Inl E_NO_MEM, s\<lparr>WarningLevel := None\<rparr>)
         else (Inr (StrV w), s\<lparr>WarningLevel := Some w\<rparr>)
     | Some _ \<Rightarrow> (Inl E_BAD_TYPE, s))"

definition oncefile_func :: "'d sys_env \<Rightarrow> 'd special" where
  "oncefile_func E arg s =
    (case arg of
       None \<Rightarrow> (read_string E (case OnceFile s of None \<Rightarrow> [] | Some w \<Rightarrow> w), s)
     | Some (StrV w) \<Rightarrow>
         if w = [] \<and> (OnceFile s = None \<or> OnceFile s = Some []) then (Inr (StrV w), s)
         else if OnceFile s = Some w then (Inr (StrV w), s)
         else if ProcessedOnce s then (Inr (StrV w), s)
         else if \<not> en_mem E then (Inl E_NO_MEM, s\<lparr>OnceFile := None\<rparr>)
         else (Inr (StrV w), s\<lparr>OnceFile := Some w\<rparr>)
     | Some _ \<Rightarrow> (Inl E_BAD_TYPE, s))"

definition sep_func :: "'d sys_env \<Rightarrow> string list \<Rightarrow> ('d sys_state \<Rightarrow> char) \<Rightarrow> (char \<Rightarrow> 'd sys_state \<Rightarrow> 'd sys_state) \<Rightarrow> 'd special" where
  "sep_func E seps get put arg s =
    (case arg of
       None \<Rightarrow> (read_string E [get s], s)
     | Some (StrV w) \<Rightarrow> if w \<notin> set seps then (Inl E_BAD_VAL_FOR_SYSVAR, s) else (Inr (StrV w), put (w ! 0) s)
     | Some _ \<Rightarrow> (Inl E_BAD_TYPE, s))"

definition datetime_sep_func :: "'d sys_env \<Rightarrow> 'd special" where
  "datetime_sep_func E = sep_func E [''T'', ''@''] sy_DateTimeSep (\<lambda>c s. s\<lparr>sy_DateTimeSep := c\<rparr>)"

definition date_sep_func :: "'d sys_env \<Rightarrow> 'd special" where
  "date_sep_func E = sep_func E [''/'', ''-''] sy_DateSep (\<lambda>c s. s\<lparr>sy_DateSep := c\<rparr>)"

definition time_sep_func :: "'d sys_env \<Rightarrow> 'd special" where
  "time_sep_func E = sep_func E ['':'', ''.''] sy_TimeSep (\<lambda>c s. s\<lparr>sy_TimeSep := c\<rparr>)"

definition expr_time_limit_func :: "'d sys_env \<Rightarrow> 'd special" where
  "expr_time_limit_func E arg s =
    (case arg of
       None \<Rightarrow> (Inr (IntV (ExpressionEvaluationTimeLimit s)), s)
     | Some (IntV n) \<Rightarrow>
         if n < 0 then (Inl E_2LOW, s)
         else if \<not> en_top_level E \<and> (n = 0 \<or> n \<ge> ExpressionEvaluationTimeLimit s) then (Inr (IntV n), s)
         else (Inr (IntV n), s\<lparr>ExpressionEvaluationTimeLimit := n\<rparr>)
     | Some _ \<Rightarrow> (Inl E_BAD_TYPE, s))"

text \<open>\<open>sscanf\<close> with \<open>%d %d %d\<close>: spaces, a sign and digits, three times.\<close>

definition scan_int :: "string \<Rightarrow> (int \<times> string) option" where
  "scan_int s =
    (let s = dropWhile isspace s;
         neg = (s \<noteq> [] \<and> hd s = CHR ''-'');
         s = (if s \<noteq> [] \<and> hd s \<in> {CHR ''-'', CHR ''+''} then tl s else s);
         ds = takeWhile isdigit s
     in if ds = [] then None
        else Some (cint ((if neg then -1 else 1) * digits_val 0 ds), dropWhile isdigit s))"

definition scan_color :: "string \<Rightarrow> (int \<times> int \<times> int) option" where
  "scan_color w =
    (case scan_int w of
       None \<Rightarrow> None
     | Some (r, w) \<Rightarrow>
         (case scan_int w of
            None \<Rightarrow> None
          | Some (g, w) \<Rightarrow> (case scan_int w of None \<Rightarrow> None | Some (b, w) \<Rightarrow> Some (r, g, b))))"

definition color_error :: "int list \<Rightarrow> errcode option" where
  "color_error ns =
    (case filter (\<lambda>n. n < 0 \<or> n > 255) ns of [] \<Rightarrow> None | n # _ \<Rightarrow> Some (if n < 0 then E_2LOW else E_2HIGH))"

definition default_color_func :: "'d sys_env \<Rightarrow> 'd special" where
  "default_color_func E arg s =
    (case arg of
       None \<Rightarrow>
         (case DefaultColor s of (r, g, b) \<Rightarrow>
            (read_string E (fmt_int 0 r @ '' '' @ fmt_int 0 g @ '' '' @ fmt_int 0 b), s))
     | Some (StrV w) \<Rightarrow>
         (case scan_color w of
            None \<Rightarrow> (Inl E_BAD_VAL_FOR_SYSVAR, s)
          | Some (r, g, b) \<Rightarrow>
              if r = -1 \<and> g = -1 \<and> b = -1 then (Inr (StrV w), s\<lparr>DefaultColor := (-1, -1, -1)\<rparr>)
              else (case color_error [r, g, b] of
                      Some e \<Rightarrow> (Inl e, s)
                    | None \<Rightarrow> (Inr (StrV w), s\<lparr>DefaultColor := (r, g, b)\<rparr>)))
     | Some _ \<Rightarrow> (Inl E_BAD_TYPE, s))"


subsection \<open>The last trigger and today\<close>

definition terminal_bg_func :: "'d sys_env \<Rightarrow> 'd special" where
  "terminal_bg_func E = read_only (IntV (en_background E))"

definition timet_is_64_func :: "'d sys_env \<Rightarrow> 'd special" where
  "timet_is_64_func E = read_only (IntV (if en_timet_64 E then 1 else 0))"

definition trig_time_func :: "'d sys_env \<Rightarrow> 'd special" where
  "trig_time_func E =
    read_only (if LastTriggerTime (en_trig E) \<noteq> NO_TIME then TimeV (LastTriggerTime (en_trig E)) else IntV 0)"

definition trig_date_func :: "'d sys_env \<Rightarrow> 'd special" where
  "trig_date_func E =
    read_only (if \<not> LastTrigValid (en_trig E) then IntV 0 else DateV (LastTriggerDate (en_trig E)))"

definition trig_base_func :: "'d sys_env \<Rightarrow> 'd special" where
  "trig_base_func E =
    (let t = LastTrigger (en_trig E) in
     read_only (if trg_d t \<noteq> NO_DAY \<and> trg_m t \<noteq> NO_MON \<and> trg_y t \<noteq> NO_YR
                then DateV (DSE (trg_y t) (trg_m t) (trg_d t)) else IntV 0))"

definition trig_until_func :: "'d sys_env \<Rightarrow> 'd special" where
  "trig_until_func E =
    read_only (if trg_until (LastTrigger (en_trig E)) = NO_UNTIL then IntV (-1)
               else DateV (trg_until (LastTrigger (en_trig E))))"

definition trig_part :: "'d sys_env \<Rightarrow> (int \<times> int \<times> int \<Rightarrow> int) \<Rightarrow> 'd special" where
  "trig_part E part =
    read_only (IntV (if \<not> LastTrigValid (en_trig E) then -1 else part (FromDSE (LastTriggerDate (en_trig E)))))"

definition trig_day_func :: "'d sys_env \<Rightarrow> 'd special" where
  "trig_day_func E = trig_part E (\<lambda>(y, m, d). d)"

definition trig_mon_func :: "'d sys_env \<Rightarrow> 'd special" where
  "trig_mon_func E = trig_part E (\<lambda>(y, m, d). m + 1)"

definition trig_year_func :: "'d sys_env \<Rightarrow> 'd special" where
  "trig_year_func E = trig_part E (\<lambda>(y, m, d). y)"

definition trig_wday_func :: "'d sys_env \<Rightarrow> 'd special" where
  "trig_wday_func E =
    read_only (IntV (if \<not> LastTrigValid (en_trig E) then -1 else (LastTriggerDate (en_trig E) + 1) smod 7))"

text \<open>The cache of today's date holds what \<open>FromDSE\<close> gives.\<close>

definition today_date_func :: "'d sys_env \<Rightarrow> 'd special" where
  "today_date_func E = read_only (DateV (en_today E))"

definition today_day_func :: "'d sys_env \<Rightarrow> 'd special" where
  "today_day_func E = read_only (IntV (case FromDSE (en_today E) of (y, m, d) \<Rightarrow> d))"

definition today_mon_func :: "'d sys_env \<Rightarrow> 'd special" where
  "today_mon_func E = read_only (IntV (case FromDSE (en_today E) of (y, m, d) \<Rightarrow> m + 1))"

definition today_year_func :: "'d sys_env \<Rightarrow> 'd special" where
  "today_year_func E = read_only (IntV (case FromDSE (en_today E) of (y, m, d) \<Rightarrow> y))"

definition today_wday_func :: "'d sys_env \<Rightarrow> 'd special" where
  "today_wday_func E = read_only (IntV ((en_today E + 1) smod 7))"

text \<open>The function pointers of the table.\<close>

definition special_funcs :: "(string \<times> ('d sys_env \<Rightarrow> 'd special)) list" where
  "special_funcs = [
    (''date_sep_func'', date_sep_func), (''datetime_sep_func'', datetime_sep_func), (''time_sep_func'', time_sep_func),
    (''default_color_func'', default_color_func), (''expr_time_limit_func'', expr_time_limit_func),
    (''latdeg_func'', \<lambda>E. latlong_component_func E ''LatDeg'' (-90) 90),
    (''latmin_func'', \<lambda>E. latlong_component_func E ''LatMin'' (-59) 59),
    (''latsec_func'', \<lambda>E. latlong_component_func E ''LatSec'' (-59) 59),
    (''longdeg_func'', \<lambda>E. latlong_component_func E ''LongDeg'' (-180) 180),
    (''longmin_func'', \<lambda>E. latlong_component_func E ''LongMin'' (-59) 59),
    (''longsec_func'', \<lambda>E. latlong_component_func E ''LongSec'' (-59) 59),
    (''latitude_func'', \<lambda>E. latitude_longitude_func E True),
    (''longitude_func'', \<lambda>E. latitude_longitude_func E False),
    (''oncefile_func'', oncefile_func), (''warning_level_func'', warning_level_func),
    (''terminal_bg_func'', terminal_bg_func), (''timet_is_64_func'', timet_is_64_func),
    (''trig_date_func'', trig_date_func), (''trig_base_func'', trig_base_func), (''trig_day_func'', trig_day_func),
    (''trig_mon_func'', trig_mon_func), (''trig_time_func'', trig_time_func), (''trig_until_func'', trig_until_func),
    (''trig_wday_func'', trig_wday_func), (''trig_year_func'', trig_year_func),
    (''today_date_func'', today_date_func), (''today_day_func'', today_day_func), (''today_mon_func'', today_mon_func),
    (''today_wday_func'', today_wday_func), (''today_year_func'', today_year_func)]"

definition call_special :: "string \<Rightarrow> 'd sys_env \<Rightarrow> 'd special" where
  "call_special name E arg s =
    (case map_of special_funcs name of Some g \<Rightarrow> g E arg s | None \<Rightarrow> (Inl E_SWERR, s))"

section \<open>Reading and setting\<close>

definition read_sysvar :: "'d sys_env \<Rightarrow> sysvar \<Rightarrow> 'd sys_state \<Rightarrow> errcode + Value" where
  "read_sysvar E x s =
    (case sy_kind x of
       SV_TRANS orig \<Rightarrow> read_string E (tr (TranslationTable s) orig)
     | SV_CONST n \<Rightarrow> Inr (IntV n)
     | SV_SPECIAL name \<Rightarrow> fst (call_special name E None s)
     | SV_STR var \<Rightarrow> read_string E (case str_vars s var of None \<Rightarrow> [] | Some w \<Rightarrow> w)
     | SV_INT var \<Rightarrow> Inr (IntV (int_vars s var)))"

definition SetSysVarHelper :: "'d sys_env \<Rightarrow> sysvar \<Rightarrow> Value \<Rightarrow> 'd sys_state \<Rightarrow> errcode option \<times> 'd sys_state" where
  "SetSysVarHelper E x v s =
    (if \<not> modifiable x then (Some E_CANT_MODIFY, s)
     else case sy_kind x of
       SV_TRANS orig \<Rightarrow>
         (case v of
            StrV w \<Rightarrow>
              (case InsertTranslation (en_mem E) orig w (TranslationTable s) of (r, T) \<Rightarrow> (r, s\<lparr>TranslationTable := T\<rparr>))
          | _ \<Rightarrow> (Some E_BAD_TYPE, s))
     | SV_SPECIAL name \<Rightarrow>
         (case call_special name E (Some v) s of (Inl e, s) \<Rightarrow> (Some e, s) | (Inr _, s) \<Rightarrow> (None, s))
     | SV_STR var \<Rightarrow>
         (case v of StrV w \<Rightarrow> (None, s\<lparr>str_vars := (str_vars s)(var \<mapsto> w)\<rparr>) | _ \<Rightarrow> (Some E_BAD_TYPE, s))
     | SV_INT var \<Rightarrow>
         (case v of
            IntV n \<Rightarrow>
              if sy_max x \<noteq> INT_MAX \<and> n > sy_max x then (Some E_2HIGH, s)
              else if n < sy_min x then (Some E_2LOW, s)
              else (None, s\<lparr>int_vars := (int_vars s)(var := n)\<rparr>)
          | _ \<Rightarrow> (Some E_BAD_TYPE, s))
     | SV_CONST n \<Rightarrow> (Some E_BAD_TYPE, s))"

definition SetSysVar :: "'d sys_env \<Rightarrow> string \<Rightarrow> Value \<Rightarrow> 'd sys_state \<Rightarrow> errcode option \<times> 'd sys_state" where
  "SetSysVar E name v s =
    (case find_sysvar name of None \<Rightarrow> (Some E_NOSUCH_VAR, s) | Some x \<Rightarrow> SetSysVarHelper E x v s)"

definition get_sysvar :: "'d sys_env \<Rightarrow> string \<Rightarrow> 'd sys_state \<Rightarrow> errcode + Value" where
  "get_sysvar E name s = (case find_sysvar name of None \<Rightarrow> Inl E_NOSUCH_VAR | Some x \<Rightarrow> read_sysvar E x s)"

section \<open>The search\<close>

lemma strcmp_Nil_right: "0 \<le> strcmp t []"
  by (cases t) simp_all

lemma strcmp_neg_trans: "strcmp s t < 0 \<Longrightarrow> strcmp t u < 0 \<Longrightarrow> strcmp s u < 0"
proof (induction s u arbitrary: t rule: strcmp.induct)
  case (4 c s d u)
  then show ?case by (cases t) (auto split: if_splits)
qed (use strcmp_Nil_right in \<open>auto simp: not_less [symmetric]\<close>)

lemma strcmp_swap: "strcmp t s = - strcmp s t"
  by (induction s t rule: strcmp.induct) auto

lemma SysVarArr_sorted: "sorted_wrt (\<lambda>x y. strcmp x y < 0) (map (strtolower \<circ> sy_name) SysVarArr)"
proof -
  have "successively (\<lambda>x y. strcmp x y < 0) (map (strtolower \<circ> sy_name) SysVarArr)"
    by code_simp
  then show ?thesis
    using strcmp_neg_trans by (subst successively_conv_sorted_wrt [symmetric]) (auto intro: transpI)
qed

lemma SysVarArr_less:
  assumes "0 \<le> i" "i < j" "j < int (length SysVarArr)"
  shows "strcasecmp (sy_name (SysVarArr ! nat i)) (sy_name (SysVarArr ! nat j)) < 0"
proof -
  have "nat i < nat j" "nat j < length SysVarArr" "nat i < length SysVarArr" using assms by auto
  then show ?thesis using sorted_wrt_nth_less [OF SysVarArr_sorted, of "nat i" "nat j"] by (simp add: strcasecmp_def del: nat_less_eq_zless)
qed

interpretation sysvars: search_table "sysvar_cmp s" "int (length SysVarArr)" for s
proof unfold_locales
  fix i j :: int
  assume "0 \<le> i" "i < j" "j < int (length SysVarArr)"
  note less = SysVarArr_less [OF this]
  show "0 < sysvar_cmp s i \<Longrightarrow> 0 < sysvar_cmp s j"
    using strcmp_neg_trans [OF _ less [unfolded strcasecmp_def], of "strtolower s"] by (simp add: sysvar_cmp_def strcasecmp_def)
  show "sysvar_cmp s j < 0 \<Longrightarrow> sysvar_cmp s i < 0"
    using strcmp_neg_trans [OF less [unfolded strcasecmp_def], of "strtolower s"]
    by (simp add: sysvar_cmp_def strcasecmp_def strcmp_swap [of _ "strtolower s"])
qed

lemma SysVarArr_distinct: "distinct (map (strtolower \<circ> sy_name) SysVarArr)"
proof -
  have "sorted_wrt (\<lambda>x y. strcmp x y < 0) xs \<Longrightarrow> distinct xs" for xs
    by (induction xs) (auto, metis less_irrefl strcmp_eq_0)
  then show ?thesis using SysVarArr_sorted .
qed

lemma find_sysvar_Some:
  "find_sysvar name = Some x \<longleftrightarrow> x \<in> set SysVarArr \<and> strtolower (sy_name x) = strtolower name"
proof
  assume "find_sysvar name = Some x"
  then obtain i where "bsearch (sysvar_cmp name) 0 (int (length SysVarArr) - 1) = Some i" and x: "x = SysVarArr ! nat i"
    by (auto simp: find_sysvar_def)
  from bsearch_sound [OF this(1)] have i: "sysvar_cmp name i = 0" "0 \<le> i" "nat i < length SysVarArr" by auto
  then show "x \<in> set SysVarArr \<and> strtolower (sy_name x) = strtolower name"
    using x by (simp add: sysvar_cmp_def strcasecmp_eq_0)
next
  assume x: "x \<in> set SysVarArr \<and> strtolower (sy_name x) = strtolower name"
  then obtain k where k: "k < length SysVarArr" "SysVarArr ! k = x" by (auto simp: in_set_conv_nth)
  then have "sysvar_cmp name (int k) = 0" using x by (simp add: sysvar_cmp_def strcasecmp_eq_0)
  then obtain i where b: "bsearch (sysvar_cmp name) 0 (int (length SysVarArr) - 1) = Some i"
    using sysvars.bsearch_iff [of name] k(1) by fastforce
  from bsearch_sound [OF this] have i: "sysvar_cmp name i = 0" "0 \<le> i" "nat i < length SysVarArr" by auto
  then have "strtolower (sy_name (SysVarArr ! nat i)) = strtolower (sy_name (SysVarArr ! k))"
    using x k by (simp add: sysvar_cmp_def strcasecmp_eq_0)
  then have "nat i = k" using SysVarArr_distinct i(3) k(1) nth_eq_iff_index_eq [of "map (strtolower \<circ> sy_name) SysVarArr" "nat i" k] by simp
  then show "find_sysvar name = Some x" using b k by (simp add: find_sysvar_def)
qed


section \<open>Setting a variable changes that variable only\<close>

text \<open>The variables that keep what they are set to.\<close>

definition plain_kind :: "sv_kind \<Rightarrow> bool" where
  "plain_kind k \<longleftrightarrow>
    (case k of SV_SPECIAL name \<Rightarrow> name \<in> {''date_sep_func'', ''time_sep_func'', ''datetime_sep_func''} | SV_CONST n \<Rightarrow> False | _ \<Rightarrow> True)"

definition plain_sysvar :: "string \<Rightarrow> bool" where
  "plain_sysvar name \<longleftrightarrow> (case find_sysvar name of None \<Rightarrow> False | Some x \<Rightarrow> plain_kind (sy_kind x))"

lemma SysVarArr_kinds: "distinct (map sy_kind SysVarArr)"
  by (simp add: SysVarArr_def sv_def MAX_FULL_OMITS_def MAX_PARTIAL_OMITS_def)

lemma same_kind: "x \<in> set SysVarArr \<Longrightarrow> y \<in> set SysVarArr \<Longrightarrow> sy_kind x = sy_kind y \<longleftrightarrow> x = y"
  using SysVarArr_kinds by (auto simp: distinct_map inj_on_eq_iff)

lemma SysVarArr_components: "list_all (\<lambda>x. list_all (\<lambda>c. sy_kind x \<noteq> SV_INT c) component_names) SysVarArr"
  by code_simp

lemma SysVarArr_special:
  "list_all (\<lambda>x. case sy_kind x of SV_SPECIAL name \<Rightarrow> name \<in> set (map fst special_funcs) | _ \<Rightarrow> True) SysVarArr"
  by code_simp


text \<open>What a special variable's function reads.\<close>

lemmas special_defs = read_only_def latlong_component_func_def latitude_longitude_func_def warning_level_func_def
  oncefile_func_def sep_func_def datetime_sep_func_def date_sep_func_def time_sep_func_def expr_time_limit_func_def
  default_color_func_def terminal_bg_func_def timet_is_64_func_def trig_time_func_def trig_date_func_def
  trig_base_func_def trig_until_func_def trig_part_def trig_day_func_def trig_mon_func_def trig_year_func_def
  trig_wday_func_def today_date_func_def today_day_func_def today_mon_func_def today_year_func_def today_wday_func_def

lemma special_frame:
  assumes "list_all (\<lambda>(n, g). P n \<longrightarrow> fst (g E None s') = fst (g E None s)) special_funcs" "P name"
  shows "fst (call_special name E None s') = fst (call_special name E None s)"
  using assms by (fastforce simp: call_special_def list_all_iff split: option.split dest: map_of_SomeD)

lemma special_translations [simp]:
  "fst (call_special name E None (s\<lparr>TranslationTable := T\<rparr>)) = fst (call_special name E None s)"
  by (rule special_frame [where P = "\<lambda>_. True"])
    (simp_all add: special_funcs_def special_defs Let_def component_names_def split: prod.split)

lemma special_strings [simp]:
  "fst (call_special name E None (s\<lparr>str_vars := m\<rparr>)) = fst (call_special name E None s)"
  by (rule special_frame [where P = "\<lambda>_. True"])
    (simp_all add: special_funcs_def special_defs Let_def component_names_def split: prod.split)

lemma special_ints [simp]:
  "var \<notin> set component_names \<Longrightarrow> fst (call_special name E None (s\<lparr>int_vars := (int_vars s)(var := n)\<rparr>)) = fst (call_special name E None s)"
  by (rule special_frame [where P = "\<lambda>_. True"])
    (auto simp: special_funcs_def special_defs Let_def component_names_def split: prod.split)

lemma special_DateSep [simp]:
  "name \<noteq> ''date_sep_func'' \<Longrightarrow> fst (call_special name E None (s\<lparr>sy_DateSep := c\<rparr>)) = fst (call_special name E None s)"
  by (rule special_frame [where P = "\<lambda>n. n \<noteq> ''date_sep_func''"]) (simp_all add: special_funcs_def special_defs Let_def split: prod.split)

lemma special_TimeSep [simp]:
  "name \<noteq> ''time_sep_func'' \<Longrightarrow> fst (call_special name E None (s\<lparr>sy_TimeSep := c\<rparr>)) = fst (call_special name E None s)"
  by (rule special_frame [where P = "\<lambda>n. n \<noteq> ''time_sep_func''"]) (simp_all add: special_funcs_def special_defs Let_def split: prod.split)

lemma special_DateTimeSep [simp]:
  "name \<noteq> ''datetime_sep_func'' \<Longrightarrow> fst (call_special name E None (s\<lparr>sy_DateTimeSep := c\<rparr>)) = fst (call_special name E None s)"
  by (rule special_frame [where P = "\<lambda>n. n \<noteq> ''datetime_sep_func''"]) (simp_all add: special_funcs_def special_defs Let_def split: prod.split)

text \<open>The variable that is set, and the others.\<close>

lemma set_special_sep:
  assumes "fn \<in> {''date_sep_func'', ''time_sep_func'', ''datetime_sep_func''}" "en_mem E"
    and c: "call_special fn E (Some v) s = (Inr u, s')"
  shows "fst (call_special fn E None s') = Inr v"
    and "\<exists>c. fn = ''date_sep_func'' \<and> s' = s\<lparr>sy_DateSep := c\<rparr> \<or> fn = ''time_sep_func'' \<and> s' = s\<lparr>sy_TimeSep := c\<rparr> \<or>
      fn = ''datetime_sep_func'' \<and> s' = s\<lparr>sy_DateTimeSep := c\<rparr>"
  using assms
  by (auto simp: call_special_def special_funcs_def date_sep_func_def time_sep_func_def datetime_sep_func_def
      sep_func_def read_string_def split: Value.splits if_splits)

lemma SetSysVarHelper_reads:
  assumes x: "x \<in> set SysVarArr" "plain_kind (sy_kind x)" and y: "y \<in> set SysVarArr" and "en_mem E"
    and set_ok: "SetSysVarHelper E x v s = (None, s')"
  shows "read_sysvar E y s' = (if y = x then Inr v else read_sysvar E y s)"
proof -
  note kinds = same_kind [OF y x(1)]
  show ?thesis
  proof (cases "sy_kind x")
    case (SV_INT var)
    have "var \<notin> set component_names" using SysVarArr_components x(1) SV_INT by (auto simp: list_all_iff)
    with assms SV_INT kinds show ?thesis
      by (cases "sy_kind y") (auto simp: SetSysVarHelper_def read_sysvar_def split: Value.splits if_splits)
  next
    case (SV_STR var)
    with assms kinds show ?thesis
      by (cases "sy_kind y") (auto simp: SetSysVarHelper_def read_sysvar_def read_string_def split: Value.splits if_splits)
  next
    case (SV_TRANS orig)
    with assms obtain w T where "v = StrV w" and T: "InsertTranslation True orig w (TranslationTable s) = (None, T)"
        "s' = s\<lparr>TranslationTable := T\<rparr>"
      by (auto simp: SetSysVarHelper_def split: Value.splits if_splits prod.splits)
    with assms SV_TRANS kinds show ?thesis
      by (cases "sy_kind y") (auto simp: read_sysvar_def read_string_def tr_InsertTranslation [OF T(1)])
  next
    case (SV_SPECIAL fn)
    with assms have fn: "fn \<in> {''date_sep_func'', ''time_sep_func'', ''datetime_sep_func''}" by (simp add: plain_kind_def)
    obtain u where c: "call_special fn E (Some v) s = (Inr u, s')"
      using set_ok SV_SPECIAL by (auto simp: SetSysVarHelper_def split: if_splits prod.splits sum.splits)
    show ?thesis
      using set_special_sep [OF fn assms(4) c] SV_SPECIAL kinds
      by (cases "sy_kind y") (auto simp: read_sysvar_def)
  next
    case (SV_CONST n)
    then show ?thesis using x by (simp add: plain_kind_def)
  qed
qed

section \<open>Properties\<close>

text \<open>
  C40.  Setting a system variable is an update of a store: once SET has accepted a value, the variable,
  whatever the case of its name, reads as that value, and every other system variable reads as
  before.  The variables are those that keep their value as it is: integers, strings, translations
  and separators.
\<close>

theorem SetSysVar_updates_store:
  assumes "SetSysVar E name v s = (None, s')" "plain_sysvar name" "en_mem E"
  shows "get_sysvar E other s' = (if strtolower other = strtolower name then Inr v else get_sysvar E other s)"
proof -
  obtain x where x: "find_sysvar name = Some x" "plain_kind (sy_kind x)"
    using assms(2) by (auto simp: plain_sysvar_def split: option.splits)
  then have xt: "x \<in> set SysVarArr" "strtolower (sy_name x) = strtolower name" by (simp_all add: find_sysvar_Some)
  have ok: "SetSysVarHelper E x v s = (None, s')" using assms(1) x by (simp add: SetSysVar_def)
  show ?thesis
  proof (cases "find_sysvar other")
    case None
    then have "strtolower other \<noteq> strtolower name" using xt find_sysvar_Some [of other x] by auto
    then show ?thesis using None by (simp add: get_sysvar_def)
  next
    case (Some y)
    then have y: "y \<in> set SysVarArr" "strtolower (sy_name y) = strtolower other" by (simp_all add: find_sysvar_Some)
    have "y = x \<longleftrightarrow> strtolower other = strtolower name"
      using y xt Some x(1) find_sysvar_Some [of other x] by auto
    then show ?thesis using SetSysVarHelper_reads [OF xt(1) x(2) y(1) assms(3) ok] Some by (simp add: get_sysvar_def)
  qed
qed


definition sample_sys_env :: "unit sys_env" where
  "sample_sys_env =
    \<lparr>en_trig = \<lparr>LastTrigger = new_trigger 0 5000, LastTimeTrig = new_timetrig 0, LastTriggerDate = 0,
       LastTriggerTime = NO_TIME, LastTrigValid = False\<rparr>,
     en_today = 13000, en_top_level = True, en_mem = True, en_version = ''06.02.06'', en_background = -1, en_timet_64 = True,
     show_degrees = (\<lambda>_ _. ''45.42''), read_degrees = (\<lambda>_ _ _. Inl E_2HIGH), from_components = (\<lambda>_. ()),
     to_components = (\<lambda>_ _. 0)\<rparr>"

definition sample_sys_state :: "unit sys_state" where
  "sample_sys_state =
    \<lparr>int_vars = (\<lambda>_. 0), str_vars = (\<lambda>_. Some []), TranslationTable = InitTranslationTable True, sy_DateSep = CHR ''-'',
     sy_TimeSep = CHR '':'', sy_DateTimeSep = CHR ''@'', DefaultColor = (-1, -1, -1), ExpressionEvaluationTimeLimit = 0,
     OnceFile = None, ProcessedOnce = False, WarningLevel = None, Degrees = ()\<rparr>"

lemma sample_sys_env_mem: "en_mem sample_sys_env"
  by (simp add: sample_sys_env_def)

theorem SetSysVar_updates_store_witness:
  "get_sysvar sample_sys_env ''ago'' (snd (SetSysVar sample_sys_env ''Ago'' (StrV ''fa'') sample_sys_state)) = Inr (StrV ''fa'')"
proof -
  have f: "find_sysvar ''Ago'' = Some (sv ''Ago'' True (SV_TRANS ''ago'') 0 0)"
    by (simp add: find_sysvar_Some SysVarArr_def sv_def)
  have "printf_formatters_are_safe ''ago'' ''fa''" by (simp add: printf_formatters_are_safe_def)
  then have "fst (SetSysVar sample_sys_env ''Ago'' (StrV ''fa'') sample_sys_state) = None"
    using f by (simp add: SetSysVar_def SetSysVarHelper_def sv_def InsertTranslation_def LANGID_def sample_sys_env_def Let_def split: prod.split)
  then obtain s' where s': "SetSysVar sample_sys_env ''Ago'' (StrV ''fa'') sample_sys_state = (None, s')" by (metis prod.collapse)
  have "strtolower ''ago'' = strtolower ''Ago''" by code_simp
  moreover have "plain_sysvar ''Ago''" using f by (simp add: plain_sysvar_def plain_kind_def sv_def)
  ultimately show ?thesis
    using SetSysVar_updates_store [OF s' _ sample_sys_env_mem, of "''ago''"] s' by simp
qed

end
