(* ===== verification/ExprRun.thy ===== *)
theory ExprRun
  imports ExprEval FuncTable SysVars
begin

text \<open>
  Evaluation in the environment of a run: the table of built-in functions and the dispatch on a
  function's name, the user's functions, and the system variables of \<^verbatim>\<open>src/src/var.c\<close>.  The
  built-in functions that are not modelled are a parameter.
\<close>

section \<open>Calling a built-in function\<close>

text \<open>
  What functions read: the separators and limits of values, today, the names of days and months in
  the user's language, and the conversion of UTC to local time.
\<close>

record func_env =
  fe_config :: value_config
  fe_today :: int
  fe_months :: "int \<Rightarrow> string"
  fe_days :: "int \<Rightarrow> string"
  fe_utc :: "int \<Rightarrow> int \<Rightarrow> int \<times> int"

definition pure_funcs :: "(string \<times> (func_env \<Rightarrow> Value list \<Rightarrow> Value result)) list" where
  "pure_funcs = [
    (''abs'', \<lambda>F. FAbs), (''ampm'', \<lambda>F. FAmpm (fe_config F)), (''asc'', \<lambda>F. FAsc),
    (''baseyr'', \<lambda>F args. Inr (IntV BASE)), (''char'', \<lambda>F. FChar), (''coerce'', \<lambda>F. FCoerce (fe_config F)),
    (''const'', \<lambda>F args. Inr (args ! 0)), (''date'', \<lambda>F. FDate (vc_seps (fe_config F))), (''datepart'', \<lambda>F. FDatepart),
    (''datetime'', \<lambda>F. FDateTime (vc_seps (fe_config F))), (''daysinmon'', \<lambda>F. FDaysinmon (vc_seps (fe_config F))),
    (''escape'', \<lambda>F. FEscape), (''hex'', \<lambda>F. FHex), (''hour'', \<lambda>F. FHour), (''htmlescape'', \<lambda>F. FHtmlEscape),
    (''htmlstriptags'', \<lambda>F. FHtmlStriptags), (''index'', \<lambda>F. FIndex), (''isleap'', \<lambda>F. FIsleap),
    (''language'', \<lambda>F args. Inr (StrV ''English'')), (''lower'', \<lambda>F. FLower), (''max'', \<lambda>F. FMax), (''min'', \<lambda>F. FMin),
    (''minute'', \<lambda>F. FMinute), (''nonconst'', \<lambda>F args. Inr (args ! 0)), (''ostype'', \<lambda>F args. Inr (StrV ''UNIX'')),
    (''pad'', \<lambda>F. FPad (fe_config F)), (''plural'', \<lambda>F. FPlural), (''sgn'', \<lambda>F. FSgn), (''shellescape'', \<lambda>F. FShellescape),
    (''strlen'', \<lambda>F. FStrlen), (''substr'', \<lambda>F. FSubstr), (''time'', \<lambda>F. FTime), (''timepart'', \<lambda>F. FTimepart),
    (''today'', \<lambda>F args. Inr (DateV (fe_today F))), (''trigger'', \<lambda>F. FTrigger (fe_utc F)), (''typeof'', \<lambda>F. FTypeof),
    (''upper'', \<lambda>F. FUpper), (''weekno'', \<lambda>F. FWeekno (fe_today F)), (''wkday'', \<lambda>F. FWkday (fe_days F)),
    (''wkdaynum'', \<lambda>F. FWkdaynum (vc_seps (fe_config F)))]"

definition cache_funcs :: "(string \<times> (func_env \<Rightarrow> Value list \<Rightarrow> date_cache \<Rightarrow> Value result \<times> date_cache)) list" where
  "cache_funcs = [
    (''day'', \<lambda>F. FDay), (''mon'', \<lambda>F. FMon (vc_seps (fe_config F)) (fe_months F)),
    (''monnum'', \<lambda>F. FMonnum (vc_seps (fe_config F))), (''year'', \<lambda>F. FYear)]"

text \<open>
  What built-in functions and system variables keep between calls: the cache of the date functions,
  and the C variables behind the system variables.
\<close>

record 'd run_world =
  rw_cache :: date_cache
  rw_sys :: "'d sys_state"

text \<open>
  The functions of the model, by name; the others, \<open>other\<close>, may do anything with the state.
  \<open>easterdate\<close> and \<open>orthodoxeaster\<close>, whose loop may pass the last date, and \<open>ord\<close>, which may
  evaluate a user's function, are definitions of their own and stay among the others here.
\<close>

type_synonym 'w builtin = "Value list \<Rightarrow> 'w estate \<Rightarrow> (Value result \<times> bool) \<times> 'w estate"

definition call_builtin :: "func_env \<Rightarrow> (string \<Rightarrow> 'd run_world builtin) \<Rightarrow> string \<Rightarrow> 'd run_world builtin" where
  "call_builtin F other name args s =
    (case map_of pure_funcs name of
       Some f \<Rightarrow> ((f F args, False), s)
     | None \<Rightarrow>
         (case map_of cache_funcs name of
            Some f \<Rightarrow>
              (case f F args (rw_cache (eworld s)) of
                 (r, c) \<Rightarrow> ((r, False), s\<lparr>eworld := (eworld s)\<lparr>rw_cache := c\<rparr>\<rparr>))
          | None \<Rightarrow> other name args s))"

section \<open>The environment of a run\<close>

text \<open>
  The user's functions: names of arguments, body and whether the function is constant, as FSET has
  them.  The body is parsed with the names of the arguments for its local variables.
\<close>

record fset_def =
  fset_args :: "string list"
  fset_body :: string
  fset_constant :: bool
  fset_run_disabled :: bool

record 'd run_env =
  re_funcs :: func_env
  re_other :: "string \<Rightarrow> 'd run_world builtin"
  re_fset :: "string \<Rightarrow> fset_def option"
  re_sys :: "'d sys_env"
  re_disabled :: bool
  re_node_limit :: nat
  re_time_limit :: bool
  re_alarm :: "nat \<Rightarrow> nat option"

definition sysvar_node :: "string \<Rightarrow> SysVar option" where
  "sysvar_node name =
    map_option (\<lambda>x. \<lparr>sv_name = sy_name x, sv_const_int = (case sy_kind x of SV_CONST n \<Rightarrow> True | _ \<Rightarrow> False)\<rparr>)
      (find_sysvar name)"

definition run_parse_env :: "'d run_env \<Rightarrow> string list \<Rightarrow> parse_env" where
  "run_parse_env R args =
    \<lparr>pe_seps = vc_seps (fe_config (re_funcs R)),
     FindBuiltinFunc = find_builtin_func,
     FindSysVar = sysvar_node,
     pe_locals = args\<rparr>"

definition user_func :: "'d run_env \<Rightarrow> string \<Rightarrow> UserFunc option" where
  "user_func R name =
    (case re_fset R name of
       None \<Rightarrow> None
     | Some d \<Rightarrow>
         (case parse_expression (run_parse_env R (fset_args d)) False 0 (fset_body d) of
            (Inl e, _) \<Rightarrow> None
          | (Inr node, _) \<Rightarrow>
              Some \<lparr>uf_name = name, uf_is_constant = fset_constant d, uf_node = node,
                uf_nargs = length (fset_args d), uf_run_disabled = fset_run_disabled d\<rparr>))"

definition remind_env :: "'d run_env \<Rightarrow> 'd run_world eval_env" where
  "remind_env R =
    \<lparr>ev_config = fe_config (re_funcs R),
     ev_parse = run_parse_env R [],
     EvaluationDisabled = re_disabled R,
     NodeLimit = re_node_limit R,
     TimeLimit = re_time_limit R,
     alarm_ticks = re_alarm R,
     FindUserFunc = user_func R,
     GetSysVar = (\<lambda>x w. get_sysvar (re_sys R) (sv_name x) (rw_sys w)),
     call_func = call_builtin (re_funcs R) (re_other R)\<rparr>"

section \<open>No internal error\<close>

text \<open>No built-in function of the model, and no system variable, returns the error of a missing node.\<close>

definition no_swerr :: "'a result \<Rightarrow> bool" where
  "no_swerr r \<longleftrightarrow> r \<noteq> Inl E_SWERR"

lemma no_swerr_simps [simp]: "no_swerr (Inr x)" "no_swerr (Inl e) \<longleftrightarrow> e \<noteq> E_SWERR"
  "no_swerr (check b e r) \<longleftrightarrow> (if b then no_swerr r else e \<noteq> E_SWERR)"
  by (auto simp: no_swerr_def check_def)

lemma no_swerr_and_then [intro]: "no_swerr r \<Longrightarrow> (\<And>x. r = Inr x \<Longrightarrow> no_swerr (g x)) \<Longrightarrow> no_swerr (and_then r g)"
  by (cases r) (auto simp: no_swerr_def and_then_def)

lemma no_swerr_args [simp]: "no_swerr (int_arg v)" "no_swerr (str_arg v)" "no_swerr (get_month sp v)"
  "no_swerr (clock h m)" "no_swerr (make_date y m d)"
  by (auto simp: int_arg_def str_arg_def get_month_def clock_def make_date_def split: Value.splits prod.splits)

lemma no_swerr_DoCoerce [simp]: "no_swerr (DoCoerce vc ty v)"
  by (auto simp: DoCoerce_def coerce_datetime_def coerce_str_def coerce_int_def coerce_date_def coerce_time_def Let_def
      split: vtype.splits Value.splits sum.splits prod.splits)

lemma no_swerr_loops [simp]: "no_swerr (best_loop sign v vs)" "no_swerr (chars_loop vs)"
  by (induction sign v vs rule: best_loop.induct; simp) (induction vs rule: chars_loop.induct; auto intro!: no_swerr_and_then)

lemmas pure_defs = FAbs_def FAmpm_def FAsc_def FChar_def FCoerce_def FDate_def FDatepart_def FDateTime_def FDaysinmon_def
  FEscape_def FHex_def FHour_def FHtmlEscape_def FHtmlStriptags_def FIndex_def FIsleap_def FLower_def FMax_def FMin_def
  FMinute_def FPad_def FPlural_def FSgn_def FShellescape_def FStrlen_def FSubstr_def FTime_def FTimepart_def FTrigger_def
  trigger_time_def FTypeof_def FUpper_def FWeekno_def week_args_def FWkday_def FWkdaynum_def Let_def

lemma FDateTime_no_swerr [simp]: "no_swerr (FDateTime sp args)"
  unfolding FDateTime_def by (auto intro!: no_swerr_and_then split: list.split Value.split)

lemma pure_no_swerr_each [simp]:
  "no_swerr (FAbs args)" "no_swerr (FAmpm vc args)" "no_swerr (FAsc args)" "no_swerr (FChar args)" "no_swerr (FCoerce vc args)"
  "no_swerr (FDate sp args)" "no_swerr (FDatepart args)" "no_swerr (FDaysinmon sp args)" "no_swerr (FEscape args)"
  "no_swerr (FHex args)" "no_swerr (FHour args)" "no_swerr (FHtmlEscape args)" "no_swerr (FHtmlStriptags args)"
  "no_swerr (FIndex args)" "no_swerr (FIsleap args)" "no_swerr (FLower args)" "no_swerr (FMax args)" "no_swerr (FMin args)"
  "no_swerr (FMinute args)" "no_swerr (FPad vc args)" "no_swerr (FPlural args)" "no_swerr (FSgn args)"
  "no_swerr (FShellescape args)" "no_swerr (FStrlen args)" "no_swerr (FSubstr args)" "no_swerr (FTime args)"
  "no_swerr (FTimepart args)" "no_swerr (FTrigger utc args)" "no_swerr (FTypeof args)" "no_swerr (FUpper args)"
  "no_swerr (FWeekno today args)" "no_swerr (FWkday days args)" "no_swerr (FWkdaynum sp args)"
  unfolding pure_defs
  by (auto intro!: no_swerr_and_then split: Value.split prod.split option.split vtype.split)

lemma pure_no_swerr: "list_all (\<lambda>(name, f). \<forall>F args. no_swerr (f F args)) pure_funcs"
  by (simp add: pure_funcs_def)

lemma cache_no_swerr: "list_all (\<lambda>(name, f). \<forall>F args c. no_swerr (fst (f F args c))) cache_funcs"
  by (auto simp: cache_funcs_def FDay_def FMon_def FMonnum_def FYear_def Let_def intro!: no_swerr_and_then
      split: Value.split vtype.split prod.split)

lemma special_no_swerr: "list_all (\<lambda>(n, g). \<forall>E s. no_swerr (fst (g E None s))) special_funcs"
  by (simp add: special_funcs_def special_defs read_string_def Let_def split: prod.split)

lemma get_sysvar_no_swerr:
  fixes E :: "'d sys_env"
  shows "no_swerr (get_sysvar E name s)"
proof -
  let ?fs = "special_funcs :: (string \<times> ('d sys_env \<Rightarrow> 'd special)) list"
  have "no_swerr (fst (call_special n E None s))" if n: "n \<in> set (map fst ?fs)" for n
  proof -
    obtain g where g: "map_of ?fs n = Some g" using n map_of_eq_None_iff [of ?fs n] by (cases "map_of ?fs n") simp_all
    have "no_swerr (fst (g E None s))"
      using special_no_swerr map_of_SomeD [OF g] unfolding list_all_iff by (metis (no_types, lifting) case_prodD)
    then show ?thesis using g by (simp add: call_special_def)
  qed
  note special = this
  have "no_swerr (read_sysvar E x s)" if x: "x \<in> set SysVarArr" for x
  proof (cases "sy_kind x")
    case (SV_SPECIAL n)
    then have "n \<in> set (map fst ?fs)" using SysVarArr_special x unfolding list_all_iff by fastforce
    then show ?thesis using special SV_SPECIAL by (simp add: read_sysvar_def)
  qed (simp_all add: read_sysvar_def read_string_def)
  then show ?thesis using find_sysvar_Some [of name] by (auto simp: get_sysvar_def split: option.split)
qed

end
