(* ===== verification/ExprShow.thy ===== *)
theory ExprShow
  imports ExprParse
begin

text \<open>
  Expressions written as text, with parentheses where the grammar needs them, and the proof that
  the parser reads every tree back from its text.
\<close>

section \<open>The text of a tree\<close>

text \<open>The rules for binary operators are numbered from 1, \<open>||\<close>, to 6, \<open>*\<close>; 7 is a factor.\<close>

fun op_prec :: "oper \<Rightarrow> nat" where
  "op_prec logical_or = 1"
| "op_prec logical_and = 2"
| "op_prec (compare_op h) = (if h = EQ \<or> h = NE then 3 else 4)"
| "op_prec add_op = 5"
| "op_prec subtract = 5"
| "op_prec multiply = 6"
| "op_prec divide_op = 6"
| "op_prec do_mod = 6"
| "op_prec logical_not = 7"
| "op_prec unary_minus = 7"

fun op_text :: "oper \<Rightarrow> string" where
  "op_text logical_or = ''||''"
| "op_text logical_and = ''&&''"
| "op_text (compare_op h) =
    (case h of EQ \<Rightarrow> ''=='' | NE \<Rightarrow> ''!='' | LE \<Rightarrow> ''<='' | GE \<Rightarrow> ''>='' | LT \<Rightarrow> ''<'' | GT \<Rightarrow> ''>'')"
| "op_text add_op = ''+''"
| "op_text subtract = ''-''"
| "op_text multiply = ''*''"
| "op_text divide_op = ''/''"
| "op_text do_mod = ''%''"
| "op_text logical_not = ''!''"
| "op_text unary_minus = ''-''"

definition escape_char :: "char \<Rightarrow> string" where
  "escape_char c = (if c = CHR 0x22 \<or> c = CHR 0x5C then [CHR 0x5C, c] else [c])"

definition show_value :: "value_config \<Rightarrow> Value \<Rightarrow> string" where
  "show_value vc v =
    (case v of
       IntV n \<Rightarrow> fmt_int 0 n
     | TimeV t \<Rightarrow> [CHR 0x27] @ fmt_time vc t @ [CHR 0x27]
     | DateV d \<Rightarrow> [CHR 0x27] @ fmt_date vc d @ [CHR 0x27]
     | DateTimeV m \<Rightarrow> [CHR 0x27] @ fmt_datetime vc m @ [CHR 0x27]
     | StrV s \<Rightarrow> [CHR 0x22] @ concat (map escape_char s) @ [CHR 0x22])"

definition parens :: "bool \<Rightarrow> string \<Rightarrow> string" where
  "parens b s = (if b then ''('' @ s @ '')'' else s)"

fun commas :: "string list \<Rightarrow> string" where
  "commas [] = []"
| "commas [s] = s"
| "commas (s # ss) = s @ '','' @ commas ss"

fun show_expr :: "value_config \<Rightarrow> string list \<Rightarrow> nat \<Rightarrow> expr_node \<Rightarrow> string" where
  "show_expr vc ls p (N_CONSTANT v) = show_value vc v"
| "show_expr vc ls p (N_LOCAL_VAR i) = ls ! i"
| "show_expr vc ls p (N_VARIABLE s) = s"
| "show_expr vc ls p (N_SYSVAR v) = CHR ''$'' # sv_name v"
| "show_expr vc ls p (N_BUILTIN_FUNC f args) = bf_name f @ ''('' @ commas (map (show_expr vc ls 1) args) @ '')''"
| "show_expr vc ls p (N_USER_FUNC s args) = s @ ''('' @ commas (map (show_expr vc ls 1) args) @ '')''"
| "show_expr vc ls p (N_OPERATOR op [a]) = op_text op @ show_expr vc ls 7 a"
| "show_expr vc ls p (N_OPERATOR op [a, b]) =
    parens (op_prec op < p)
      (show_expr vc ls (op_prec op) a @ op_text op @ show_expr vc ls (op_prec op + 1) b)"
| "show_expr vc ls p (N_OPERATOR op _) = []"

text \<open>How deep the tree is.\<close>

fun height :: "expr_node \<Rightarrow> nat" where
  "height (N_BUILTIN_FUNC f args) = 1 + fold (\<lambda>e. max (height e)) args 0"
| "height (N_USER_FUNC s args) = 1 + fold (\<lambda>e. max (height e)) args 0"
| "height (N_OPERATOR op args) = 1 + fold (\<lambda>e. max (height e)) args 0"
| "height e = 1"

text \<open>The trees that have a text: those the parser makes of names that are bound as they say.\<close>

definition ident :: "string \<Rightarrow> bool" where
  "ident s \<longleftrightarrow> s \<noteq> [] \<and> (isalpha (hd s) \<or> hd s = CHR ''_'') \<and> list_all ISID s \<and> length s \<le> VAR_NAME_LEN"

definition value_printable :: "Value \<Rightarrow> bool" where
  "value_printable v \<longleftrightarrow> writable v \<and> v \<noteq> IntV INT_MIN"

definition is_int :: "expr_node \<Rightarrow> bool" where
  "is_int e \<longleftrightarrow> (case e of N_CONSTANT (IntV _) \<Rightarrow> True | _ \<Rightarrow> False)"

fun printable :: "parse_env \<Rightarrow> expr_node \<Rightarrow> bool" where
  "printable E (N_CONSTANT v) \<longleftrightarrow> value_printable v"
| "printable E (N_LOCAL_VAR i) \<longleftrightarrow> i < length (pe_locals E) \<and> ident (pe_locals E ! i)
     \<and> find_local (pe_locals E ! i) 0 (pe_locals E) = Some i"
| "printable E (N_VARIABLE s) \<longleftrightarrow> ident s \<and> find_local s 0 (pe_locals E) = None"
| "printable E (N_SYSVAR v) \<longleftrightarrow> sv_name v \<noteq> [] \<and> isalpha (hd (sv_name v)) \<and> list_all ISID (sv_name v)
     \<and> FindSysVar E (sv_name v) = Some v"
| "printable E (N_BUILTIN_FUNC f args) \<longleftrightarrow> ident (bf_name f) \<and> FindBuiltinFunc E (bf_name f) = Some f
     \<and> int (length args) \<ge> minargs f \<and> (int (length args) \<le> maxargs f \<or> maxargs f = NO_MAX_ARGS)
     \<and> list_all (printable E) args"
| "printable E (N_USER_FUNC s args) \<longleftrightarrow> ident s \<and> FindBuiltinFunc E s = None \<and> strtolower s = s
     \<and> list_all (printable E) args"
| "printable E (N_OPERATOR op [a]) \<longleftrightarrow> op_prec op = 7 \<and> \<not> is_int a \<and> printable E a"
| "printable E (N_OPERATOR op [a, b]) \<longleftrightarrow> op_prec op \<le> 6 \<and> printable E a \<and> printable E b"
| "printable E (N_OPERATOR op _) \<longleftrightarrow> False"

section \<open>Characters\<close>

text \<open>What may follow an operand: an operator, a bracket, a comma or the end.\<close>

definition operand_ends :: "string \<Rightarrow> bool" where
  "operand_ends r \<longleftrightarrow> r = [] \<or> hd r \<in> set ''+-*/%&|=<>!),]''"

lemma isempty_not: "isempty c \<Longrightarrow> \<not> ISID c \<and> c \<noteq> CHR ''$'' \<and> c \<noteq> CHR 0x22 \<and> c \<noteq> CHR 0x27"
  by (auto simp: isempty_def ISID_def ctype_defs)

lemma ISID_not:
  "ISID c \<Longrightarrow> \<not> isempty c \<and> \<not> single_char c \<and> \<not> double_char c \<and> \<not> compare_char c
     \<and> c \<noteq> CHR 0x22 \<and> c \<noteq> CHR 0x27 \<and> c \<noteq> CHR ''$'' \<and> c \<noteq> CHR ''(''"
  by (auto simp: isempty_def ISID_def ctype_defs single_char_def double_char_def compare_char_def)

lemma end_chars:
  "list_all (\<lambda>c. \<not> isempty c \<and> \<not> ISID c \<and> c \<noteq> CHR '':'' \<and> c \<noteq> CHR ''.'' \<and> c \<noteq> CHR ''('') ''+-*/%&|=<>!),]''"
  by (simp add: isempty_def ISID_def ctype_defs)

lemma operand_ends_char:
  assumes "operand_ends (c # r)" "seps_ok sp"
  shows "\<not> isempty c" "\<not> is_word_char sp c" "c \<noteq> CHR ''(''" "\<not> ISID c" "\<not> isdigit c"
proof -
  have "c \<in> set ''+-*/%&|=<>!),]''" using assms(1) by (simp only: operand_ends_def list.sel) simp
  with end_chars have c: "\<not> isempty c" "\<not> ISID c" "c \<noteq> CHR '':''" "c \<noteq> CHR ''.''" "c \<noteq> CHR ''(''"
    unfolding list_all_iff by blast+
  then show "\<not> isempty c" "c \<noteq> CHR ''(''" "\<not> ISID c" "\<not> is_word_char sp c" "\<not> isdigit c"
    using assms(2) unfolding is_word_char_def seps_ok_def by (auto simp: ISID_def)
qed

section \<open>Tokens of the text\<close>

lemma dropWhile_operand_ends:
  assumes "operand_ends r" "seps_ok sp"
  shows "dropWhile isempty r = r" "dropWhile (is_word_char sp) r = r" "takeWhile (is_word_char sp) r = []"
    "dropWhile ISID r = r" "takeWhile ISID r = []" "\<not> starts (\<lambda>d. d = CHR ''('') r" "\<not> starts isdigit r"
  using operand_ends_char [OF _ assms(2)] assms(1) by (cases r; simp)+

lemma word_span:
  "list_all P w \<Longrightarrow> takeWhile P (w @ r) = w @ takeWhile P r" "list_all P w \<Longrightarrow> dropWhile P (w @ r) = dropWhile P r"
  by (induction w) simp_all

lemma parse_word:
  assumes "ISID c" "list_all (is_word_char sp) w" "operand_ends r" "seps_ok sp"
  shows "parse_expr_token sp (c # w @ r) = (Inr (c # w), r)"
  using ISID_not [OF assms(1)] assms(1)
  by (simp add: parse_expr_token_def word_token_def word_span [OF assms(2)] dropWhile_operand_ends [OF assms(3,4)])

lemma ISID_word: "ISID c \<Longrightarrow> is_word_char sp c"
  by (simp add: is_word_char_def)

lemma ISID_words: "list_all ISID s \<Longrightarrow> list_all (is_word_char sp) s"
  by (auto simp: list_all_iff ISID_word)

lemma ident_Cons: "ident s \<longleftrightarrow> (\<exists>c w. s = c # w \<and> (isalpha c \<or> c = CHR ''_'') \<and> list_all ISID w \<and> length s \<le> VAR_NAME_LEN)"
  by (cases s) (auto simp: ident_def ISID_def)

lemma parse_ident:
  assumes "ident s" "operand_ends r" "seps_ok sp"
  shows "parse_expr_token sp (s @ r) = (Inr s, r)"
  using assms parse_word [of "hd s" sp "tl s" r] ISID_words by (cases s) (auto simp: ident_def)

lemma parse_call:
  assumes "ident s" "seps_ok sp"
  shows "parse_expr_token sp (s @ CHR ''('' # r) = (Inr (s @ ''(''), r)"
proof -
  obtain c w where s: "s = c # w" "isalpha c \<or> c = CHR ''_''" "list_all ISID w"
    using assms(1) by (auto simp: ident_Cons)
  have "\<not> is_word_char sp (CHR ''('')" "\<not> isempty (CHR ''('')"
    using assms(2) by (auto simp: is_word_char_def ISID_def ctype_defs seps_ok_def isempty_def)
  moreover have "ISID c" using s(2) by (auto simp: ISID_def)
  ultimately show ?thesis
    using ISID_not [of c] s(2)
    by (simp add: s(1) parse_expr_token_def word_token_def word_span [OF ISID_words [OF s(3)]])
qed

lemma isalpha_ISID: "isalpha c \<Longrightarrow> ISID c"
  by (simp add: ISID_def)

lemma dollar: "\<not> isempty (CHR ''$'')" "\<not> single_char (CHR ''$'')" "\<not> double_char (CHR ''$'')"
  "\<not> compare_char (CHR ''$'')" "\<not> isempty (CHR 0x22)" "\<not> single_char (CHR 0x22)" "\<not> double_char (CHR 0x22)"
  "\<not> compare_char (CHR 0x22)" "\<not> isempty (CHR 0x27)" "\<not> single_char (CHR 0x27)" "\<not> double_char (CHR 0x27)"
  "\<not> compare_char (CHR 0x27)"
  by (simp_all add: isempty_def single_char_def double_char_def compare_char_def isspace_def)

lemma parse_sysvar:
  assumes "s \<noteq> []" "isalpha (hd s)" "list_all ISID s" "operand_ends r" "seps_ok sp"
  shows "parse_expr_token sp (CHR ''$'' # s @ r) = (Inr (CHR ''$'' # s), r)"
proof -
  have "starts isalpha (s @ r)" using assms(1,2) by (cases s) simp_all
  then show ?thesis
    by (simp add: parse_expr_token_def dollar word_span [OF assms(3)] dropWhile_operand_ends [OF assms(4,5)])
qed

lemma parse_date:
  assumes "CHR 0x27 \<notin> set w"
  shows "parse_expr_token sp (CHR 0x27 # w @ CHR 0x27 # r) = (Inr (CHR 0x27 # w @ [CHR 0x27]), r)"
proof -
  have "list_all (\<lambda>c. c \<noteq> CHR 0x27) w" using assms by (auto simp: list_all_iff)
  then show ?thesis by (simp add: parse_expr_token_def dollar date_quote_token_def word_span Let_def)
qed

lemma string_token_quoted:
  "string_token w c (concat (map escape_char s) @ CHR 0x22 # r) = (Inr (w @ s @ [CHR 0x22]), r)"
proof (induction s arbitrary: w c)
  case Nil
  then show ?case by (simp add: string_token.simps [of w c])
next
  case (Cons x s)
  show ?case
  proof (cases "x = CHR 0x22 \<or> x = CHR 0x5C")
    case True
    then have "expr_escape (x # t) = (Inr x, t)" for t by (auto simp: expr_escape_def)
    then show ?thesis using True Cons.IH by (simp add: escape_char_def string_token.simps [of w c])
  next
    case False
    then show ?thesis using Cons.IH by (simp add: escape_char_def string_token.simps [of w c])
  qed
qed

lemma parse_string:
  "parse_expr_token sp (CHR 0x22 # concat (map escape_char s) @ CHR 0x22 # r) = (Inr (CHR 0x22 # s @ [CHR 0x22]), r)"
  by (simp add: parse_expr_token_def dollar string_token_quoted)

lemma parse_op:
  assumes "\<not> starts (\<lambda>d. d = CHR ''='') r"
  shows "parse_expr_token sp (op_text op @ r) = (Inr (op_text op), r)"
proof -
  have *: "\<not> isempty c" if "c \<in> set ''|&=!<>+-*/%''" for c
    using that by (auto simp: isempty_def isspace_def)
  have **: "list_all single_char ''+-*/%()''" "list_all (\<lambda>c. \<not> single_char c) ''|&=!<>''" "list_all double_char ''|&=''"
    "list_all (\<lambda>c. \<not> double_char c) ''!<>''" "list_all compare_char ''!<>''"
    by (simp_all add: single_char_def double_char_def compare_char_def)
  show ?thesis
    using * ** assms by (cases op rule: op_text.cases) (auto simp: parse_expr_token_def split: how.splits)
qed

lemma parse_paren: "parse_expr_token sp (CHR ''('' # r) = (Inr ''('', r)" "parse_expr_token sp (CHR '')'' # r) = (Inr '')'', r)"
  "parse_expr_token sp (CHR '','' # r) = (Inr '','', r)"
  by (simp_all add: parse_expr_token_def isempty_def isspace_def single_char_def)

lemma string_token_hd:
  "string_token w c s = (Inr tok, t) \<Longrightarrow> w \<noteq> [] \<Longrightarrow> tok \<noteq> [] \<and> hd tok = hd w"
proof (induction w c s rule: string_token.induct)
  case (1 w c s)
  show ?case
  proof (cases s)
    case Nil
    then show ?thesis using "1.prems" by (simp add: string_token.simps [of w c "[]"] split: if_splits)
  next
    case (Cons x r)
    show ?thesis
    proof (cases "x = CHR 0x5C \<and> r \<noteq> []")
      case True
      obtain e u where e: "expr_escape r = (e, u)" by (cases "expr_escape r")
      then obtain y where "e = Inr y" "string_token (w @ [y]) c u = (Inr tok, t)"
        using "1.prems" Cons True
        by (auto simp: string_token.simps [of w c "CHR 0x5C # r"] split: sum.splits)
      then show ?thesis
        using "1.IH"(1) [OF Cons _ _ e [symmetric]] Cons True "1.prems"(2) by force
    next
      case False
      then show ?thesis
        using "1.prems" "1.IH"(2) [OF Cons] Cons
        by (auto simp: string_token.simps [of w c "x # r"] split: if_splits)
    qed
  qed
qed

lemma parse_token_hd:
  assumes "parse_expr_token sp (c # r) = (Inr t, r')" "\<not> isempty c"
  shows "t \<noteq> [] \<and> hd t = c"
proof -
  have "string_token [c] c r = (Inr t, r') \<Longrightarrow> t \<noteq> [] \<and> hd t = c" using string_token_hd by fastforce
  moreover have "word_token sp c r = (Inr t, r') \<Longrightarrow> t \<noteq> [] \<and> hd t = c"
    by (auto simp: word_token_def Let_def split: if_splits)
  moreover have "date_quote_token r = (Inr t, r') \<Longrightarrow> t \<noteq> [] \<and> hd t = CHR 0x27"
    by (auto simp: date_quote_token_def Let_def split: if_splits)
  ultimately show ?thesis
    using assms by (auto simp: parse_expr_token_def split: if_splits)
qed

section \<open>Constants read back\<close>

lemma digits_val_mono: "list_all isdigit s \<Longrightarrow> 0 \<le> v \<Longrightarrow> v \<le> digits_val v s"
proof (induction s arbitrary: v)
  case (Cons c s)
  then have "0 \<le> ch c - 48" using isdigit_ch [of c] by simp
  then have "v \<le> v * 10 + (ch c - 48)" "0 \<le> v * 10 + (ch c - 48)" using Cons.prems(2) by simp_all
  with Cons.IH [OF _ this(2)] Cons.prems(1) show ?case by simp
qed simp

lemma hexval_digit: "isdigit c \<Longrightarrow> hexval c = ch c - 48"
  by (auto simp: hexval_def ch_def isdigit_def)

lemma read_number_digits:
  "list_all isdigit s \<Longrightarrow> \<not> starts isdigit r \<Longrightarrow> 0 \<le> v \<Longrightarrow> digits_val v s \<le> INT_MAX \<Longrightarrow>
   read_number 10 isdigit v (s @ r) = Some (digits_val v s, r)"
proof (induction s arbitrary: v)
  case Nil
  then show ?case by (cases r) auto
next
  case (Cons c s)
  let ?w = "v * 10 + (ch c - 48)"
  have c: "isdigit c" "0 \<le> ch c - 48" using Cons.prems(1) isdigit_ch [of c] by simp_all
  then have w: "0 \<le> ?w" "v \<le> ?w" using Cons.prems(3) by simp_all
  have "?w \<le> digits_val ?w s" using digits_val_mono [OF _ w(1)] Cons.prems(1) by simp
  then have le: "?w \<le> INT_MAX" using Cons.prems(4) by simp
  have "cint (cint (v * 10) + hexval c) = ?w"
    using w(1) le c by (simp add: hexval_digit cint_add cint_id in_int_def)
  then show ?case using c w Cons by simp
qed

lemma number_constant_digits:
  assumes "0 \<le> n" "n \<le> INT_MAX"
  shows "number_constant sp (fmt_int 0 n) = Inr (IntV n)"
proof -
  let ?s = "digits (nat n)"
  have s: "fmt_int 0 n = ?s" using assms by (simp add: fmt_int_def pad0_def)
  have d: "list_all isdigit ?s" "digits_val 0 ?s = n" using digits_value [of "nat n"] assms(1) by simp_all
  have "\<not> starts (\<lambda>c. c = CHR ''x'' \<or> c = CHR ''X'') (tl ?s)"
    using d(1) by (cases ?s; cases "tl ?s") (auto simp: isdigit_def)
  moreover have "read_number 10 isdigit 0 ?s = Some (n, [])"
    using read_number_digits [of ?s "[]" 0] d assms by simp
  ultimately show ?thesis by (simp add: number_constant_def s)
qed

lemma fmt_no_quote:
  assumes "config_ok vc"
  shows "CHR 0x27 \<notin> set (fmt_time vc t)" "CHR 0x27 \<notin> set (fmt_date vc d)" "CHR 0x27 \<notin> set (fmt_datetime vc m)"
proof -
  have "list_all isdigit s \<Longrightarrow> CHR 0x27 \<notin> set s" for s by (auto simp: list_all_iff isdigit_def)
  then have "CHR 0x27 \<notin> set (fmt_int w n)" for w n
    using pad0_value [of w "nat n"] pad0_value [of "w - 1" "nat (- n)"] by (simp add: fmt_int_def)
  then show "CHR 0x27 \<notin> set (fmt_time vc t)" "CHR 0x27 \<notin> set (fmt_date vc d)" "CHR 0x27 \<notin> set (fmt_datetime vc m)"
    using assms by (auto simp: fmt_time_def fmt_date_def fmt_datetime_def config_ok_def seps_ok_def split: prod.splits)
qed

lemma quote_follows: "\<not> isdigit (CHR 0x27)" "parse_ampm [CHR 0x27] = (None, [CHR 0x27])"
  by (simp_all add: isdigit_def parse_ampm_def)

text \<open>The token a constant is read as, and the value that token has.\<close>

definition value_token :: "value_config \<Rightarrow> Value \<Rightarrow> string" where
  "value_token vc v = (case v of StrV s \<Rightarrow> CHR 0x22 # s @ [CHR 0x22] | _ \<Rightarrow> show_value vc v)"

lemma set_constant_value_token:
  assumes "config_ok vc" "value_printable v" "\<not> (\<exists>n. v = IntV n \<and> n < 0)"
  shows "set_constant_value (vc_seps vc) (value_token vc v) = Inr v"
proof (cases v)
  case (IntV n)
  then have n: "0 \<le> n" "n \<le> INT_MAX" using assms by (auto simp: value_printable_def writable_def value_ok_def in_int_def)
  have "fmt_int 0 n \<noteq> []" "isdigit (hd (fmt_int 0 n))"
    using fmt_int_starts [OF n(1), of 0 "[]"] by (cases "fmt_int 0 n"; simp)+
  moreover then have "hd (fmt_int 0 n) \<noteq> CHR 0x22" "hd (fmt_int 0 n) \<noteq> CHR 0x27" by (auto simp: isdigit_def)
  ultimately show ?thesis
    using number_constant_digits [OF n] by (simp add: IntV value_token_def show_value_def set_constant_value_def)
next
  case (TimeV t)
  then have t: "0 \<le> t" "t < 1440" using assms by (auto simp: value_printable_def writable_def value_ok_def)
  let ?s = "fmt_time vc t @ [CHR 0x27]"
  have "ParseLiteralTime (vc_seps vc) ?s = Inr (t, [CHR 0x27])"
    using t by (intro fmt_time_read assms(1)) (simp_all add: quote_follows)
  moreover obtain h where "starts isdigit ?s" "parse_digits 0 ?s = (h, TimeSep (vc_seps vc) # fmt_int 2 (t mod 60) @ [CHR 0x27])"
  proof
    have s: "?s = fmt_int 2 (t div 60) @ TimeSep (vc_seps vc) # fmt_int 2 (t mod 60) @ [CHR 0x27]"
      using t by (simp add: fmt_time_def sdiv_nonneg smod_nonneg)
    show "starts isdigit ?s" "parse_digits 0 ?s = (t div 60, TimeSep (vc_seps vc) # fmt_int 2 (t mod 60) @ [CHR 0x27])"
      unfolding s using t sep_not_digit(1) [OF assms(1)] by (simp_all add: fmt_int_starts fmt_int_read)
  qed
  ultimately have "ParseLiteralDateOrTime (vc_seps vc) ?s = Inr (NO_DATE, t, [CHR 0x27])"
    by (simp add: ParseLiteralDateOrTime_def sep_not_digit [OF assms(1)])
  then show ?thesis
    using t by (simp add: TimeV value_token_def show_value_def set_constant_value_def date_constant_def)
next
  case (DateV d)
  then have d: "0 \<le> d" "d \<le> DSE 5990 11 31" using assms by (auto simp: value_printable_def writable_def value_ok_def)
  have "ParseLiteralDateOrTime (vc_seps vc) (fmt_date vc d @ [CHR 0x27]) = Inr (d, NO_TIME, [CHR 0x27])"
    using fmt_date_read [OF assms(1) d] by (simp add: quote_follows)
  then show ?thesis
    by (simp add: DateV value_token_def show_value_def set_constant_value_def date_constant_def)
next
  case (DateTimeV m)
  then have m: "0 \<le> m" "m \<le> 2147483647" "m div 1440 \<le> DSE 5990 11 31"
    using assms by (auto simp: value_printable_def writable_def value_ok_def)
  have tim: "ParseLiteralTime (vc_seps vc) (fmt_time vc (m mod 1440) @ [CHR 0x27]) = Inr (m mod 1440, [CHR 0x27])"
    by (intro fmt_time_read assms(1)) (simp_all add: quote_follows)
  have "DateTimeSep vc = CHR ''@'' \<or> DateTimeSep vc = CHR ''T''" "0 \<le> m div 1440"
    using assms(1) m(1) by (simp_all add: config_ok_def)
  then have "ParseLiteralDateOrTime (vc_seps vc) (fmt_datetime vc m @ [CHR 0x27]) = Inr (m div 1440, m mod 1440, [CHR 0x27])"
    using m tim fmt_date_read [OF assms(1), of "m div 1440" "DateTimeSep vc # fmt_time vc (m mod 1440) @ [CHR 0x27]"]
      sep_not_digit(3) [OF assms(1)]
    by (auto simp: fmt_datetime_def sdiv_nonneg smod_nonneg MINUTES_PER_DAY_def)
  moreover have "cint (cint (m div 1440 * 1440) + m mod 1440) = m" "m mod 1440 \<noteq> 2147483647" "m div 1440 \<noteq> -1"
    using m(1,2) pos_mod_bound [of 1440 m] by (simp_all add: cint_add cint_id in_int_def)
  ultimately show ?thesis
    by (simp add: DateTimeV value_token_def show_value_def set_constant_value_def date_constant_def MINUTES_PER_DAY_def)
next
  case (StrV s)
  then show ?thesis by (simp add: value_token_def set_constant_value_def string_constant_def)
qed

section \<open>Operands read back\<close>

text \<open>The trees that are one token, that token, and the rest of the text.\<close>

fun atomic :: "expr_node \<Rightarrow> bool" where
  "atomic (N_CONSTANT v) \<longleftrightarrow> \<not> (\<exists>n. v = IntV n \<and> n < 0)"
| "atomic (N_BUILTIN_FUNC f args) \<longleftrightarrow> False"
| "atomic (N_USER_FUNC s args) \<longleftrightarrow> False"
| "atomic (N_OPERATOR op args) \<longleftrightarrow> False"
| "atomic e \<longleftrightarrow> True"

definition atom_token :: "value_config \<Rightarrow> string list \<Rightarrow> expr_node \<Rightarrow> string" where
  "atom_token vc ls e = (case e of N_CONSTANT v \<Rightarrow> value_token vc v | _ \<Rightarrow> show_expr vc ls 7 e)"

definition env_ok :: "value_config \<Rightarrow> parse_env \<Rightarrow> bool" where
  "env_ok vc E \<longleftrightarrow> config_ok vc \<and> pe_seps E = vc_seps vc"

lemma env_okD: "env_ok vc E \<Longrightarrow> config_ok vc" "env_ok vc E \<Longrightarrow> pe_seps E = vc_seps vc" "env_ok vc E \<Longrightarrow> seps_ok (pe_seps E)"
  by (auto simp: env_ok_def config_ok_def)

lemma value_token_read:
  assumes "config_ok vc" "value_printable v" "\<not> (\<exists>n. v = IntV n \<and> n < 0)" "operand_ends r"
  shows "parse_expr_token (vc_seps vc) (show_value vc v @ r) = (Inr (value_token vc v), r)"
proof (cases v)
  case (IntV n)
  then have n: "0 \<le> n" using assms(3) by auto
  have "list_all isdigit (fmt_int 0 n)" using n digits_value by (simp add: fmt_int_def pad0_def)
  moreover have "fmt_int 0 n \<noteq> []" using fmt_int_starts [OF n, of 0 "[]"] by auto
  ultimately show ?thesis
    using parse_word [of "hd (fmt_int 0 n)" "vc_seps vc" "tl (fmt_int 0 n)" r] assms(1,4)
    by (cases "fmt_int 0 n")
      (auto simp: IntV show_value_def value_token_def config_ok_def ISID_def is_word_char_def list_all_iff)
qed (use parse_date [OF fmt_no_quote(1) [OF assms(1)]] parse_date [OF fmt_no_quote(2) [OF assms(1)]]
    parse_date [OF fmt_no_quote(3) [OF assms(1)]] parse_string in
  \<open>simp_all add: show_value_def value_token_def\<close>)

lemma atom_read:
  assumes "env_ok vc E" "printable E e" "atomic e" "operand_ends r"
  shows "parse_expr_token (pe_seps E) (show_expr vc (pe_locals E) p e @ r) = (Inr (atom_token vc (pe_locals E) e), r)"
    and "make_atom E (atom_token vc (pe_locals E) e) = Inr e"
proof -
  note env = env_okD [OF assms(1)]
  have id: "starts (\<lambda>c. isalpha c \<or> c = CHR ''_'') s" if "ident s" for s using that by (auto simp: ident_Cons)
  have "parse_expr_token (pe_seps E) (show_expr vc (pe_locals E) p e @ r) = (Inr (atom_token vc (pe_locals E) e), r)
    \<and> make_atom E (atom_token vc (pe_locals E) e) = Inr e"
  proof (cases e)
    case (N_CONSTANT v)
    let ?t = "value_token vc v"
    have v: "value_printable v" "\<not> (\<exists>n. v = IntV n \<and> n < 0)" using assms(2,3) N_CONSTANT by simp_all
    have c: "set_constant_value (vc_seps vc) ?t = Inr v" by (rule set_constant_value_token [OF env(1) v])
    have "\<not> isalpha (CHR 0x27)" "\<not> isalpha (CHR 0x22)" "\<And>c. isdigit c \<Longrightarrow> \<not> isalpha c \<and> c \<noteq> CHR ''_'' \<and> c \<noteq> CHR ''$''"
      by (auto simp: ctype_defs)
    moreover have "starts isdigit (fmt_int 0 n)" if "v = IntV n" for n
      using v(2) that fmt_int_starts [of n 0 "[]"] by auto
    ultimately have "\<not> starts (\<lambda>c. isalpha c \<or> c = CHR ''_'') ?t" "\<not> starts (\<lambda>c. c = CHR ''$'') ?t"
      by (cases v; fastforce simp: value_token_def show_value_def starts_def split: list.splits)+
    then show ?thesis
      using c value_token_read [OF env(1) v assms(4)]
      by (simp add: N_CONSTANT atom_token_def env(2) make_atom_def)
  next
    case (N_LOCAL_VAR i)
    then show ?thesis
      using assms(2) parse_ident [OF _ assms(4) env(3)] id by (simp add: atom_token_def make_atom_def)
  next
    case (N_VARIABLE s)
    then have "ident s" using assms(2) by simp
    moreover then have "StrnCpy s VAR_NAME_LEN = s" by (simp add: StrnCpy_def ident_def)
    ultimately show ?thesis
      using N_VARIABLE assms(2) parse_ident [OF _ assms(4) env(3)] id by (simp add: atom_token_def make_atom_def)
  next
    case (N_SYSVAR v)
    have "\<not> isalpha (CHR ''$'')" by (simp add: ctype_defs)
    moreover have "starts isalpha (sv_name v)" using assms(2) N_SYSVAR by (cases "sv_name v") simp_all
    ultimately show ?thesis
      using assms(2) N_SYSVAR parse_sysvar [OF _ _ _ assms(4) env(3)] by (simp add: atom_token_def make_atom_def)
  qed (use assms(3) in simp_all)
  then show "parse_expr_token (pe_seps E) (show_expr vc (pe_locals E) p e @ r) = (Inr (atom_token vc (pe_locals E) e), r)"
    "make_atom E (atom_token vc (pe_locals E) e) = Inr e" by simp_all
qed

text \<open>How the token of an operand looks: it is not mistaken for an operator or a call.\<close>

definition operand_token :: "string \<Rightarrow> bool" where
  "operand_token t \<longleftrightarrow> t \<noteq> [] \<and> (ISID (hd t) \<or> hd t \<in> {CHR ''$'', CHR 0x22, CHR 0x27}) \<and> last t \<noteq> CHR ''(''"

lemma operand_token_not: "operand_token t \<Longrightarrow> t \<notin> {''!'', ''-'', ''+''} \<and> t \<noteq> ''('' \<and> t \<noteq> '')'' \<and> t \<noteq> []"
  by (auto simp: operand_token_def ISID_def ctype_defs)

lemma ISID_last: "list_all ISID s \<Longrightarrow> s \<noteq> [] \<Longrightarrow> last s \<noteq> CHR ''(''"
  by (metis ISID_not last_in_set list_all_iff)

lemma ident_operand: "ident s \<Longrightarrow> operand_token s"
  using ISID_last [of s] by (cases s) (auto simp: operand_token_def ident_def simp del: last.simps)

lemma atom_token_operand:
  assumes "env_ok vc E" "printable E e" "atomic e"
  shows "operand_token (atom_token vc (pe_locals E) e)"
proof (cases e)
  case (N_CONSTANT v)
  have num: "operand_token (fmt_int 0 n)" if "0 \<le> n" for n
  proof -
    have "list_all isdigit (fmt_int 0 n)" using that digits_value by (simp add: fmt_int_def pad0_def)
    then have "list_all ISID (fmt_int 0 n)" by (auto simp: list_all_iff ISID_def)
    moreover have "fmt_int 0 n \<noteq> []" "ISID (hd (fmt_int 0 n))"
      using fmt_int_starts [OF that, of 0 "[]"] by (cases "fmt_int 0 n"; simp add: ISID_def)+
    ultimately show ?thesis using ISID_last by (simp add: operand_token_def)
  qed
  then show ?thesis
    using assms(3) N_CONSTANT
    by (cases v) (auto simp: atom_token_def value_token_def show_value_def operand_token_def not_less)
next
  case (N_LOCAL_VAR i)
  then show ?thesis
    using assms(2) ident_operand by (simp add: atom_token_def)
next
  case (N_VARIABLE s)
  then show ?thesis
    using assms(2) ident_operand by (simp add: atom_token_def)
next
  case (N_SYSVAR v)
  then show ?thesis
    using assms(2) ISID_last by (simp add: atom_token_def operand_token_def)
qed (use assms(3) in simp_all)

lemma op_text_ends: "op_prec op \<le> 6 \<Longrightarrow> operand_ends (op_text op @ r)"
  by (cases op rule: op_text.cases) (auto simp: operand_ends_def split: how.splits)

lemma other_ends: "operand_ends (CHR '')'' # r)" "operand_ends (CHR '','' # r)" "operand_ends []"
  by (simp_all add: operand_ends_def)

lemma neg_int: "n < 0 \<Longrightarrow> fmt_int 0 n = CHR ''-'' # fmt_int 0 (- n)"
  by (simp add: fmt_int_def pad0_def)

lemma parse_minus: "parse_expr_token sp (CHR ''-'' # r) = (Inr ''-'', r)"
  by (simp add: parse_expr_token_def isempty_def isspace_def single_char_def)

text \<open>The first character and the first token of an operand's text.\<close>

definition starter :: "char \<Rightarrow> bool" where
  "starter c \<longleftrightarrow> ISID c \<or> c \<in> set ''$(-!'' \<or> c = CHR 0x22 \<or> c = CHR 0x27"

lemma starter_not: "starter c \<Longrightarrow> c \<noteq> CHR ''='' \<and> c \<noteq> CHR '')'' \<and> \<not> isempty c"
  by (auto simp: starter_def ISID_def isempty_def ctype_defs)

lemma ident_starts: "ident s \<Longrightarrow> starts starter (s @ r)"
  by (auto simp: ident_Cons starter_def ISID_def)

lemma show_value_starts: "starts starter (show_value vc v @ r)"
proof (cases v)
  case (IntV n)
  have "starts isdigit (fmt_int 0 m @ r)" if "0 \<le> m" for m using fmt_int_starts [OF that] .
  then have "starts starter (fmt_int 0 m @ r)" if "0 \<le> m" for m
    using that by (fastforce simp: starts_def starter_def ISID_def split: list.splits)
  then show ?thesis by (cases "n < 0") (simp_all add: IntV show_value_def neg_int starter_def)
qed (simp_all add: show_value_def starter_def)

lemma starts_append: "starts P s \<Longrightarrow> starts P (s @ r)"
  by (cases s) simp_all

lemma show_starts: "printable E e \<Longrightarrow> ls = pe_locals E \<Longrightarrow> starts starter (show_expr vc ls p e @ r)"
proof (induction vc ls p e arbitrary: r rule: show_expr.induct)
  case (7 vc ls p op a)
  then show ?case by (cases op) (auto simp: starter_def split: if_splits)
next
  case (8 vc ls p op a b)
  then show ?case by (auto simp: parens_def starter_def)
qed (auto simp: show_value_starts ident_starts starter_def)

lemma show_token:
  "printable E e \<Longrightarrow> env_ok vc E \<Longrightarrow> ls = pe_locals E \<Longrightarrow> operand_ends r \<Longrightarrow>
    \<exists>t r'. parse_expr_token (pe_seps E) (show_expr vc ls p e @ r) = (Inr t, r')"
proof (induction vc ls p e arbitrary: r rule: show_expr.induct)
  case (1 vc ls p v)
  show ?case
  proof (cases "atomic (N_CONSTANT v)")
    case True
    show ?thesis using atom_read(1) [OF 1(2,1) True 1(4)] 1(3) by blast
  next
    case False
    then show ?thesis by (auto simp: show_value_def neg_int parse_minus)
  qed
next
  case (2 vc ls p i)
  show ?case using atom_read(1) [OF 2(2,1) _ 2(4)] 2(3) by fastforce
next
  case (3 vc ls p s)
  show ?case using atom_read(1) [OF 3(2,1) _ 3(4)] 3(3) by fastforce
next
  case (4 vc ls p v)
  show ?case using atom_read(1) [OF 4(2,1) _ 4(4)] 4(3) by fastforce
next
  case (5 vc ls p f args)
  then show ?case using parse_call [OF _ env_okD(3) [OF 5(3)], of "bf_name f"] by simp
next
  case (6 vc ls p s args)
  then show ?case using parse_call [OF _ env_okD(3) [OF 6(3)], of s] by simp
next
  case (7 vc ls p op a)
  have "\<not> starts (\<lambda>d. d = CHR ''='') (show_expr vc ls 7 a @ r)"
    using show_starts [of E a ls vc 7 r] 7 starter_not by (auto simp: starts_def split: list.splits)
  then show ?case using parse_op [of _ _ op] by simp
next
  case (8 vc ls p op a b)
  then show ?case using op_text_ends [of op] by (auto simp: parens_def parse_paren)
qed simp_all

lemma show_first_token:
  assumes "printable E e" "env_ok vc E" "operand_ends r"
  obtains t r' where "parse_expr_token (pe_seps E) (show_expr vc (pe_locals E) p e @ r) = (Inr t, r')" "t \<noteq> [] \<and> t \<noteq> '')''"
proof -
  obtain t r' where t: "parse_expr_token (pe_seps E) (show_expr vc (pe_locals E) p e @ r) = (Inr t, r')"
    using show_token [OF assms(1,2) refl assms(3)] by blast
  obtain c w where c: "show_expr vc (pe_locals E) p e @ r = c # w" "starter c"
    using show_starts [OF assms(1) refl, of vc p r] by (auto simp: starts_def split: list.splits)
  then have "t \<noteq> [] \<and> hd t = c" using parse_token_hd t starter_not by metis
  then have "t \<noteq> [] \<and> t \<noteq> '')''" using starter_not [OF c(2)] by auto
  then show ?thesis by (rule that [OF t])
qed

section \<open>The rules, numbered\<close>

definition rule_of :: "nat \<Rightarrow> rule" where
  "rule_of p = [EXPR, EXPR, OR_EXP, AND_EXP, EQ_EXP, CMP_EXP, TERM_EXP, FACTOR_EXP] ! p"

definition rule_ops :: "nat \<Rightarrow> string \<Rightarrow> oper option" where
  "rule_ops p t =
    (if p = 1 then if t = ''||'' then Some logical_or else None
     else if p = 2 then if t = ''&&'' then Some logical_and else None
     else if p = 3 then if t = ''=='' then Some (compare_op EQ)
       else if t = ''!='' then Some (compare_op NE) else None
     else if p = 4 then if t = ''<='' then Some (compare_op LE)
       else if t = ''>='' then Some (compare_op GE)
       else if t = ''<'' then Some (compare_op LT)
       else if t = ''>'' then Some (compare_op GT) else None
     else if p = 5 then if t = ''+'' then Some add_op
       else if t = ''-'' then Some subtract else None
     else if t = ''*'' then Some multiply
       else if t = ''/'' then Some divide_op
       else if t = ''%'' then Some do_mod else None)"

definition operand :: "nat \<Rightarrow> nat \<Rightarrow> parse_env \<Rightarrow> pst \<Rightarrow> expr_node parsing" where
  "operand p k E st =
    (if p = 6 then pbind (parse k FACTOR_EXP E st) (\<lambda>node st. pbind (PEEK_TOKEN E st) (\<lambda>_ st. (Inr node, st)))
     else parse k (rule_of (p + 1)) E st)"

lemma prec_cases: "1 \<le> (p::nat) \<Longrightarrow> p \<le> 6 \<Longrightarrow> p = 1 \<or> p = 2 \<or> p = 3 \<or> p = 4 \<or> p = 5 \<or> p = 6"
  by linarith

lemma parse_rule:
  "1 \<le> p \<Longrightarrow> p \<le> 6 \<Longrightarrow> parse (Suc k) (rule_of p) E st = binary_rule (rule_ops p) E (operand p k E) st"
proof -
  assume "1 \<le> p" "p \<le> 6"
  then have p: "p = 1 \<or> p = 2 \<or> p = 3 \<or> p = 4 \<or> p = 5 \<or> p = 6" by (rule prec_cases)
  have "operand p k E = (if p = 6 then (\<lambda>st. pbind (parse k FACTOR_EXP E st) (\<lambda>node st. pbind (PEEK_TOKEN E st) (\<lambda>_ st. (Inr node, st))))
      else parse k (rule_of (p + 1)) E)" for p
    by (rule ext) (simp add: operand_def)
  moreover have "rule_ops p = (\<lambda>t. rule_ops p t)" by simp
  ultimately show ?thesis using p
    by (elim disjE) (simp_all add: rule_of_def rule_ops_def [abs_def] rule_defs)
qed

declare parse.simps(2) [simp del]

lemma operand_shortens: "1 \<le> p \<Longrightarrow> p \<le> 6 \<Longrightarrow> shortens (operand p k E)"
proof -
  assume "1 \<le> p" "p \<le> 6"
  then have "rule_of (p + 1) \<noteq> FUNCTION_CALL" using prec_cases [of p] by (auto simp: rule_of_def)
  from parse_shortens(1) [OF this] peek_after_shortens [OF parse_shortens(1) [of FACTOR_EXP k E], of E]
  show ?thesis by (auto simp: operand_def shortens_def)
qed

lemma rule_ops_op:
  "op_prec op \<le> 6 \<Longrightarrow> 1 \<le> q \<Longrightarrow> q \<le> 6 \<Longrightarrow> rule_ops q (op_text op) = (if op_prec op = q then Some op else None)"
  using prec_cases [of q] by (cases op rule: op_text.cases) (auto simp: rule_ops_def split: how.splits)

lemma rule_ops_other [simp]: "rule_ops q [] = None" "rule_ops q '')'' = None" "rule_ops q '','' = None" "rule_ops q '']'' = None"
  by (simp_all add: rule_ops_def)

section \<open>Trees read back\<close>

text \<open>The token \<open>t\<close> is no operator of the rules after \<open>p\<close>.\<close>

definition ends_rule :: "nat \<Rightarrow> string \<Rightarrow> bool" where
  "ends_rule p t \<longleftrightarrow> (\<forall>q. p < q \<and> q \<le> 6 \<longrightarrow> rule_ops q t = None)"

text \<open>
  The text \<open>s\<close> is read as the tree \<open>e\<close>: as a factor, with \<open>k\<close> levels; or as an operand that the
  loop of rule \<open>p\<close> goes on from.
\<close>

definition reads_factor :: "parse_env \<Rightarrow> nat \<Rightarrow> expr_node \<Rightarrow> string \<Rightarrow> bool" where
  "reads_factor E k e s \<longleftrightarrow> (\<forall>r t r' b. operand_ends r \<longrightarrow> parse_expr_token (pe_seps E) r = (Inr t, r') \<longrightarrow>
     (\<exists>b'. parse k FACTOR_EXP E (s @ r, b) = (Inr e, r, b')))"

definition reads_rule :: "parse_env \<Rightarrow> nat \<Rightarrow> nat \<Rightarrow> expr_node \<Rightarrow> string \<Rightarrow> bool" where
  "reads_rule E p k e s \<longleftrightarrow> (\<forall>r t r' b. operand_ends r \<longrightarrow> parse_expr_token (pe_seps E) r = (Inr t, r') \<longrightarrow>
     ends_rule p t \<longrightarrow>
     parse (Suc k) (rule_of p) E (s @ r, b) = binary_loop (rule_ops p) E (operand p k E) e (r, t))"

definition reads_operand :: "parse_env \<Rightarrow> nat \<Rightarrow> nat \<Rightarrow> expr_node \<Rightarrow> string \<Rightarrow> bool" where
  "reads_operand E p k e s \<longleftrightarrow> (\<forall>r t r' b. operand_ends r \<longrightarrow> parse_expr_token (pe_seps E) r = (Inr t, r') \<longrightarrow>
     ends_rule p t \<longrightarrow> operand p k E (s @ r, b) = (Inr e, r, t))"

lemma PEEK_eq: "parse_expr_token (pe_seps E) s = (Inr t, r) \<Longrightarrow> PEEK_TOKEN E (s, b) = (Inr (), s, t)"
  by (simp add: PEEK_TOKEN_def)

lemma GET_eq: "parse_expr_token (pe_seps E) s = (Inr t, r) \<Longrightarrow> GET_TOKEN E (s, b) = (Inr (), r, t)"
  by (simp add: GET_TOKEN_def)

lemma reads_operand_factor: "reads_factor E k e s \<Longrightarrow> reads_operand E 6 k e s"
  unfolding reads_operand_def reads_factor_def
proof (intro allI impI)
  fix r t r' b
  assume *: "\<forall>r t r' b. operand_ends r \<longrightarrow> parse_expr_token (pe_seps E) r = (Inr t, r') \<longrightarrow>
     (\<exists>b'. parse k FACTOR_EXP E (s @ r, b) = (Inr e, r, b'))"
    and r: "operand_ends r" "parse_expr_token (pe_seps E) r = (Inr t, r')"
  then obtain b' where "parse k FACTOR_EXP E (s @ r, b) = (Inr e, r, b')" by blast
  then show "operand 6 k E (s @ r, b) = (Inr e, r, t)"
    using PEEK_eq [OF r(2)] by (simp add: operand_def)
qed

lemma reads_rule_operand:
  assumes "reads_rule E (p + 1) k e s" "1 \<le> p" "p \<le> 5"
  shows "reads_operand E p (Suc k) e s"
  unfolding reads_operand_def
proof (intro allI impI)
  fix r t r' b
  assume r: "operand_ends r" "parse_expr_token (pe_seps E) r = (Inr t, r')" "ends_rule p t"
  then have t: "ends_rule (p + 1) t" "rule_ops (p + 1) t = None" using assms(3) by (auto simp: ends_rule_def)
  have "operand p (Suc k) E (s @ r, b) = parse (Suc k) (rule_of (p + 1)) E (s @ r, b)"
    using assms(3) by (simp add: operand_def)
  also have "\<dots> = binary_loop (rule_ops (p + 1)) E (operand (p + 1) k E) e (r, t)"
    using assms(1) r t unfolding reads_rule_def by blast
  also have "\<dots> = (Inr e, r, t)" using t(2) by (simp add: binary_loop.simps)
  finally show "operand p (Suc k) E (s @ r, b) = (Inr e, r, t)" .
qed

lemma reads_operand_rule:
  assumes "reads_operand E p k e s" "1 \<le> p" "p \<le> 6"
  shows "reads_rule E p k e s"
  unfolding reads_rule_def
proof (intro allI impI)
  fix r t r' b
  assume "operand_ends r" "parse_expr_token (pe_seps E) r = (Inr t, r')" "ends_rule p t"
  then have "operand p k E (s @ r, b) = (Inr e, r, t)" using assms(1) unfolding reads_operand_def by blast
  then show "parse (Suc k) (rule_of p) E (s @ r, b) = binary_loop (rule_ops p) E (operand p k E) e (r, t)"
    using assms(2,3) by (simp add: parse_rule binary_rule_def)
qed

lemma reads_rule_down: "reads_rule E (p + 1) k e s \<Longrightarrow> 1 \<le> p \<Longrightarrow> p \<le> 5 \<Longrightarrow> reads_rule E p (Suc k) e s"
  by (rule reads_operand_rule [OF reads_rule_operand]) simp_all

lemma reads_rule_down_to:
  "reads_rule E (p + d) k e s \<Longrightarrow> 1 \<le> p \<Longrightarrow> p + d \<le> 6 \<Longrightarrow> reads_rule E p (k + d) e s"
proof (induction d arbitrary: k)
  case (Suc d)
  have "reads_rule E (p + d) (Suc k) e s" using Suc.prems reads_rule_down [of E "p + d" k e s] by simp
  from Suc.IH [OF this] Suc.prems show ?case by simp
qed simp

lemma reads_factor_rule:
  assumes "reads_factor E k e s" "1 \<le> p" "p \<le> 6"
  shows "reads_rule E p (k + (6 - p)) e s"
  using reads_rule_down_to [of E p "6 - p" k e s] reads_operand_rule [OF reads_operand_factor [OF assms(1)]] assms
  by simp

lemma reads_binary:
  assumes op: "op_prec op \<le> 6" and q: "q = op_prec op" "1 \<le> q"
    and a: "reads_rule E q k a sa" and b: "reads_operand E q k b sb"
    and start: "\<And>r. \<not> starts (\<lambda>d. d = CHR ''='') (sb @ r)"
  shows "reads_rule E q k (N_OPERATOR op [a, b]) (sa @ op_text op @ sb)"
  unfolding reads_rule_def
proof (intro allI impI)
  fix r t r' b'
  assume r: "operand_ends r" "parse_expr_token (pe_seps E) r = (Inr t, r')" "ends_rule q t"
  let ?r = "op_text op @ sb @ r"
  have tok: "parse_expr_token (pe_seps E) ?r = (Inr (op_text op), sb @ r)"
    using parse_op [of "sb @ r"] start by simp
  have "ends_rule q (op_text op)" using rule_ops_op [OF op] q unfolding ends_rule_def by auto
  then have "parse (Suc k) (rule_of q) E (sa @ ?r, b') = binary_loop (rule_ops q) E (operand q k E) a (?r, op_text op)"
    using a op_text_ends [OF op] tok unfolding reads_rule_def by blast
  also have "\<dots> = pbind (operand q k E (sb @ r, op_text op))
      (\<lambda>node2 st2. binary_loop (rule_ops q) E (operand q k E) (N_OPERATOR op [a, node2]) st2)"
    using rule_ops_op [OF op, of q] op q GET_eq [OF tok]
    by (subst binary_loop_rounds [OF operand_shortens]) simp_all
  also have "operand q k E (sb @ r, op_text op) = (Inr b, r, t)"
    using b r unfolding reads_operand_def by blast
  finally show "parse (Suc k) (rule_of q) E ((sa @ op_text op @ sb) @ r, b')
      = binary_loop (rule_ops q) E (operand q k E) (N_OPERATOR op [a, b]) (r, t)" by simp
qed

section \<open>Factors read back\<close>

lemma parse_Suc:
  "parse (Suc k) FACTOR_EXP E = parse_factor E (\<lambda>rl. parse k rl E)"
  "parse (Suc k) ATOM E = parse_atom E (\<lambda>rl. parse k rl E)"
  "parse (Suc k) FUNCTION_CALL E = parse_function_call E (\<lambda>rl. parse k rl E)"
  by (rule ext; simp add: parse.simps(2))+

lemma reads_factorI:
  "(\<And>r t r' b. operand_ends r \<Longrightarrow> parse_expr_token (pe_seps E) r = (Inr t, r') \<Longrightarrow>
     \<exists>b'. parse k FACTOR_EXP E (s @ r, b) = (Inr e, r, b')) \<Longrightarrow> reads_factor E k e s"
  by (simp add: reads_factor_def)

lemma parse_factor_atom:
  assumes "parse_expr_token (pe_seps E) s = (Inr t, r)" "t \<notin> {''!'', ''-'', ''+''}"
  shows "parse (Suc k) FACTOR_EXP E (s, b) = parse k ATOM E (s, t)"
  using assms(2) PEEK_eq [OF assms(1)] by (simp add: parse_Suc parse_factor_def)

lemma reads_atom:
  assumes "env_ok vc E" "printable E e" "atomic e"
  shows "reads_factor E (Suc (Suc k)) e (show_expr vc (pe_locals E) p e)"
proof (rule reads_factorI)
  fix r t r' b
  assume r: "operand_ends r"
  let ?s = "show_expr vc (pe_locals E) p e @ r" and ?t = "atom_token vc (pe_locals E) e"
  note tok = atom_read(1) [OF assms r, of p]
  have t: "operand_token ?t" by (rule atom_token_operand [OF assms])
  note not = operand_token_not [OF t]
  have "parse (Suc (Suc k)) FACTOR_EXP E (?s, b) = parse (Suc k) ATOM E (?s, ?t)"
    by (rule parse_factor_atom [OF tok]) (use not in blast)
  also have "\<dots> = (Inr e, r, ?t)"
    using t not PEEK_eq [OF tok] GET_eq [OF tok] atom_read(2) [OF assms r]
    by (simp add: parse_Suc parse_atom_def operand_token_def Let_def)
  finally show "\<exists>b'. parse (Suc (Suc k)) FACTOR_EXP E (?s, b) = (Inr e, r, b')" by blast
qed

lemma reads_prefix:
  assumes "reads_factor E k a s" and c: "c \<in> {CHR ''!'', CHR ''-''}"
    and tok: "\<And>r. parse_expr_token (pe_seps E) (c # s @ r) = (Inr [c], s @ r)"
  shows "reads_factor E (Suc k) (unary_node c a) (c # s)"
proof (rule reads_factorI)
  fix r t r' b
  assume "operand_ends r" "parse_expr_token (pe_seps E) r = (Inr t, r')"
  then obtain b' where "parse k FACTOR_EXP E (s @ r, [c]) = (Inr a, r, b')"
    using assms(1) unfolding reads_factor_def by blast
  then show "\<exists>b'. parse (Suc k) FACTOR_EXP E ((c # s) @ r, b) = (Inr (unary_node c a), r, b')"
    using PEEK_eq [OF tok] GET_eq [OF tok] c by (auto simp: parse_Suc parse_factor_def Let_def)
qed

lemma reads_unary:
  assumes "reads_factor E k a s" "\<not> is_int a" "op_prec op = 7" "\<And>r. \<not> starts (\<lambda>d. d = CHR ''='') (s @ r)"
  shows "reads_factor E (Suc k) (N_OPERATOR op [a]) (op_text op @ s)"
proof -
  have op: "op = logical_not \<or> op = unary_minus" using assms(3) by (cases op) (auto split: if_splits)
  have "unary_node (hd (op_text op)) a = N_OPERATOR op [a]"
    using op assms(2) by (auto simp: unary_node_def is_int_def split: expr_node.splits Value.splits)
  moreover have "parse_expr_token (pe_seps E) (op_text op @ s @ r) = (Inr (op_text op), s @ r)" for r
    using parse_op [of "s @ r"] assms(4) by simp
  ultimately show ?thesis using reads_prefix [OF assms(1), of "hd (op_text op)"] op by auto
qed

lemma reads_negative:
  assumes "env_ok vc E" "value_printable (IntV n)" "n < 0"
  shows "reads_factor E (Suc (Suc (Suc k))) (N_CONSTANT (IntV n)) (show_value vc (IntV n))"
proof -
  have "- n \<le> INT_MAX" "in_int n" using assms(2) by (auto simp: value_printable_def writable_def value_ok_def in_int_def)
  then have "value_printable (IntV (- n))" "cint n = n"
    using assms(3) by (auto simp: value_printable_def writable_def value_ok_def in_int_def cint_id)
  then have "reads_factor E (Suc (Suc k)) (N_CONSTANT (IntV (- n))) (fmt_int 0 (- n))"
    using reads_atom [OF assms(1), where e = "N_CONSTANT (IntV (- n))" and k = k and p = 7] assms(3) by (simp add: show_value_def)
  from reads_prefix [OF this, of "CHR ''-''"] show ?thesis
    using assms(3) \<open>cint n = n\<close> by (simp add: parse_minus unary_node_def show_value_def neg_int)
qed

lemma reads_rule_ends:
  assumes "reads_rule E 1 k e s" "operand_ends r" "parse_expr_token (pe_seps E) r = (Inr t, r')"
    and "\<And>q. rule_ops q t = None"
  shows "parse (Suc k) EXPR E (s @ r, b) = (Inr e, r, t)"
proof -
  have "parse (Suc k) (rule_of 1) E (s @ r, b) = binary_loop (rule_ops 1) E (operand 1 k E) e (r, t)"
    using assms unfolding reads_rule_def ends_rule_def by blast
  then show ?thesis using assms(4) by (simp add: rule_of_def binary_loop.simps)
qed

lemma reads_paren:
  assumes "reads_rule E 1 k e s"
  shows "reads_factor E (Suc (Suc (Suc k))) e (''('' @ s @ '')'')"
proof (rule reads_factorI)
  fix r t r' b
  let ?r = "CHR '')'' # r" and ?s = "CHR ''('' # s @ CHR '')'' # r"
  have tok: "parse_expr_token (pe_seps E) ?s = (Inr ''('', s @ ?r)" "parse_expr_token (pe_seps E) ?r = (Inr '')'', r)"
    by (simp_all add: parse_paren)
  have e: "parse (Suc k) EXPR E (s @ ?r, b) = (Inr e, ?r, '')'')" for b
    by (rule reads_rule_ends [OF assms other_ends(1) tok(2)]) simp
  have "parse (Suc (Suc (Suc k))) FACTOR_EXP E (?s, b) = parse (Suc (Suc k)) ATOM E (?s, ''('')"
    by (rule parse_factor_atom [OF tok(1)]) simp
  also have "\<dots> = (Inr e, r, '')'')"
    using PEEK_eq [OF tok(1)] GET_eq [OF tok(1)] e GET_eq [OF tok(2)] by (simp add: parse_Suc parse_atom_def)
  finally show "\<exists>b'. parse (Suc (Suc (Suc k))) FACTOR_EXP E ((''('' @ s @ '')'') @ r, b) = (Inr e, r, b')" by simp
qed

section \<open>Calls read back\<close>

lemma parse_args_commas:
  assumes "env_ok vc E"
  shows "\<forall>a \<in> set args. printable E a \<and> reads_rule E 1 k a (show_expr vc (pe_locals E) 1 a) \<Longrightarrow>
    (\<And>n. n \<le> length acc + length args \<Longrightarrow> \<not> too_many_args f n) \<Longrightarrow> b \<noteq> '')'' \<Longrightarrow>
    parse_args E f (parse (Suc k) EXPR E) acc
      (commas (map (show_expr vc (pe_locals E) 1) args) @ CHR '')'' # r, b) = (Inr (acc @ args), CHR '')'' # r, '')'')"
proof (induction args arbitrary: acc b)
  case Nil
  have "PEEK_TOKEN E (CHR '')'' # r, b) = (Inr (), CHR '')'' # r, '')'')" by (rule PEEK_eq) (rule parse_paren)
  then show ?case using Nil.prems(3) by (simp add: parse_args.simps)
next
  case (Cons a args)
  let ?show = "show_expr vc (pe_locals E) 1"
  let ?rest = "if args = [] then CHR '')'' # r else CHR '','' # commas (map ?show args) @ CHR '')'' # r"
  let ?s = "?show a @ ?rest"
  have a: "printable E a" "reads_rule E 1 k a (?show a)" using Cons.prems(1) by simp_all
  have s: "commas (map ?show (a # args)) @ CHR '')'' # r = ?s" by (cases args) simp_all
  have ends: "operand_ends ?rest" by (simp add: other_ends)
  obtain t t' where t: "parse_expr_token (pe_seps E) ?s = (Inr t, t')" "t \<noteq> [] \<and> t \<noteq> '')''"
    using show_first_token [OF a(1) assms ends] .
  obtain u u' where u: "parse_expr_token (pe_seps E) ?rest = (Inr u, u')" "u = (if args = [] then '')'' else '','')"
    by (cases "args = []") (simp_all add: parse_paren)
  have e: "parse (Suc k) EXPR E (?s, t) = (Inr a, ?rest, u)"
    by (rule reads_rule_ends [OF a(2) ends u(1)]) (simp add: u(2))
  have many: "\<not> too_many_args f (length acc + 1)" using Cons.prems(2) [of "length acc + 1"] by simp
  have sh: "shortens (parse (Suc k) EXPR E)" by (rule parse_shortens) simp
  have step: "parse_args E f (parse (Suc k) EXPR E) acc (?s, b) =
      pbind (parse_comma E (?rest, u)) (\<lambda>_ st2. parse_args E f (parse (Suc k) EXPR E) (acc @ [a]) st2)"
    using PEEK_eq [OF t(1)] t(2) e many Cons.prems(3) by (subst parse_args_rounds [OF sh]) simp
  show ?case
  proof (cases args)
    case args: Nil
    have "parse_comma E (CHR '')'' # r, '')'') = (Inr (), CHR '')'' # r, '')'')"
      using PEEK_eq [OF parse_paren(2)] by (simp add: parse_comma_def)
    moreover have "parse_args E f (parse (Suc k) EXPR E) (acc @ [a]) (CHR '')'' # r, '')'') = (Inr (acc @ [a]), CHR '')'' # r, '')'')"
      by (simp add: parse_args.simps)
    ultimately show ?thesis using step u(2) args unfolding s by simp
  next
    case args: (Cons a' args')
    let ?s' = "commas (map ?show args) @ CHR '')'' # r"
    let ?rest' = "if args' = [] then CHR '')'' # r else CHR '','' # commas (map ?show args') @ CHR '')'' # r"
    have ends': "operand_ends ?rest'" by (simp add: other_ends)
    have a': "printable E a'" using Cons.prems(1) args by simp
    obtain t2 t2' where "parse_expr_token (pe_seps E) (?show a' @ ?rest') = (Inr t2, t2')" "t2 \<noteq> [] \<and> t2 \<noteq> '')''"
      using show_first_token [OF a' assms ends'] .
    moreover have "?s' = ?show a' @ ?rest'" by (cases args') (simp_all add: args)
    ultimately have t2: "parse_expr_token (pe_seps E) ?s' = (Inr t2, t2')" "t2 \<noteq> [] \<and> t2 \<noteq> '')''" by simp_all
    have "parse_comma E (CHR '','' # ?s', '','') = (Inr (), ?s', t2)"
      using PEEK_eq [OF parse_paren(3)] GET_eq [OF parse_paren(3)] PEEK_eq [OF t2(1)] t2(2)
      by (simp add: parse_comma_def)
    moreover have "parse_args E f (parse (Suc k) EXPR E) (acc @ [a]) (?s', t2) = (Inr ((acc @ [a]) @ args), CHR '')'' # r, '')'')"
      using Cons.prems t2(2) by (intro Cons.IH) simp_all
    ultimately show ?thesis using step u(2) args unfolding s by simp
  qed
qed

lemma reads_call:
  assumes "env_ok vc E" "ident s"
    and "\<forall>a \<in> set args. printable E a \<and> reads_rule E 1 k a (show_expr vc (pe_locals E) 1 a)"
    and "\<And>n. n \<le> length args \<Longrightarrow> \<not> too_many_args (FindBuiltinFunc E s) n" "\<not> too_few_args (FindBuiltinFunc E s) (length args)"
  shows "reads_factor E (Suc (Suc (Suc (Suc k))))
    (case FindBuiltinFunc E s of
       Some b \<Rightarrow> N_BUILTIN_FUNC b args
     | None \<Rightarrow> N_USER_FUNC (strtolower (StrnCpy s VAR_NAME_LEN)) args)
    (s @ ''('' @ commas (map (show_expr vc (pe_locals E) 1) args) @ '')'')"
    (is "reads_factor E _ ?e ?text")
proof (rule reads_factorI)
  fix r t r' b
  let ?args = "commas (map (show_expr vc (pe_locals E) 1) args) @ CHR '')'' # r"
  let ?s = "s @ CHR ''('' # ?args" and ?t = "s @ ''(''"
  have tok: "parse_expr_token (pe_seps E) ?s = (Inr ?t, ?args)" by (rule parse_call [OF assms(2) env_okD(3) [OF assms(1)]])
  have t: "?t \<notin> {''!'', ''-'', ''+''}" "?t \<noteq> ''(''" "?t \<noteq> '')''" "ISID (hd ?t)"
    using assms(2) by (auto simp: ident_Cons ISID_def)
  have "parse (Suc (Suc (Suc (Suc k)))) FACTOR_EXP E (?s, b) = parse (Suc (Suc (Suc k))) ATOM E (?s, ?t)"
    by (rule parse_factor_atom [OF tok t(1)])
  also have "\<dots> = parse (Suc (Suc k)) FUNCTION_CALL E (?s, ?t)"
    using PEEK_eq [OF tok] t by (simp add: parse_Suc(2) parse_atom_def)
  also have "\<dots> = (Inr ?e, r, '')'')"
    using GET_eq [OF tok] parse_args_commas [OF assms(1,3), of "[]" "FindBuiltinFunc E s" ?t r] assms(4,5) t(3)
      GET_eq [OF parse_paren(2)]
    by (simp add: parse_Suc(3) parse_function_call_def Let_def)
  finally show "\<exists>b'. parse (Suc (Suc (Suc (Suc k)))) FACTOR_EXP E (?text @ r, b) = (Inr ?e, r, b')" by simp
qed

section \<open>All trees\<close>

lemma fold_max_ge: "(c::nat) \<le> fold (\<lambda>e. max (h e)) xs c"
  by (induction xs arbitrary: c) (auto intro: order_trans [OF max.cobounded2])

lemma height_arg: "a \<in> set args \<Longrightarrow> height a \<le> fold (\<lambda>e. max (height e)) args c"
proof (induction args arbitrary: c)
  case (Cons x args)
  then show ?case
    using fold_max_ge [of "max (height x) c" height args] by (cases "a = x") auto
qed simp

definition reads :: "value_config \<Rightarrow> parse_env \<Rightarrow> expr_node \<Rightarrow> bool" where
  "reads vc E e \<longleftrightarrow>
    (\<forall>k \<ge> 10 * height e + 1. reads_factor E k e (show_expr vc (pe_locals E) 7 e)) \<and>
    (\<forall>p k. 1 \<le> p \<longrightarrow> p \<le> 6 \<longrightarrow> 10 * height e + 7 \<le> k + p \<longrightarrow>
       reads_rule E p k e (show_expr vc (pe_locals E) p e))"

lemma reads_ruleD: "reads vc E e \<Longrightarrow> 1 \<le> p \<Longrightarrow> p \<le> 6 \<Longrightarrow> 10 * height e + 7 \<le> k + p \<Longrightarrow>
    reads_rule E p k e (show_expr vc (pe_locals E) p e)"
  by (simp add: reads_def)

lemma reads_operandD:
  assumes "reads vc E e" "1 \<le> p" "p \<le> 6" "10 * height e + 7 \<le> k + p"
  shows "reads_operand E p k e (show_expr vc (pe_locals E) (p + 1) e)"
proof (cases "p = 6")
  case True
  then have "reads_factor E k e (show_expr vc (pe_locals E) 7 e)" using assms by (simp add: reads_def)
  then show ?thesis using reads_operand_factor True by simp
next
  case False
  then obtain j where j: "k = Suc j" using assms by (cases k) auto
  then have "reads_rule E (p + 1) j e (show_expr vc (pe_locals E) (p + 1) e)"
    using False assms by (intro reads_ruleD) auto
  then show ?thesis using reads_rule_operand False assms(2,3) j by simp
qed

text \<open>A tree whose text does not depend on the rule, such as a call.\<close>

lemma readsI:
  assumes "\<And>k. 10 * height e + 1 \<le> k \<Longrightarrow> reads_factor E k e s"
    and "\<And>p. show_expr vc (pe_locals E) p e = s"
  shows "reads vc E e"
  unfolding reads_def assms(2)
proof (intro conjI allI impI assms(1))
  fix p k :: nat
  assume "1 \<le> p" "p \<le> 6" "10 * height e + 7 \<le> k + p"
  then have "10 * height e + 1 \<le> k - (6 - p)" "k = k - (6 - p) + (6 - p)" by linarith+
  then show "reads_rule E p k e s" using reads_factor_rule [OF assms(1)] \<open>1 \<le> p\<close> \<open>p \<le> 6\<close> by metis
qed

lemma reads_operator:
  assumes op: "op_prec op \<le> 6" and a: "reads vc E a" and b: "reads vc E b" "printable E b"
  shows "reads vc E (N_OPERATOR op [a, b])"
proof -
  let ?e = "N_OPERATOR op [a, b]" and ?q = "op_prec op"
  let ?U = "show_expr vc (pe_locals E) ?q a @ op_text op @ show_expr vc (pe_locals E) (?q + 1) b"
  have q: "1 \<le> ?q" by (cases op) auto
  have h: "height a + 1 \<le> height ?e" "height b + 1 \<le> height ?e" by auto
  have start: "\<not> starts (\<lambda>d. d = CHR ''='') (show_expr vc (pe_locals E) (?q + 1) b @ r)" for r
    using show_starts [OF b(2) refl, of vc "?q + 1" r] starter_not by (auto simp: starts_def split: list.splits)
  have U: "reads_rule E p k ?e ?U" if "1 \<le> p" "p \<le> ?q" "10 * height ?e \<le> k + p + 3" for p k
  proof -
    let ?j = "k - (?q - p)"
    have j: "10 * height a + 7 \<le> ?j + ?q" "10 * height b + 7 \<le> ?j + ?q" "k = ?j + (?q - p)"
      using that h op by linarith+
    have "reads_rule E ?q ?j ?e ?U"
      using reads_binary [OF op refl q reads_ruleD [OF a q op j(1)] reads_operandD [OF b(1) q op j(2)] start] .
    then show ?thesis using reads_rule_down_to [of E p "?q - p" ?j ?e ?U] that op j(3) by simp
  qed
  have paren: "reads_factor E k ?e (''('' @ ?U @ '')'')" if k: "10 * height ?e \<le> k + 1" for k
  proof -
    have "k = Suc (Suc (Suc (k - 3)))" "10 * height ?e \<le> (k - 3) + 1 + 3" using k h by linarith+
    then show ?thesis using reads_paren [OF U [of 1 "k - 3"]] q by simp
  qed
  show ?thesis
    unfolding reads_def
  proof (intro conjI allI impI)
    fix k assume "10 * height ?e + 1 \<le> k"
    then show "reads_factor E k ?e (show_expr vc (pe_locals E) 7 ?e)"
      using paren [of k] op by (simp add: parens_def del: height.simps)
  next
    fix p k :: nat assume p: "1 \<le> p" "p \<le> 6" "10 * height ?e + 7 \<le> k + p"
    show "reads_rule E p k ?e (show_expr vc (pe_locals E) p ?e)"
    proof (cases "p \<le> ?q")
      case True
      then show ?thesis using U [of p k] p by (simp add: parens_def del: height.simps)
    next
      case False
      have "10 * height ?e \<le> k - (6 - p) + 1" "k = k - (6 - p) + (6 - p)" using p by linarith+
      then show ?thesis
        using reads_factor_rule [OF paren [of "k - (6 - p)"], of p] p False
        by (simp add: parens_def del: height.simps)
    qed
  qed
qed

lemma reads_atomic:
  assumes "env_ok vc E" "printable E e" "atomic e"
  shows "reads vc E e"
proof (rule readsI)
  fix k assume "10 * height e + 1 \<le> k"
  moreover have "0 < height e" using assms(3) by (cases e) auto
  ultimately have "k = Suc (Suc (k - 2))" by linarith
  then show "reads_factor E k e (show_expr vc (pe_locals E) 7 e)"
    using reads_atom [OF assms, of "k - 2" 7] by simp
next
  show "show_expr vc (pe_locals E) p e = show_expr vc (pe_locals E) 7 e" for p
    using assms(3) by (cases e) auto
qed

lemma reads_call_node:
  assumes E: "env_ok vc E" "ident s" and args: "\<And>a. a \<in> set args \<Longrightarrow> printable E a \<and> reads vc E a"
    and many: "\<And>n. n \<le> length args \<Longrightarrow> \<not> too_many_args (FindBuiltinFunc E s) n"
      "\<not> too_few_args (FindBuiltinFunc E s) (length args)"
    and e: "e = (case FindBuiltinFunc E s of
       Some b \<Rightarrow> N_BUILTIN_FUNC b args
     | None \<Rightarrow> N_USER_FUNC (strtolower (StrnCpy s VAR_NAME_LEN)) args)"
    and shown: "\<And>p. show_expr vc (pe_locals E) p e
      = s @ ''('' @ commas (map (show_expr vc (pe_locals E) 1) args) @ '')''"
  shows "reads vc E e"
proof (rule readsI [OF _ shown])
  fix k assume k: "10 * height e + 1 \<le> k"
  have h: "height e = 1 + fold (\<lambda>e. max (height e)) args 0" by (simp add: e split: option.splits)
  have "printable E a \<and> reads_rule E 1 (k - 4) a (show_expr vc (pe_locals E) 1 a)" if "a \<in> set args" for a
    using args [OF that] height_arg [OF that, of 0] k h by (intro conjI reads_ruleD) auto
  then have "reads_factor E (Suc (Suc (Suc (Suc (k - 4))))) e
      (s @ ''('' @ commas (map (show_expr vc (pe_locals E) 1) args) @ '')'')"
    unfolding e by (intro reads_call E many) blast+
  moreover have "k = Suc (Suc (Suc (Suc (k - 4))))" using k h by linarith
  ultimately show "reads_factor E k e (s @ ''('' @ commas (map (show_expr vc (pe_locals E) 1) args) @ '')'')"
    by simp
qed

lemma reads_all:
  assumes "env_ok vc E"
  shows "printable E e \<Longrightarrow> reads vc E e"
proof (induction e)
  case (N_CONSTANT v)
  show ?case
  proof (cases "atomic (N_CONSTANT v)")
    case False
    then obtain n where n: "v = IntV n" "n < 0" by auto
    show ?thesis
    proof (rule readsI)
      fix k assume "10 * height (N_CONSTANT v) + 1 \<le> k"
      then have "k = Suc (Suc (Suc (k - 3)))" by simp
      then show "reads_factor E k (N_CONSTANT v) (show_value vc v)"
        using reads_negative [OF assms, of n "k - 3"] N_CONSTANT n by simp
    qed simp
  qed (rule reads_atomic [OF assms N_CONSTANT])
next
  case (N_BUILTIN_FUNC f args)
  have "FindBuiltinFunc E (bf_name f) = Some f" using N_BUILTIN_FUNC.prems by simp
  then show ?case
    using N_BUILTIN_FUNC
    by (intro reads_call_node [OF assms, of "bf_name f" args])
      (auto simp: list_all_iff too_many_args_def too_few_args_def)
next
  case (N_USER_FUNC s args)
  then show ?case
    by (intro reads_call_node [OF assms, of s args])
      (auto simp: list_all_iff too_many_args_def too_few_args_def ident_def StrnCpy_def)
next
  case (N_OPERATOR op args)
  consider (one) a where "args = [a]" | (two) a b where "args = [a, b]"
    using N_OPERATOR.prems by (cases args; cases "tl args"; cases "tl (tl args)"; fastforce)
  then show ?case
  proof cases
    case one
    have start: "\<not> starts (\<lambda>d. d = CHR ''='') (show_expr vc (pe_locals E) 7 a @ r)" for r
      using show_starts [of E a "pe_locals E" vc 7 r] N_OPERATOR.prems one starter_not
      by (auto simp: starts_def split: list.splits)
    show ?thesis
    proof (rule readsI)
      fix k assume "10 * height (N_OPERATOR op args) + 1 \<le> k"
      then have k: "k = Suc (k - 1)" "10 * height a + 1 \<le> k - 1" using one by simp_all
      have "reads vc E a" using N_OPERATOR one by simp
      then have "reads_factor E (k - 1) a (show_expr vc (pe_locals E) 7 a)" using k(2) by (simp add: reads_def)
      from reads_unary [OF this _ _ start] show "reads_factor E k (N_OPERATOR op args) (op_text op @ show_expr vc (pe_locals E) 7 a)"
        using N_OPERATOR.prems one k(1) by simp
    qed (simp add: one)
  next
    case two
    then show ?thesis using N_OPERATOR by (simp add: reads_operator)
  qed
qed (rule reads_atomic [OF assms]; simp)+

section \<open>Properties\<close>

text \<open>
  C6. Parsing undoes printing: the text of an expression tree, with only the parentheses that
  the precedence and left associativity of the operators call for, is parsed as that tree and
  read to its end, or to the bracket that closes it.
\<close>

theorem parse_expression_show:
  assumes "env_ok vc E" "printable E e" "10 * height e + 7 \<le> MAX_PARSE_LEVEL" "r = [] \<or> hd r = CHR '']''"
  shows "parse_expression E False high (show_expr vc (pe_locals E) 1 e @ r) = (Inr e, r, high)"
proof -
  let ?limit = "max MAX_PARSE_LEVEL high"
  have "reads_rule E 1 ?limit e (show_expr vc (pe_locals E) 1 e)"
    using reads_all [OF assms(1,2)] assms(3) by (intro reads_ruleD) auto
  moreover have r: "operand_ends r" using assms(4) by (auto simp: operand_ends_def)
  moreover obtain t r' where t: "parse_expr_token (pe_seps E) r = (Inr t, r')" "t = [] \<or> t = '']''"
    using assms(4) by (cases r) (auto simp: parse_expr_token_def isempty_def isspace_def single_char_def)
  ultimately have "parse (Suc ?limit) EXPR E (show_expr vc (pe_locals E) 1 e @ r, []) = (Inr e, r, t)"
    by (intro reads_rule_ends) auto
  moreover have "dropWhile isempty r = r"
    using dropWhile_operand_ends(1) [OF r env_okD(3) [OF assms(1)]] .
  ultimately show ?thesis using assms(4) by (auto simp: parse_expression_def)
qed

definition sample_env :: parse_env where
  "sample_env = \<lparr>pe_seps = default_seps, FindBuiltinFunc = (\<lambda>_. None), FindSysVar = (\<lambda>_. None), pe_locals = []\<rparr>"

definition sample_config :: value_config where
  "sample_config = \<lparr>vc_seps = default_seps, DateTimeSep = CHR ''@'', MaxStringLen = 65535\<rparr>"

lemma sample_env_ok: "env_ok sample_config sample_env" "config_ok sample_config"
  by (simp_all add: env_ok_def sample_config_def sample_env_def config_ok_def default_seps_def seps_ok_def)

lemma show_sample:
  "show_expr sample_config [] 1 (N_OPERATOR multiply [N_CONSTANT (IntV 2), N_OPERATOR subtract [N_VARIABLE ''x'', N_CONSTANT (IntV 1)]])
    = ''2*(x-1)''"
  by (simp add: show_value_def fmt_int_def pad0_def digits.simps digit_char_def parens_def char_of_eq_iff)

theorem parse_expression_show_witness:
  "parse_expression sample_env False 0 ''2*(x-1)'' =
    (Inr (N_OPERATOR multiply [N_CONSTANT (IntV 2), N_OPERATOR subtract [N_VARIABLE ''x'', N_CONSTANT (IntV 1)]]), [], 0)"
proof -
  let ?e = "N_OPERATOR multiply [N_CONSTANT (IntV 2), N_OPERATOR subtract [N_VARIABLE ''x'', N_CONSTANT (IntV 1)]]"
  have "ident ''x''" by (simp add: ident_def ISID_def ctype_defs VAR_NAME_LEN_def)
  then have "printable sample_env ?e"
    by (simp add: value_printable_def writable_def value_ok_def in_int_def sample_env_def)
  from parse_expression_show [OF sample_env_ok(1) this, of "[]" 0]
  show ?thesis by (simp add: MAX_PARSE_LEVEL_def show_sample [simplified] sample_env_def)
qed

end
