(* ===== verification/ExprTyped.thy ===== *)
theory ExprTyped
  imports ExprRun ExprShow
begin

text \<open>
  What the parser gives: trees that can be evaluated, and no internal error.  With it the interface
  \<open>eval_keeps\<close> is met by the model's own environment.
\<close>

section \<open>What the parser gives\<close>

definition sane :: "('a \<Rightarrow> bool) \<Rightarrow> 'a parsing \<Rightarrow> bool" where
  "sane P r \<longleftrightarrow> (case fst r of Inl e \<Rightarrow> e \<noteq> E_SWERR | Inr x \<Rightarrow> P x)"

lemma sane_simps [simp]: "sane P (Inl e, st) \<longleftrightarrow> e \<noteq> E_SWERR" "sane P (Inr x, st) \<longleftrightarrow> P x"
  by (simp_all add: sane_def)

lemma sane_pbind [intro]:
  assumes "sane Q r" "\<And>x st. r = (Inr x, st) \<Longrightarrow> Q x \<Longrightarrow> sane P (g x st)"
  shows "sane P (pbind r g)"
  using assms by (cases r; cases "fst r") auto

lemma sane_mono: "sane P r \<Longrightarrow> (\<And>x. P x \<Longrightarrow> Q x) \<Longrightarrow> sane Q r"
  by (auto simp: sane_def split: sum.splits)

subsection \<open>Tokens and constants\<close>

lemma string_token_error: "fst (string_token w c s) \<noteq> Inl E_SWERR"
proof (induction w c s rule: string_token.induct)
  case (1 w c s)
  show ?case
  proof (cases s)
    case Nil
    then show ?thesis by (simp add: string_token.simps [of w c "[]"])
  next
    case (Cons x r)
    show ?thesis
    proof (cases "x = CHR 0x5C \<and> r \<noteq> []")
      case True
      obtain e u where e: "expr_escape r = (e, u)" by (cases "expr_escape r")
      have "e \<noteq> Inl E_SWERR" using e by (auto simp: expr_escape_def Let_def split: if_splits)
      then show ?thesis using "1.IH"(1) [OF Cons _ _ e [symmetric]] True e Cons
        by (cases e) (simp_all add: string_token.simps [of w c "CHR 0x5C # r"])
    next
      case False
      then show ?thesis using "1.IH"(2) [OF Cons] Cons by (auto simp: string_token.simps [of w c "x # r"])
    qed
  qed
qed

lemma parse_expr_token_error: "fst (parse_expr_token sp s) \<noteq> Inl E_SWERR"
  using string_token_error
  by (auto simp: parse_expr_token_def word_token_def date_quote_token_def Let_def split: list.splits)

lemma sane_tokens [simp]: "sane (\<lambda>_. True) (PEEK_TOKEN E st)" "sane (\<lambda>_. True) (GET_TOKEN E st)"
  using parse_expr_token_error [of "pe_seps E" "fst st"]
  by (auto simp: PEEK_TOKEN_def GET_TOKEN_def split: prod.splits sum.splits)

lemma ParseLiteralTime_error: "ParseLiteralTime sp s = Inl e \<Longrightarrow> e \<noteq> E_SWERR"
  by (auto simp: ParseLiteralTime_def Let_def split: if_splits option.splits prod.splits)

lemma ParseLiteralDateOrTime_error: "ParseLiteralDateOrTime sp s = Inl e \<Longrightarrow> e \<noteq> E_SWERR"
  by (auto simp: ParseLiteralDateOrTime_def Let_def dest: ParseLiteralTime_error split: if_splits prod.splits sum.splits)

lemma constants_no_swerr [simp]:
  "no_swerr (date_constant sp s)" "no_swerr (number_constant sp s)" "no_swerr (string_constant s)"
  by (auto simp: date_constant_def number_constant_def hex_constant_def time_constant_def string_constant_def Let_def
      split: option.split prod.split sum.split dest: ParseLiteralDateOrTime_error ParseLiteralTime_error)

lemma set_constant_value_no_swerr: "no_swerr (set_constant_value sp s)"
  by (auto simp: set_constant_value_def)

subsection \<open>Trees\<close>

text \<open>The table of functions demands the arguments that the functions which evaluate them look for.\<close>

definition func_table_ok :: "parse_env \<Rightarrow> bool" where
  "func_table_ok E \<longleftrightarrow>
    (\<forall>s b k. FindBuiltinFunc E s = Some b \<longrightarrow> minargs b \<le> int k \<longrightarrow> new_args_ok (bf_name b) k)"

lemma find_local_less: "find_local s i vs = Some j \<Longrightarrow> i \<le> j \<and> j < i + length vs"
  by (induction s i vs rule: find_local.induct) (force split: if_splits)+

abbreviation any_value :: "Value \<Rightarrow> bool" where
  "any_value v \<equiv> True"

abbreviation node_ok :: "parse_env \<Rightarrow> expr_node \<Rightarrow> bool" where
  "node_ok E \<equiv> tree_ok any_value (length (pe_locals E))"

lemma make_atom_ok:
  "(case make_atom E s of Inl e \<Rightarrow> e \<noteq> E_SWERR | Inr node \<Rightarrow> node_ok E node)"
  using set_constant_value_no_swerr [of "pe_seps E" s]
  by (auto simp: make_atom_def no_swerr_def dest: find_local_less split: option.splits sum.splits)

lemma make_atom_error: "make_atom E s = Inl e \<Longrightarrow> e \<noteq> E_SWERR"
  and make_atom_tree: "make_atom E s = Inr node \<Longrightarrow> node_ok E node"
  using make_atom_ok [of E s] by simp_all

lemma binary_loop_sane:
  assumes "shortens opnd" "\<And>st. sane P (opnd st)"
    and op: "\<And>t opr a b. ops t = Some opr \<Longrightarrow> P a \<Longrightarrow> P b \<Longrightarrow> P (N_OPERATOR opr [a, b])"
  shows "P node \<Longrightarrow> sane P (binary_loop ops E opnd node st)"
proof (induction "length (fst st)" arbitrary: node st rule: less_induct)
  case less
  show ?case
  proof (cases "ops (snd st)")
    case None
    then show ?thesis using less.prems by (simp add: binary_loop_rounds [OF assms(1)])
  next
    case (Some opr)
    have "sane P (binary_loop ops E opnd (N_OPERATOR opr [node, n]) st2)"
      if "GET_TOKEN E st = (Inr u, st1)" "opnd st1 = (Inr n, st2)" "P n" for u st1 n st2
      using GET_TOKEN_le [OF that(1)] shortensD [OF assms(1) that(2)] less.prems op [OF Some] that(3)
      by (intro less.hyps) auto
    then show ?thesis using Some
      by (subst binary_loop_rounds [OF assms(1)]) (auto intro!: sane_pbind [OF sane_tokens(2)] sane_pbind [OF assms(2)])
  qed
qed

lemma binary_rule_sane:
  assumes "shortens opnd" "\<And>st. sane P (opnd st)"
    and "\<And>t opr a b. ops t = Some opr \<Longrightarrow> P a \<Longrightarrow> P b \<Longrightarrow> P (N_OPERATOR opr [a, b])"
  shows "sane P (binary_rule ops E opnd st)"
  unfolding binary_rule_def using binary_loop_sane [OF assms] by (intro sane_pbind [OF assms(2)]) auto

lemma parse_comma_sane: "sane (\<lambda>_. True) (parse_comma E st)"
  unfolding parse_comma_def by (rule sane_pbind [OF sane_tokens(1)]) (auto intro!: sane_pbind [OF sane_tokens(1)] sane_pbind [OF sane_tokens(2)])

lemma parse_args_sane:
  assumes "shortens expr" "\<And>st. sane P (expr st)"
  shows "list_all P args \<Longrightarrow> sane (list_all P) (parse_args E f expr args st)"
proof (induction "length (fst st)" arbitrary: args st rule: less_induct)
  case less
  have "sane (list_all P) (parse_args E f expr (args @ [a]) st3)"
    if "PEEK_TOKEN E st = (Inr u, st1)" "expr st1 = (Inr a, st2)" "P a" "parse_comma E st2 = (Inr v, st3)" for u st1 a st2 v st3
    using PEEK_TOKEN_OK [OF that(1)] shortensD [OF assms(1) that(2)] parse_comma_le [OF that(4)] less.prems that(3)
    by (intro less.hyps) auto
  then show ?case using less.prems
    by (subst parse_args_rounds [OF assms(1)])
      (auto intro!: sane_pbind [OF sane_tokens(1)] sane_pbind [OF assms(2)] sane_pbind [OF parse_comma_sane])
qed

lemma unary_node_ok: "tree_ok any_value n node \<Longrightarrow> tree_ok any_value n (unary_node op node)"
  by (auto simp: unary_node_def split: expr_node.splits Value.splits)

lemma parse_factor_sane:
  assumes "\<And>rl st. sane (node_ok E) (rec rl st)"
  shows "sane (node_ok E) (parse_factor E rec st)"
  unfolding parse_factor_def
  by (rule sane_pbind [OF sane_tokens(1)])
    (auto simp: Let_def intro!: sane_pbind [OF assms] unary_node_ok assms split: prod.split)

lemma parse_atom_sane:
  assumes "\<And>rl st. sane (node_ok E) (rec rl st)"
  shows "sane (node_ok E) (parse_atom E rec st)"
  unfolding parse_atom_def Let_def
  by (intro sane_pbind [OF sane_tokens(1)])
    (auto intro!: sane_pbind [OF sane_tokens(2)] sane_pbind [OF assms] assms dest: make_atom_error
      make_atom_tree split: sum.splits)

lemma parse_function_call_sane:
  assumes "func_table_ok E" "\<And>rl st. sane (node_ok E) (rec rl st)" "shortens (rec EXPR)"
  shows "sane (node_ok E) (parse_function_call E rec st)"
  unfolding parse_function_call_def Let_def
  by (intro sane_pbind [OF sane_tokens(2)] sane_pbind [OF parse_args_sane [OF assms(3,2)]])
    (use assms(1) in \<open>auto simp: too_few_args_def func_table_ok_def not_less intro!: sane_pbind [OF sane_tokens(2)]
      split: option.splits\<close>)

lemma parse_sane:
  assumes "func_table_ok E"
  shows "sane (node_ok E) (parse k rl E st)"
proof (induction k arbitrary: rl st)
  case (Suc k)
  have short: "rl \<noteq> FUNCTION_CALL \<Longrightarrow> shortens (parse k rl E)" for rl by (rule parse_shortens(1))
  have peek: "sane (node_ok E) (pbind (parse k FACTOR_EXP E st) (\<lambda>node st. pbind (PEEK_TOKEN E st) (\<lambda>_ st. (Inr node, st))))" for st
    by (rule sane_pbind [OF Suc.IH]) (auto intro!: sane_pbind [OF sane_tokens(1)])
  show ?case
    using Suc.IH short peek_after_shortens [OF short [of FACTOR_EXP]] peek
    by (cases rl)
      (auto simp: rule_defs Let_def intro!: binary_rule_sane parse_factor_sane parse_atom_sane
        parse_function_call_sane [OF assms] split: if_splits)
qed simp

lemma parse_expression_sane:
  assumes "func_table_ok E" "parse_expression E b high s = (r, t, high')"
  shows "r \<noteq> Inl E_SWERR \<and> (\<forall>node. r = Inr node \<longrightarrow> node_ok E node)"
proof (cases b)
  case False
  obtain r1 t1 u where 1: "parse (max MAX_PARSE_LEVEL high + 1) EXPR E (s, []) = (r1, t1, u)" by (metis surj_pair)
  have "sane (node_ok E) (r1, t1, u)" using parse_sane [OF assms(1), of _ EXPR "(s, [])"] 1 by metis
  then have "r1 \<noteq> Inl E_SWERR \<and> (\<forall>node. r1 = Inr node \<longrightarrow> node_ok E node)" by (cases r1) auto
  then show ?thesis using assms(2) False 1
    by (auto simp: parse_expression_def Let_def simp del: parse.simps split: if_splits sum.splits)
qed (use assms(2) in \<open>auto simp: parse_expression_def\<close>)

section \<open>The model meets the interface\<close>

lemma run_table_ok: "func_table_ok (run_parse_env R args)"
proof -
  have "list_all (\<lambda>b. \<forall>k. minargs b \<le> int k \<longrightarrow> new_args_ok (bf_name b) k) Func"
    by (simp add: Func_def entry_def new_args_ok_def)
  moreover have "b \<in> set Func" if "find_builtin_func s = Some b" for s b
    using that bsearch_sound [of "func_cmp s" 0 "int (length Func) - 1"] by (auto simp: find_builtin_func_def)
  ultimately show ?thesis by (auto simp: func_table_ok_def run_parse_env_def list_all_iff split: option.splits if_splits)
qed

text \<open>
  What an evaluation keeps: the limit on nodes, and the variables but for their marks of having been
  used.
\<close>

definition within_limit :: "'d run_env \<Rightarrow> 'w estate \<Rightarrow> bool" where
  "within_limit R s \<longleftrightarrow> re_node_limit R > 0 \<longrightarrow> nodes s \<le> re_node_limit R"

definition unmarked :: "(string \<Rightarrow> Var option) \<Rightarrow> string \<Rightarrow> Var option" where
  "unmarked g x = map_option (\<lambda>v. v\<lparr>used_since_set := False\<rparr>) (g x)"

text \<open>The built-in functions outside the model: no internal error, and they keep the same.\<close>

definition others_ok :: "'d run_env \<Rightarrow> bool" where
  "others_ok R \<longleftrightarrow>
    (\<forall>name vs s r nc s'. re_other R name vs s = ((r, nc), s') \<longrightarrow>
      r \<noteq> Inl E_SWERR \<and> unmarked (globals s') = unmarked (globals s) \<and> (within_limit R s \<longrightarrow> within_limit R s'))"

definition kept :: "'d run_env \<Rightarrow> (string \<Rightarrow> Var option) \<Rightarrow> 'd run_world estate \<Rightarrow> bool" where
  "kept R G s \<longleftrightarrow> others_ok R \<and> within_limit R s \<and> unmarked (globals s) = G"

lemma call_builtin_kept:
  assumes "kept R G s" "call_builtin F (re_other R) name args s = ((r, nc), s')"
  shows "kept R G s' \<and> r \<noteq> Inl E_SWERR"
proof (cases "map_of pure_funcs name")
  case (Some f)
  then have "no_swerr (f F args)" using map_of_SomeD [OF Some] pure_no_swerr by (auto simp: list_all_iff)
  then show ?thesis using assms Some by (auto simp: call_builtin_def no_swerr_def)
next
  case None
  show ?thesis
  proof (cases "map_of cache_funcs name")
    case cache: None
    then have "re_other R name args s = ((r, nc), s')" using assms(2) None by (simp add: call_builtin_def)
    moreover have "others_ok R" using assms(1) by (simp add: kept_def)
    ultimately have "r \<noteq> Inl E_SWERR \<and> unmarked (globals s') = unmarked (globals s) \<and> (within_limit R s \<longrightarrow> within_limit R s')"
      unfolding others_ok_def by blast
    then show ?thesis using assms(1) by (simp add: kept_def)
  next
    case (Some f)
    then have "no_swerr (fst (f F args (rw_cache (eworld s))))"
      using map_of_SomeD [OF Some] cache_no_swerr by (auto simp: list_all_iff)
    then show ?thesis using assms None Some
      by (auto simp: call_builtin_def no_swerr_def kept_def within_limit_def split: prod.splits)
  qed
qed

lemma eval_global_kept:
  "kept R G s \<Longrightarrow> eval_global str nc s = (r, nc', s') \<Longrightarrow> kept R G s'"
proof (cases "globals s (var_key str)")
  case (Some v)
  assume k: "kept R G s" and ev: "eval_global str nc s = (r, nc', s')"
  have "s' = s\<lparr>globals := (globals s)(var_key str \<mapsto> v\<lparr>used_since_set := True\<rparr>)\<rparr>"
    using ev Some by (simp add: eval_global_def)
  moreover have "unmarked ((globals s)(var_key str \<mapsto> v\<lparr>used_since_set := True\<rparr>)) = unmarked (globals s)"
    using Some by (simp add: unmarked_def fun_eq_iff)
  ultimately show ?thesis using k by (simp add: kept_def within_limit_def)
qed (simp add: eval_global_def)

interpretation remind: eval_keeps "remind_env R" any_value "kept R G" for R G
proof unfold_locales
  fix s str nc r nc' s'
  assume "kept R G s" "eval_global str nc s = (r, nc', s')"
  then show "kept R G s' \<and> (\<forall>v. r = Inr v \<longrightarrow> any_value v)" using eval_global_kept by simp
next
  fix s and x :: SysVar
  show "GetSysVar (remind_env R) x (eworld s) \<noteq> Inl E_SWERR \<and> (\<forall>v. GetSysVar (remind_env R) x (eworld s) = Inr v \<longrightarrow> any_value v)"
    using get_sysvar_no_swerr by (simp add: remind_env_def no_swerr_def)
next
  fix s vs fn r nc s'
  assume "kept R G s" "call_func (remind_env R) fn vs s = ((r, nc), s')"
  then show "kept R G s' \<and> r \<noteq> Inl E_SWERR \<and> (\<forall>v. r = Inr v \<longrightarrow> any_value v)"
    using call_builtin_kept by (simp add: remind_env_def)
next
  fix fname f
  assume "FindUserFunc (remind_env R) fname = Some f"
  then show "tree_ok any_value (uf_nargs f) (uf_node f)"
    using parse_expression_sane [OF run_table_ok]
    by (fastforce simp: remind_env_def user_func_def run_parse_env_def split: option.splits prod.splits sum.splits)
next
  fix e b high p t high'
  assume "parse_expression (ev_parse (remind_env R)) b high e = (p, t, high')"
  then show "p \<noteq> Inl E_SWERR \<and> (\<forall>node. p = Inr node \<longrightarrow> tree_ok any_value 0 node)"
    using parse_expression_sane [OF run_table_ok, of R "[]"] by (simp add: remind_env_def run_parse_env_def)
qed (auto simp: remind_env_def kept_def within_limit_def start_node_def count_node_def split: if_splits)

lemma remind_env_fields [simp]:
  "TimeLimit (remind_env R) = re_time_limit R" "alarm_ticks (remind_env R) = re_alarm R"
  "EvaluationDisabled (remind_env R) = re_disabled R"
  by (simp_all add: remind_env_def)

lemma run_parse_error: "parse_expression (ev_parse (remind_env R)) b high e = (Inl x, r) \<Longrightarrow> x \<noteq> E_SWERR"
  and run_parse_tree: "parse_expression (ev_parse (remind_env R)) b high e = (Inr node, r) \<Longrightarrow> tree_ok any_value 0 node"
  using remind.parsed [where ?R = R and ?e = e and ?b = b and ?high = high and ?t = "fst r" and ?high' = "snd r"]
  by fastforce+

section \<open>Properties\<close>

text \<open>
  C35.  Evaluating an expression is safe.  Whatever the text, evaluating it in the environment of a
  run, with its user functions, variables, system variables and limits, gives a value or an error of
  the language, never the internal error of a tree that cannot be evaluated; it stays within the
  limit on nodes, if there is one; and it changes no variable but for the marks of having been used.
  The hypothesis \<open>others_ok\<close> is that the built-in functions which the model does not have keep to
  the same: they give no internal error of their own, change no variable, and if they evaluate
  expressions themselves count the nodes.
\<close>

theorem EvaluateExpr_safe:
  assumes "others_ok R" "within_limit R s"
  shows "case EvaluateExpr (remind_env R) nested line nonconst s of (r, _, _, s') \<Rightarrow>
    r \<noteq> Inl E_SWERR \<and> within_limit R s' \<and> unmarked (globals s') = unmarked (globals s)"
proof -
  let ?G = "unmarked (globals s)"
  have s: "kept R ?G s" using assms by (simp add: kept_def)
  have high: "kept R ?G (s\<lparr>parse_high := h\<rparr>)" for h by (rule remind.marks(3) [OF s])
  obtain p t h where P: "ParseExpr (ev_parse (remind_env R)) (re_disabled R) nested (parse_high s) line = (p, t, h)"
    by (metis surj_pair)
  have p: "p \<noteq> Inl E_SWERR \<and> (\<forall>node. p = Inr node \<longrightarrow> tree_ok any_value 0 node)"
    using P by (auto simp: ParseExpr_def Let_def dest: run_parse_error run_parse_tree split: if_splits prod.splits sum.splits)
  show ?thesis
  proof (cases p)
    case (Inl e)
    then show ?thesis using P p high by (simp add: EvaluateExpr_def kept_def)
  next
    case (Inr node)
    let ?s = "s\<lparr>parse_high := h\<rparr>"
    define s1 where "s1 = (if re_time_limit R then ?s\<lparr>time_left := re_alarm R (nodes s)\<rparr> else ?s)"
    have "kept R ?G s1" using high by (simp add: s1_def kept_def within_limit_def)
    moreover obtain r nc s2 where ev: "evaluate_expr_node (remind_env R) 0 node [] False s1 = (r, nc, s2)" by (metis surj_pair)
    ultimately have k: "kept R ?G s2 \<and> r \<noteq> Inl E_SWERR"
      using remind.evaluation_keeps(1) [of "[]" node R ?G s1 "remind_env R" 0 False] p Inr by simp
    moreover have "kept R ?G (s2\<lparr>time_left := None\<rparr>)" using k by (simp add: kept_def within_limit_def)
    moreover have "evaluate_expression (remind_env R) 0 node [] False ?s =
        (r, nc, if re_time_limit R then s2\<lparr>time_left := None\<rparr> else s2)"
      using ev by (cases "re_time_limit R") (simp_all add: evaluate_expression_def s1_def)
    ultimately show ?thesis using P Inr
      by (cases r) (simp_all add: EvaluateExpr_def kept_def)
  qed
qed

definition sample_run :: "unit run_env" where
  "sample_run = \<lparr>re_funcs = \<lparr>fe_config = sample_config, fe_today = 13000, fe_months = (\<lambda>_. ''June''), fe_days = (\<lambda>_. ''Monday''),
     fe_utc = (\<lambda>d t. (d, t))\<rparr>, re_other = (\<lambda>name vs s. ((Inr (IntV 0), False), s)), re_fset = (\<lambda>_. None),
     re_sys = sample_sys_env, re_disabled = False, re_node_limit = 1000, re_time_limit = False, re_alarm = (\<lambda>_. None)\<rparr>"

definition sample_state :: "unit run_world estate" where
  "sample_state = \<lparr>globals = (\<lambda>_. None), nodes = 0, time_left = None, LastCatchError = None, RunDisabled = 0,
     parse_high = 0, eworld = \<lparr>rw_cache = cache_init, rw_sys = sample_sys_state\<rparr>\<rparr>"

theorem EvaluateExpr_safe_witness:
  "case EvaluateExpr (remind_env sample_run) False ''[choose(3, 1/0, 2, year($U))]'' False sample_state of (r, _, _, s') \<Rightarrow>
    r \<noteq> Inl E_SWERR \<and> within_limit sample_run s' \<and> unmarked (globals s') = unmarked (globals sample_state)"
  by (rule EvaluateExpr_safe) (auto simp: others_ok_def within_limit_def sample_run_def sample_state_def)

end
