(* ===== verification/Queue.thy ===== *)
theory Queue
  imports ExprTyped Trigger
begin

text \<open>
  Timed reminders that wait in the background, \<^verbatim>\<open>src/src/queue.c\<close>: when one is queued
  (\<open>ShouldQueueReminder\<close> of \<^verbatim>\<open>dorem.c\<close>), when it is issued next (\<open>CalculateNextDtime\<close>, with the
  user's scheduling function), and the loop that issues the queue until it is empty.  Each reading
  of the clock is an argument.
\<close>

unbundle bit_operations_syntax

section \<open>Calling the user's functions\<close>

definition RUN_CB :: int where "RUN_CB = 32"

definition EvalExpr :: "'w eval_env \<Rightarrow> string \<Rightarrow> 'w estate \<Rightarrow> (errcode + Value) \<times> bool \<times> string \<times> 'w estate" where
  "EvalExpr E e s =
    (case parse_expression (ev_parse E) (EvaluationDisabled E) (parse_high s) e of
       (Inl x, rest, high) \<Rightarrow> (Inl x, False, rest, s\<lparr>parse_high := high\<rparr>)
     | (Inr node, rest, high) \<Rightarrow>
         (case evaluate_expression E 0 node [] False (s\<lparr>parse_high := high\<rparr>) of
            (r, nonconst, s) \<Rightarrow> (r, nonconst, rest, s)))"

definition EvalExprRunDisabled ::
    "'w eval_env \<Rightarrow> string \<Rightarrow> 'w estate \<Rightarrow> (errcode + Value) \<times> bool \<times> string \<times> 'w estate" where
  "EvalExprRunDisabled E e s =
    (case EvalExpr E e (s\<lparr>RunDisabled := RunDisabled s OR RUN_CB\<rparr>) of
       (r, nonconst, rest, s') \<Rightarrow> (r, nonconst, rest, s'\<lparr>RunDisabled := RunDisabled s\<rparr>))"

definition user_func_exists :: "'w eval_env \<Rightarrow> string \<Rightarrow> int" where
  "user_func_exists E fn = (case FindUserFunc E fn of None \<Rightarrow> -1 | Some d \<Rightarrow> int (uf_nargs d))"

text \<open>The call \<open>name(n)\<close> as text, and its value.\<close>

definition call_text :: "string \<Rightarrow> int \<Rightarrow> string" where
  "call_text name n = name @ ''('' @ fmt_int 0 n @ '')''"

definition call_by_text :: "'w eval_env \<Rightarrow> bool \<Rightarrow> string \<Rightarrow> int \<Rightarrow> 'w estate \<Rightarrow> (errcode + Value) \<times> 'w estate" where
  "call_by_text E run_disabled name n s =
    (case (if run_disabled then EvalExprRunDisabled E (call_text name n) s else EvalExpr E (call_text name n) s) of
       (r, _, _, s) \<Rightarrow> (r, s))"

section \<open>Queued reminders\<close>

record QueuedRem =
  q_typ :: int
  q_RunDisabled :: int
  q_ntrig :: int
  q_dse :: int
  q_text :: string
  q_fname :: string
  q_lineno :: int
  q_lineno_start :: int
  q_passthru :: string
  q_sched :: string
  q_t :: Trigger
  q_tt :: TimeTrig
  q_red :: int
  q_green :: int
  q_blue :: int
  q_id :: int

abbreviation (input) NO_DATETIME :: int where "NO_DATETIME \<equiv> -1"

definition next_dtime :: "QueuedRem \<Rightarrow> int" where
  "next_dtime q = nextdtime (q_tt q)"

definition set_next_dtime :: "int \<Rightarrow> QueuedRem \<Rightarrow> QueuedRem" where
  "set_next_dtime n q = q\<lparr>q_tt := (q_tt q)\<lparr>nextdtime := n\<rparr>\<rparr>"

definition GetNextTime :: "QueuedRem \<Rightarrow> int" where
  "GetNextTime q = (if next_dtime q = NO_DATETIME then NO_TIME else next_dtime q smod MINUTES_PER_DAY)"

definition GetNextDate :: "QueuedRem \<Rightarrow> int" where
  "GetNextDate q = (if next_dtime q = NO_DATETIME then NO_DATE else next_dtime q sdiv MINUTES_PER_DAY)"

definition GetQDateTime :: "QueuedRem \<Rightarrow> int" where
  "GetQDateTime q = cint (q_dse q * MINUTES_PER_DAY + ttime (q_tt q))"

fun del_reminder :: "int \<Rightarrow> QueuedRem list \<Rightarrow> QueuedRem list" where
  "del_reminder n [] = []"
| "del_reminder n (q # qs) = (if q_id q = n then qs else q # del_reminder n qs)"

text \<open>
  The queue and the counter that names its reminders.  What the parser knows of the line is an
  argument: the default colour, the file and the lines, and the tag made from the line, when tags are
  synthesized.  \<open>mem\<close> says which of the three allocations succeed.
\<close>

record rem_queue =
  QueueHead :: "QueuedRem list"
  NumQueued :: int

record line_context =
  lc_red :: int
  lc_green :: int
  lc_blue :: int
  lc_fname :: string
  lc_lineno :: int
  lc_lineno_start :: int
  lc_tag :: "string option"
  lc_RunDisabled :: int

definition QueueReminder ::
    "(nat \<Rightarrow> bool) \<Rightarrow> line_context \<Rightarrow> string \<Rightarrow> Trigger \<Rightarrow> TimeTrig \<Rightarrow> string \<Rightarrow> int \<Rightarrow> rem_queue \<Rightarrow>
      errcode option \<times> rem_queue" where
  "QueueReminder mem L text trig tim sched dse Q =
    (if \<not> mem 0 \<or> \<not> mem 1 then (Some E_NO_MEM, Q)
     else if tz trig \<noteq> None \<and> \<not> mem 2 then (Some E_NO_MEM, Q\<lparr>NumQueued := cint (NumQueued Q + 1)\<rparr>)
     else
       let t = fold (\<lambda>i t. snd (AppendTrigInfo True t i)) (infos trig) (trig\<lparr>infos := []\<rparr>);
           t = (case lc_tag L of None \<Rightarrow> t | Some tag \<Rightarrow> t\<lparr>tags := AppendTag (tags t) tag\<rparr>);
           q = \<lparr>q_typ = trg_typ trig, q_RunDisabled = lc_RunDisabled L, q_ntrig = 0, q_dse = dse, q_text = text,
             q_fname = lc_fname L, q_lineno = lc_lineno L, q_lineno_start = lc_lineno_start L,
             q_passthru = passthru trig, q_sched = sched, q_t = t, q_tt = tim,
             q_red = lc_red L, q_green = lc_green L, q_blue = lc_blue L, q_id = NumQueued Q\<rparr>
       in (None, Q\<lparr>QueueHead := q # QueueHead Q, NumQueued := cint (NumQueued Q + 1)\<rparr>))"

subsection \<open>Which reminders are queued\<close>

definition ONLY_TODOS :: int where "ONLY_TODOS = 1"
definition ONLY_EVENTS :: int where "ONLY_EVENTS = 2"

definition todo_filtered :: "int \<Rightarrow> Trigger \<Rightarrow> bool" where
  "todo_filtered TodoFilter t \<longleftrightarrow>
    is_todo t \<and> TodoFilter = ONLY_EVENTS \<or> \<not> is_todo t \<and> TodoFilter = ONLY_TODOS"

text \<open>The options and dates that are read; \<open>qc_once\<close> is the date \<open>GetOnceDate\<close> gives.\<close>

record queue_config =
  DontQueue :: bool
  TodoFilter :: int
  IgnoreOnce :: bool
  qc_once :: int
  qc_today :: int
  RealToday :: int
  Daemon :: int
  MaxLateMinutes :: int

definition end_of_today :: "queue_config \<Rightarrow> int" where
  "end_of_today C = qc_today C * MINUTES_PER_DAY + MINUTES_PER_DAY - 1"

text \<open>Whether the scheduling function's first time is near; an error means it is not.\<close>

definition sched_near :: "queue_config \<Rightarrow> 'w eval_env \<Rightarrow> Trigger \<Rightarrow> TimeTrig \<Rightarrow> int \<Rightarrow> 'w estate \<Rightarrow> bool \<times> 'w estate" where
  "sched_near C E t tim dse s =
    (if trg_sched t \<noteq> [] \<and> user_func_exists E (trg_sched t) = 1
     then case call_by_text E (RunDisabled s \<noteq> 0) (trg_sched t) 1 s of
       (Inl e, s) \<Rightarrow> (False, s)
     | (Inr v, s) \<Rightarrow>
         let n = (case v of TimeV n \<Rightarrow> n | IntV n \<Rightarrow> n | _ \<Rightarrow> ttime tim)
         in (cint (dse * MINUTES_PER_DAY + n) \<le> end_of_today C, s)
     else (False, s))"

definition ShouldQueueReminder ::
    "queue_config \<Rightarrow> int \<Rightarrow> 'w eval_env \<Rightarrow> Trigger \<Rightarrow> TimeTrig \<Rightarrow> int \<Rightarrow> 'w estate \<Rightarrow> bool \<times> 'w estate" where
  "ShouldQueueReminder C now E t tim dse s =
    (if DontQueue C \<or> noqueue t \<or> ttime tim = NO_TIME \<or> trg_typ t = CAL_TYPE
         \<or> trg_typ t = RUN_TYPE \<and> RunDisabled s \<noteq> 0
         \<or> cint (dse * MINUTES_PER_DAY + ttime tim) < now
     then (False, s)
     else case sched_near C E t tim dse s of (near, s) \<Rightarrow>
       (if \<not> near \<and> cint (dse * MINUTES_PER_DAY + ttime tim - tt_delta tim) > end_of_today C then False
        else if todo_filtered (TodoFilter C) t then False
        else IgnoreOnce C \<or> once t = NO_ONCE \<or> qc_once C \<noteq> qc_today C, s))"

section \<open>The next time of a reminder\<close>

text \<open>The time a value of the scheduling function stands for; other types are an error.\<close>

definition sched_time :: "QueuedRem \<Rightarrow> int \<Rightarrow> Value \<Rightarrow> int option" where
  "sched_time q LastDTime v =
    (case v of
       TimeV n \<Rightarrow> Some (cint (q_dse q * MINUTES_PER_DAY + n))
     | IntV n \<Rightarrow> Some (cint ((if n > 0 \<and> LastDTime \<ge> 0 then LastDTime else GetQDateTime q) + n))
     | _ \<Rightarrow> None)"

lemma div_le_bound:
  assumes "(t::int) div k \<le> d" "0 < k"
  shows "t < (d + 1) * k"
proof -
  have "t div k * k \<le> d * k" using assms by (simp add: mult_right_mono)
  moreover have "(d + 1) * k = d * k + k" by (simp add: distrib_right)
  ultimately show ?thesis using div_mult_mod_eq [of t k] pos_mod_bound [OF assms(2), of t] by linarith
qed

lemma before_day_end:
  assumes "0 \<le> t" "t sdiv MINUTES_PER_DAY \<le> d"
  shows "t < (d + 1) * 1440"
  using assms by (intro div_le_bound) (simp_all add: MINUTES_PER_DAY_def sdiv_nonneg)

text \<open>
  The loop of \<open>CalculateNextDtimeUsingSched\<close>; \<open>now n\<close> is the clock when the function has been called
  with \<open>n\<close>.  Each time it goes on, the time is later, and it is never after the day of the reminder.
\<close>

function sched_loop :: "'w eval_env \<Rightarrow> (int \<Rightarrow> int) \<Rightarrow> QueuedRem \<Rightarrow> int \<Rightarrow> 'w estate \<Rightarrow> int \<times> QueuedRem \<times> 'w estate" where
  "sched_loop E now q LastDTime s =
    (case call_by_text E (q_RunDisabled q \<noteq> 0) (q_sched q) (q_ntrig q) s of
       (Inl e, s) \<Rightarrow> (NO_DATETIME, q\<lparr>q_sched := []\<rparr>, s)
     | (Inr v, s) \<Rightarrow>
         (case sched_time q LastDTime v of
            None \<Rightarrow> (NO_DATETIME, q\<lparr>q_sched := []\<rparr>, s)
          | Some t \<Rightarrow>
              let t = max 0 t in
              if t sdiv MINUTES_PER_DAY > q_dse q then (NO_DATETIME, q, s)
              else if t > next_dtime q \<and> t \<ge> now (q_ntrig q) then (t, q, s)
              else if t \<le> LastDTime then (NO_DATETIME, q\<lparr>q_sched := []\<rparr>, s)
              else sched_loop E now (q\<lparr>q_ntrig := cint (q_ntrig q + 1)\<rparr>) t s))"
  by pat_completeness auto

termination
proof (relation "measure (\<lambda>(E, now, q, LastDTime, s). nat ((q_dse q + 1) * 1440 - LastDTime))", simp, goal_cases)
  case (1 E now q LastDTime s x s1 v t0 t)
  then show ?case using before_day_end [of t "q_dse q"] by auto
qed

declare sched_loop.simps [simp del]

definition CalculateNextDtimeUsingSched ::
    "'w eval_env \<Rightarrow> (int \<Rightarrow> int) \<Rightarrow> QueuedRem \<Rightarrow> 'w estate \<Rightarrow> int \<times> QueuedRem \<times> 'w estate" where
  "CalculateNextDtimeUsingSched E now q s =
    (if user_func_exists E (q_sched q) \<noteq> 1 then (NO_DATETIME, q\<lparr>q_sched := []\<rparr>, s)
     else sched_loop E now q (next_dtime q) s)"

text \<open>The first of the times \<open>t\<close>, \<open>t + step\<close>, ... that is not before \<open>c\<close>.\<close>

definition advance :: "int \<Rightarrow> int \<Rightarrow> int \<Rightarrow> int" where
  "advance step c t =
    (let t = (if t < c then cint (t + cint (cint (c - t) sdiv step * step)) else t)
     in if t < c then cint (t + step) else t)"

definition at_time :: "int \<Rightarrow> int \<Rightarrow> QueuedRem \<Rightarrow> int" where
  "at_time now curdtime q =
    (let dtim = GetQDateTime q; delta = tt_delta (q_tt q)
     in if delta = NO_DELTA then (if dtim < curdtime then NO_DATETIME else dtim)
        else
          let step = (if tt_rep (q_tt q) = NO_REP then delta else tt_rep (q_tt q));
              t = advance step now (advance step curdtime (cint (dtim - delta)));
              t = min t dtim
          in if t < curdtime then NO_DATETIME else t)"

definition first_dtime :: "QueuedRem \<Rightarrow> int" where
  "first_dtime q =
    (if next_dtime q = NO_DATETIME then cint (GetQDateTime q - tt_delta (q_tt q)) else cint (next_dtime q + 1))"

definition CalculateNextDtime ::
    "'w eval_env \<Rightarrow> int \<Rightarrow> (int \<Rightarrow> int) \<Rightarrow> QueuedRem \<Rightarrow> 'w estate \<Rightarrow> int \<times> QueuedRem \<times> 'w estate" where
  "CalculateNextDtime E now clk q s =
    (let q = q\<lparr>q_ntrig := cint (q_ntrig q + 1)\<rparr> in
     case (if q_sched q \<noteq> [] then CalculateNextDtimeUsingSched E clk q s else (NO_DATETIME, q, s)) of
       (r, q, s) \<Rightarrow>
         if r \<noteq> NO_DATETIME then (r, q, s)
         else (at_time now (first_dtime q) q, q, s))"


section \<open>The loop over the queue\<close>

fun next_loop :: "nat \<Rightarrow> (nat \<times> QueuedRem) option \<Rightarrow> QueuedRem list \<Rightarrow> (nat \<times> QueuedRem) option" where
  "next_loop i ans [] = ans"
| "next_loop i ans (q # qs) =
    next_loop (i + 1)
      (if next_dtime q \<noteq> NO_DATETIME
       then (case ans of None \<Rightarrow> Some (i, q) | Some (j, a) \<Rightarrow> if next_dtime q < next_dtime a then Some (i, q) else ans)
       else ans) qs"

definition FindNextReminder :: "QueuedRem list \<Rightarrow> (nat \<times> QueuedRem) option" where
  "FindNextReminder qs = next_loop 0 None qs"

text \<open>
  The readings of the clock in one pass: seconds of the day, minutes since the first day, and those
  that the scheduling function is compared with.
\<close>

record reading =
  rd_secs :: int
  rd_now :: int
  rd_sched :: "int \<Rightarrow> int"
  rd_after :: int

definition SECONDS_PER_DAY :: int where "SECONDS_PER_DAY = 86400"

text \<open>How long the program sleeps before it looks again; 0 or less is no time.\<close>

definition TimeToSleep :: "queue_config \<Rightarrow> QueuedRem option \<Rightarrow> int \<Rightarrow> int" where
  "TimeToSleep C next secs =
    (case next of
       None \<Rightarrow> if Daemon C < 0 then SECONDS_PER_DAY - secs else 60 * Daemon C
     | Some q \<Rightarrow>
         if GetNextDate q = RealToday C then GetNextTime q * 60 - secs else SECONDS_PER_DAY - secs)"

text \<open>A reminder that is more than a minute late is not issued, unless it is the reminder itself.\<close>

definition still_due :: "queue_config \<Rightarrow> QueuedRem \<Rightarrow> int \<Rightarrow> bool" where
  "still_due C q secs \<longleftrightarrow>
    secs - GetNextTime q * 60 \<le> 60 \<or>
    GetNextTime q = ttime (q_tt q) \<and> GetNextDate q = RealToday C \<and>
      (MaxLateMinutes C = 0 \<or> secs - GetNextTime q * 60 \<le> 60 * MaxLateMinutes C)"

text \<open>
  What the program does when it wakes up; \<open>trigger\<close> is what issuing a reminder does to the state of
  expressions.  The log has the time that was due, the reminder, and whether it was issued.
\<close>

definition issue_next ::
    "queue_config \<Rightarrow> 'w eval_env \<Rightarrow> (QueuedRem \<Rightarrow> 'w estate \<Rightarrow> 'w estate) \<Rightarrow> reading \<Rightarrow> nat \<Rightarrow>
      QueuedRem list \<Rightarrow> 'w estate \<Rightarrow> (int \<times> int \<times> bool) \<times> QueuedRem list \<times> 'w estate" where
  "issue_next C E trigger rd i qs s =
    (let q = qs ! i;
         due = still_due C q (rd_secs rd);
         s = (if due then trigger q s else s)
     in case CalculateNextDtime E (rd_now rd) (rd_sched rd) q s of (t, q', s) \<Rightarrow>
       let expired = (t = NO_DATETIME \<or>
             GetQDateTime q' < rd_after rd - MaxLateMinutes C \<and> t < rd_after rd - MaxLateMinutes C);
           q' = set_next_dtime (if expired then NO_DATETIME else t) q';
           qs = qs[i := q']
       in ((next_dtime q, q_id q, due), if expired then del_reminder (q_id q') qs else qs, s))"

text \<open>A daemon in server mode also takes the command to delete a reminder.\<close>

datatype queue_event = Awake reading | DEL int

fun queue_step ::
    "queue_config \<Rightarrow> 'w eval_env \<Rightarrow> (QueuedRem \<Rightarrow> 'w estate \<Rightarrow> 'w estate) \<Rightarrow> queue_event \<Rightarrow>
      QueuedRem list \<times> 'w estate \<Rightarrow> (int \<times> int \<times> bool) list \<times> QueuedRem list \<times> 'w estate" where
  "queue_step C E trigger (DEL n) (qs, s) = ([], del_reminder n qs, s)"
| "queue_step C E trigger (Awake rd) (qs, s) =
    (case FindNextReminder qs of
       None \<Rightarrow> ([], qs, s)
     | Some (i, q) \<Rightarrow>
         if TimeToSleep C (Some q) (rd_secs rd) > 0 then ([], qs, s)
         else (case issue_next C E trigger rd i qs s of (x, r) \<Rightarrow> ([x], r)))"

fun run_queue ::
    "queue_config \<Rightarrow> 'w eval_env \<Rightarrow> (QueuedRem \<Rightarrow> 'w estate \<Rightarrow> 'w estate) \<Rightarrow> queue_event list \<Rightarrow>
      QueuedRem list \<times> 'w estate \<Rightarrow> (int \<times> int \<times> bool) list \<times> QueuedRem list \<times> 'w estate" where
  "run_queue C E trigger [] st = ([], st)"
| "run_queue C E trigger (e # es) st =
    (case queue_step C E trigger e st of (xs, st) \<Rightarrow>
       case run_queue C E trigger es st of (ys, st) \<Rightarrow> (xs @ ys, st))"

text \<open>The start: each reminder has its first time, or goes.\<close>

fun init_queue ::
    "queue_config \<Rightarrow> 'w eval_env \<Rightarrow> (int \<Rightarrow> reading) \<Rightarrow> QueuedRem list \<Rightarrow> 'w estate \<Rightarrow> QueuedRem list \<times> 'w estate" where
  "init_queue C E rd [] s = ([], s)"
| "init_queue C E rd (q # qs) s =
    (case CalculateNextDtime E (rd_now (rd (q_id q))) (rd_sched (rd (q_id q))) (set_next_dtime NO_DATETIME q) s of
       (t, q, s) \<Rightarrow>
         let drop_it = (t = NO_DATETIME \<or> Daemon C \<noteq> 0 \<and> t sdiv MINUTES_PER_DAY > qc_today C) in
         case init_queue C E rd qs s of (qs, s) \<Rightarrow>
           (if drop_it then qs else set_next_dtime t q # qs, s))"

definition HandleQueuedReminders ::
    "queue_config \<Rightarrow> 'w eval_env \<Rightarrow> (QueuedRem \<Rightarrow> 'w estate \<Rightarrow> 'w estate) \<Rightarrow> (int \<Rightarrow> reading) \<Rightarrow> queue_event list \<Rightarrow>
      QueuedRem list \<Rightarrow> 'w estate \<Rightarrow> (int \<times> int \<times> bool) list \<times> QueuedRem list \<times> 'w estate" where
  "HandleQueuedReminders C E trigger rd events qs s = run_queue C E trigger events (init_queue C E rd qs s)"

section \<open>Each time is later than the one before\<close>

definition same_reminder :: "QueuedRem \<Rightarrow> QueuedRem \<Rightarrow> bool" where
  "same_reminder q q' \<longleftrightarrow> q_dse q' = q_dse q \<and> q_tt q' = q_tt q \<and> q_id q' = q_id q"

definition day_end :: "QueuedRem \<Rightarrow> int" where
  "day_end q = (q_dse q + 1) * 1440"

lemma next_dtime_simps [simp]:
  "next_dtime (set_next_dtime n q) = n" "q_dse (set_next_dtime n q) = q_dse q" "q_id (set_next_dtime n q) = q_id q"
  "day_end (set_next_dtime n q) = day_end q" "GetQDateTime (set_next_dtime n q) = GetQDateTime q"
  "ttime (q_tt (set_next_dtime n q)) = ttime (q_tt q)"
  by (simp_all add: next_dtime_def set_next_dtime_def day_end_def GetQDateTime_def)

lemma same_reminder_simps [simp]:
  "same_reminder q (q'\<lparr>q_sched := x\<rparr>) = same_reminder q q'" "same_reminder (q\<lparr>q_ntrig := n\<rparr>) q' = same_reminder q q'" "same_reminder q (q'\<lparr>q_ntrig := n\<rparr>) = same_reminder q q'"
  "next_dtime (q\<lparr>q_ntrig := n\<rparr>) = next_dtime q" "same_reminder q q"
  "first_dtime (q\<lparr>q_ntrig := n\<rparr>) = first_dtime q" "day_end (q\<lparr>q_ntrig := n\<rparr>) = day_end q"
  by (simp_all add: same_reminder_def next_dtime_def first_dtime_def GetQDateTime_def day_end_def)

lemma same_reminderD:
  "same_reminder q q' \<Longrightarrow> q_dse q' = q_dse q \<and> q_tt q' = q_tt q \<and> q_id q' = q_id q \<and> next_dtime q' = next_dtime q \<and>
    day_end q' = day_end q \<and> GetQDateTime q' = GetQDateTime q \<and> first_dtime q' = first_dtime q"
  by (simp add: same_reminder_def next_dtime_def day_end_def GetQDateTime_def first_dtime_def)

lemma same_reminder_trans: "same_reminder p q \<Longrightarrow> same_reminder q r \<Longrightarrow> same_reminder p r"
  by (simp add: same_reminder_def)

lemma sched_loop_later:
  "sched_loop E now q prev s = (t, q', s') \<Longrightarrow>
    same_reminder q q' \<and> (t = NO_DATETIME \<or> next_dtime q < t \<and> 0 \<le> t \<and> t < day_end q)"
proof (induction E now q prev s rule: sched_loop.induct)
  case (1 E now q prev s)
  obtain r s1 where c: "call_by_text E (q_RunDisabled q \<noteq> 0) (q_sched q) (q_ntrig q) s = (r, s1)" by (metis surj_pair)
  show ?case
  proof (cases r)
    case (Inl e)
    then show ?thesis using "1.prems" c by (subst (asm) sched_loop.simps) auto
  next
    case (Inr v)
    show ?thesis
    proof (cases "sched_time q prev v")
      case None
      then show ?thesis using "1.prems" c Inr by (subst (asm) sched_loop.simps) auto
    next
      case (Some t0)
      note IH = "1.IH" [OF c [symmetric] Inr Some refl]
      have "max 0 t0 sdiv MINUTES_PER_DAY \<le> q_dse q \<Longrightarrow> max 0 t0 < day_end q"
        unfolding day_end_def by (rule before_day_end) simp_all
      then show ?thesis
        using "1.prems" c Inr Some IH
        by (subst (asm) sched_loop.simps) (auto simp: Let_def split: if_splits)
    qed
  qed
qed

lemma at_time_range: "at_time now c q = t \<Longrightarrow> t = NO_DATETIME \<or> c \<le> t \<and> t \<le> GetQDateTime q"
  by (auto simp: at_time_def Let_def split: if_splits)

text \<open>A reminder whose date and time are ones of the calendar.\<close>

definition timed_ok :: "QueuedRem \<Rightarrow> bool" where
  "timed_ok q \<longleftrightarrow> 0 \<le> q_dse q \<and> q_dse q \<le> 1461400 \<and> 0 \<le> ttime (q_tt q) \<and> ttime (q_tt q) < 1440"

lemma timed_ok_simps [simp]:
  "timed_ok (set_next_dtime n q) = timed_ok q" "timed_ok (q\<lparr>q_ntrig := n\<rparr>) = timed_ok q"
  by (simp_all add: timed_ok_def set_next_dtime_def)

lemma timed_ok_same: "same_reminder q q' \<Longrightarrow> timed_ok q' = timed_ok q"
  by (simp add: same_reminder_def timed_ok_def)

lemma timed_ok_GetQDateTime:
  "timed_ok q \<Longrightarrow> GetQDateTime q = q_dse q * 1440 + ttime (q_tt q) \<and> 0 \<le> GetQDateTime q \<and> GetQDateTime q < day_end q \<and> day_end q \<le> 2104417440"
  by (simp add: timed_ok_def GetQDateTime_def MINUTES_PER_DAY_def day_end_def cint_id in_int_def)

lemma CalculateNextDtime_later:
  assumes c: "CalculateNextDtime E now clk q s = (t, q', s')" and ok: "timed_ok q"
  shows "same_reminder q q' \<and> (t = NO_DATETIME \<or> min 0 (first_dtime q) \<le> t \<and> t < day_end q \<and> (INT_MIN \<le> next_dtime q \<longrightarrow> next_dtime q < day_end q \<longrightarrow> next_dtime q \<noteq> NO_DATETIME \<longrightarrow> next_dtime q < t))"
proof -
  let ?q = "q\<lparr>q_ntrig := cint (q_ntrig q + 1)\<rparr>"
  have first: "first_dtime q = next_dtime q + 1"
    if "INT_MIN \<le> next_dtime q" "next_dtime q < day_end q" "next_dtime q \<noteq> NO_DATETIME"
    using that timed_ok_GetQDateTime [OF ok] by (simp add: first_dtime_def cint_id in_int_def)
  obtain r q1 s1 where u: "(if q_sched ?q \<noteq> [] then CalculateNextDtimeUsingSched E clk ?q s else (NO_DATETIME, ?q, s)) = (r, q1, s1)"
    by (metis surj_pair)
  then have "same_reminder ?q q1 \<and> (r = NO_DATETIME \<or> next_dtime ?q < r \<and> 0 \<le> r \<and> r < day_end ?q)"
    by (auto simp: CalculateNextDtimeUsingSched_def split: if_splits dest: sched_loop_later)
  then have r: "same_reminder q q1 \<and> (r = NO_DATETIME \<or> next_dtime q < r \<and> 0 \<le> r \<and> r < day_end q)"
    by simp
  show ?thesis
  proof (cases "r = NO_DATETIME")
    case True
    then have t: "at_time now (first_dtime q) q1 = t" "q' = q1"
      using c u same_reminderD [of q q1] r True by (auto simp: CalculateNextDtime_def Let_def)
    show ?thesis
      using at_time_range [OF t(1)] t(2) r first same_reminderD [of q q1] timed_ok_GetQDateTime [OF ok] by auto
  next
    case False
    then show ?thesis using c u r by (auto simp: CalculateNextDtime_def Let_def)
  qed
qed


section \<open>The queue empties, in order\<close>

definition queue_inv :: "QueuedRem list \<Rightarrow> bool" where
  "queue_inv qs \<longleftrightarrow> distinct (map q_id qs) \<and>
    (\<forall>q\<in>set qs. timed_ok q \<and> INT_MIN \<le> next_dtime q \<and> next_dtime q < day_end q \<and> next_dtime q \<noteq> NO_DATETIME)"

text \<open>The minutes that are left, for each reminder until the end of its day.\<close>

definition queue_work :: "QueuedRem list \<Rightarrow> nat" where
  "queue_work qs = sum_list (map (\<lambda>q. nat (day_end q - next_dtime q)) qs)"

lemma next_loop_spec:
  "next_loop i ans qs = Some (k, q) \<Longrightarrow>
    (ans = Some (k, q) \<or> (\<exists>j < length qs. k = i + j \<and> qs ! j = q \<and> next_dtime q \<noteq> NO_DATETIME)) \<and>
    (\<forall>p\<in>set qs. next_dtime p \<noteq> NO_DATETIME \<longrightarrow> next_dtime q \<le> next_dtime p) \<and>
    (\<forall>a. ans = Some a \<longrightarrow> next_dtime q \<le> next_dtime (snd a))"
proof (induction qs arbitrary: i ans)
  case (Cons p qs)
  let ?ans = "if next_dtime p \<noteq> NO_DATETIME
       then (case ans of None \<Rightarrow> Some (i, p) | Some (j, a) \<Rightarrow> if next_dtime p < next_dtime a then Some (i, p) else ans)
       else ans"
  from Cons.prems have "next_loop (i + 1) ?ans qs = Some (k, q)" by simp
  note IH = Cons.IH [OF this]
  have "next_dtime q \<le> next_dtime p" if "next_dtime p \<noteq> NO_DATETIME"
    using IH that by (auto split: option.splits if_splits)
  moreover have "\<forall>a. ans = Some a \<longrightarrow> next_dtime q \<le> next_dtime (snd a)"
    using IH by (auto split: option.splits if_splits)
  moreover have "ans = Some (k, q) \<or> (\<exists>j < length (p # qs). k = i + j \<and> (p # qs) ! j = q \<and> next_dtime q \<noteq> NO_DATETIME)"
    using conjunct1 [OF IH]
  proof
    assume "?ans = Some (k, q)"
    then have "ans = Some (k, q) \<or> k = i \<and> p = q \<and> next_dtime q \<noteq> NO_DATETIME" by (auto split: option.splits if_splits)
    then show ?thesis by (auto intro!: exI [of _ 0])
  next
    assume "\<exists>j < length qs. k = i + 1 + j \<and> qs ! j = q \<and> next_dtime q \<noteq> NO_DATETIME"
    then obtain j where "j < length qs" "k = i + 1 + j" "qs ! j = q" "next_dtime q \<noteq> NO_DATETIME" by blast
    then show ?thesis by (intro disjI2 exI [of _ "Suc j"]) simp
  qed
  ultimately show ?case using IH by auto
qed simp

lemma FindNextReminder_spec:
  assumes "FindNextReminder qs = Some (i, q)"
  shows "i < length qs \<and> qs ! i = q \<and> next_dtime q \<noteq> NO_DATETIME \<and>
    (\<forall>p\<in>set qs. next_dtime p \<noteq> NO_DATETIME \<longrightarrow> next_dtime q \<le> next_dtime p)"
  using next_loop_spec [of 0 None qs i q] assms by (auto simp: FindNextReminder_def)

lemma del_reminder_ids: "map q_id (del_reminder n qs) = remove1 n (map q_id qs)"
  by (induction qs) auto

lemma del_reminder_subset: "set (del_reminder n qs) \<subseteq> set qs"
  by (induction qs) auto

lemma del_reminder_inv: "queue_inv qs \<Longrightarrow> queue_inv (del_reminder n qs)"
  using del_reminder_subset [of n qs] by (auto simp: queue_inv_def del_reminder_ids)

lemma del_reminder_work: "queue_work (del_reminder n qs) \<le> queue_work qs"
  by (induction qs) (auto simp: queue_work_def)

lemma del_reminder_update:
  "distinct (map q_id qs) \<Longrightarrow> i < length qs \<Longrightarrow> q_id x = q_id (qs ! i) \<Longrightarrow>
    del_reminder (q_id (qs ! i)) (qs[i := x]) = del_reminder (q_id (qs ! i)) qs"
proof (induction qs arbitrary: i)
  case (Cons p qs)
  then show ?case
  proof (cases i)
    case (Suc j)
    then have "q_id p \<noteq> q_id (qs ! j)" using Cons.prems by (metis length_Cons Suc_less_eq distinct.simps(2) image_eqI list.simps(9) nth_mem set_map)
    then show ?thesis using Cons Suc by simp
  qed simp
qed simp

lemma del_reminder_nth_work:
  "distinct (map q_id qs) \<Longrightarrow> i < length qs \<Longrightarrow>
    queue_work (del_reminder (q_id (qs ! i)) qs) + nat (day_end (qs ! i) - next_dtime (qs ! i)) = queue_work qs"
proof (induction qs arbitrary: i)
  case (Cons p qs)
  show ?case
  proof (cases i)
    case (Suc j)
    then have "q_id p \<noteq> q_id (qs ! j)" using Cons.prems by (metis length_Cons Suc_less_eq distinct.simps(2) image_eqI list.simps(9) nth_mem set_map)
    then show ?thesis using Cons Suc by (simp add: queue_work_def)
  qed (simp add: queue_work_def)
qed simp

text \<open>One pass: what is logged, and the reminders that are left.\<close>

lemma issue_next_spec:
  assumes inv: "queue_inv qs" and i: "i < length qs" "qs ! i = q"
    and iss: "issue_next C E trigger rd i qs s = ((t, n, due), qs', s')"
  shows "t = next_dtime q \<and> n = q_id q \<and> queue_inv qs' \<and> queue_work qs' < queue_work qs \<and>
    (\<forall>p'\<in>set qs'. \<exists>p\<in>set qs. q_id p' = q_id p \<and> next_dtime p \<le> next_dtime p' \<and> (q_id p = n \<longrightarrow> t < next_dtime p'))"
proof -
  have q: "q \<in> set qs" using i nth_mem by blast
  then have ok: "timed_ok q" "INT_MIN \<le> next_dtime q" "next_dtime q < day_end q" "next_dtime q \<noteq> NO_DATETIME"
    and dist: "distinct (map q_id qs)" using inv by (auto simp: queue_inv_def)
  have same_id: "p = q" if "p \<in> set qs" "q_id p = q_id q" for p
    using dist that q by (auto simp: distinct_map dest: inj_onD)
  obtain u x s1 where calc: "CalculateNextDtime E (rd_now rd) (rd_sched rd) q (if still_due C q (rd_secs rd) then trigger q s else s) = (u, x, s1)"
    by (metis surj_pair)
  note later = CalculateNextDtime_later [OF calc ok(1)]
  define expired where "expired = (u = NO_DATETIME \<or> GetQDateTime x < rd_after rd - MaxLateMinutes C \<and> u < rd_after rd - MaxLateMinutes C)"
  let ?x = "set_next_dtime (if expired then NO_DATETIME else u) x"
  have res: "t = next_dtime q" "n = q_id q" "qs' = (if expired then del_reminder (q_id q) qs else qs[i := ?x])"
    using iss calc i later del_reminder_update [OF dist i(1), of ?x]
    by (auto simp: issue_next_def Let_def expired_def same_reminder_def)
  show ?thesis
  proof (cases expired)
    case True
    have "0 < nat (day_end q - next_dtime q)" using ok by simp
    then have "queue_work qs' < queue_work qs" using del_reminder_nth_work [OF dist i(1)] i(2) True res(3) by simp
    moreover have "\<forall>p'\<in>set qs'. q_id p' \<noteq> q_id q"
    proof -
      have "q_id q \<notin> set (map q_id qs')" using True res(3) dist by (simp add: del_reminder_ids set_remove1_eq del: set_map)
      then show ?thesis by (metis image_eqI set_map)
    qed
    ultimately show ?thesis using True res del_reminder_inv [OF inv] del_reminder_subset [of "q_id q" qs] by (auto intro!: bexI)
  next
    case False
    then have u: "next_dtime q < u" "u < day_end q" "u \<noteq> NO_DATETIME" and same: "same_reminder q x"
      using later ok by (auto simp: expired_def)
    note x = same_reminderD [OF same]
    have "map q_id (qs[i := ?x]) = map q_id qs" using i x by (simp add: map_update list_update_same_conv)
    then have "queue_inv qs'" using inv False res(3) u x ok timed_ok_same [OF same] set_update_subset_insert [of qs i ?x]
      by (auto simp: queue_inv_def)
    moreover have "queue_work qs' < queue_work qs"
      using False res(3) i u x ok sum_list_update [of i "map (\<lambda>q. nat (day_end q - next_dtime q)) qs" "nat (day_end q - u)"]
        elem_le_sum_list [of i "map (\<lambda>q. nat (day_end q - next_dtime q)) qs"]
      by (simp add: queue_work_def map_update)
    moreover have "\<exists>p\<in>set qs. q_id p' = q_id p \<and> next_dtime p \<le> next_dtime p' \<and> (q_id p = n \<longrightarrow> t < next_dtime p')"
      if "p' \<in> set qs'" for p'
    proof -
      have "distinct qs" using dist by (simp add: distinct_map)
      then have "p' = ?x \<or> p' \<in> set qs \<and> p' \<noteq> q"
        using that False res(3) i set_update_distinct [of qs i ?x] by auto
      then show ?thesis using q u x res False same_id by auto
    qed
    ultimately show ?thesis using res by blast
  qed
qed


text \<open>The times that are logged are those of the queue or later ones.\<close>

definition log_after :: "QueuedRem list \<Rightarrow> (int \<times> int \<times> bool) list \<Rightarrow> bool" where
  "log_after qs xs \<longleftrightarrow> (\<forall>(t, n, due)\<in>set xs. \<exists>q\<in>set qs. q_id q = n \<and> next_dtime q \<le> t)"

definition later_entry :: "int \<times> int \<times> bool \<Rightarrow> int \<times> int \<times> bool \<Rightarrow> bool" where
  "later_entry x y \<longleftrightarrow> fst x \<le> fst y \<and> (fst (snd x) = fst (snd y) \<longrightarrow> fst x < fst y)"

lemma queue_step_spec:
  assumes inv: "queue_inv qs" and st: "queue_step C E trigger e (qs, s) = (xs, qs', s')"
  shows "queue_inv qs' \<and> length xs + queue_work qs' \<le> queue_work qs \<and> log_after qs xs \<and>
    (\<forall>p'\<in>set qs'. \<exists>p\<in>set qs. q_id p' = q_id p \<and> next_dtime p \<le> next_dtime p') \<and>
    (\<forall>x\<in>set xs. \<forall>p'\<in>set qs'. fst x \<le> next_dtime p' \<and> (fst (snd x) = q_id p' \<longrightarrow> fst x < next_dtime p')) \<and>
    length xs \<le> 1"
proof (cases e)
  case (DEL n)
  then show ?thesis
    using st del_reminder_inv [OF inv] del_reminder_work [of n qs] del_reminder_subset [of n qs] by (auto simp: log_after_def)
next
  case (Awake rd)
  show ?thesis
  proof (cases "xs = []")
    case True
    then show ?thesis using st Awake inv by (auto simp: log_after_def split: option.splits prod.splits if_splits)
  next
    case False
    then obtain i q x where f: "FindNextReminder qs = Some (i, q)" and x: "issue_next C E trigger rd i qs s = (x, qs', s')" "xs = [x]"
      using st Awake by (auto split: option.splits prod.splits if_splits)
    obtain t n due where xt: "x = (t, n, due)" by (metis surj_pair)
    note f = FindNextReminder_spec [OF f]
    have spec: "t = next_dtime q" "n = q_id q" "queue_inv qs'" "queue_work qs' < queue_work qs"
      and left: "\<And>p'. p' \<in> set qs' \<Longrightarrow> \<exists>p\<in>set qs. q_id p' = q_id p \<and> next_dtime p \<le> next_dtime p' \<and> (q_id p = n \<longrightarrow> t < next_dtime p')"
      using issue_next_spec [OF inv _ _ x(1) [unfolded xt], of q] f by blast+
    have q: "q \<in> set qs" using f nth_mem by blast
    have first: "t \<le> next_dtime p" if "p \<in> set qs" for p using f that inv spec(1) by (auto simp: queue_inv_def)
    have "t \<le> next_dtime p' \<and> (n = q_id p' \<longrightarrow> t < next_dtime p')" if "p' \<in> set qs'" for p'
      using left [OF that] first by (metis order_trans)
    moreover have "\<forall>p'\<in>set qs'. \<exists>p\<in>set qs. q_id p' = q_id p \<and> next_dtime p \<le> next_dtime p'" using left by blast
    moreover have "log_after qs xs" using x xt q spec by (auto simp: log_after_def)
    ultimately show ?thesis using spec x xt by simp
  qed
qed

lemma run_queue_spec:
  "queue_inv qs \<Longrightarrow> run_queue C E trigger es (qs, s) = (xs, qs', s') \<Longrightarrow>
    length xs + queue_work qs' \<le> queue_work qs \<and> log_after qs xs \<and> sorted_wrt later_entry xs"
proof (induction es arbitrary: qs s xs)
  case Nil
  then show ?case by (simp add: log_after_def)
next
  case (Cons e es)
  obtain as qs1 s1 bs where st: "queue_step C E trigger e (qs, s) = (as, qs1, s1)"
    and run: "run_queue C E trigger es (qs1, s1) = (bs, qs', s')" and xs: "xs = as @ bs"
    using Cons.prems(2) by (auto split: prod.splits)
  note step = queue_step_spec [OF Cons.prems(1) st]
  then have inv1: "queue_inv qs1" by blast
  note IH = Cons.IH [OF inv1 run]
  have bs: "\<exists>q\<in>set qs1. q_id q = n \<and> next_dtime q \<le> t" if "(t, n, due) \<in> set bs" for t n due
    using IH that by (force simp: log_after_def)
  have "log_after qs bs"
    unfolding log_after_def
  proof (clarify)
    fix t n due assume "(t, n, due) \<in> set bs"
    with bs obtain q where "q \<in> set qs1" "q_id q = n" "next_dtime q \<le> t" by blast
    with step show "\<exists>q\<in>set qs. q_id q = n \<and> next_dtime q \<le> t" by (metis order_trans)
  qed
  then have "log_after qs xs" using step xs by (auto simp: log_after_def)
  moreover have "later_entry x y" if "x \<in> set as" "y \<in> set bs" for x y
  proof -
    obtain t n due where y: "y = (t, n, due)" by (metis surj_pair)
    with bs that obtain q where "q \<in> set qs1" "q_id q = n" "next_dtime q \<le> t" by blast
    with step that y show ?thesis by (fastforce simp: later_entry_def)
  qed
  moreover have "sorted_wrt later_entry as" using step by (cases as) auto
  ultimately show ?case using step IH xs by (auto simp: sorted_wrt_append)
qed

text \<open>The start establishes the invariant.\<close>

definition queued_ok :: "QueuedRem list \<Rightarrow> bool" where
  "queued_ok qs \<longleftrightarrow> distinct (map q_id qs) \<and> (\<forall>q\<in>set qs. timed_ok q)"

lemma first_dtime_ge: "INT_MIN \<le> first_dtime q"
  using cint_in_int by (simp add: first_dtime_def in_int_def)

lemma init_queue_inv:
  "queued_ok qs \<Longrightarrow> init_queue C E rd qs s = (qs', s') \<Longrightarrow> queue_inv qs' \<and> q_id ` set qs' \<subseteq> q_id ` set qs"
proof (induction qs arbitrary: s qs' s')
  case Nil
  then show ?case by (simp add: queue_inv_def)
next
  case (Cons q qs)
  let ?q = "set_next_dtime NO_DATETIME q"
  obtain t x s1 where c: "CalculateNextDtime E (rd_now (rd (q_id q))) (rd_sched (rd (q_id q))) ?q s = (t, x, s1)"
    by (metis surj_pair)
  obtain qs1 s2 where r: "init_queue C E rd qs s1 = (qs1, s2)" by (metis surj_pair)
  have IH: "queue_inv qs1 \<and> q_id ` set qs1 \<subseteq> q_id ` set qs" using Cons.IH [OF _ r] Cons.prems(1) by (simp add: queued_ok_def)
  have ok: "timed_ok ?q" "q_id q \<notin> q_id ` set qs" using Cons.prems(1) by (auto simp: queued_ok_def)
  have later: "same_reminder ?q x" "t = NO_DATETIME \<or> INT_MIN \<le> t \<and> t < day_end q"
    using CalculateNextDtime_later [OF c ok(1)] first_dtime_ge [of ?q] by auto
  then have x: "timed_ok (set_next_dtime t x)" "q_id x = q_id q" "day_end x = day_end q"
    using timed_ok_same [OF later(1)] same_reminderD [OF later(1)] ok by simp_all
  have "qs' = qs1 \<or> t \<noteq> NO_DATETIME \<and> qs' = set_next_dtime t x # qs1"
    using Cons.prems(2) c r by (auto simp: Let_def split: if_splits)
  then show ?case
  proof
    assume "t \<noteq> NO_DATETIME \<and> qs' = set_next_dtime t x # qs1"
    then show ?thesis using IH ok later x by (auto simp: queue_inv_def)
  qed (use IH in auto)
qed


section \<open>The first time that is due\<close>

lemma advance_spec:
  assumes b: "0 < step" "step \<le> 40000000" "-40000000 \<le> t" "t \<le> 2144417440" "c \<le> 2104417440"
  shows "\<exists>k\<ge>0. advance step c t = t + k * step \<and> c \<le> t + k * step \<and> t + k * step \<le> max t 2144417440 \<and>
    (\<forall>j\<ge>0. c \<le> t + j * step \<longrightarrow> k \<le> j)"
proof (cases "t < c")
  case False
  then show ?thesis by (intro exI [of _ 0]) (simp add: advance_def)
next
  case True
  define n where "n = (c - t) div step"
  have e: "c - t = n * step + (c - t) mod step" by (simp add: n_def)
  have n: "n * step \<le> c - t" "c - t < n * step + step" "0 \<le> n"
    using e pos_mod_bound [OF b(1), of "c - t"] pos_mod_sign [OF b(1), of "c - t"] True b(1)
    by (linarith, linarith, simp add: n_def pos_imp_zdiv_nonneg_iff)
  have "0 \<le> n * step" using n b by simp
  then have cint: "cint (c - t) = c - t" "cint (n * step) = n * step" "cint (t + n * step) = t + n * step"
    "cint (t + n * step + step) = t + n * step + step"
    using True b n by (auto intro!: cint_id simp: in_int_def)
  have least: "k \<le> j" if "c \<le> t + j * step" "k = n \<and> t + n * step = c \<or> k = n + 1 \<and> t + n * step < c" for j k
  proof (rule ccontr)
    assume "\<not> k \<le> j"
    then have "j \<le> k - 1" by simp
    then have "j * step \<le> (k - 1) * step" using b(1) by (simp add: mult_right_mono)
    moreover have "(k - 1) * step = n * step - step \<and> t + n * step = c \<or> (k - 1) * step = n * step \<and> t + n * step < c"
      using that(2) by (elim disjE conjE) (simp_all add: left_diff_distrib [of n 1 step])
    ultimately show False using that(1) b(1) by linarith
  qed
  have adv: "advance step c t = (if t + n * step < c then t + n * step + step else t + n * step)"
    using True b n cint by (simp add: advance_def Let_def sdiv_nonneg flip: n_def)
  show ?thesis
  proof (cases "t + n * step < c")
    case True
    have e: "t + (n + 1) * step = t + n * step + step" by (simp add: distrib_right)
    show ?thesis
      using True adv n b least [of _ "n + 1"] unfolding max_def by (intro exI [of _ "n + 1"]) (auto simp: e)
  next
    case False
    then show ?thesis using adv n b least [of _ n] unfolding max_def by (intro exI [of _ n]) auto
  qed
qed

text \<open>
  The times of a reminder: its own, and before it those that start \<open>delta\<close> minutes earlier and
  repeat.  One is due after the last time it was issued, and not in the past but for its own.
\<close>

definition repeat_step :: "QueuedRem \<Rightarrow> int" where
  "repeat_step q = (if tt_rep (q_tt q) = NO_REP then tt_delta (q_tt q) else tt_rep (q_tt q))"

definition due_time :: "int \<Rightarrow> QueuedRem \<Rightarrow> int \<Rightarrow> bool" where
  "due_time now q t \<longleftrightarrow>
    (t = GetQDateTime q \<or>
     tt_delta (q_tt q) \<noteq> NO_DELTA \<and> now \<le> t \<and> t < GetQDateTime q \<and>
       (\<exists>k\<ge>0. t = GetQDateTime q - tt_delta (q_tt q) + k * repeat_step q)) \<and>
    (next_dtime q = NO_DATETIME \<or> next_dtime q < t)"

definition times_ok :: "QueuedRem \<Rightarrow> bool" where
  "times_ok q \<longleftrightarrow> timed_ok q \<and> 0 \<le> tt_delta (q_tt q) \<and> tt_delta (q_tt q) \<le> 40000000 \<and>
    0 \<le> tt_rep (q_tt q) \<and> tt_rep (q_tt q) \<le> 40000000 \<and> NO_DATETIME \<le> next_dtime q \<and> next_dtime q < day_end q"

lemma first_dtime_eq:
  "times_ok q \<Longrightarrow> first_dtime q = (if next_dtime q = NO_DATETIME then GetQDateTime q - tt_delta (q_tt q) else next_dtime q + 1)"
  using timed_ok_GetQDateTime [of q] by (auto simp: times_ok_def first_dtime_def cint_id in_int_def)

lemma repeat_advance:
  assumes ok: "times_ok q" "tt_delta (q_tt q) \<noteq> NO_DELTA" "0 \<le> now" "now \<le> 2104417440"
  defines "start \<equiv> GetQDateTime q - tt_delta (q_tt q)"
  shows "\<exists>k\<ge>0. advance (repeat_step q) now (advance (repeat_step q) (first_dtime q) (cint start)) = start + k * repeat_step q \<and>
    first_dtime q \<le> start + k * repeat_step q \<and> now \<le> start + k * repeat_step q \<and>
    (\<forall>j\<ge>0. first_dtime q \<le> start + j * repeat_step q \<longrightarrow> now \<le> start + j * repeat_step q \<longrightarrow> k \<le> j)"
proof -
  let ?s = "repeat_step q"
  have s: "0 < ?s" "?s \<le> 40000000" using ok by (auto simp: repeat_step_def times_ok_def)
  have Q: "timed_ok q" "0 \<le> GetQDateTime q" "GetQDateTime q < 2104417440" "day_end q \<le> 2104417440"
    using ok timed_ok_GetQDateTime [of q] by (auto simp: times_ok_def)
  have start: "-40000000 \<le> start" "start \<le> 2104417440" "cint start = start"
    using ok Q by (auto simp: start_def times_ok_def in_int_def intro!: cint_id)
  have c: "first_dtime q \<le> 2104417440" using ok Q first_dtime_eq [OF ok(1)] by (auto simp: times_ok_def)
  obtain k where k: "0 \<le> k" "advance ?s (first_dtime q) start = start + k * ?s" "first_dtime q \<le> start + k * ?s"
      "start + k * ?s \<le> 2144417440" "\<And>j. 0 \<le> j \<Longrightarrow> first_dtime q \<le> start + j * ?s \<Longrightarrow> k \<le> j"
    using advance_spec [OF s start(1) _ c] start(2) by auto
  have "-40000000 \<le> start + k * ?s" using start(1) k(1) s(1) by (simp add: add_increasing2)
  then obtain l where l: "0 \<le> l" "advance ?s now (start + k * ?s) = start + k * ?s + l * ?s" "now \<le> start + k * ?s + l * ?s"
      "\<And>j. 0 \<le> j \<Longrightarrow> now \<le> start + k * ?s + j * ?s \<Longrightarrow> l \<le> j"
    using advance_spec [OF s _ k(4) ok(4)] by auto
  have e: "start + (k + j) * ?s = start + k * ?s + j * ?s" for j by (simp add: distrib_right)
  have "k + l \<le> j" if "0 \<le> j" "first_dtime q \<le> start + j * ?s" "now \<le> start + j * ?s" for j
    using k(5) [OF that(1,2)] l(4) [of "j - k"] that(3) e [of "j - k"] by simp
  moreover have "0 \<le> l * ?s" using l(1) s(1) by simp
  ultimately show ?thesis using k l start(3) by (intro exI [of _ "k + l"]) (auto simp: e)
qed

lemma at_time_first:
  assumes ok: "times_ok q" "0 \<le> now" "now \<le> 2104417440"
  shows "if at_time now (first_dtime q) q = NO_DATETIME then \<forall>t. \<not> due_time now q t
    else due_time now q (at_time now (first_dtime q) q) \<and> (\<forall>t. due_time now q t \<longrightarrow> at_time now (first_dtime q) q \<le> t)"
proof -
  have Q: "0 \<le> GetQDateTime q" using ok timed_ok_GetQDateTime [of q] by (auto simp: times_ok_def)
  note first = first_dtime_eq [OF ok(1)]
  have own: "due_time now q (GetQDateTime q) \<longleftrightarrow> first_dtime q \<le> GetQDateTime q"
    using ok first by (auto simp: due_time_def times_ok_def)
  show ?thesis
  proof (cases "tt_delta (q_tt q) = NO_DELTA")
    case True
    then show ?thesis using own Q by (auto simp: at_time_def Let_def) (auto simp: due_time_def)
  next
    case False
    let ?start = "GetQDateTime q - tt_delta (q_tt q)"
    obtain k where k: "0 \<le> k" "advance (repeat_step q) now (advance (repeat_step q) (first_dtime q) (cint ?start)) = ?start + k * repeat_step q"
        "first_dtime q \<le> ?start + k * repeat_step q" "now \<le> ?start + k * repeat_step q"
        "\<And>j. 0 \<le> j \<Longrightarrow> first_dtime q \<le> ?start + j * repeat_step q \<Longrightarrow> now \<le> ?start + j * repeat_step q \<Longrightarrow> k \<le> j"
      using repeat_advance [OF ok(1) False ok(2,3)] by blast
    define u where "u = ?start + k * repeat_step q"
    have at: "at_time now (first_dtime q) q = (if min u (GetQDateTime q) < first_dtime q then NO_DATETIME else min u (GetQDateTime q))"
      using k(2) False by (simp add: at_time_def Let_def u_def repeat_step_def)
    have s: "0 < repeat_step q" using ok False by (auto simp: repeat_step_def times_ok_def)
    have u: "first_dtime q \<le> u" "now \<le> u" using k by (simp_all add: u_def)
    have due_u: "due_time now q u" if "u < GetQDateTime q"
      using that u False k(1) first unfolding due_time_def by (auto simp: u_def split: if_splits)
    have least: "u \<le> t" if due: "due_time now q t" and t: "t < GetQDateTime q" for t
    proof -
      obtain j where j: "0 \<le> j" "t = ?start + j * repeat_step q" "now \<le> t" using due t by (auto simp: due_time_def)
      have "0 \<le> j * repeat_step q" using j(1) s by simp
      then have "first_dtime q \<le> t" using due first j(2) by (auto simp: due_time_def)
      then have "k \<le> j" using k(5) j by simp
      then show ?thesis using j(2) s by (simp add: u_def mult_right_mono)
    qed
    have range: "t \<le> GetQDateTime q" if "due_time now q t" for t using that by (auto simp: due_time_def)
    have own_only: "t = GetQDateTime q \<or> t < GetQDateTime q" if "due_time now q t" for t using range [OF that] by auto
    consider "u < GetQDateTime q" | "GetQDateTime q \<le> u" "first_dtime q \<le> GetQDateTime q" | "GetQDateTime q \<le> u" "GetQDateTime q < first_dtime q"
      by linarith
    then show ?thesis
    proof cases
      case 1
      then show ?thesis using at u due_u least range ok(2) by (force simp: min_def)
    next
      case 2
      then show ?thesis using at own least range Q by (force simp: min_def)
    next
      case 3
      then show ?thesis using at own least range own_only by (force simp: min_def)
    qed
  qed
qed


text \<open>
  Without a daemon nothing notices that the date has changed: a reminder whose next time is not on the
  day the program was started is waited for from midnight to midnight.
\<close>

lemma TimeToSleep_other_day:
  "GetNextDate q \<noteq> RealToday C \<Longrightarrow> secs < 86400 \<Longrightarrow> 0 < TimeToSleep C (Some q) secs"
  by (simp add: TimeToSleep_def SECONDS_PER_DAY_def)

lemma other_day_never_issued:
  assumes "FindNextReminder qs = Some (i, q)" "GetNextDate q \<noteq> RealToday C" "\<forall>rd\<in>set rds. rd_secs rd < 86400"
  shows "run_queue C E trigger (map Awake rds) (qs, s) = ([], qs, s)"
  using assms(3) by (induction rds) (simp_all add: assms(1) TimeToSleep_other_day [OF assms(2)])

section \<open>Properties\<close>

text \<open>
  C37.  A timed reminder without a scheduling function is issued next at the first of its times that
  is due: its own time, or one of those that start \<open>delta\<close> minutes before it and repeat, that is after
  the last time it was issued and, except for its own time, not in the past; and it expires exactly
  when none is left.
\<close>

theorem CalculateNextDtime_first:
  assumes "times_ok q" "q_sched q = []" "0 \<le> now" "now \<le> 2104417440"
  shows "case CalculateNextDtime E now clk q s of (r, _, _) \<Rightarrow>
    if r = NO_DATETIME then \<forall>t. \<not> due_time now q t else due_time now q r \<and> (\<forall>t. due_time now q t \<longrightarrow> r \<le> t)"
proof -
  have "at_time now c (q\<lparr>q_ntrig := n\<rparr>) = at_time now c q" for c n by (simp add: at_time_def GetQDateTime_def Let_def)
  then show ?thesis using at_time_first [OF assms(1,3,4)] assms(2) by (simp add: CalculateNextDtime_def Let_def)
qed

text \<open>AT 12:00 +75 *30, when it has been issued at 10:45.\<close>

definition sample_rem :: "int \<Rightarrow> QueuedRem" where
  "sample_rem n = \<lparr>q_typ = 1, q_RunDisabled = 0, q_ntrig = 1, q_dse = 13000, q_text = ''lunch'', q_fname = ''a.rem'',
     q_lineno = 1, q_lineno_start = 1, q_passthru = [], q_sched = [], q_t = new_trigger 0 5000,
     q_tt = (new_timetrig 75)\<lparr>ttime := 720, tt_rep := 30, nextdtime := n\<rparr>, q_red = 0, q_green = 0, q_blue = 0, q_id = 7\<rparr>"

lemma sample_rem_ok: "n = NO_DATETIME \<or> n = 13000 * 1440 + 645 \<Longrightarrow> times_ok (sample_rem n)"
  by (auto simp: times_ok_def timed_ok_def sample_rem_def new_timetrig_def next_dtime_def day_end_def)

theorem CalculateNextDtime_first_witness:
  "case CalculateNextDtime (remind_env sample_run) 18720660 (\<lambda>_. 0) (sample_rem 18720645) sample_state of (r, _, _) \<Rightarrow>
    if r = NO_DATETIME then \<forall>t. \<not> due_time 18720660 (sample_rem 18720645) t
    else due_time 18720660 (sample_rem 18720645) r \<and> (\<forall>t. due_time 18720660 (sample_rem 18720645) t \<longrightarrow> r \<le> t)"
  by (rule CalculateNextDtime_first [OF sample_rem_ok]) (simp_all add: sample_rem_def)

text \<open>
  C38.  The background process ends its work: however the clock runs, whatever the scheduling functions
  return and whatever commands arrive, the number of times it wakes up to issue a reminder is
  bounded by the minutes its reminders have until the end of their days.
\<close>

theorem HandleQueuedReminders_bounded:
  assumes "queued_ok qs"
  shows "length (fst (HandleQueuedReminders C E trigger rd events qs s)) \<le> queue_work (fst (init_queue C E rd qs s))"
proof -
  obtain qs1 s1 where i: "init_queue C E rd qs s = (qs1, s1)" by (metis surj_pair)
  obtain xs qs2 s2 where r: "run_queue C E trigger events (qs1, s1) = (xs, qs2, s2)" by (metis surj_pair)
  show ?thesis
    using run_queue_spec [OF _ r] init_queue_inv [OF assms i] by (simp add: HandleQueuedReminders_def i r)
qed

theorem HandleQueuedReminders_bounded_witness:
  "\<forall>C E trigger rd events s.
    length (fst (HandleQueuedReminders C E trigger rd events [sample_rem 0] s)) \<le> queue_work (fst (init_queue C E rd [sample_rem 0] s))"
  by (intro allI HandleQueuedReminders_bounded) (simp add: queued_ok_def timed_ok_def sample_rem_def new_timetrig_def)

text \<open>
  C39.  Queued reminders are dealt with in the order of their times, and the same reminder never twice
  for the same time: each entry of the log is for a time that is not before those of the entries
  before it, and later than the earlier ones of the same reminder.
\<close>

theorem HandleQueuedReminders_in_order:
  assumes "queued_ok qs"
  shows "sorted_wrt later_entry (fst (HandleQueuedReminders C E trigger rd events qs s))"
proof -
  obtain qs1 s1 where i: "init_queue C E rd qs s = (qs1, s1)" by (metis surj_pair)
  obtain xs qs2 s2 where r: "run_queue C E trigger events (qs1, s1) = (xs, qs2, s2)" by (metis surj_pair)
  show ?thesis
    using run_queue_spec [OF _ r] init_queue_inv [OF assms i] by (simp add: HandleQueuedReminders_def i r)
qed

theorem HandleQueuedReminders_in_order_witness:
  "\<forall>C E trigger rd events s.
    sorted_wrt later_entry (fst (HandleQueuedReminders C E trigger rd events [sample_rem 0, (sample_rem 0)\<lparr>q_id := 8\<rparr>] s))"
  by (intro allI HandleQueuedReminders_in_order) (simp add: queued_ok_def timed_ok_def sample_rem_def new_timetrig_def)

end
