(* ===== verification/Spec2Isabelle.thy ===== *)
theory Spec2Isabelle
  imports RemLine Structured Easter Queue
begin

text \<open>
  A model of Remind, the calendar program in \<^verbatim>\<open>src/src/\<close>, and theorems about it.

  Remind reads a script line by line (\<^verbatim>\<open>main.c\<close>, \<^verbatim>\<open>files.c\<close>), skips the lines that its IFs
  exclude (\<^verbatim>\<open>ifelse.c\<close>), and runs the others.  A line is read through a parse pointer
  (\<^verbatim>\<open>main.c\<close>) that replaces bracketed expressions (\<^verbatim>\<open>expr.c\<close>) by their values; its words are
  classified by \<^verbatim>\<open>token.c\<close>.  REM lines become a trigger (\<^verbatim>\<open>dorem.c\<close>), whose date is computed
  (\<^verbatim>\<open>trigger.c\<close>) under the omitted days of \<^verbatim>\<open>omit.c\<close>; a timed reminder is queued (\<^verbatim>\<open>queue.c\<close>) and
  issued later.  Variables and functions are in hash tables
  (\<^verbatim>\<open>hashtab.c\<close>).

  The theories, and the code each one translates; definitions have the names of the code, and
  a definition for a part of a long function has a name of its own:

  \<^item> \<open>Prelude\<close>: error codes (\<^verbatim>\<open>err.h\<close>), 32-bit \<open>int\<close> arithmetic (\<open>cint\<close> wraps, \<open>sdiv\<close> and \<open>smod\<close>
    truncate), the binary search loop of the program's tables with the locale \<open>search_table\<close>.
  \<^item> \<open>CTypes\<close>: characters, tokens, triggers and values (\<^verbatim>\<open>types.h\<close>).
  \<^item> \<open>Dates\<close>: day numbers since 1990-01-01 (\<open>DSE\<close>, \<open>FromDSE\<close>), a bijection with the valid dates;
    and the numbers up to which the code's arithmetic does not overflow.
  \<^item> \<open>Tokens\<close>: \<^verbatim>\<open>token.c\<close>, the literal dates and times; the search in the sorted table of
    abbreviations finds what a reading of the whole table finds.
  \<^item> \<open>Parser\<close>: the parse pointer; words, quoted strings and identifiers.  The locale
    \<open>parse_relation\<close> carries any relation that single characters keep to all its functions.
  \<^item> \<open>Omits\<close>: the OMIT context, its sorted arrays and stack; the invariant, the meaning of
    \<open>IsOmitted\<close>, and that OMIT adds the days of its range.
  \<^item> \<open>SimpleTrig\<close>: \<open>NextSimpleTrig\<close>, sixteen cases, against one specification: the first day
    that matches.
  \<^item> \<open>Trigger\<close>: the rest of \<^verbatim>\<open>trigger.c\<close>: BACK, REP, SKIP, UNTIL, durations, INFO strings, and
    the search that computes a trigger's date, what it returns and that it ends.
  \<^item> \<open>RemParse\<close>, \<open>RemLine\<close>: \<open>ParseRem\<close> of \<^verbatim>\<open>dorem.c\<close>, and the invariant of what it accepts.
  \<^item> \<open>ExprVal\<close>, \<open>ExprParse\<close>, \<open>ExprShow\<close>: the values, operators and grammar of expressions;
    arithmetic with the code's overflow tests, in double precision, is exact or an error; printing
    a tree and parsing it is the identity.
  \<^item> \<open>IfElse\<close>, \<open>Script\<close>, \<open>Structured\<close>: the array of IFs, the stack of files, the loop over the
    lines, and a big-step semantics of structured programs that the loop refines.
  \<^item> \<open>HashTab\<close>: \<^verbatim>\<open>hashtab.c\<close> with its linked chains, refined to sets; the locale
    \<open>hash_functions\<close> states what a table relies on.
  \<^item> \<open>Vars\<close>: the global variables of \<^verbatim>\<open>var.c\<close>; set, get, delete and clear refine a finite map
    from names, without regard to case, to values.
  \<^item> \<open>Funcs\<close>, \<open>Easter\<close>, \<open>FuncTable\<close>: built-in functions of \<^verbatim>\<open>funcs.c\<close>, one definition each with
    the name of the C function; the two Easters are instances of the locale \<open>yearly_feast\<close>; the
    table of all functions, which its binary search reads without regard to case.
  \<^item> \<open>ExprEval\<close>: the evaluator of expression trees, with the functions that evaluate their own
    arguments, user functions, and the limits on nodes, time and depth; a world passed through
    carries what functions remember.  The locale \<open>eval_keeps\<close> states what a built-in function
    must keep for evaluation to keep it.
  \<^item> \<open>Trans\<close>, \<open>SysVars\<close>: the translations of \<^verbatim>\<open>trans.c\<close> and the system variables of \<^verbatim>\<open>var.c\<close>, with
    their whole table; setting one is an update of a store.
  \<^item> \<open>ExprRun\<close>, \<open>ExprTyped\<close>: the dispatch on function names, the environment of Remind with its
    table of functions, user functions and system variables, which meets that interface: no text
    gives an internal error, and evaluation changes no variable.
  \<^item> \<open>Queue\<close>: \<^verbatim>\<open>queue.c\<close>, timed reminders in the background: the next time of each is the first
    that is due, and the loop over the queue issues them in order and ends, whatever the clock and
    the scheduling functions do.

  State is passed explicitly; errors are \<open>Inl\<close> of an error code, a plain return code is an
  \<open>errcode option\<close> with \<open>None\<close> for \<open>OK\<close>.  An operation that C leaves undefined is \<open>None\<close>, a
  shift by a negative weekday or a repetition past \<open>INT_MAX\<close> for instance; but the arithmetic of day
  numbers is on mathematical integers.  That is the code's arithmetic on every date that can be
  written (to 5990-12-31, day 1461334), and in \<open>FromDSE\<close> up to day 2145000000
  (\<open>FromDSE_fits_int\<close>).  Beyond it, which only \<open>coerce\<close> to a DATE or a long repetition reaches, the
  code overflows: the theorems on dates there bound the dates or, like those on the meaning of
  OMIT and of NextSimpleTrig, are about the calendar itself and hold of the code as far as its
  arithmetic goes.  Loops that might not end are fuelled or \<open>partial_function\<close>s, and then it
  is proved that they end: the search for a date has the code's own bound
  (\<open>TRIG_ATTEMPTS\<close>), the expression parser its limit of 2000 levels, IFs a stack of 64, files
  one of 9; evaluation ends by the depth of the tree and the limit on nested user functions.

  Not modelled: output (calendars, \<^verbatim>\<open>calendar.c\<close>, \<^verbatim>\<open>rem2ps.c\<close>, substitution of percent sequences),
  the terminal, options and files on disk; the moon and sun, which are floating-point
  computations of the C library's; the other built-in functions (wide characters, time zones, the
  Hebrew calendar, files, the environment): the dispatch finds all 145 in the table and calls the
  parameter \<open>re_other\<close> for those; the floating-point latitude and longitude behind the system
  variables, a parameter; what issuing a reminder prints and runs; the C library's
  conversion of times between zones, which is a parameter; and that memory may run out,
  except in hash tables.
\<close>

end
